(* ===== verification/Prelude.thy ===== *)
theory Prelude
  imports Main "HOL-Library.Word"
begin

unbundle bit_operations_syntax

text \<open>
  Shared vocabulary of the development: the machine types of the C sources, the bits of a word
  as a list (most significant first), C strings as byte lists and generic lemmas on lists and
  words that several components use.
\<close>

section \<open>Machine types\<close>

type_synonym byte = "8 word"
type_synonym u32 = "32 word"

section \<open>The low bits of a word, most significant first\<close>

definition bl :: "nat \<Rightarrow> 'a::len word \<Rightarrow> bool list" where
  "bl n w = map (bit w) (rev [0..<n])"

lemma length_bl [simp]: "length (bl n w) = n"
  by (simp add: bl_def)

lemma bl_0 [simp]: "bl 0 w = []"
  by (simp add: bl_def)

lemma bl_eq_Nil [simp]: "bl n w = [] \<longleftrightarrow> n = 0"
  by (simp add: bl_def)

lemma bl_nth: "i < n \<Longrightarrow> bl n w ! i = bit w (n - Suc i)"
  by (simp add: bl_def rev_nth)

lemma bl_eqI:
  assumes "\<And>k. k < n \<Longrightarrow> bit v k = bit w k"
  shows "bl n v = bl n w"
  using assms by (auto simp: bl_def)

lemma bl_add: "bl (m + n) w = bl m (drop_bit n w) @ bl n w"
proof (rule nth_equalityI)
  fix i
  assume i: "i < length (bl (m + n) w)"
  then show "bl (m + n) w ! i = (bl m (drop_bit n w) @ bl n w) ! i"
    by (cases "i < m") (auto simp: bl_nth nth_append bit_drop_bit_eq add.commute)
qed simp

lemma bl_inj: "bl LENGTH('a) v = bl LENGTH('a) w \<Longrightarrow> v = (w :: 'a::len word)"
  by (auto intro!: bit_word_eqI simp: bl_def)

section \<open>Words and their values\<close>

lemma unat_drop_div: "unat (drop_bit k w) = unat w div 2 ^ k"
  unfolding unat_drop_bit_eq by (simp only: drop_bit_eq_div)

lemma unat_of_nat_u32: "n < 2 ^ 32 \<Longrightarrow> unat (of_nat n :: u32) = n"
  by (simp add: unsigned_of_nat take_bit_eq_mod)

lemma unat_byte_less [simp]: "unat (b :: byte) < 256"
  using unsigned_less [of b] by simp

lemma unat_ucast_u32 [simp]: "unat (ucast (ch :: byte) :: u32) = unat ch"
proof -
  have "unat ch < 2 ^ 32" by (rule less_trans [OF unat_byte_less]) simp
  from take_bit_nat_eq_self [OF this] show ?thesis by (simp add: unsigned_ucast_eq)
qed

lemma ucast_of_nat_byte: "(ucast (of_nat n :: u32) :: byte) = of_nat n"
  by (simp add: unsigned_of_nat word_of_nat_eq_iff)

lemma not_bit_unat_less: "unat w < 2 ^ i \<Longrightarrow> \<not> bit w i"
proof -
  assume "unat w < 2 ^ i"
  then have "\<not> bit (unat w) i" by (simp add: bit_iff_odd)
  then show ?thesis by (simp add: bit_unsigned_iff)
qed

section \<open>Copying and filling buffers\<close>

text \<open>
  \<open>memcpy_at off src dst\<close> is \<open>memcpy(dst + off, src, n)\<close> for the \<open>n\<close> bytes of \<open>src\<close>, and
  \<open>memset_at off c n dst\<close> is \<open>memset(dst + off, c, n)\<close>, on the buffer \<open>dst\<close>.
\<close>

definition memcpy_at :: "nat \<Rightarrow> 'a list \<Rightarrow> 'a list \<Rightarrow> 'a list" where
  "memcpy_at off src dst = take off dst @ src @ drop (off + length src) dst"

definition memset_at :: "nat \<Rightarrow> 'a \<Rightarrow> nat \<Rightarrow> 'a list \<Rightarrow> 'a list" where
  "memset_at off c n dst = memcpy_at off (replicate n c) dst"

lemma length_memcpy_at [simp]:
  "off + length src \<le> length dst \<Longrightarrow> length (memcpy_at off src dst) = length dst"
  by (simp add: memcpy_at_def)

lemma length_memset_at [simp]:
  "off + n \<le> length dst \<Longrightarrow> length (memset_at off c n dst) = length dst"
  by (simp add: memset_at_def)

end
