(* ===== verification/Base32.thy ===== *)
theory Base32
  imports Prelude
begin

unbundle bit_operations_syntax

text \<open>
  The base32 codec of google-authenticator/libpam/base32.c. Both routines keep the source's
  loop: a 32-bit accumulator \<open>buffer\<close> (an \<open>int\<close> that the source shifts left and never masks, so
  its old bits wrap out at the top) and the number \<open>bitsLeft\<close> of its low bits that are pending.
  A C string is the list of its bytes; the end of the list, like a NUL byte, ends it. Both
  routines return the C return value and the bytes they wrote to \<open>result\<close>.
  The lemmas below read accumulator, input and output as one stream of bits (\<open>pending\<close>,
  \<open>byte_bits\<close>, \<open>digit_bits\<close>), on which the loops are the identity.
\<close>

section \<open>The codec\<close>

definition is_b32_space :: "byte \<Rightarrow> bool" where
  "is_b32_space ch \<longleftrightarrow> ch = 32 \<or> ch = 9 \<or> ch = 13 \<or> ch = 10 \<or> ch = 45"

definition b32_mistyped :: "byte \<Rightarrow> byte" where
  "b32_mistyped ch = (if ch = 48 then 79 else if ch = 49 then 76 else if ch = 56 then 66 else ch)"

definition b32_digit :: "byte \<Rightarrow> byte option" where
  "b32_digit ch =
     (if (65 \<le> ch \<and> ch \<le> 90) \<or> (97 \<le> ch \<and> ch \<le> 122) then Some ((ch AND 0x1F) - 1)
      else if 50 \<le> ch \<and> ch \<le> 55 then Some (ch - (50 - 26))
      else None)"

fun base32_decode_loop ::
  "int \<Rightarrow> byte list \<Rightarrow> u32 \<Rightarrow> nat \<Rightarrow> byte list \<Rightarrow> bool \<times> byte list" where
  "base32_decode_loop bufSize [] buffer bitsLeft result = (True, result)"
| "base32_decode_loop bufSize (c # cs) buffer bitsLeft result =
     (if \<not> (int (length result) < bufSize \<and> c \<noteq> 0) then (True, result)
      else if is_b32_space c then base32_decode_loop bufSize cs buffer bitsLeft result
      else
        (case b32_digit (b32_mistyped c) of
           None \<Rightarrow> (False, result)
         | Some d \<Rightarrow>
             (let buffer = push_bit 5 buffer OR ucast d; bitsLeft = bitsLeft + 5
              in if 8 \<le> bitsLeft
                 then base32_decode_loop bufSize cs buffer (bitsLeft - 8)
                        (result @ [ucast (signed_drop_bit (bitsLeft - 8) buffer)])
                 else base32_decode_loop bufSize cs buffer bitsLeft result)))"

definition terminate_result :: "int \<Rightarrow> byte list \<Rightarrow> byte list" where
  "terminate_result bufSize result =
     (if int (length result) < bufSize then result @ [0] else result)"

definition base32_decode :: "byte list \<Rightarrow> int \<Rightarrow> int \<times> byte list" where
  "base32_decode encoded bufSize =
     (case base32_decode_loop bufSize encoded 0 0 [] of
        (False, result) \<Rightarrow> (-1, result)
      | (True, result) \<Rightarrow> (int (length result), terminate_result bufSize result))"

text \<open>
  \<open>get_shared_secret\<close> of the PAM module decodes a buffer onto itself
  (\<open>base32_decode(secret, secret, base32Len)\<close>), so there the loop reads from the memory it
  writes: the same loop over one shared buffer \<open>mem\<close>, with read index \<open>i\<close> and write index
  \<open>count\<close>.
\<close>

function base32_inplace_loop ::
  "int \<Rightarrow> byte list \<Rightarrow> nat \<Rightarrow> nat \<Rightarrow> u32 \<Rightarrow> nat \<Rightarrow> bool \<times> byte list \<times> nat" where
  "base32_inplace_loop bufSize mem i count buffer bitsLeft =
     (if i < length mem \<and> int count < bufSize \<and> mem ! i \<noteq> 0
      then
        (if is_b32_space (mem ! i) then base32_inplace_loop bufSize mem (Suc i) count buffer bitsLeft
         else
           (case b32_digit (b32_mistyped (mem ! i)) of
              None \<Rightarrow> (False, mem, count)
            | Some d \<Rightarrow>
                (let buffer = push_bit 5 buffer OR ucast d; bitsLeft = bitsLeft + 5
                 in if 8 \<le> bitsLeft
                    then base32_inplace_loop bufSize
                           (mem[count := ucast (signed_drop_bit (bitsLeft - 8) buffer)])
                           (Suc i) (Suc count) buffer (bitsLeft - 8)
                    else base32_inplace_loop bufSize mem (Suc i) count buffer bitsLeft)))
      else (True, mem, count))"
  by pat_completeness auto
termination
  by (relation "measure (\<lambda>(b, mem, i, c, buf, n). length mem - i)") auto

declare base32_inplace_loop.simps [simp del]

definition base32_decode_inplace :: "byte list \<Rightarrow> int \<Rightarrow> int \<times> byte list" where
  "base32_decode_inplace mem bufSize =
     (case base32_inplace_loop bufSize mem 0 0 0 0 of
        (False, mem, count) \<Rightarrow> (-1, mem)
      | (True, mem, count) \<Rightarrow>
          (int count, if int count < bufSize then mem[count := 0] else mem))"

definition base32_alphabet :: "byte list" where
  "base32_alphabet = map of_char ''ABCDEFGHIJKLMNOPQRSTUVWXYZ234567''"

fun base32_refill :: "byte list \<Rightarrow> u32 \<Rightarrow> nat \<Rightarrow> byte list \<times> u32 \<times> nat" where
  "base32_refill rest buffer bitsLeft =
     (if bitsLeft < 5
      then (case rest of
              d # rest' \<Rightarrow> (rest', push_bit 8 buffer OR (ucast d AND 0xFF), bitsLeft + 8)
            | [] \<Rightarrow> ([], push_bit (5 - bitsLeft) buffer, 5))
      else (rest, buffer, bitsLeft))"

declare base32_refill.simps [simp del]

lemma base32_refill_measure:
  assumes "base32_refill rest buffer bitsLeft = (rest', buffer', bitsLeft')"
    and "0 < bitsLeft \<or> rest \<noteq> []"
  shows "8 * length rest' + (bitsLeft' - 5) < 8 * length rest + bitsLeft" and "5 \<le> bitsLeft'"
  using assms by (auto simp: base32_refill.simps split: if_splits list.splits)

function base32_encode_loop :: "int \<Rightarrow> byte list \<Rightarrow> u32 \<Rightarrow> nat \<Rightarrow> byte list \<Rightarrow> byte list" where
  "base32_encode_loop bufSize rest buffer bitsLeft result =
     (if int (length result) < bufSize \<and> (0 < bitsLeft \<or> rest \<noteq> [])
      then (case base32_refill rest buffer bitsLeft of
              (rest, buffer, bitsLeft) \<Rightarrow>
                (let index = 0x1F AND signed_drop_bit (bitsLeft - 5) buffer
                 in base32_encode_loop bufSize rest buffer (bitsLeft - 5)
                      (result @ [base32_alphabet ! unat index])))
      else result)"
  by pat_completeness auto
termination
  by (relation "measure (\<lambda>(b, rest, buf, bitsLeft, r). 8 * length rest + bitsLeft)")
     (auto dest: base32_refill_measure [OF sym])

declare base32_encode_loop.simps [simp del]

definition base32_encode :: "byte list \<Rightarrow> int \<Rightarrow> int \<Rightarrow> int \<times> byte list" where
  "base32_encode data len bufSize =
     (if len < 0 \<or> len > 2 ^ 28 then (-1, [])
      else
        (let result =
           (case take (nat len) data of
              [] \<Rightarrow> []
            | d # rest \<Rightarrow> base32_encode_loop bufSize rest (ucast d) 8 [])
         in (int (length result), terminate_result bufSize result)))"


section \<open>Digits and bit streams\<close>

lemma alphabet_digit:
  assumes "i < 32"
  shows "b32_digit (b32_mistyped (base32_alphabet ! i)) = Some (of_nat i)"
    and "\<not> is_b32_space (base32_alphabet ! i)" and "base32_alphabet ! i \<noteq> 0"
proof -
  have "list_all (\<lambda>i. b32_digit (b32_mistyped (base32_alphabet ! i)) = Some (of_nat i) \<and>
           \<not> is_b32_space (base32_alphabet ! i) \<and> base32_alphabet ! i \<noteq> 0) [0..<32]"
    by code_simp
  with assms show "b32_digit (b32_mistyped (base32_alphabet ! i)) = Some (of_nat i)"
    and "\<not> is_b32_space (base32_alphabet ! i)" and "base32_alphabet ! i \<noteq> 0"
    by (auto simp: list_all_iff)
qed

lemma bl_push_or:
  fixes buffer :: "'a::len word" and d :: "'b::len word"
  assumes "n + k \<le> LENGTH('a)" and "\<And>j. k \<le> j \<Longrightarrow> \<not> bit d j"
  shows "bl (n + k) (push_bit k buffer OR ucast d) = bl n buffer @ bl k d"
proof -
  have "bl n (drop_bit k (push_bit k buffer OR ucast d)) = bl n buffer"
    using assms
    by (intro bl_eqI) (auto simp: bit_drop_bit_eq bit_or_iff bit_push_bit_iff bit_ucast_iff)
  moreover have "bl k (push_bit k buffer OR ucast d) = bl k d"
    using assms
    by (auto simp: bl_def bit_or_iff bit_push_bit_iff bit_ucast_iff)
  ultimately show ?thesis by (simp add: bl_add)
qed

lemma bl_signed_drop:
  fixes w :: "'a::len word"
  assumes "k + n \<le> LENGTH('a)" and "n \<le> LENGTH('b)"
  shows "bl n (ucast (signed_drop_bit k w) :: 'b::len word) = bl n (drop_bit k w)"
  using assms
  by (auto simp: bl_def bit_ucast_iff bit_signed_drop_bit_iff bit_drop_bit_eq not_le)

lemma nat5_small: 
  assumes "i < 32" shows "5 \<le> j \<Longrightarrow> \<not> bit (of_nat i :: byte) j"
proof -
  assume "5 \<le> j"
  have "of_nat i = (take_bit 5 (of_nat i) :: byte)"
    using assms by (simp add: take_bit_of_nat)  (simp add: take_bit_eq_mod)
  then have "bit (of_nat i :: byte) j = bit (take_bit 5 (of_nat i) :: byte) j" by (rule arg_cong)
  with \<open>5 \<le> j\<close> show ?thesis by (simp add: bit_take_bit_iff)
qed

abbreviation byte_bits :: "byte list \<Rightarrow> bool list" where
  "byte_bits \<equiv> (\<lambda>bs. concat (map (bl 8) bs))"

abbreviation digit_bits :: "nat list \<Rightarrow> bool list" where
  "digit_bits \<equiv> (\<lambda>ds. concat (map (\<lambda>i. bl 5 (of_nat i :: byte)) ds))"

lemma length_byte_bits [simp]: "length (byte_bits bs) = 8 * length bs"
  by (induction bs) auto

lemma length_digit_bits [simp]: "length (digit_bits ds) = 5 * length ds"
  by (induction ds) auto

lemma byte_bits_inj: "byte_bits xs = byte_bits ys \<Longrightarrow> xs = ys"
proof (induction xs arbitrary: ys)
  case Nil
  then show ?case by (cases ys) auto
next
  case (Cons x xs)
  then obtain y ys' where ys: "ys = y # ys'"
    by (cases ys) auto
  with Cons.prems have "bl 8 x = bl 8 y" and "byte_bits xs = byte_bits ys'"
    by auto
  with Cons.IH ys show ?case by (auto dest: bl_inj [where 'a = 8, simplified])
qed

section \<open>The loops on bit streams\<close>

definition decoded_bits :: "int \<Rightarrow> byte list \<Rightarrow> nat \<Rightarrow> bool list \<Rightarrow> bool" where
  "decoded_bits bufSize res' n bs \<longleftrightarrow>
     length res' = min (nat bufSize) (n div 8) \<and> byte_bits res' = take (8 * length res') bs"

lemma decode_loop_digits:
  assumes "list_all (\<lambda>i. i < 32) ds" and "bitsLeft < 8" and "int (length res) \<le> bufSize"
  shows "\<exists>res'. base32_decode_loop bufSize (map ((!) base32_alphabet) ds @ [0]) buffer bitsLeft res
             = (True, res') \<and>
           decoded_bits bufSize res' (8 * length res + bitsLeft + 5 * length ds)
             (byte_bits res @ bl bitsLeft buffer @ digit_bits ds)"
  using assms
proof (induction ds arbitrary: buffer bitsLeft res)
  case Nil
  then show ?case by (auto simp: decoded_bits_def)
next
  case (Cons i ds)
  from Cons.prems have i: "i < 32" and ds: "list_all (\<lambda>i. i < 32) ds" by auto
  show ?case
  proof (cases "int (length res) < bufSize")
    case False
    with Cons.prems have "nat bufSize = length res" by auto
    then show ?thesis using False by (auto simp: decoded_bits_def)
  next
    case True
    define buf where "buf = push_bit 5 buffer OR (ucast (of_nat i :: byte) :: u32)"
    have bits: "bl (bitsLeft + 5) buf = bl bitsLeft buffer @ bl 5 (of_nat i :: byte)"
      unfolding buf_def using Cons.prems nat5_small [OF i] by (intro bl_push_or) auto
    show ?thesis
    proof (cases "8 \<le> bitsLeft + 5")
      case False
      have "base32_decode_loop bufSize (map ((!) base32_alphabet) (i # ds) @ [0]) buffer bitsLeft res =
          base32_decode_loop bufSize (map ((!) base32_alphabet) ds @ [0]) buf (bitsLeft + 5) res"
        using True False i by (simp add: alphabet_digit Let_def buf_def)
      moreover have "byte_bits res @ bl (bitsLeft + 5) buf @ digit_bits ds =
          byte_bits res @ bl bitsLeft buffer @ digit_bits (i # ds)"
        by (simp add: bits)
      moreover have "8 * length res + (bitsLeft + 5) + 5 * length ds =
          8 * length res + bitsLeft + 5 * length (i # ds)" by simp
      ultimately show ?thesis
        using Cons.IH [of "bitsLeft + 5" res buf] ds False Cons.prems(3) by (metis not_le)
    next
      case big: True
      define b where "b = (ucast (signed_drop_bit (bitsLeft + 5 - 8) buf) :: byte)"
      have "bl (bitsLeft + 5) buf = bl 8 b @ bl (bitsLeft + 5 - 8) buf"
        using bl_add [of 8 "bitsLeft + 5 - 8" buf] big Cons.prems
          bl_signed_drop [of "bitsLeft + 5 - 8" 8 buf, where 'b = 8]
        by (simp add: b_def add.commute)
      with bits have "bl 8 b @ bl (bitsLeft + 5 - 8) buf = bl bitsLeft buffer @ bl 5 (of_nat i :: byte)"
        by simp
      from arg_cong [OF this, of "\<lambda>z. byte_bits res @ z @ digit_bits ds"]
      have "byte_bits (res @ [b]) @ bl (bitsLeft + 5 - 8) buf @ digit_bits ds =
          byte_bits res @ bl bitsLeft buffer @ digit_bits (i # ds)"
        by simp
      moreover have "8 * length (res @ [b]) + (bitsLeft + 5 - 8) + 5 * length ds =
          8 * length res + bitsLeft + 5 * length (i # ds)"
        using big by simp
      moreover have "base32_decode_loop bufSize (map ((!) base32_alphabet) (i # ds) @ [0]) buffer bitsLeft res =
          base32_decode_loop bufSize (map ((!) base32_alphabet) ds @ [0]) buf (bitsLeft + 5 - 8) (res @ [b])"
        using True big i by (simp add: alphabet_digit Let_def buf_def b_def)
      moreover have "bitsLeft + 5 - 8 < 8" and "int (length (res @ [b])) \<le> bufSize"
        using Cons.prems True by auto
      ultimately show ?thesis
        using Cons.IH [of "bitsLeft + 5 - 8" "res @ [b]" buf] ds by metis
    qed
  qed
qed

lemma u32_mask8: "(255 :: u32) = mask 8" and u32_mask5: "(31 :: u32) = mask 5"
  by (simp_all add: mask_eq_exp_minus_1)

definition pending :: "nat \<Rightarrow> u32 \<Rightarrow> byte list \<Rightarrow> bool list" where
  "pending bitsLeft buffer rest = bl bitsLeft buffer @ byte_bits rest"

lemma length_pending [simp]: "length (pending bitsLeft buffer rest) = bitsLeft + 8 * length rest"
  by (simp add: pending_def)

lemma refill_pending:
  assumes "base32_refill rest buffer bitsLeft = (rest', buffer', bitsLeft')"
    and "bitsLeft \<le> 8" and "0 < bitsLeft \<or> rest \<noteq> []"
  shows "5 \<le> bitsLeft' \<and> bitsLeft' \<le> 12 \<and>
    (\<exists>p. (p = 0 \<or> p \<le> 4 \<and> bitsLeft' = 5 \<and> rest' = []) \<and>
       pending bitsLeft' buffer' rest' = pending bitsLeft buffer rest @ replicate p False)"
proof -
  consider (keep) "5 \<le> bitsLeft" | (load) d rs where "bitsLeft < 5" "rest = d # rs"
    | (pad) "bitsLeft < 5" "rest = []"
    by (cases rest) (auto simp: not_less [symmetric])
  then show ?thesis
  proof cases
    case keep
    with assms show ?thesis by (auto simp: base32_refill.simps intro!: exI [of _ 0])
  next
    case load
    have "bl (bitsLeft + 8) (push_bit 8 buffer OR ucast d) = bl bitsLeft buffer @ bl 8 d"
      using load by (intro bl_push_or) (auto dest: bit_imp_le_length)
    moreover have "(ucast d AND 255 :: u32) = ucast d"
      by (rule bit_word_eqI) (auto simp: u32_mask8 bit_simps dest: bit_imp_le_length)
    ultimately show ?thesis
      using load assms by (auto simp: base32_refill.simps pending_def intro!: exI [of _ 0])
  next
    case pad
    have "bl (bitsLeft + (5 - bitsLeft)) (push_bit (5 - bitsLeft) buffer OR ucast (0 :: byte))
        = bl bitsLeft buffer @ bl (5 - bitsLeft) (0 :: byte)"
      using pad by (intro bl_push_or) auto
    moreover have "bl (5 - bitsLeft) (0 :: byte) = replicate (5 - bitsLeft) False"
      by (intro nth_equalityI) (auto simp: bl_nth)
    ultimately show ?thesis
      using pad assms
      by (auto simp: base32_refill.simps pending_def intro!: exI [of _ "5 - bitsLeft"])
  qed
qed

lemma index_bits:
  fixes w :: u32
  assumes "index = 0x1F AND signed_drop_bit k w" and "k + 5 \<le> 32"
  shows "unat index < 32" and "bl 5 (of_nat (unat index) :: byte) = bl 5 (drop_bit k w)"
proof -
  have "index \<le> 0x1F" using assms by (simp add: word_and_le2)
  then show "unat index < 32" by (simp add: word_le_nat_alt)
  have "of_nat (unat index) = (ucast index :: byte)" by simp
  also have "bl 5 \<dots> = bl 5 (drop_bit k w)"
    using assms by (auto simp: u32_mask5 bl_def bit_simps not_le)
  finally show "bl 5 (of_nat (unat index) :: byte) = bl 5 (drop_bit k w)" .
qed

lemma take_pad:
  assumes "xs @ replicate p False = d @ ys" and "length d = 5" and "k \<le> length ys + 4 - p" and "p \<le> 4"
  shows "d @ take k (ys @ replicate 4 False) = take (5 + k) (xs @ replicate 4 False)"
proof -
  have len: "length xs + p = 5 + length ys"
    using assms(1,2) by (metis length_append length_replicate)
  have "d @ take k (ys @ replicate 4 False) = take (5 + k) ((d @ ys) @ replicate 4 False)"
    using assms(2) by simp
  also have "\<dots> = take (5 + k) (xs @ replicate (p + 4) False)"
    by (simp add: assms(1) [symmetric] replicate_add)
  also have "\<dots> = take (5 + k) (xs @ replicate 4 False)"
    using len assms by auto
  finally show ?thesis .
qed

lemma encode_loop_digits:
  assumes "bitsLeft \<le> 8" and "int (length res) \<le> bufSize"
  shows "\<exists>ds. base32_encode_loop bufSize rest buffer bitsLeft res
             = res @ map ((!) base32_alphabet) ds \<and> list_all (\<lambda>i. i < 32) ds \<and>
           length ds = min (nat bufSize - length res) ((bitsLeft + 8 * length rest + 4) div 5) \<and>
           digit_bits ds =
             take (5 * length ds) (pending bitsLeft buffer rest @ replicate 4 False)"
  using assms
proof (induction bufSize rest buffer bitsLeft res rule: base32_encode_loop.induct)
  case (1 bufSize rest buffer bitsLeft res)
  show ?case
  proof (cases "int (length res) < bufSize \<and> (0 < bitsLeft \<or> rest \<noteq> [])")
    case False
    with 1 show ?thesis by (subst base32_encode_loop.simps) (auto simp: not_less)
  next
    case True
    obtain rest' buffer' bits' where refill: "base32_refill rest buffer bitsLeft = (rest', buffer', bits')"
      by (metis prod_cases3)
    define index where "index = 0x1F AND signed_drop_bit (bits' - 5) buffer'"
    let ?res = "res @ [base32_alphabet ! unat index]"
    obtain p where b5: "5 \<le> bits'" and b12: "bits' \<le> 12"
      and p: "p = 0 \<or> p \<le> 4 \<and> bits' = 5 \<and> rest' = []"
      and eq: "pending bits' buffer' rest' = pending bitsLeft buffer rest @ replicate p False"
      using refill_pending [OF refill "1.prems"(1)] True by blast
    note ix = index_bits [OF index_def]
    have emit: "pending bits' buffer' rest' =
        bl 5 (of_nat (unat index) :: byte) @ pending (bits' - 5) buffer' rest'"
      using bl_add [of 5 "bits' - 5" buffer'] ix b5 b12 by (simp add: pending_def)
    have len: "bits' + 8 * length rest' = bitsLeft + 8 * length rest + p"
      using arg_cong [OF eq, of length] by simp
    have "bits' - 5 \<le> 8" and "int (length ?res) \<le> bufSize"
      using b12 True by auto
    then obtain ds where ds: "base32_encode_loop bufSize rest' buffer' (bits' - 5) ?res
             = ?res @ map ((!) base32_alphabet) ds" "list_all (\<lambda>i. i < 32) ds"
        "length ds = min (nat bufSize - length ?res) ((bits' - 5 + 8 * length rest' + 4) div 5)"
        "digit_bits ds = take (5 * length ds) (pending (bits' - 5) buffer' rest' @ replicate 4 False)"
      using "1.IH" [OF True refill [symmetric] refl index_def] by blast
    have loop: "base32_encode_loop bufSize rest buffer bitsLeft res
        = res @ map ((!) base32_alphabet) (unat index # ds)"
      using True refill ds(1) by (subst base32_encode_loop.simps) (simp add: index_def Let_def)
    have "(bitsLeft + 8 * length rest + 4) div 5 = Suc ((bits' - 5 + 8 * length rest' + 4) div 5)"
    proof (cases "p = 0")
      case True
      with len have "bitsLeft + 8 * length rest + 4 = (bits' - 5 + 8 * length rest' + 4) + 5"
        using b5 by simp
      then show ?thesis by simp
    next
      case False
      with p len True have "rest' = []" "bits' = 5" "bitsLeft + 8 * length rest \<in> {1..4}"
        by (cases rest; auto)+
      then show ?thesis by auto
    qed
    moreover have "nat bufSize - length res = Suc (nat bufSize - length ?res)"
      using True by auto
    ultimately have "length (unat index # ds)
        = min (nat bufSize - length res) ((bitsLeft + 8 * length rest + 4) div 5)"
      by (simp only: ds(3) list.size min_Suc_Suc)
    moreover have "digit_bits (unat index # ds) =
             take (5 * length (unat index # ds)) (pending bitsLeft buffer rest @ replicate 4 False)"
    proof -
      have "pending bitsLeft buffer rest @ replicate p False =
          bl 5 (of_nat (unat index) :: byte) @ pending (bits' - 5) buffer' rest'"
        using eq emit by simp
      moreover have "5 * length ds \<le> length (pending (bits' - 5) buffer' rest') + 4 - p"
      proof -
        have "length ds \<le> (length (pending (bits' - 5) buffer' rest') + 4) div 5"
          using ds(3) by simp
        then have "5 * length ds \<le> length (pending (bits' - 5) buffer' rest') + 4"
            and "length (pending (bits' - 5) buffer' rest') = 0 \<Longrightarrow> length ds = 0"
          by linarith+
        with p show ?thesis by (cases "p = 0") auto
      qed
      ultimately have "bl 5 (of_nat (unat index) :: byte) @
          take (5 * length ds) (pending (bits' - 5) buffer' rest' @ replicate 4 False) =
          take (5 + 5 * length ds) (pending bitsLeft buffer rest @ replicate 4 False)"
        using p by (intro take_pad) auto
      then show ?thesis by (simp only: ds(4) [symmetric] list.map concat.simps list.size) simp
    qed
    moreover have "list_all (\<lambda>i. i < 32) (unat index # ds)"
      using ds(2) ix b12 by auto
    ultimately show ?thesis using loop by blast
  qed
qed

definition base32_length :: "nat \<Rightarrow> nat" where
  "base32_length n = (8 * n + 4) div 5"

section \<open>Correctness\<close>

text \<open>
  C1. Round trip: for every byte string of at most 2^28 bytes, encoding it into a buffer with
  room for the digits and the terminating NUL and decoding the result gives the bytes back,
  NUL-terminated where the output buffer has room.
\<close>

theorem base32_roundtrip:
  assumes "length data \<le> 2 ^ 28" and "int (base32_length (length data)) < bufSize"
    and "int (length data) \<le> outSize"
  shows "base32_decode (snd (base32_encode data (int (length data)) bufSize)) outSize
           = (int (length data), terminate_result outSize data)"
proof -
  have "\<exists>ds. snd (base32_encode data (int (length data)) bufSize) = map ((!) base32_alphabet) ds @ [0] \<and>
      list_all (\<lambda>i. i < 32) ds \<and> length ds = base32_length (length data) \<and>
      digit_bits ds = take (5 * length ds) (byte_bits data @ replicate 4 False)"
  proof (cases data)
    case Nil
    then show ?thesis using assms
      by (auto simp: base32_encode_def base32_length_def terminate_result_def)
  next
    case (Cons d rest)
    have "bl 8 (ucast d :: u32) = bl 8 d"
      by (auto simp: bl_def bit_simps)
    with Cons encode_loop_digits [of 8 "[]" bufSize rest "ucast d"] assms show ?thesis
      by (auto simp: base32_encode_def base32_length_def terminate_result_def pending_def)
  qed
  then obtain ds where enc: "snd (base32_encode data (int (length data)) bufSize) = map ((!) base32_alphabet) ds @ [0]"
    and ds: "list_all (\<lambda>i. i < 32) ds" "length ds = base32_length (length data)"
      "digit_bits ds = take (5 * length ds) (byte_bits data @ replicate 4 False)"
    by blast
  obtain res where dec: "base32_decode_loop outSize (map ((!) base32_alphabet) ds @ [0]) 0 0 [] = (True, res)"
    and len: "length res = min (nat outSize) (5 * length ds div 8)"
    and bits: "byte_bits res = take (8 * length res) (digit_bits ds)"
    using decode_loop_digits [OF ds(1), of 0 "[]" outSize 0] assms
    by (auto simp: decoded_bits_def)
  have "5 * length ds div 8 = length data"
    by (simp add: ds(2) base32_length_def)
  then have "length res = length data" using len assms by auto
  moreover from this have "byte_bits res = byte_bits data"
    by (simp add: bits ds(2,3) base32_length_def)
  then have "res = data" by (rule byte_bits_inj)
  ultimately show ?thesis by (simp add: base32_decode_def enc dec)
qed

theorem base32_roundtrip_witness:
  "base32_decode (snd (base32_encode [72, 101, 108, 108, 111, 33] 6 11)) 6
     = (6, [72, 101, 108, 108, 111, 33])"
  using base32_roundtrip [of "[72, 101, 108, 108, 111, 33]" 11 6]
  by (simp add: base32_length_def terminate_result_def)

lemma inplace_loop_decodes:
  assumes "8 * count + bitsLeft \<le> 5 * i" and "i \<le> length mem"
    and "base32_inplace_loop bufSize mem i count buffer bitsLeft = (ok, mem', count')"
  shows "base32_decode_loop bufSize (drop i mem) buffer bitsLeft (take count mem) = (ok, take count' mem') \<and>
    length mem' = length mem \<and> count' \<le> length mem"
  using assms
proof (induction bufSize mem i count buffer bitsLeft rule: base32_inplace_loop.induct)
  case (1 bufSize mem i count buffer bitsLeft)
  have c: "count \<le> i" using 1(4) by simp
  show ?case
  proof (cases "i < length mem \<and> int count < bufSize \<and> mem ! i \<noteq> 0")
    case False
    with 1(6) have "ok" "mem' = mem" "count' = count"
      by (auto simp: base32_inplace_loop.simps [of bufSize mem i])
    moreover have "base32_decode_loop bufSize (drop i mem) buffer bitsLeft (take count mem) = (True, take count mem)"
      using False c 1(5) by (cases "drop i mem") (auto simp: min_def dest: nth_via_drop)
    ultimately show ?thesis using c 1(5) by simp
  next
    case True
    then have dr: "drop i mem = mem ! i # drop (Suc i) mem"
      by (simp add: Cons_nth_drop_Suc)
    have len: "int (length (take count mem)) < bufSize" using True c by (simp add: min_def)
    show ?thesis
    proof (cases "is_b32_space (mem ! i)")
      case space: True
      have "base32_inplace_loop bufSize mem (Suc i) count buffer bitsLeft = (ok, mem', count')"
        using True space 1(6) by (simp add: base32_inplace_loop.simps [of bufSize mem i])
      with 1(1) [OF True space] 1(4) True len space dr show ?thesis by simp
    next
      case nospace: False
      show ?thesis
      proof (cases "b32_digit (b32_mistyped (mem ! i))")
        case None
        with True nospace 1 len dr c show ?thesis
          by (auto simp: base32_inplace_loop.simps [of bufSize mem i])
      next
        case (Some d)
        define buf where "buf = push_bit 5 buffer OR (ucast d :: u32)"
        define b where "b = (ucast (signed_drop_bit (bitsLeft + 5 - 8) buf) :: byte)"
        show ?thesis
        proof (cases "8 \<le> bitsLeft + 5")
          case big: True
          have "base32_inplace_loop bufSize (mem[count := b]) (Suc i) (Suc count) buf (bitsLeft + 5 - 8)
              = (ok, mem', count')"
            using True nospace Some big 1(6)
            by (simp add: base32_inplace_loop.simps [of bufSize mem i] Let_def b_def buf_def)
          moreover have "drop (Suc i) (mem[count := b]) = drop (Suc i) mem"
            using c by simp
          moreover have "take (Suc count) (mem[count := b]) = take count mem @ [b]"
            using c True by (simp add: take_Suc_conv_app_nth)
          ultimately show ?thesis
            using 1(2) [OF True nospace Some buf_def refl big] 1(4) True nospace Some big len dr
            by (simp add: Let_def b_def buf_def)
        next
          case small: False
          have "base32_inplace_loop bufSize mem (Suc i) count buf (bitsLeft + 5) = (ok, mem', count')"
            using True nospace Some small 1(6)
            by (simp add: base32_inplace_loop.simps [of bufSize mem i] Let_def buf_def)
          with 1(3) [OF True nospace Some buf_def refl small] 1(4) True nospace Some small len dr
          show ?thesis by (simp add: Let_def buf_def)
        qed
      qed
    qed
  qed
qed

text \<open>
  C2. Decoding a buffer onto itself gives the same return code and the same bytes as decoding
  it into a separate buffer.
\<close>

theorem base32_inplace_correct:
  assumes "bufSize \<le> int (length mem)"
  shows "fst (base32_decode_inplace mem bufSize) = fst (base32_decode mem bufSize) \<and>
    length (snd (base32_decode_inplace mem bufSize)) = length mem \<and>
    take (length (snd (base32_decode mem bufSize))) (snd (base32_decode_inplace mem bufSize))
      = snd (base32_decode mem bufSize)"
proof -
  obtain ok mem' count' where run: "base32_inplace_loop bufSize mem 0 0 0 0 = (ok, mem', count')"
    by (metis prod_cases3)
  with inplace_loop_decodes [of 0 0 0 mem bufSize 0]
  have "base32_decode_loop bufSize mem 0 0 [] = (ok, take count' mem')"
    and len: "length mem' = length mem" "count' \<le> length mem"
    by auto
  with run assms show ?thesis
    by (cases ok) (auto simp: base32_decode_inplace_def base32_decode_def terminate_result_def
        min_def take_Suc_conv_app_nth)
qed

theorem base32_inplace_correct_witness:
  "base32_decode_inplace (map of_char ''MFRGG'' @ [0]) 5 = (3, [97, 98, 99, 0, 71, 0]) \<and>
   fst (base32_decode (map of_char ''MFRGG'' @ [0]) 5) = 3"
proof -
  have run: "base32_decode_inplace (map of_char ''MFRGG'' @ [0]) 5 = (3, [97, 98, 99, 0, 71, 0])"
    by code_simp
  then show ?thesis
    using base32_inplace_correct [of 5 "map of_char ''MFRGG'' @ [0]"] by simp
qed

end
