(* ===== verification/Digest.thy ===== *)
theory Digest
  imports Prelude
begin

text \<open>
  The interface between the hash implementations and their clients. A streaming digest keeps a
  context that is initialised, fed byte strings and finalised; the locale states what a
  client such as HMAC relies on, and the client's lemmas on one- and two-part messages are
  proved once here. \<open>rfc2104\<close> is the reference definition of HMAC over any hash function.
\<close>

unbundle bit_operations_syntax

locale streaming_digest =
  fixes wf :: "'s \<Rightarrow> bool"
    and absorbed :: "'s \<Rightarrow> byte list \<Rightarrow> bool"
    and init :: "'s \<Rightarrow> 's"
    and update :: "'s \<Rightarrow> byte list \<Rightarrow> 's"
    and final :: "'s \<Rightarrow> byte list \<times> 's"
    and hash :: "byte list \<Rightarrow> byte list"
  assumes init_absorbed: "wf s \<Longrightarrow> absorbed (init s) []"
    and update_absorbed: "absorbed s m \<Longrightarrow> length b < 2 ^ 31 \<Longrightarrow> absorbed (update s b) (m @ b)"
    and final_hash: "absorbed s m \<Longrightarrow> fst (final s) = hash m"
    and final_wf: "absorbed s m \<Longrightarrow> wf (snd (final s))"
begin

lemma hash_one:
  assumes "wf s" and "length a < 2 ^ 31"
  shows "fst (final (update (init s) a)) = hash a" and "wf (snd (final (update (init s) a)))"
  using update_absorbed [OF init_absorbed [OF assms(1)] assms(2)]
  by (simp_all add: final_hash final_wf)

lemma hash_two:
  assumes "wf s" and "length a < 2 ^ 31" and "length b < 2 ^ 31"
  shows "fst (final (update (update (init s) a) b)) = hash (a @ b)"
    and "wf (snd (final (update (update (init s) a) b)))"
  using update_absorbed [OF update_absorbed [OF init_absorbed [OF assms(1)] assms(2)] assms(3)]
  by (simp_all add: final_hash final_wf)

lemma updates_absorbed:
  "absorbed s m \<Longrightarrow> list_all (\<lambda>c. length c < 2 ^ 31) cs \<Longrightarrow> absorbed (foldl update s cs) (m @ concat cs)"
  by (induction cs arbitrary: s m) (use update_absorbed in \<open>auto simp flip: append_assoc\<close>)

lemma hash_chunks:
  "wf s \<Longrightarrow> list_all (\<lambda>c. length c < 2 ^ 31) cs \<Longrightarrow> fst (final (foldl update (init s) cs)) = hash (concat cs)"
  using updates_absorbed [OF init_absorbed] by (fastforce intro: final_hash)

end

definition rfc2104_key :: "(byte list \<Rightarrow> byte list) \<Rightarrow> nat \<Rightarrow> byte list \<Rightarrow> byte list" where
  "rfc2104_key hash B key =
     (let k = (if length key > B then hash key else key) in k @ replicate (B - length k) 0)"

definition rfc2104 :: "(byte list \<Rightarrow> byte list) \<Rightarrow> nat \<Rightarrow> byte list \<Rightarrow> byte list \<Rightarrow> byte list" where
  "rfc2104 hash B key msg =
     (let k = rfc2104_key hash B key
      in hash (map (\<lambda>b. b XOR 0x5c) k @ hash (map (\<lambda>b. b XOR 0x36) k @ msg)))"

end
