(* ===== verification/Sha1.thy ===== *)
theory Sha1
  imports Digest
begin

text \<open>
  SHA-1 as \<^verbatim>\<open>libpam/sha1.c\<close> computes it (the copy under \<^verbatim>\<open>hotp/\<close> is the same file).
  The context \<^verbatim>\<open>SHA1_INFO\<close> is a record with the fields of \<^verbatim>\<open>sha1.h\<close>: the chaining values, the
  64-bit bit counter in two 32-bit halves, the block buffer and the fill level. Words are
  \<^typ>\<open>u32\<close>, so the \<^verbatim>\<open>T32\<close> truncations are the wrap-around of the type. The block is loaded
  as the little-endian build loads it: a native word load followed by a byte swap.

  The theory proves that streaming any list of chunks through \<^verbatim>\<open>sha1_init\<close>,
  \<^verbatim>\<open>sha1_update\<close> and \<^verbatim>\<open>sha1_final\<close> yields the digest of the concatenated message as FIPS 180
  defines it (padding, schedule and compression restated independently of the code), and
  that the \<^verbatim>\<open>UNRAVEL\<close> variant of the rounds computes the same as the loop variant.
\<close>

unbundle bit_operations_syntax

section \<open>Context and round macros\<close>

record SHA1_INFO =
  digest :: "u32 list"
  count_lo :: u32
  count_hi :: u32
  data :: "byte list"
  sha1_local :: nat

definition f1 :: "u32 \<Rightarrow> u32 \<Rightarrow> u32 \<Rightarrow> u32" where
  "f1 x y z = (x AND y) OR (NOT x AND z)"

definition f2 :: "u32 \<Rightarrow> u32 \<Rightarrow> u32 \<Rightarrow> u32" where
  "f2 x y z = x XOR y XOR z"

definition f3 :: "u32 \<Rightarrow> u32 \<Rightarrow> u32 \<Rightarrow> u32" where
  "f3 x y z = (x AND y) OR (x AND z) OR (y AND z)"

definition f4 :: "u32 \<Rightarrow> u32 \<Rightarrow> u32 \<Rightarrow> u32" where
  "f4 x y z = x XOR y XOR z"

definition CONST1 :: u32 where "CONST1 = 0x5a827999"
definition CONST2 :: u32 where "CONST2 = 0x6ed9eba1"
definition CONST3 :: u32 where "CONST3 = 0x8f1bbcdc"
definition CONST4 :: u32 where "CONST4 = 0xca62c1d6"

definition R32 :: "u32 \<Rightarrow> nat \<Rightarrow> u32" where
  "R32 x n = push_bit n x OR drop_bit (32 - n) x"

type_synonym sha1_vars = "u32 \<times> u32 \<times> u32 \<times> u32 \<times> u32"

fun FG :: "(u32 \<Rightarrow> u32 \<Rightarrow> u32 \<Rightarrow> u32) \<Rightarrow> u32 \<Rightarrow> u32 \<Rightarrow> sha1_vars \<Rightarrow> sha1_vars" where
  "FG f k w (A, B, C, D, E) = (R32 A 5 + f B C D + E + w + k, A, R32 B 30, C, D)"

definition load_le :: "byte list \<Rightarrow> nat \<Rightarrow> u32" where
  "load_le dp i = ucast (dp ! i) OR push_bit 8 (ucast (dp ! (i + 1)))
     OR push_bit 16 (ucast (dp ! (i + 2))) OR push_bit 24 (ucast (dp ! (i + 3)))"

definition swap_bytes :: "u32 \<Rightarrow> u32" where
  "swap_bytes T = (push_bit 24 T AND 0xff000000) OR (push_bit 8 T AND 0x00ff0000)
     OR (drop_bit 8 T AND 0x0000ff00) OR (drop_bit 24 T AND 0x000000ff)"

definition sha1_load :: "byte list \<Rightarrow> u32 list" where
  "sha1_load dp = map (\<lambda>i. swap_bytes (load_le dp (4 * i))) [0..<16]"

definition sha1_extend_step :: "u32 list \<Rightarrow> u32 list" where
  "sha1_extend_step W =
     (let i = length W
      in W @ [R32 (W ! (i - 3) XOR W ! (i - 8) XOR W ! (i - 14) XOR W ! (i - 16)) 1])"

definition sha1_schedule :: "byte list \<Rightarrow> u32 list" where
  "sha1_schedule dp = (sha1_extend_step ^^ 64) (sha1_load dp)"

definition sha1_rounds :: "u32 list \<Rightarrow> sha1_vars \<Rightarrow> sha1_vars" where
  "sha1_rounds W v =
     fold (FG f4 CONST4) (take 20 (drop 60 W))
      (fold (FG f3 CONST3) (take 20 (drop 40 W))
        (fold (FG f2 CONST2) (take 20 (drop 20 W))
          (fold (FG f1 CONST1) (take 20 W) v)))"

definition sha1_transform :: "SHA1_INFO \<Rightarrow> SHA1_INFO" where
  "sha1_transform s =
     (let d = digest s; W = sha1_schedule (data s)
      in case sha1_rounds W (d ! 0, d ! 1, d ! 2, d ! 3, d ! 4) of
           (A, B, C, D, E) \<Rightarrow>
             s\<lparr>digest := d[0 := d ! 0 + A, 1 := d ! 1 + B, 2 := d ! 2 + C,
                          3 := d ! 3 + D, 4 := d ! 4 + E]\<rparr>)"

definition sha1_init :: "SHA1_INFO \<Rightarrow> SHA1_INFO" where
  "sha1_init s = s\<lparr>digest := (digest s)[0 := 0x67452301, 1 := 0xefcdab89, 2 := 0x98badcfe,
                        3 := 0x10325476, 4 := 0xc3d2e1f0],
                   count_lo := 0, count_hi := 0, sha1_local := 0\<rparr>"

function sha1_update_blocks :: "SHA1_INFO \<Rightarrow> byte list \<Rightarrow> SHA1_INFO" where
  "sha1_update_blocks s buffer =
     (if 64 \<le> length buffer
      then sha1_update_blocks (sha1_transform (s\<lparr>data := memcpy_at 0 (take 64 buffer) (data s)\<rparr>))
             (drop 64 buffer)
      else s\<lparr>data := memcpy_at 0 buffer (data s), sha1_local := length buffer\<rparr>)"
  by pat_completeness auto
termination
  by (relation "measure (\<lambda>(s, buffer). length buffer)") auto

declare sha1_update_blocks.simps [simp del]

definition sha1_count :: "SHA1_INFO \<Rightarrow> nat \<Rightarrow> SHA1_INFO" where
  "sha1_count s count =
     (let clo = count_lo s + push_bit 3 (of_nat count);
          hi = (if clo < count_lo s then count_hi s + 1 else count_hi s)
      in s\<lparr>count_lo := clo, count_hi := hi + drop_bit 29 (of_nat count)\<rparr>)"

definition sha1_update :: "SHA1_INFO \<Rightarrow> byte list \<Rightarrow> SHA1_INFO" where
  "sha1_update s0 buffer =
     (let s = sha1_count s0 (length buffer)
      in if sha1_local s \<noteq> 0
         then
           (let i = min (64 - sha1_local s) (length buffer);
                s = s\<lparr>data := memcpy_at (sha1_local s) (take i buffer) (data s), sha1_local := sha1_local s + i\<rparr>
            in if sha1_local s = 64 then sha1_update_blocks (sha1_transform s) (drop i buffer) else s)
         else sha1_update_blocks s buffer)"

definition be_bytes :: "u32 \<Rightarrow> byte list" where
  "be_bytes w = [ucast (drop_bit 24 w AND 0xff), ucast (drop_bit 16 w AND 0xff),
                 ucast (drop_bit 8 w AND 0xff), ucast (w AND 0xff)]"

definition sha1_transform_and_copy :: "SHA1_INFO \<Rightarrow> byte list \<times> SHA1_INFO" where
  "sha1_transform_and_copy s0 =
     (let s = sha1_transform s0
      in (be_bytes (digest s ! 0) @ be_bytes (digest s ! 1) @ be_bytes (digest s ! 2)
          @ be_bytes (digest s ! 3) @ be_bytes (digest s ! 4), s))"

definition sha1_final :: "SHA1_INFO \<Rightarrow> byte list \<times> SHA1_INFO" where
  "sha1_final s =
     (let lo = count_lo s; hi = count_hi s;
          count = unat (drop_bit 3 lo AND 0x3f);
          s = s\<lparr>data := (data s)[count := 0x80]\<rparr>; count = Suc count;
          s = (if count > 64 - 8
               then (let s = sha1_transform (s\<lparr>data := memset_at count 0 (64 - count) (data s)\<rparr>)
                     in s\<lparr>data := memset_at 0 0 (64 - 8) (data s)\<rparr>)
               else s\<lparr>data := memset_at count 0 (64 - 8 - count) (data s)\<rparr>)
      in sha1_transform_and_copy (s\<lparr>data := memcpy_at 56 (be_bytes hi @ be_bytes lo) (data s)\<rparr>))"

section \<open>The unravelled rounds (build option UNRAVEL)\<close>

type_synonym sha1_uvars = "u32 \<times> u32 \<times> u32 \<times> u32 \<times> u32 \<times> u32"

fun FA :: "(u32 \<Rightarrow> u32 \<Rightarrow> u32 \<Rightarrow> u32) \<Rightarrow> u32 \<Rightarrow> u32 \<Rightarrow> sha1_uvars \<Rightarrow> sha1_uvars" where
  "FA f k w (T, A, B, C, D, E) = (R32 A 5 + f B C D + E + w + k, A, R32 B 30, C, D, E)"

fun FB :: "(u32 \<Rightarrow> u32 \<Rightarrow> u32 \<Rightarrow> u32) \<Rightarrow> u32 \<Rightarrow> u32 \<Rightarrow> sha1_uvars \<Rightarrow> sha1_uvars" where
  "FB f k w (T, A, B, C, D, E) = (T, R32 A 30, B, C, D, R32 T 5 + f A B C + D + w + k)"

fun FC :: "(u32 \<Rightarrow> u32 \<Rightarrow> u32 \<Rightarrow> u32) \<Rightarrow> u32 \<Rightarrow> u32 \<Rightarrow> sha1_uvars \<Rightarrow> sha1_uvars" where
  "FC f k w (T, A, B, C, D, E) = (R32 T 30, A, B, C, R32 E 5 + f T A B + C + w + k, E)"

fun FD :: "(u32 \<Rightarrow> u32 \<Rightarrow> u32 \<Rightarrow> u32) \<Rightarrow> u32 \<Rightarrow> u32 \<Rightarrow> sha1_uvars \<Rightarrow> sha1_uvars" where
  "FD f k w (T, A, B, C, D, E) = (T, A, B, R32 D 5 + f E T A + B + w + k, D, R32 E 30)"

fun FE :: "(u32 \<Rightarrow> u32 \<Rightarrow> u32 \<Rightarrow> u32) \<Rightarrow> u32 \<Rightarrow> u32 \<Rightarrow> sha1_uvars \<Rightarrow> sha1_uvars" where
  "FE f k w (T, A, B, C, D, E) = (T, A, R32 C 5 + f D E T + A + w + k, C, R32 D 30, E)"

fun FT :: "(u32 \<Rightarrow> u32 \<Rightarrow> u32 \<Rightarrow> u32) \<Rightarrow> u32 \<Rightarrow> u32 \<Rightarrow> sha1_uvars \<Rightarrow> sha1_uvars" where
  "FT f k w (T, A, B, C, D, E) = (T, R32 B 5 + f C D E + T + w + k, B, R32 C 30, D, E)"

definition unravel_step :: "nat \<Rightarrow> (u32 \<Rightarrow> u32 \<Rightarrow> u32 \<Rightarrow> u32) \<Rightarrow> u32 \<Rightarrow> u32 \<Rightarrow> sha1_uvars \<Rightarrow> sha1_uvars" where
  "unravel_step i = [FA, FB, FC, FD, FE, FT] ! (i mod 6)"

fun unravel_run :: "nat \<Rightarrow> (u32 \<Rightarrow> u32 \<Rightarrow> u32 \<Rightarrow> u32) \<Rightarrow> u32 \<Rightarrow> u32 list \<Rightarrow> sha1_uvars \<Rightarrow> sha1_uvars" where
  "unravel_run i f k [] u = u"
| "unravel_run i f k (w # ws) u = unravel_run (Suc i) f k ws (unravel_step i f k w u)"

definition sha1_rounds_unravel :: "u32 list \<Rightarrow> sha1_uvars \<Rightarrow> sha1_uvars" where
  "sha1_rounds_unravel W u =
     unravel_run 60 f4 CONST4 (take 20 (drop 60 W))
      (unravel_run 40 f3 CONST3 (take 20 (drop 40 W))
        (unravel_run 20 f2 CONST2 (take 20 (drop 20 W))
          (unravel_run 0 f1 CONST1 (take 20 W) u)))"

definition sha1_transform_unravel :: "u32 \<Rightarrow> SHA1_INFO \<Rightarrow> SHA1_INFO" where
  "sha1_transform_unravel T0 s =
     (let d = digest s; W = sha1_schedule (data s)
      in case sha1_rounds_unravel W (T0, d ! 0, d ! 1, d ! 2, d ! 3, d ! 4) of
           (T, A, B, C, D, E) \<Rightarrow>
             s\<lparr>digest := d[0 := d ! 0 + E, 1 := d ! 1 + T, 2 := d ! 2 + A,
                          3 := d ! 3 + B, 4 := d ! 4 + C]\<rparr>)"

fun unravel_view :: "nat \<Rightarrow> sha1_uvars \<Rightarrow> sha1_vars" where
  "unravel_view i (T, A, B, C, D, E) =
     [(A, B, C, D, E), (T, A, B, C, D), (E, T, A, B, C),
      (D, E, T, A, B), (C, D, E, T, A), (B, C, D, E, T)] ! (i mod 6)"

lemma mod6_cases:
  "i mod 6 = 0 \<or> i mod 6 = 1 \<or> i mod 6 = 2 \<or> i mod 6 = 3 \<or> i mod 6 = 4 \<or> (i :: nat) mod 6 = 5"
  by presburger

lemma unravel_step_view:
  "unravel_view (Suc i) (unravel_step i f k w u) = FG f k w (unravel_view i u)"
proof -
  obtain T A B C D E where u: "u = (T, A, B, C, D, E)" by (metis prod_cases6)
  have "Suc i mod 6 = (if i mod 6 = 5 then 0 else Suc (i mod 6))"
    by (simp add: mod_Suc)
  with mod6_cases [of i] show ?thesis
    by (auto simp: u unravel_step_def)
qed

lemma unravel_run_view:
  "unravel_view (i + length ws) (unravel_run i f k ws u) = fold (FG f k) ws (unravel_view i u)"
  by (induction ws arbitrary: i u) (simp_all add: unravel_step_view flip: add_Suc)

section \<open>FIPS 180 reference\<close>

definition fips_f :: "nat \<Rightarrow> u32 \<Rightarrow> u32 \<Rightarrow> u32 \<Rightarrow> u32" where
  "fips_f t x y z =
     (if t < 20 then (x AND y) XOR (NOT x AND z)
      else if t < 40 then x XOR y XOR z
      else if t < 60 then (x AND y) XOR (x AND z) XOR (y AND z)
      else x XOR y XOR z)"

definition fips_K :: "nat \<Rightarrow> u32" where
  "fips_K t = (if t < 20 then 0x5a827999 else if t < 40 then 0x6ed9eba1
     else if t < 60 then 0x8f1bbcdc else 0xca62c1d6)"

definition be_word :: "byte list \<Rightarrow> u32" where
  "be_word bs = push_bit 24 (ucast (bs ! 0)) OR push_bit 16 (ucast (bs ! 1))
     OR push_bit 8 (ucast (bs ! 2)) OR ucast (bs ! 3)"

fun fips_W :: "byte list \<Rightarrow> nat \<Rightarrow> u32" where
  "fips_W M t =
     (if t < 16 then be_word (take 4 (drop (4 * t) M))
      else word_rotl 1 (fips_W M (t - 3) XOR fips_W M (t - 8) XOR fips_W M (t - 14) XOR fips_W M (t - 16)))"

declare fips_W.simps [simp del]

fun fips_round :: "byte list \<Rightarrow> nat \<Rightarrow> sha1_vars \<Rightarrow> sha1_vars" where
  "fips_round M t (a, b, c, d, e) =
     (word_rotl 5 a + fips_f t b c d + e + fips_K t + fips_W M t, a, word_rotl 30 b, c, d)"

fun fips_compress :: "sha1_vars \<Rightarrow> byte list \<Rightarrow> sha1_vars" where
  "fips_compress (h0, h1, h2, h3, h4) M =
     (case fold (fips_round M) [0..<80] (h0, h1, h2, h3, h4) of
        (a, b, c, d, e) \<Rightarrow> (h0 + a, h1 + b, h2 + c, h3 + d, h4 + e))"

lemma rot_index: "i < 32 \<Longrightarrow> n < 32 \<Longrightarrow> (i + 32 - n) mod 32 = (if n \<le> i then i - n else i + 32 - n)"
  for i n :: nat
  by (auto simp: mod_if)

lemma R32_rotl: "n < 32 \<Longrightarrow> R32 x n = word_rotl n x"
proof (rule bit_word_eqI)
  fix i
  assume "n < 32" and "i < LENGTH(32)"
  moreover have "32 + i - n = i + 32 - n" by simp
  ultimately show "bit (R32 x n) i = bit (word_rotl n x) i"
    by (cases "n \<le> i") (auto simp: R32_def bit_simps rot_index dest: bit_imp_le_length)
qed

lemma byte_masks:
  "(0xff000000 :: u32) = push_bit 24 (mask 8)" "(0x00ff0000 :: u32) = push_bit 16 (mask 8)"
  "(0x0000ff00 :: u32) = push_bit 8 (mask 8)" "(0x000000ff :: u32) = mask 8"
  by (simp_all add: mask_eq_exp_minus_1)

lemma byte_bit_False: "8 \<le> n \<Longrightarrow> \<not> bit (b :: byte) n"
  by (auto dest: bit_imp_le_length)

lemma swap_bytes_le:
  fixes a b c d :: byte
  shows "swap_bytes (ucast a OR push_bit 8 (ucast b) OR push_bit 16 (ucast c) OR push_bit 24 (ucast d)) =
    push_bit 24 (ucast a) OR push_bit 16 (ucast b) OR push_bit 8 (ucast c) OR ucast d"
proof (rule bit_word_eqI)
  fix n
  assume "n < LENGTH(32)"
  then consider "n < 8" | "8 \<le> n" "n < 16" | "16 \<le> n" "n < 24" | "24 \<le> n" "n < 32"
    by force
  then show "bit (swap_bytes (ucast a OR push_bit 8 (ucast b) OR push_bit 16 (ucast c)
        OR push_bit 24 (ucast d))) n =
      bit (push_bit 24 (ucast a) OR push_bit 16 (ucast b) OR push_bit 8 (ucast c) OR ucast d :: u32) n"
    by cases (auto simp: swap_bytes_def byte_masks bit_simps byte_bit_False)
qed

lemma swap_load:
  "4 * t + 4 \<le> length M \<Longrightarrow> swap_bytes (load_le M (4 * t)) = be_word (take 4 (drop (4 * t) M))"
  unfolding load_le_def swap_bytes_le be_word_def by simp

lemma length_extend: "length ((sha1_extend_step ^^ k) W) = length W + k"
  by (induction k) (simp_all add: sha1_extend_step_def Let_def)

lemma extend_step_nth:
  assumes "i \<le> length W"
  shows "sha1_extend_step W ! i =
    (if i < length W then W ! i
     else R32 (W ! (i - 3) XOR W ! (i - 8) XOR W ! (i - 14) XOR W ! (i - 16)) 1)"
  using assms by (auto simp: sha1_extend_step_def Let_def nth_append)

lemma fips_W_extend:
  assumes "length W = n" and "16 \<le> n" and "\<And>i. i < n \<Longrightarrow> W ! i = fips_W M i" and "i < n + k"
  shows "(sha1_extend_step ^^ k) W ! i = fips_W M i"
  using assms(4)
proof (induction k arbitrary: i)
  case 0
  with assms show ?case by simp
next
  case (Suc k)
  let ?V = "(sha1_extend_step ^^ k) W"
  have len: "length ?V = n + k" by (simp add: length_extend assms(1))
  show ?case
  proof (cases "i < n + k")
    case True
    with Suc.IH len show ?thesis by (simp add: extend_step_nth)
  next
    case False
    with Suc.prems have i: "i = n + k" by simp
    then show ?thesis
      using Suc.IH len assms(2)
      by (simp add: extend_step_nth R32_rotl fips_W.simps [of M "n + k"])
  qed
qed

lemma length_schedule [simp]: "length (sha1_schedule M) = 80"
  by (simp add: sha1_schedule_def length_extend sha1_load_def)

lemma schedule_fips_W:
  assumes "length M = 64" and "i < 80"
  shows "sha1_schedule M ! i = fips_W M i"
  unfolding sha1_schedule_def
proof (rule fips_W_extend)
  show "sha1_load M ! j = fips_W M j" if "j < 16" for j
    using that assms(1) by (simp add: sha1_load_def fips_W.simps [of M j] swap_load)
qed (use assms in \<open>simp_all add: sha1_load_def\<close>)

lemma schedule_eq_map: "length M = 64 \<Longrightarrow> sha1_schedule M = map (fips_W M) [0..<80]"
  by (rule nth_equalityI) (simp_all add: schedule_fips_W)

lemma f1_ch: "f1 x y z = (x AND y) XOR (NOT x AND z)"
  by (rule bit_word_eqI) (auto simp: f1_def bit_simps)

lemma f3_maj: "f3 x y z = (x AND y) XOR (x AND z) XOR (y AND z)"
  by (rule bit_word_eqI) (auto simp: f3_def bit_simps)

lemma fold_FG_rounds:
  assumes "\<And>t v. t \<in> set ts \<Longrightarrow> FG f k (fips_W M t) v = fips_round M t v"
  shows "fold (FG f k) (map (fips_W M) ts) v = fold (fips_round M) ts v"
  using assms by (induction ts arbitrary: v) auto

lemma FG_fips:
  "t < 20 \<Longrightarrow> FG f1 CONST1 (fips_W M t) v = fips_round M t v"
  "20 \<le> t \<Longrightarrow> t < 40 \<Longrightarrow> FG f2 CONST2 (fips_W M t) v = fips_round M t v"
  "40 \<le> t \<Longrightarrow> t < 60 \<Longrightarrow> FG f3 CONST3 (fips_W M t) v = fips_round M t v"
  "60 \<le> t \<Longrightarrow> FG f4 CONST4 (fips_W M t) v = fips_round M t v"
  by (cases v; simp add: fips_f_def fips_K_def f1_ch f2_def f3_maj f4_def CONST1_def CONST2_def
      CONST3_def CONST4_def R32_rotl algebra_simps)+

lemma rounds_fips:
  assumes "length M = 64"
  shows "sha1_rounds (sha1_schedule M) v = fold (fips_round M) [0..<80] v"
proof -
  have split: "[0..<80] = [0..<20] @ [20..<40] @ [40..<60] @ [60..<80]"
    by (simp add: upt_rec)
  have seg: "take 20 (drop n (map (fips_W M) [0..<80])) = map (fips_W M) [n..<n + 20]" if "n + 20 \<le> 80" for n
    using that by (simp add: take_map drop_map)
  have rounds:
      "fold (FG f1 CONST1) (map (fips_W M) [0..<20]) v = fold (fips_round M) [0..<20] v"
      "fold (FG f2 CONST2) (map (fips_W M) [20..<40]) v = fold (fips_round M) [20..<40] v"
      "fold (FG f3 CONST3) (map (fips_W M) [40..<60]) v = fold (fips_round M) [40..<60] v"
      "fold (FG f4 CONST4) (map (fips_W M) [60..<80]) v = fold (fips_round M) [60..<80] v" for v
    by (rule fold_FG_rounds; simp add: FG_fips del: upt_rec_numeral)+
  show ?thesis
    using seg [of 0] seg [of 20] seg [of 40] seg [of 60]
    by (simp add: sha1_rounds_def schedule_eq_map [OF assms] split rounds del: upt_rec_numeral)
qed

definition fips_IV :: sha1_vars where
  "fips_IV = (0x67452301, 0xefcdab89, 0x98badcfe, 0x10325476, 0xc3d2e1f0)"

fun blocks64 :: "byte list \<Rightarrow> byte list list" where
  "blocks64 m = (if 64 \<le> length m then take 64 m # blocks64 (drop 64 m) else [])"

declare blocks64.simps [simp del]

definition be_bytes64 :: "nat \<Rightarrow> byte list" where
  "be_bytes64 n = map (\<lambda>i. of_nat (n div 256 ^ (7 - i))) [0..<8]"

definition fips_pad :: "byte list \<Rightarrow> byte list" where
  "fips_pad m = m @ 0x80 # replicate ((119 - length m mod 64) mod 64) 0 @ be_bytes64 (8 * length m)"

fun vars_bytes :: "sha1_vars \<Rightarrow> byte list" where
  "vars_bytes (a, b, c, d, e) = be_bytes a @ be_bytes b @ be_bytes c @ be_bytes d @ be_bytes e"

definition fips_sha1 :: "byte list \<Rightarrow> byte list" where
  "fips_sha1 m = vars_bytes (foldl fips_compress fips_IV (blocks64 (fips_pad m)))"

definition sha1_state :: "SHA1_INFO \<Rightarrow> sha1_vars" where
  "sha1_state s = (digest s ! 0, digest s ! 1, digest s ! 2, digest s ! 3, digest s ! 4)"

definition sha1_wf :: "SHA1_INFO \<Rightarrow> bool" where
  "sha1_wf s \<longleftrightarrow> length (data s) = 64 \<and> length (digest s) = 8"

lemma sha1_transform_state:
  assumes "sha1_wf s"
  shows "sha1_state (sha1_transform s) = fips_compress (sha1_state s) (data s)"
    and "sha1_wf (sha1_transform s)"
    and "sha1_transform s = s\<lparr>digest := digest (sha1_transform s)\<rparr>"
  using assms
  by (auto simp: sha1_wf_def sha1_state_def sha1_transform_def Let_def rounds_fips split: prod.splits)

declare fips_compress.simps [simp del]

lemma sha1_state_cong [simp]:
  "sha1_state (s\<lparr>data := d\<rparr>) = sha1_state s" "sha1_state (s\<lparr>count_lo := lo\<rparr>) = sha1_state s"
  "sha1_state (s\<lparr>count_hi := hi\<rparr>) = sha1_state s" "sha1_state (s\<lparr>sha1_local := n\<rparr>) = sha1_state s"
  by (simp_all add: sha1_state_def)

lemma transform_fields [simp]:
  "data (sha1_transform s) = data s" "count_lo (sha1_transform s) = count_lo s"
  "count_hi (sha1_transform s) = count_hi s" "sha1_local (sha1_transform s) = sha1_local s"
  by (simp_all add: sha1_transform_def Let_def split: prod.splits)

lemma blocks64_small [simp]: "length m < 64 \<Longrightarrow> blocks64 m = []"
  by (simp add: blocks64.simps)

lemma blocks64_block: "length b = 64 \<Longrightarrow> blocks64 (b @ m) = b # blocks64 m"
  by (simp add: blocks64.simps [of "b @ m"])

lemma blocks64_append:
  "64 dvd length a \<Longrightarrow> blocks64 (a @ b) = blocks64 a @ blocks64 b"
proof (induction a rule: blocks64.induct)
  case (1 a)
  show ?case
  proof (cases "64 \<le> length a")
    case True
    with 1 have "blocks64 (drop 64 a @ b) = blocks64 (drop 64 a) @ blocks64 b"
      by (simp add: dvd_minus_self)
    with True show ?thesis
      by (simp add: blocks64.simps [of "a @ b"] blocks64.simps [of a])
  next
    case False
    with 1 have "a = []" by (auto dest: dvd_imp_le)
    then show ?thesis by simp
  qed
qed

lemma length_whole_blocks [simp]: "min (length m) (64 * (length m div 64)) = 64 * (length m div 64)"
  by (simp add: min_absorb2)

definition tail64 :: "byte list \<Rightarrow> byte list" where
  "tail64 m = drop (64 * (length m div 64)) m"

lemma length_tail64 [simp]: "length (tail64 m) = length m mod 64"
  by (simp add: tail64_def minus_mult_div_eq_mod)

lemma blocks64_take: "blocks64 m = blocks64 (take (64 * (length m div 64)) m)"
proof -
  have "m = take (64 * (length m div 64)) m @ tail64 m" by (simp add: tail64_def)
  moreover have "64 dvd length (take (64 * (length m div 64)) m)" by simp
  ultimately show ?thesis
    using blocks64_append [of "take (64 * (length m div 64)) m" "tail64 m"] by simp
qed

lemma tail64_append:
  assumes "64 dvd length a"
  shows "tail64 (a @ b) = tail64 b"
  using assms by (auto simp: tail64_def elim!: dvdE)

lemma append_tail64: "\<exists>a. m = a @ tail64 m \<and> 64 dvd length a"
  by (rule exI [of _ "take (64 * (length m div 64)) m"]) (simp add: tail64_def)

lemma tail64_small: "length m < 64 \<Longrightarrow> tail64 m = m"
  by (simp add: tail64_def)

text \<open>The state after the bytes \<open>m\<close> have been absorbed, apart from the bit counter.\<close>

definition sha1_absorbed :: "SHA1_INFO \<Rightarrow> byte list \<Rightarrow> bool" where
  "sha1_absorbed s m \<longleftrightarrow> sha1_wf s \<and> sha1_state s = foldl fips_compress fips_IV (blocks64 m) \<and>
     sha1_local s = length m mod 64 \<and> take (sha1_local s) (data s) = tail64 m"

lemma update_blocks_absorbed:
  assumes "sha1_wf s" and "64 dvd length a"
    and "sha1_state s = foldl fips_compress fips_IV (blocks64 a)"
  shows "sha1_absorbed (sha1_update_blocks s b) (a @ b) \<and>
    count_lo (sha1_update_blocks s b) = count_lo s \<and> count_hi (sha1_update_blocks s b) = count_hi s"
  using assms
proof (induction s b arbitrary: a rule: sha1_update_blocks.induct)
  case (1 s b)
  show ?case
  proof (cases "64 \<le> length b")
    case True
    let ?s = "s\<lparr>data := memcpy_at 0 (take 64 b) (data s)\<rparr>"
    have d: "memcpy_at 0 (take 64 b) (data s) = take 64 b"
      using True "1.prems"(1) by (simp add: memcpy_at_def sha1_wf_def)
    have wf: "sha1_wf ?s" using True "1.prems"(1) by (simp add: sha1_wf_def d)
    have "sha1_state (sha1_transform ?s) = foldl fips_compress fips_IV (blocks64 (a @ take 64 b))"
      using sha1_transform_state(1) [OF wf] "1.prems"(2,3) True
        blocks64_block [of "take 64 b" "[]"]
      by (simp add: d blocks64_append)
    moreover have "64 dvd length (a @ take 64 b)" using "1.prems"(2) True by simp
    ultimately show ?thesis
      using "1.IH" [OF True sha1_transform_state(2) [OF wf], of "a @ take 64 b"] True
      by (simp add: sha1_update_blocks.simps [of s b])
  next
    case False
    have "length (a @ b) mod 64 = length b"
      using "1.prems"(2) False by (auto elim!: dvdE)
    with False "1.prems" show ?thesis
      by (auto simp: sha1_update_blocks.simps [of s b] sha1_absorbed_def sha1_wf_def memcpy_at_def
          blocks64_append tail64_append tail64_small)
  qed
qed

section \<open>The bit counter\<close>

definition sha1_bits :: "SHA1_INFO \<Rightarrow> nat" where
  "sha1_bits s = unat (count_hi s) * 2 ^ 32 + unat (count_lo s)"

lemma unat_lo_add: "unat (x + y :: u32) = (unat x + unat y) mod 2 ^ 32"
  by (simp add: unat_word_ariths)

lemma carry_iff: "(x + y < x) \<longleftrightarrow> 2 ^ 32 \<le> unat x + unat (y :: u32)"
proof -
  have "unat x < 2 ^ 32" "unat y < 2 ^ 32"
    using unsigned_less [of x] unsigned_less [of y] by simp_all
  then show ?thesis
    by (auto simp: word_less_nat_alt unat_lo_add mod_if)
qed

lemma mod_square: "l < M \<Longrightarrow> (a * M + l) mod (M * M) = a mod M * M + l" for l M a :: nat
  by (simp add: mod_mult2_eq mult.commute)

lemma sha1_count_bits:
  assumes "n < 2 ^ 32"
  shows "sha1_bits (sha1_count s n) = (sha1_bits s + 8 * n) mod 2 ^ 64"
proof -
  let ?lo = "unat (count_lo s)" and ?hi = "unat (count_hi s)"
  define x where "x = (push_bit 3 (of_nat n) :: u32)"
  define y where "y = (drop_bit 29 (of_nat n) :: u32)"
  have x: "unat x = 8 * n mod 2 ^ 32"
  proof -
    have "x = of_nat (8 * n)" by (simp add: x_def push_bit_eq_mult mult.commute)
    then show ?thesis by (simp only: unat_of_nat) simp
  qed
  have y: "unat y = n div 2 ^ 29"
    using assms
    by (simp add: y_def drop_bit_eq_div unat_div unat_of_nat)
  have n: "8 * n = (n div 2 ^ 29) * 2 ^ 32 + unat x"
  proof -
    have "8 * n mod 2 ^ 32 = 8 * (n mod 2 ^ 29)" by (simp add: mult_mod_right)
    moreover have "8 * (n div 2 ^ 29 * 2 ^ 29 + n mod 2 ^ 29) = 8 * n" by (simp only: div_mult_mod_eq)
    ultimately show ?thesis unfolding x by (simp only: distrib_left) simp
  qed
  define c where "c = (if count_lo s + x < count_lo s then 1 else 0 :: nat)"
  have lo: "unat (count_lo s + x) + c * 2 ^ 32 = ?lo + unat x"
  proof (cases "2 ^ 32 \<le> ?lo + unat x")
    case True
    have "?lo < 2 ^ 32" and "unat x < 2 ^ 32"
      using unsigned_less [of "count_lo s"] unsigned_less [of x] by simp_all
    with True have "(?lo + unat x) mod 2 ^ 32 = ?lo + unat x - 2 ^ 32"
      by (simp add: le_mod_geq)
    with True show ?thesis by (simp add: c_def carry_iff unat_lo_add)
  qed (simp add: c_def carry_iff unat_lo_add)
  have hi: "unat (count_hi (sha1_count s n)) = (?hi + c + n div 2 ^ 29) mod 2 ^ 32"
    by (auto simp: sha1_count_def Let_def x_def [symmetric] y_def [symmetric] c_def unat_lo_add y mod_simps)
  have lo_less: "unat (count_lo s + x) < 2 ^ 32"
    using unsigned_less [of "count_lo s + x"] by simp
  have "sha1_bits (sha1_count s n) = (?hi + c + n div 2 ^ 29) mod 2 ^ 32 * 2 ^ 32 + unat (count_lo s + x)"
    by (simp add: sha1_bits_def hi) (simp add: sha1_count_def Let_def x_def)
  also have "\<dots> = ((?hi + c + n div 2 ^ 29) * 2 ^ 32 + unat (count_lo s + x)) mod 2 ^ 64"
    using lo_less
      mod_square [of "unat (count_lo s + x)" "2 ^ 32" "?hi + c + n div 2 ^ 29"] by simp
  also have "(?hi + c + n div 2 ^ 29) * 2 ^ 32 + unat (count_lo s + x) = sha1_bits s + 8 * n"
    using lo n by (simp add: sha1_bits_def algebra_simps)
  finally show ?thesis .
qed

section \<open>Streaming\<close>

definition sha1_inv :: "SHA1_INFO \<Rightarrow> byte list \<Rightarrow> bool" where
  "sha1_inv s m \<longleftrightarrow> sha1_absorbed s m \<and> sha1_bits s = 8 * length m mod 2 ^ 64"

lemma sha1_init_inv: "sha1_wf s \<Longrightarrow> sha1_inv (sha1_init s) []"
  by (simp add: sha1_inv_def sha1_absorbed_def sha1_wf_def sha1_state_def sha1_init_def fips_IV_def
      sha1_bits_def tail64_def)

lemma count_fields [simp]:
  "digest (sha1_count s n) = digest s" "data (sha1_count s n) = data s"
  "sha1_local (sha1_count s n) = sha1_local s" "sha1_wf (sha1_count s n) = sha1_wf s"
  "sha1_state (sha1_count s n) = sha1_state s"
  by (simp_all add: sha1_count_def Let_def sha1_wf_def sha1_state_def)

lemma sha1_update_absorbed:
  assumes "sha1_absorbed s m"
  shows "sha1_absorbed (sha1_update s b) (m @ b) \<and>
    count_lo (sha1_update s b) = count_lo (sha1_count s (length b)) \<and>
    count_hi (sha1_update s b) = count_hi (sha1_count s (length b))"
proof -
  define s1 where "s1 = sha1_count s (length b)"
  obtain a where a: "m = a @ tail64 m" "64 dvd length a" using append_tail64 by blast
  have wf: "sha1_wf s1" and st: "sha1_state s1 = foldl fips_compress fips_IV (blocks64 m)"
    and loc: "sha1_local s1 = length m mod 64" and tl: "take (sha1_local s1) (data s1) = tail64 m"
    using assms by (auto simp: sha1_absorbed_def s1_def)
  have blocks: "blocks64 m = blocks64 a"
    by (subst a(1)) (simp add: blocks64_append a(2))
  show ?thesis
  proof (cases "sha1_local s1 = 0")
    case True
    then have "tail64 m = []" using loc by (metis length_0_conv length_tail64)
    with a have "m = a" by simp
    with update_blocks_absorbed [OF wf a(2)] st blocks True show ?thesis
      by (simp add: sha1_update_def s1_def [symmetric] Let_def)
  next
    case False
    define i where "i = min (64 - sha1_local s1) (length b)"
    define s2 where "s2 = s1\<lparr>data := memcpy_at (sha1_local s1) (take i b) (data s1),
        sha1_local := sha1_local s1 + i\<rparr>"
    have lt: "sha1_local s1 < 64" using loc by simp
    have len: "length (data s1) = 64" using wf by (simp add: sha1_wf_def)
    have wf2: "sha1_wf s2"
      using wf lt by (auto simp: sha1_wf_def s2_def i_def min_def)
    have fill: "take (sha1_local s1 + i) (data s2) = tail64 m @ take i b"
      using tl lt len loc by (auto simp: s2_def memcpy_at_def i_def min_def)
    have upd: "sha1_update s b =
        (if sha1_local s2 = 64 then sha1_update_blocks (sha1_transform s2) (drop i b) else s2)"
      using False by (simp add: sha1_update_def s1_def [symmetric] Let_def i_def s2_def)
    show ?thesis
    proof (cases "sha1_local s2 = 64")
      case True
      then have full: "data s2 = tail64 m @ take i b"
        using fill wf2 by (simp add: s2_def sha1_wf_def)
      have "length (m @ take i b) mod 64 = (length m mod 64 + i) mod 64"
        by (simp add: i_def mod_simps)
      also have "\<dots> = 0" using True loc by (simp add: s2_def)
      finally have dvd: "64 dvd length (m @ take i b)" by (rule mod_0_imp_dvd)
      have "sha1_state (sha1_transform s2) = foldl fips_compress fips_IV (blocks64 (m @ take i b))"
      proof -
        have "blocks64 (m @ take i b) = blocks64 a @ blocks64 (data s2)"
          by (subst a(1)) (simp add: blocks64_append a(2) full)
        also have "blocks64 (data s2) = [data s2]"
          using blocks64_block [of "data s2" "[]"] wf2 by (simp add: sha1_wf_def)
        finally show ?thesis
          using sha1_transform_state(1) [OF wf2] st blocks by (simp add: s2_def)
      qed
      from update_blocks_absorbed [OF sha1_transform_state(2) [OF wf2] dvd this, of "drop i b"] True
      show ?thesis by (simp add: upd s2_def s1_def)
    next
      case False
      then have i: "i = length b" and small: "sha1_local s1 + length b < 64"
        using lt by (auto simp: s2_def i_def min_def split: if_splits)
      have m: "m @ b = a @ (tail64 m @ b)" by (subst a(1)) simp
      have "blocks64 (m @ b) = blocks64 m" and "tail64 (m @ b) = tail64 m @ b"
        unfolding m using small loc a(2) blocks
        by (simp_all add: blocks64_append tail64_append tail64_small)
      moreover have "length (m @ b) mod 64 = sha1_local s1 + length b"
        using small loc by (metis length_append mod_add_left_eq mod_less)
      ultimately show ?thesis
        using False wf2 st fill i by (simp add: upd sha1_absorbed_def s2_def s1_def)
    qed
  qed
qed

lemma sha1_update_inv:
  assumes "sha1_inv s m" and "length b < 2 ^ 32"
  shows "sha1_inv (sha1_update s b) (m @ b)"
  using sha1_update_absorbed [of s m b] sha1_count_bits [OF assms(2), of s] assms(1)
  by (simp add: sha1_inv_def sha1_bits_def mod_simps distrib_left)

section \<open>Padding\<close>

lemma be_bytes_nat:
  "be_bytes w = map (\<lambda>i. of_nat (unat w div 256 ^ (3 - i))) [0..<4]"
proof -
  have "ucast (drop_bit k w AND 0xff) = (of_nat (unat w div 2 ^ k) :: byte)" for k
  proof -
    have "ucast (drop_bit k w AND 0xff) = (ucast (drop_bit k w) :: byte)"
      by (rule bit_word_eqI) (simp add: byte_masks bit_simps)
    also have "\<dots> = of_nat (unat (drop_bit k w))" by simp
    finally show ?thesis by (simp only: unat_drop_div)
  qed
  from this [of 24] this [of 16] this [of 8] this [of 0] show ?thesis
    by (simp add: be_bytes_def upt_rec)
qed

lemma byte_of_div:
  fixes x y :: nat
  assumes "x mod 256 ^ Suc k = y mod 256 ^ Suc k"
  shows "(of_nat (x div 256 ^ k) :: byte) = of_nat (y div 256 ^ k)"
proof -
  have "z div 256 ^ k mod 256 = z mod 256 ^ Suc k div 256 ^ k" for z :: nat
    using mod_mult2_eq [of z "256 ^ k" 256] by (simp add: mult.commute)
  then have "x div 256 ^ k mod 256 = y div 256 ^ k mod 256"
    by (simp only: assms)
  then show ?thesis
    by (simp add: word_of_nat_eq_iff take_bit_eq_mod)
qed

lemma be_bytes_count:
  assumes "sha1_bits s = n mod 2 ^ 64"
  shows "be_bytes (count_hi s) @ be_bytes (count_lo s) = be_bytes64 n"
proof -
  let ?N = "sha1_bits s"
  have lo: "unat (count_lo s) < 2 ^ 32" using unsigned_less [of "count_lo s"] by simp
  have n: "?N mod 256 ^ Suc k = n mod 256 ^ Suc k" if "k < 8" for k
  proof -
    have "(256 :: nat) ^ Suc k dvd 256 ^ 8" using that by (intro le_imp_power_dvd) simp
    then show ?thesis unfolding assms by (simp add: mod_mod_cancel)
  qed
  have hi: "unat (count_hi s) div 256 ^ k = ?N div 256 ^ (4 + k)" for k
  proof -
    have "?N div 2 ^ 32 = unat (count_hi s)" using lo by (simp add: sha1_bits_def)
    then show ?thesis by (simp add: power_add div_mult2_eq)
  qed
  have lo': "(of_nat (unat (count_lo s) div 256 ^ k) :: byte) = of_nat (n div 256 ^ k)" if "k < 4" for k
  proof -
    have "(256 :: nat) ^ Suc k dvd 256 ^ 4" using that by (intro le_imp_power_dvd) simp
    moreover have "unat (count_lo s) = ?N mod 256 ^ 4" using lo by (simp add: sha1_bits_def)
    ultimately have "unat (count_lo s) mod 256 ^ Suc k = n mod 256 ^ Suc k"
      using n [of k] that by (simp add: mod_mod_cancel)
    then show ?thesis by (rule byte_of_div)
  qed
  have hi': "(of_nat (unat (count_hi s) div 256 ^ k) :: byte) = of_nat (n div 256 ^ (4 + k))" if "k < 4" for k
    unfolding hi using n [of "4 + k"] that by (intro byte_of_div) simp
  show ?thesis
    using hi' [of 3] hi' [of 2] hi' [of 1] hi' [of 0] lo' [of 3] lo' [of 2] lo' [of 1] lo' [of 0]
    by (simp add: be_bytes_nat be_bytes64_def upt_rec)
qed

lemma final_index:
  assumes "sha1_bits s = 8 * n mod 2 ^ 64"
  shows "unat (drop_bit 3 (count_lo s) AND 0x3f) = n mod 64"
proof -
  have "unat (count_lo s) < 2 ^ 32" using unsigned_less [of "count_lo s"] by simp
  then have "unat (count_lo s) = sha1_bits s mod 2 ^ 32" by (simp add: sha1_bits_def)
  also have "\<dots> = 8 * n mod 2 ^ 32" unfolding assms by (simp add: mod_mod_cancel)
  finally have lo: "unat (count_lo s) = 8 * n mod 2 ^ 32" .
  have "(0x3f :: u32) = mask 6" by (simp add: mask_eq_exp_minus_1)
  then have "unat (drop_bit 3 (count_lo s) AND 0x3f) = take_bit 6 (unat (drop_bit 3 (count_lo s)))"
    by (simp only: take_bit_eq_mask [symmetric] unsigned_take_bit_eq)
  also have "\<dots> = unat (count_lo s) div 8 mod 64"
    by (simp only: unat_drop_div take_bit_eq_mod) simp
  also have "unat (count_lo s) div 8 mod 64 = n mod 64"
  proof -
    have "8 * n mod 2 ^ 32 = 8 * (n mod 2 ^ 29)" by (simp add: mult_mod_right)
    then show ?thesis unfolding lo by (simp add: mod_mod_cancel)
  qed
  finally show ?thesis .
qed

lemma sha1_final_absorbed:
  assumes "sha1_inv s m"
  shows "sha1_state (snd (sha1_final s)) = foldl fips_compress fips_IV (blocks64 (fips_pad m))"
proof -
  let ?r = "length m mod 64"
  define len where "len = be_bytes64 (8 * length m)"
  have len8: "length len = 8" by (simp add: len_def be_bytes64_def)
  have wf: "sha1_wf s" and st: "sha1_state s = foldl fips_compress fips_IV (blocks64 m)"
    and loc: "sha1_local s = ?r" and tl: "take ?r (data s) = tail64 m"
    and bits: "sha1_bits s = 8 * length m mod 2 ^ 64"
    using assms by (auto simp: sha1_inv_def sha1_absorbed_def)
  note lenw = be_bytes_count [OF bits, folded len_def]
  have d64: "length (data s) = 64" using wf by (simp add: sha1_wf_def)
  have r: "?r < 64" by simp
  obtain a where a: "m = a @ tail64 m" "64 dvd length a" using append_tail64 by blast
  have blocks: "blocks64 m = blocks64 a" by (subst a(1)) (simp add: blocks64_append a(2))
  define d1 where "d1 = (data s)[?r := 0x80]"
  have d1: "take (Suc ?r) d1 = tail64 m @ [0x80]" and d1_len: "length d1 = 64"
    using tl d64 by (simp_all add: d1_def take_Suc_conv_app_nth)
  show ?thesis
  proof (cases "Suc ?r > 56")
    case False
    define d2 where "d2 = memcpy_at 56 len (memset_at (Suc ?r) 0 (56 - Suc ?r) d1)"
    have d2: "d2 = tail64 m @ 0x80 # replicate (55 - ?r) 0 @ len"
      using d1 d1_len False len8
      by (simp add: d2_def memset_at_def memcpy_at_def take_Cons')
    have fin: "snd (sha1_final s) = sha1_transform (s\<lparr>data := d2\<rparr>)"
      using False final_index [OF bits]
      by (simp add: sha1_final_def Let_def sha1_transform_and_copy_def d1_def [symmetric] d2_def lenw)
    have wf2: "sha1_wf (s\<lparr>data := d2\<rparr>)" using wf False len8 by (simp add: d2 sha1_wf_def)
    have "fips_pad m = a @ d2"
    proof -
      have "119 - ?r = (55 - ?r) + 64" using False by simp
      moreover have "55 - ?r < 64" by simp
      ultimately have "(119 - ?r) mod 64 = 55 - ?r" by (simp only: mod_add_self2 mod_less)
      then show ?thesis unfolding fips_pad_def by (subst a(1)) (simp add: d2 len_def)
    qed
    then have "blocks64 (fips_pad m) = blocks64 m @ [d2]"
      using blocks64_block [of d2 "[]"] wf2 by (simp add: blocks64_append a(2) blocks sha1_wf_def)
    then show ?thesis using sha1_transform_state(1) [OF wf2] by (simp add: fin st)
  next
    case True
    define d2 where "d2 = memset_at (Suc ?r) 0 (64 - Suc ?r) d1"
    define s2 where "s2 = sha1_transform (s\<lparr>data := d2\<rparr>)"
    define d3 where "d3 = memcpy_at 56 len (memset_at 0 0 56 d2)"
    have d2: "d2 = tail64 m @ 0x80 # replicate (63 - ?r) 0"
      using d1 d1_len r by (simp add: d2_def memset_at_def memcpy_at_def)
    have d3: "d3 = replicate 56 0 @ len"
      using len8 r by (simp add: d3_def memset_at_def memcpy_at_def d2)
    have wf2: "sha1_wf (s\<lparr>data := d2\<rparr>)" using wf r by (simp add: d2 sha1_wf_def)
    have fin: "snd (sha1_final s) = sha1_transform (s2\<lparr>data := d3\<rparr>)"
      using True final_index [OF bits]
      by (simp add: sha1_final_def Let_def sha1_transform_and_copy_def d1_def [symmetric]
          d2_def d3_def s2_def lenw)
    have wf3: "sha1_wf (s2\<lparr>data := d3\<rparr>)"
      using sha1_transform_state(2) [OF wf2] len8 by (simp add: s2_def d3 sha1_wf_def)
    have "fips_pad m = (a @ d2) @ d3"
    proof -
      have pad: "(119 - ?r) mod 64 = (63 - ?r) + 56" using True r by simp
      show ?thesis unfolding fips_pad_def pad replicate_add
        by (subst a(1)) (simp add: d2 d3 len_def)
    qed
    moreover have "length d2 = 64" "length d3 = 64" using wf2 wf3 by (simp_all add: sha1_wf_def)
    ultimately have "blocks64 (fips_pad m) = blocks64 m @ [d2, d3]"
      using blocks64_block [of d2 d3] blocks64_block [of d3 "[]"] by (simp add: blocks64_append a(2) blocks)
    then show ?thesis
      using sha1_transform_state(1) [OF wf2] sha1_transform_state(1) [OF wf3]
      by (simp add: fin st s2_def)
  qed
qed

section \<open>Correctness of SHA-1\<close>

definition sha1_digest :: "SHA1_INFO \<Rightarrow> byte list list \<Rightarrow> byte list" where
  "sha1_digest s chunks = fst (sha1_final (foldl sha1_update (sha1_init s) chunks))"

lemma fst_sha1_final: "fst (sha1_final s) = vars_bytes (sha1_state (snd (sha1_final s)))"
  by (simp add: sha1_final_def Let_def sha1_transform_and_copy_def sha1_state_def)

section \<open>SHA-1 as a digest\<close>

lemma length_digest_transform: "length (digest (sha1_transform s)) = length (digest s)"
  by (simp add: sha1_transform_def Let_def split: prod.splits)

lemma sha1_final_wf:
  assumes "sha1_wf s"
  shows "sha1_wf (snd (sha1_final s))"
proof -
  have idx: "unat (drop_bit 3 (count_lo s) AND 0x3f) < 64"
  proof -
    have "drop_bit 3 (count_lo s) AND 0x3f \<le> 0x3f" by (rule word_and_le1)
    then show ?thesis by (simp add: word_le_nat_alt)
  qed
  have "length (be_bytes w) = 4" for w by (simp add: be_bytes_def)
  with assms idx show ?thesis
    by (auto simp: sha1_final_def Let_def sha1_transform_and_copy_def intro!: sha1_transform_state(2))
       (auto simp: sha1_wf_def sha1_transform_state(2) length_digest_transform intro!: sha1_transform_state(2))
qed

interpretation sha1: streaming_digest sha1_wf sha1_inv sha1_init sha1_update sha1_final fips_sha1
proof
  show "sha1_wf s \<Longrightarrow> sha1_inv (sha1_init s) []" for s
    by (rule sha1_init_inv)
  show "sha1_inv s m \<Longrightarrow> length b < 2 ^ 31 \<Longrightarrow> sha1_inv (sha1_update s b) (m @ b)" for s m b
    by (rule sha1_update_inv) simp_all
  show "sha1_inv s m \<Longrightarrow> fst (sha1_final s) = fips_sha1 m" for s m
    using sha1_final_absorbed [of s m] by (simp add: fst_sha1_final fips_sha1_def)
  show "sha1_inv s m \<Longrightarrow> sha1_wf (snd (sha1_final s))" for s m
    by (simp add: sha1_inv_def sha1_absorbed_def sha1_final_wf)
qed

text \<open>
  C3. Streaming correctness of SHA-1: from any well-formed (possibly uninitialised) context,
  initialising, feeding the message in arbitrary chunks (each of a length an \<^verbatim>\<open>int\<close> holds) and
  finalising writes the FIPS 180 digest of the concatenated message, whatever the chunking.
\<close>

theorem sha1_correct:
  assumes "sha1_wf s" and "list_all (\<lambda>c. length c < 2 ^ 31) chunks"
  shows "sha1_digest s chunks = fips_sha1 (concat chunks)"
  using sha1.hash_chunks [OF assms] by (simp add: sha1_digest_def)

theorem sha1_correct_witness:
  "sha1_digest \<lparr>digest = replicate 8 0, count_lo = 0, count_hi = 0, data = replicate 64 0, sha1_local = 0\<rparr>
     [[97], [98, 99]] = fips_sha1 [97, 98, 99]"
  using sha1_correct [of "\<lparr>digest = replicate 8 0, count_lo = 0, count_hi = 0, data = replicate 64 0,
     sha1_local = 0\<rparr>" "[[97], [98, 99]]"]
  by (simp add: sha1_wf_def)

text \<open>
  C4. The UNRAVEL build of the transform, in which the roles of the six local variables
  rotate instead of their contents, leaves the context exactly as the loop build does,
  whatever the uninitialised temporary holds.
\<close>

theorem sha1_unravel_equiv: "sha1_transform_unravel T0 s = sha1_transform s"
proof -
  define W where "W = sha1_schedule (data s)"
  have len: "length W = 80" by (simp add: W_def)
  let ?d = "digest s"
  let ?u = "(T0, ?d ! 0, ?d ! 1, ?d ! 2, ?d ! 3, ?d ! 4)"
  have view: "unravel_view 80 (sha1_rounds_unravel W ?u) = sha1_rounds W (?d ! 0, ?d ! 1, ?d ! 2, ?d ! 3, ?d ! 4)"
    using unravel_run_view [of 0 "take 20 W" f1 CONST1 ?u]
      unravel_run_view [of 20 "take 20 (drop 20 W)" f2 CONST2]
      unravel_run_view [of 40 "take 20 (drop 40 W)" f3 CONST3]
      unravel_run_view [of 60 "take 20 (drop 60 W)" f4 CONST4]
    by (simp add: sha1_rounds_unravel_def sha1_rounds_def len)
  obtain T A B C D E where u: "sha1_rounds_unravel W ?u = (T, A, B, C, D, E)" by (metis prod_cases6)
  from view have "sha1_rounds W (?d ! 0, ?d ! 1, ?d ! 2, ?d ! 3, ?d ! 4) = (E, T, A, B, C)"
    unfolding u by simp
  then show ?thesis
    using u by (simp add: sha1_transform_unravel_def sha1_transform_def Let_def W_def [symmetric])
qed

end
