(* ===== verification/Hotp.thy ===== *)
theory Hotp
  imports Sha1
begin

text \<open>
  HMAC-SHA1 (\<^verbatim>\<open>libpam/hmac.c\<close>; \<^verbatim>\<open>hotp/hmac.c\<close> is the same file) and the verification code of the PAM
  module (\<^verbatim>\<open>compute_code\<close> of \<^verbatim>\<open>pam_google_authenticator.c\<close>). The uninitialised locals of the C
  functions (the SHA-1 context and the scratch arrays) are arguments, so the theorems hold
  whatever the stack holds. The references are RFC 2104 over the FIPS 180 hash and the
  dynamic truncation of RFC 4226 on natural numbers.
\<close>

unbundle bit_operations_syntax

abbreviation zero_ctx :: SHA1_INFO where
  "zero_ctx \<equiv> \<lparr>digest = replicate 8 0, count_lo = 0, count_hi = 0, data = replicate 64 0, sha1_local = 0\<rparr>"

section \<open>HMAC-SHA1\<close>

definition hmac_key_pad :: "byte \<Rightarrow> byte list \<Rightarrow> byte list \<Rightarrow> byte list" where
  "hmac_key_pad c key tmp_key =
     memset_at (length key) c (64 - length key) (memcpy_at 0 (map (\<lambda>b. b XOR c) key) tmp_key)"

definition hmac_sha1 :: "SHA1_INFO \<Rightarrow> byte list \<Rightarrow> byte list \<Rightarrow> byte list \<Rightarrow> nat \<Rightarrow> byte list" where
  "hmac_sha1 ctx tmp_key key msg resultLength =
     (let (key, ctx) = (if length key > 64 then sha1_final (sha1_update (sha1_init ctx) key) else (key, ctx));
          tmp_key = hmac_key_pad 0x36 key tmp_key;
          (sha, ctx) = sha1_final (sha1_update (sha1_update (sha1_init ctx) tmp_key) msg);
          tmp_key = hmac_key_pad 0x5C key tmp_key;
          (sha, ctx) = sha1_final (sha1_update (sha1_update (sha1_init ctx) tmp_key) sha);
          result = replicate resultLength 0;
          resultLength = (if resultLength > 20 then 20 else resultLength)
      in memcpy_at 0 (take resultLength sha) result)"

lemma hmac_key_pad_xor:
  assumes "length key \<le> 64" and "length tmp = 64"
  shows "hmac_key_pad c key tmp = map (\<lambda>b. b XOR c) (key @ replicate (64 - length key) 0)"
  using assms by (simp add: hmac_key_pad_def memset_at_def memcpy_at_def)

lemma length_fips_sha1 [simp]: "length (fips_sha1 m) = 20"
proof -
  obtain a b c d e where "foldl fips_compress fips_IV (blocks64 (fips_pad m)) = (a, b, c, d, e)"
    by (metis prod_cases5)
  then show ?thesis by (simp add: fips_sha1_def be_bytes_def)
qed

lemma length_rfc2104_key: "length (rfc2104_key fips_sha1 64 key) = 64"
  by (simp add: rfc2104_key_def Let_def)

lemma hmac_sha1_eq:
  assumes wf: "sha1_wf ctx" and tmp: "length tmp = 64"
    and "length key < 2 ^ 31" and "length msg < 2 ^ 31"
  shows "hmac_sha1 ctx tmp key msg n = take n (rfc2104 fips_sha1 64 key msg) @ replicate (n - 20) 0"
proof -
  define kc where "kc = (if length key > 64 then sha1_final (sha1_update (sha1_init ctx) key) else (key, ctx))"
  have kc1: "fst kc = (if length key > 64 then fips_sha1 key else key)" and kc2: "sha1_wf (snd kc)"
    using sha1.hash_one [OF wf assms(3)] wf by (auto simp: kc_def)
  then have len: "length (fst kc) \<le> 64" by auto
  define ki where "ki = hmac_key_pad 0x36 (fst kc) tmp"
  have ki: "ki = map (\<lambda>b. b XOR 0x36) (rfc2104_key fips_sha1 64 key)"
    unfolding ki_def hmac_key_pad_xor [OF len tmp] by (simp add: kc1 rfc2104_key_def)
  then have lki: "length ki = 64" by (simp add: length_rfc2104_key)
  define ko where "ko = hmac_key_pad 0x5C (fst kc) ki"
  have ko: "ko = map (\<lambda>b. b XOR 0x5c) (rfc2104_key fips_sha1 64 key)"
    unfolding ko_def hmac_key_pad_xor [OF len lki] by (simp add: kc1 rfc2104_key_def)
  then have lko: "length ko = 64" by (simp add: length_rfc2104_key)
  define si where "si = sha1_final (sha1_update (sha1_update (sha1_init (snd kc)) ki) msg)"
  have si: "fst si = fips_sha1 (ki @ msg)" "sha1_wf (snd si)"
    using sha1.hash_two [OF kc2 _ assms(4), of ki] lki by (auto simp: si_def)
  define so where "so = sha1_final (sha1_update (sha1_update (sha1_init (snd si)) ko) (fst si))"
  have so: "fst so = rfc2104 fips_sha1 64 key msg"
    using sha1.hash_two [OF si(2), of ko "fst si"] lko si(1)
    by (simp add: so_def rfc2104_def ki ko Let_def)
  have "hmac_sha1 ctx tmp key msg n =
    memcpy_at 0 (take (if n > 20 then 20 else n) (fst so)) (replicate n 0)"
    by (simp add: hmac_sha1_def kc_def [symmetric] ki_def [symmetric] ko_def [symmetric]
        si_def [symmetric] so_def [symmetric] Let_def split_beta)
  then show ?thesis by (simp add: so memcpy_at_def rfc2104_def Let_def)
qed

text \<open>
  C5. \<^verbatim>\<open>hmac_sha1\<close> writes the RFC 2104 MAC over SHA-1 with block size 64: long keys are hashed
  first, short ones zero-padded; the caller's buffer of \<open>n\<close> bytes receives the first \<open>n\<close> bytes
  of the MAC, padded with zeros when it is longer than the 20-byte digest.
\<close>

theorem hmac_sha1_rfc2104:
  assumes "sha1_wf ctx" and "length tmp = 64" and "length key < 2 ^ 31" and "length msg < 2 ^ 31"
  shows "hmac_sha1 ctx tmp key msg n = take n (rfc2104 fips_sha1 64 key msg) @ replicate (n - 20) 0"
  using assms by (rule hmac_sha1_eq)

theorem hmac_sha1_rfc2104_witness:
  "hmac_sha1 zero_ctx (replicate 64 0xaa) (replicate 80 7) [1, 2] 22 =
     take 22 (rfc2104 fips_sha1 64 (replicate 80 7) [1, 2]) @ replicate 2 0"
  using hmac_sha1_rfc2104 [of zero_ctx "replicate 64 0xaa" "replicate 80 7" "[1, 2]" 22]
  by (simp add: sha1_wf_def)

section \<open>RFC 4226\<close>

definition be_nat :: "byte list \<Rightarrow> nat" where
  "be_nat bs = foldl (\<lambda>n b. n * 256 + unat b) 0 bs"

definition rfc4226_snum :: "byte list \<Rightarrow> nat \<Rightarrow> nat" where
  "rfc4226_snum hs offset = be_nat (take 4 (drop offset hs)) mod 2 ^ 31"

definition rfc4226_offset :: "byte list \<Rightarrow> nat" where
  "rfc4226_offset hs = unat (hs ! 19) mod 16"

definition rfc4226 :: "byte list \<Rightarrow> byte list \<Rightarrow> nat \<Rightarrow> nat" where
  "rfc4226 key counter digits =
     (let hs = rfc2104 fips_sha1 64 key counter
      in rfc4226_snum hs (rfc4226_offset hs) mod 10 ^ digits)"

section \<open>compute\_code\<close>

fun store_value :: "nat \<Rightarrow> 64 word \<Rightarrow> byte list \<Rightarrow> byte list" where
  "store_value 0 value val = val"
| "store_value (Suc i) value val = store_value i (drop_bit 8 value) (val[i := ucast value])"

fun truncate_loop :: "nat \<Rightarrow> nat \<Rightarrow> byte list \<Rightarrow> u32 \<Rightarrow> u32" where
  "truncate_loop 0 j hash h = h"
| "truncate_loop (Suc n) j hash h = truncate_loop n (Suc j) hash (push_bit 8 h OR ucast (hash ! j))"

definition compute_code :: "SHA1_INFO \<Rightarrow> byte list \<Rightarrow> byte list \<Rightarrow> byte list \<Rightarrow> 64 word \<Rightarrow> u32" where
  "compute_code ctx tmp_key val secret value =
     (let val = store_value 8 value val;
          hash = hmac_sha1 ctx tmp_key secret val 20;
          offset = unat (hash ! (20 - 1) AND 0xF);
          truncatedHash = truncate_loop 4 offset hash 0;
          truncatedHash = truncatedHash AND 0x7FFFFFFF
      in truncatedHash mod 1000000)"

lemma store_value_append:
  "n \<le> length val \<Longrightarrow> store_value n v val = map (\<lambda>i. ucast (drop_bit (8 * (n - 1 - i)) v)) [0..<n] @ drop n val"
proof (induction n arbitrary: v val)
  case (Suc n)
  have "map (\<lambda>i. ucast (drop_bit (8 * (n - 1 - i)) (drop_bit 8 v)) :: byte) [0..<n] =
    map (\<lambda>i. ucast (drop_bit (8 * (n - i)) v)) [0..<n]"
    by (auto simp: drop_bit_drop_bit algebra_simps simp flip: mult_Suc_right intro!: arg_cong2 [where f = drop_bit])
  moreover have "drop n (val[n := ucast v]) = ucast v # drop (Suc n) val"
    using Suc.prems by (simp add: Cons_nth_drop_Suc [symmetric])
  ultimately show ?case using Suc by simp
qed simp

lemma store_value_be_bytes64:
  assumes "length val = 8"
  shows "store_value 8 v val = be_bytes64 (unat v)"
proof -
  have "(ucast (drop_bit (8 * (7 - i)) v) :: byte) = of_nat (unat v div 256 ^ (7 - i))" for i
  proof -
    have "drop_bit (8 * (7 - i)) (unat v) = unat v div 256 ^ (7 - i)"
      by (simp add: drop_bit_eq_div power_mult)
    then show ?thesis
      by (metis unat_drop_bit_eq of_nat_unat)
  qed
  with assms show ?thesis
    by (simp add: store_value_append be_bytes64_def)
qed

lemma low4: "unat ((b :: byte) AND 0xF) = unat b mod 16"
proof -
  have "b AND 0xF = take_bit 4 b" by (simp add: take_bit_eq_mask mask_eq_exp_minus_1)
  then have "unat (b AND 0xF) = take_bit 4 (unat b)" by (simp only: unsigned_take_bit_eq)
  then show ?thesis by (simp add: take_bit_eq_mod)
qed

lemma truncate_step:
  "push_bit 8 h OR (ucast (b :: byte) :: u32) = h * 256 + ucast b"
proof -
  have "push_bit 8 h OR (ucast b :: u32) = push_bit 8 h + ucast b"
    by (rule disjunctive_add [symmetric]) (auto simp: bit_simps dest: bit_imp_le_length)
  then show ?thesis by (simp add: push_bit_eq_mult)
qed

lemma be_nat_ucast:
  "foldl (\<lambda>h b. h * 256 + ucast b) (of_nat n) bs = (of_nat (foldl (\<lambda>n b. n * 256 + unat b) n bs) :: u32)"
proof (induction bs arbitrary: n)
  case (Cons b bs)
  have "of_nat n * 256 + (ucast b :: u32) = of_nat (n * 256 + unat b)"
    by (simp add: of_nat_unat)
  then show ?case using Cons [of "n * 256 + unat b"] by simp
qed simp

lemma truncate_loop_foldl:
  "j + n \<le> length hs \<Longrightarrow>
    truncate_loop n j hs h = foldl (\<lambda>h b. h * 256 + ucast b) h (take n (drop j hs))"
  by (induction n arbitrary: j h) (simp_all add: truncate_step take_Suc_conv_app_nth Cons_nth_drop_Suc [symmetric])

lemma low31: "unat ((w :: u32) AND 0x7FFFFFFF) = unat w mod 2 ^ 31"
proof -
  have "w AND 0x7FFFFFFF = take_bit 31 w" by (simp add: take_bit_eq_mask mask_eq_exp_minus_1)
  then have "unat (w AND 0x7FFFFFFF) = take_bit 31 (unat w)" by (simp only: unsigned_take_bit_eq)
  then show ?thesis by (simp add: take_bit_eq_mod)
qed

lemma unat_of_nat_mod31: "unat (of_nat n :: u32) mod 2 ^ 31 = n mod 2 ^ 31"
  by (simp add: unsigned_of_nat take_bit_eq_mod mod_mod_cancel)

lemma truncate_loop_be:
  assumes "j + 4 \<le> length hs"
  shows "unat (truncate_loop 4 j hs 0 AND 0x7FFFFFFF) = rfc4226_snum hs j"
  unfolding low31 truncate_loop_foldl [OF assms] rfc4226_snum_def be_nat_def
  using be_nat_ucast [of 0 "take 4 (drop j hs)"] unat_of_nat_mod31 by simp

lemma length_rfc2104 [simp]: "length (rfc2104 fips_sha1 B key msg) = 20"
  by (simp add: rfc2104_def Let_def)

text \<open>
  C6. \<^verbatim>\<open>compute_code\<close> returns the six-digit HOTP value of RFC 4226 for the secret and the moving
  factor: the counter is sent big-endian, the offset and the four selected bytes never leave the
  20-byte MAC, and the result is below one million.
\<close>

theorem compute_code_rfc4226:
  assumes "sha1_wf ctx" and "length tmp = 64" and "length val = 8" and "length secret < 2 ^ 31"
  shows "unat (compute_code ctx tmp val secret value) = rfc4226 secret (be_bytes64 (unat value)) 6 \<and>
    compute_code ctx tmp val secret value < 1000000"
proof (intro conjI)
  let ?hs = "rfc2104 fips_sha1 64 secret (be_bytes64 (unat value))"
  have "length (be_bytes64 (unat value)) < 2 ^ 31" by (simp add: be_bytes64_def)
  then have hs: "hmac_sha1 ctx tmp secret (store_value 8 value val) 20 = ?hs"
    using assms by (simp add: hmac_sha1_eq store_value_be_bytes64)
  have "rfc4226_offset ?hs + 4 \<le> length ?hs" by (simp add: rfc4226_offset_def)
  from truncate_loop_be [OF this]
  show "unat (compute_code ctx tmp val secret value) = rfc4226 secret (be_bytes64 (unat value)) 6"
    by (simp add: compute_code_def hs low4 rfc4226_def unat_mod rfc4226_offset_def Let_def)
  show "compute_code ctx tmp val secret value < 1000000"
    by (simp add: compute_code_def Let_def word_less_nat_alt unat_mod)
qed

theorem compute_code_rfc4226_witness:
  "unat (compute_code zero_ctx (replicate 64 0) (replicate 8 0) [1, 2, 3] 37037036) =
     rfc4226 [1, 2, 3] (be_bytes64 37037036) 6"
  using compute_code_rfc4226 [of zero_ctx "replicate 64 0" "replicate 8 0" "[1, 2, 3]" 37037036]
  by (simp add: sha1_wf_def)

end
