(* ===== verification/GenerateHotp.thy ===== *)
theory GenerateHotp
  imports Hotp "HOL-Library.Signed_Division"
begin

text \<open>
  The one-time password generator \<^verbatim>\<open>hotp/generate_hotp.c\<close>: the check digit, the number-to-string
  routine \<^verbatim>\<open>myitoa\<close> and \<^verbatim>\<open>generateOTP\<close>. Buffers are strings of a fixed length; a store outside the
  buffer, an index outside a table (\<^verbatim>\<open>doubleDigits\<close>, \<^verbatim>\<open>DIGITS_POWER\<close>) is the value None. \<open>put\<close> is one
  byte store. Integers of type \<^verbatim>\<open>int\<close> that can wrap are \<^typ>\<open>u32\<close>; C's truncating division on the
  possibly negative argument of \<^verbatim>\<open>calcChecksum\<close> is \<open>sdiv\<close> and \<open>smod\<close>.
\<close>

unbundle bit_operations_syntax

section \<open>The check digit\<close>

definition doubleDigits :: "int list" where
  "doubleDigits = [0, 2, 4, 6, 8, 1, 3, 5, 7, 9]"

definition DIGITS_POWER :: "u32 list" where
  "DIGITS_POWER = [1, 10, 100, 1000, 10000, 100000, 1000000, 10000000, 100000000]"

fun calcChecksum_loop :: "nat \<Rightarrow> int \<Rightarrow> bool \<Rightarrow> int \<Rightarrow> int option" where
  "calcChecksum_loop 0 num doubleDigit tot = Some tot"
| "calcChecksum_loop (Suc digits) num doubleDigit tot =
     (let digit = num smod 10; num = num sdiv 10
      in if doubleDigit
         then if digit < 0 then None
              else calcChecksum_loop digits num (\<not> doubleDigit) (tot + doubleDigits ! nat digit)
         else calcChecksum_loop digits num (\<not> doubleDigit) (tot + digit))"

definition calcChecksum :: "int \<Rightarrow> int \<Rightarrow> int option" where
  "calcChecksum num digits =
     (case calcChecksum_loop (nat digits) num True 0 of
        None \<Rightarrow> None
      | Some tot \<Rightarrow>
          (let result = tot smod 10 in Some (if result > 0 then 10 - result else result)))"

definition digit_at :: "int \<Rightarrow> nat \<Rightarrow> int" where
  "digit_at num k = num div 10 ^ k mod 10"

definition luhn_weight :: "nat \<Rightarrow> int \<Rightarrow> int" where
  "luhn_weight k d = (if even k then (if d < 5 then 2 * d else 2 * d - 9) else d)"

definition luhn_sum :: "int \<Rightarrow> nat \<Rightarrow> int" where
  "luhn_sum num n = (\<Sum>k<n. luhn_weight k (digit_at num k))"

lemma digit_at_range: "0 \<le> digit_at num k" "digit_at num k < 10"
  by (simp_all add: digit_at_def)

lemma doubleDigits_luhn:
  assumes "0 \<le> d" and "d < 10"
  shows "doubleDigits ! nat d = luhn_weight 0 d"
proof -
  from assms have "d = 0 \<or> d = 1 \<or> d = 2 \<or> d = 3 \<or> d = 4 \<or> d = 5 \<or> d = 6 \<or> d = 7 \<or> d = 8 \<or> d = 9"
    by arith
  then show ?thesis by (elim disjE) (simp_all add: doubleDigits_def luhn_weight_def)
qed

lemma digit_at_div: "digit_at (num div 10) k = digit_at num (Suc k)"
  by (simp add: digit_at_def div_mult2_eq zdiv_zmult2_eq)

lemma luhn_weight_parity: "even j \<longleftrightarrow> even k \<Longrightarrow> luhn_weight j = luhn_weight k"
  by (simp add: luhn_weight_def fun_eq_iff)

lemma calcChecksum_loop_sum:
  assumes "0 \<le> num"
  shows "calcChecksum_loop n num dd tot =
    Some (tot + (\<Sum>k<n. luhn_weight (if dd then k else Suc k) (digit_at num k)))"
  using assms
proof (induction n arbitrary: num dd tot)
  case (Suc n)
  have c: "num smod 10 = digit_at num 0" "num sdiv 10 = num div 10"
    using Suc.prems by (simp_all add: digit_at_def signed_modulo_int_def signed_divide_int_def sgn_if abs_if)
  have w: "luhn_weight (Suc (Suc k)) = luhn_weight k" for k
    by (rule luhn_weight_parity) simp
  show ?case
    using Suc.prems Suc.IH [of "num div 10"] digit_at_range [of num 0]
      doubleDigits_luhn [OF digit_at_range, of num 0]
    by (cases dd) (auto simp: c Let_def digit_at_div sum.lessThan_Suc_shift w luhn_weight_def [of "Suc 0"]
        simp del: sum.lessThan_Suc)
qed simp

lemma calcChecksum_luhn:
  assumes "0 \<le> num"
  shows "calcChecksum num (int n) = Some (- luhn_sum num n mod 10)"
proof -
  have pos: "0 \<le> luhn_sum num n"
    unfolding luhn_sum_def using digit_at_range by (auto intro!: sum_nonneg simp: luhn_weight_def)
  then have "luhn_sum num n smod 10 = luhn_sum num n mod 10"
    by (simp add: signed_modulo_int_def signed_divide_int_def sgn_if abs_if minus_div_mult_eq_mod)
  moreover have "(if 0 < t mod 10 then 10 - t mod 10 else t mod 10) = - t mod 10" for t :: int
    by (simp add: zmod_zminus1_eq_if)
       (metis pos_mod_sign zero_less_numeral not_less order_antisym)
  ultimately show ?thesis
    using calcChecksum_loop_sum [OF assms, of n True 0]
    by (simp add: calcChecksum_def luhn_sum_def Let_def)
qed

lemma luhn_weight_cases: "luhn_weight k = luhn_weight 0 \<and> luhn_weight (Suc k) = luhn_weight 1 \<or>
    luhn_weight k = luhn_weight 1 \<and> luhn_weight (Suc k) = luhn_weight 0"
  by (cases "even k") (auto intro!: luhn_weight_parity)

lemma digits_range: "{0..9 :: int} = {0, 1, 2, 3, 4, 5, 6, 7, 8, 9}"
  unfolding set_upto [symmetric] by (simp add: upto_rec1 del: set_upto)

lemma luhn_weight_inj:
  assumes "d \<in> {0..9}" "e \<in> {0..9}" "luhn_weight k d mod 10 = luhn_weight k e mod 10"
  shows "d = e"
proof -
  let ?P = "\<lambda>k. \<forall>d\<in>{0..9}. \<forall>e\<in>{0..9}. luhn_weight k d mod 10 = luhn_weight k e mod 10 \<longrightarrow> d = e"
  have "?P 0" "?P 1" by (simp_all add: digits_range luhn_weight_def)
  then have "?P k" using luhn_weight_cases [of k] by (elim disjE conjE) (simp_all only:)
  with assms show ?thesis by blast
qed


definition set_digit :: "int \<Rightarrow> nat \<Rightarrow> int \<Rightarrow> int" where
  "set_digit num k e = num + (e - digit_at num k) * 10 ^ k"

lemma digit_split: "num = (num div 10 ^ Suc k) * 10 ^ Suc k + digit_at num k * 10 ^ k + num mod 10 ^ k"
proof -
  have "num div 10 ^ k = (num div 10 ^ k div 10) * 10 + num div 10 ^ k mod 10" by simp
  moreover have "num div 10 ^ k div 10 = num div 10 ^ Suc k"
    by (simp add: power_Suc2 zdiv_zmult2_eq del: power_Suc)
  ultimately have "num div 10 ^ k = (num div 10 ^ Suc k) * 10 + digit_at num k" by (simp add: digit_at_def)
  moreover have "num = (num div 10 ^ k) * 10 ^ k + num mod 10 ^ k" by (rule div_mult_mod_eq [symmetric])
  ultimately have "num = ((num div 10 ^ Suc k) * 10 + digit_at num k) * 10 ^ k + num mod 10 ^ k" by metis
  then show ?thesis by (simp add: algebra_simps)
qed

lemma set_digit_split:
  "set_digit num k e = (num div 10 ^ Suc k) * 10 ^ Suc k + e * 10 ^ k + num mod 10 ^ k"
  using digit_split [of num k] by (simp add: set_digit_def algebra_simps)

lemma set_digit_nonneg: "0 \<le> num \<Longrightarrow> 0 \<le> e \<Longrightarrow> 0 \<le> set_digit num k e"
  unfolding set_digit_split by (intro add_nonneg_nonneg mult_nonneg_nonneg) (simp_all add: pos_imp_zdiv_nonneg_iff)

lemma digit_at_set_digit:
  assumes "0 \<le> e" and "e < 10"
  shows "digit_at (set_digit num k e) j = (if j = k then e else digit_at num j)"
proof -
  consider "j < k" | "j = k" | "k < j" by linarith
  then show ?thesis
  proof cases
    case 1
    define c where "c = (e - digit_at num k) * 10 ^ (k - Suc j)"
    have "(10 :: int) ^ k = 10 ^ (k - Suc j) * (10 * 10 ^ j)"
      using 1 by (simp flip: power_Suc power_add)
    then have "set_digit num k e = num + (c * 10) * 10 ^ j"
      by (simp add: set_digit_def c_def)
    then have "set_digit num k e div 10 ^ j = num div 10 ^ j + c * 10"
      by simp
    with 1 show ?thesis by (simp add: digit_at_def)
  next
    case 2
    have "set_digit num k e = (num mod 10 ^ k) + ((num div 10 ^ Suc k) * 10 + e) * 10 ^ k"
      by (simp add: set_digit_split algebra_simps)
    then have "set_digit num k e div 10 ^ k = (num div 10 ^ Suc k) * 10 + e" by simp
    with 2 assms show ?thesis by (simp add: digit_at_def)
  next
    case 3
    have b: "num mod 10 ^ k < 10 ^ k" "0 \<le> num mod 10 ^ k" by simp_all
    have "e * 10 ^ k \<le> 9 * 10 ^ k" using assms by (intro mult_right_mono) simp_all
    then have lt: "e * 10 ^ k + num mod 10 ^ k < 10 ^ Suc k" unfolding power_Suc using b(1) by linarith
    have ge: "0 \<le> e * 10 ^ k + num mod 10 ^ k" using assms b by simp
    have "set_digit num k e = (e * 10 ^ k + num mod 10 ^ k) + (num div 10 ^ Suc k) * 10 ^ Suc k"
      by (simp add: set_digit_split)
    then have same: "set_digit num k e div 10 ^ Suc k = num div 10 ^ Suc k"
      using lt ge by (simp add: div_pos_pos_trivial)
    have "(10 :: int) ^ j = 10 ^ Suc k * 10 ^ (j - Suc k)" using 3 by (simp flip: power_add power_Suc)
    then have "m div 10 ^ j = m div 10 ^ Suc k div 10 ^ (j - Suc k)" for m :: int
      by (simp add: zdiv_zmult2_eq)
    with 3 same show ?thesis by (simp add: digit_at_def)
  qed
qed

lemma luhn_sum_remove:
  assumes "k < n"
  shows "luhn_sum num n = luhn_weight k (digit_at num k) + (\<Sum>j\<in>{..<n} - {k}. luhn_weight j (digit_at num j))"
  unfolding luhn_sum_def using assms by (simp add: sum.remove)

lemma luhn_sum_set_digit:
  assumes "k < n" "0 \<le> e" "e < 10"
  shows "luhn_sum (set_digit num k e) n = luhn_sum num n - luhn_weight k (digit_at num k) + luhn_weight k e"
  using assms by (simp add: luhn_sum_remove [of k n] digit_at_set_digit)

lemma neg_mod_eq_iff: "- a mod 10 = - b mod 10 \<longleftrightarrow> (a - b) mod 10 = 0" for a b :: int
  by (simp add: mod_eq_dvd_iff dvd_eq_mod_eq_0 [symmetric] dvd_diff_commute)

text \<open>
  C7. The check digit detects every single mistyped digit: replacing the digit at a position
  below \<open>n\<close> leaves the checksum unchanged exactly when the digit itself is unchanged.
\<close>

theorem checksum_detects_digit:
  assumes "0 \<le> num" and "k < n" and "0 \<le> e" and "e < 10"
  shows "calcChecksum (set_digit num k e) (int n) = calcChecksum num (int n) \<longleftrightarrow> e = digit_at num k"
proof -
  have "luhn_weight k (digit_at num k) mod 10 = luhn_weight k e mod 10 \<longleftrightarrow> e = digit_at num k"
    using luhn_weight_inj [of "digit_at num k" e k] assms digit_at_range [of num k] by auto
  moreover have "luhn_sum (set_digit num k e) n - luhn_sum num n = luhn_weight k e - luhn_weight k (digit_at num k)"
    using assms by (simp add: luhn_sum_set_digit)
  moreover have "(a - b) mod 10 = 0 \<longleftrightarrow> b mod 10 = a mod 10" for a b :: int
    by (auto simp: mod_eq_dvd_iff mod_0_imp_dvd dvd_diff_commute)
  ultimately show ?thesis
    using assms by (simp add: calcChecksum_luhn set_digit_nonneg neg_mod_eq_iff)
qed

theorem checksum_detects_digit_witness:
  "calcChecksum (set_digit 123456 3 7) 6 \<noteq> calcChecksum 123456 6"
  using checksum_detects_digit [of 123456 3 6 7] by (simp add: digit_at_def)

definition swap_digits :: "int \<Rightarrow> nat \<Rightarrow> int" where
  "swap_digits num k =
     set_digit (set_digit num k (digit_at num (Suc k))) (Suc k) (digit_at num k)"

lemma luhn_swap:
  assumes "a \<in> {0..9}" "b \<in> {0..9}"
  shows "(luhn_weight k b + luhn_weight (Suc k) a - luhn_weight k a - luhn_weight (Suc k) b) mod 10 = 0
     \<longleftrightarrow> a = b \<or> {a, b} = {0, 9}"
proof -
  let ?P = "\<lambda>j k. \<forall>a\<in>{0..9}. \<forall>b\<in>{0..9}.
    ((luhn_weight j b + luhn_weight k a - luhn_weight j a - luhn_weight k b) mod 10 = 0 \<longleftrightarrow>
      a = b \<or> (a = 0 \<and> b = 9) \<or> (a = 9 \<and> b = 0))"
  have "?P 0 1" "?P 1 0" by (simp_all add: digits_range luhn_weight_def)
  with luhn_weight_cases [of k] have "?P k (Suc k)" by (elim disjE conjE) (simp_all only:)
  with assms show ?thesis by (auto simp: doubleton_eq_iff)
qed

text \<open>
Transpositions of adjacent digits: the checksum of the swapped number is the same exactly
  when the two digits are equal or are 0 and 9. So, against the comment of
  \<^verbatim>\<open>calcChecksum\<close>, the transposition of 09 and 90 goes undetected; every other one is found.
\<close>

theorem checksum_detects_swap:
  assumes "0 \<le> num" and "Suc k < n"
  shows "calcChecksum (swap_digits num k) (int n) = calcChecksum num (int n) \<longleftrightarrow>
    digit_at num k = digit_at num (Suc k) \<or> {digit_at num k, digit_at num (Suc k)} = {0, 9}"
proof -
  let ?a = "digit_at num k" and ?b = "digit_at num (Suc k)"
  have r: "?a \<in> {0..9}" "?b \<in> {0..9}" using digit_at_range [of num k] digit_at_range [of num "Suc k"] by auto
  have "luhn_sum (swap_digits num k) n - luhn_sum num n =
     luhn_weight k ?b + luhn_weight (Suc k) ?a - luhn_weight k ?a - luhn_weight (Suc k) ?b"
    using assms digit_at_range [of num k] digit_at_range [of num "Suc k"]
    by (simp add: swap_digits_def luhn_sum_set_digit digit_at_set_digit)
  with luhn_swap [OF r, of k] show ?thesis
    using assms digit_at_range [of num k] digit_at_range [of num "Suc k"]
    by (simp add: calcChecksum_luhn set_digit_nonneg swap_digits_def neg_mod_eq_iff)
qed

theorem checksum_detects_swap_witness:
  "calcChecksum (swap_digits 1209 0) 4 = calcChecksum 1209 4"
  using checksum_detects_swap [of 1209 0 4] by (simp add: digit_at_def insert_commute)

section \<open>Number to string\<close>

definition szMap :: string where
  "szMap = ''0123456789abcdefghijklmnopqrstuvwxyz''"

definition put :: "string \<Rightarrow> nat \<Rightarrow> char \<Rightarrow> string option" where
  "put buf i c = (if i < length buf then Some (buf[i := c]) else None)"

lemma unat_of_radix: "radix \<le> 36 \<Longrightarrow> unat (of_nat radix :: u32) = radix"
  by (simp add: unsigned_of_nat take_bit_eq_mod)

function myitoa_digits :: "nat \<Rightarrow> nat \<Rightarrow> u32 \<Rightarrow> nat \<Rightarrow> string \<Rightarrow> (nat \<times> string) option" where
  "myitoa_digits off radix nValue n buf =
     (if radix < 2 \<or> 36 < radix then None
      else case put buf (off + n) (szMap ! unat (nValue mod of_nat radix)) of
             None \<Rightarrow> None
           | Some buf \<Rightarrow>
               (let nValue' = nValue div of_nat radix
                in if nValue' > 0 then myitoa_digits off radix nValue' (Suc n) buf else Some (Suc n, buf)))"
  by pat_completeness auto

termination
proof (relation "measure (\<lambda>(off, radix, nValue, n, buf). unat nValue)", goal_cases)
  case (2 off radix nValue n buf x2 nV)
  then have "unat (of_nat radix :: u32) = radix" "2 \<le> radix" by (auto simp: unat_of_radix)
  moreover have "unat nValue div radix \<noteq> 0"
    using 2 calculation by (simp add: word_greater_zero_iff unat_div flip: unat_eq_0)
  ultimately show ?case using 2 by (cases "unat nValue = 0") (simp_all add: unat_div)
qed simp

declare myitoa_digits.simps [simp del]

fun myitoa_reverse :: "nat \<Rightarrow> nat \<Rightarrow> nat \<Rightarrow> string \<Rightarrow> string" where
  "myitoa_reverse off n 0 buf = buf"
| "myitoa_reverse off n (Suc nIndex) buf =
     myitoa_reverse off n nIndex
       (buf[off + nIndex := buf ! (off + (n - 1 - nIndex)), off + (n - 1 - nIndex) := buf ! (off + nIndex)])"

definition myitoa :: "u32 \<Rightarrow> string \<Rightarrow> int \<Rightarrow> string option" where
  "myitoa value str radix =
     (if 2 \<le> radix \<and> radix \<le> 36
      then
        (let neg = value <s 0 \<and> radix = 10
         in case (if neg then put str 0 CHR ''-'' else Some str) of
              None \<Rightarrow> None
            | Some str \<Rightarrow>
                (let off = (if neg then 1 else 0); value = (if neg then - value else value)
                 in case myitoa_digits off (nat radix) value 0 str of
                      None \<Rightarrow> None
                    | Some (n, str) \<Rightarrow>
                        put (myitoa_reverse off n (n div 2) str) (off + n) CHR 0x00))
      else put str 0 CHR 0x00)"

text \<open>Reference: the digits of a number in a base, most significant first.\<close>

function base_digits :: "nat \<Rightarrow> nat \<Rightarrow> string" where
  "base_digits radix v =
     (if radix < 2 \<or> v < radix then [szMap ! v] else base_digits radix (v div radix) @ [szMap ! (v mod radix)])"
  by pat_completeness auto
termination by (relation "measure snd") (auto intro!: div_less_dividend)

declare base_digits.simps [simp del]

lemma base_digits_ne: "base_digits r v \<noteq> []"
  by (subst base_digits.simps) auto

lemma memcpy_at_Cons:
  "k < length buf \<Longrightarrow> memcpy_at (Suc k) xs (buf[k := c]) = memcpy_at k (c # xs) buf"
  by (simp add: memcpy_at_def take_Suc_conv_app_nth)

lemma myitoa_digits_spec:
  assumes "2 \<le> radix" "radix \<le> 36" "off + n + length (base_digits radix (unat v)) \<le> length buf"
  shows "myitoa_digits off radix v n buf =
    Some (n + length (base_digits radix (unat v)),
          memcpy_at (off + n) (rev (base_digits radix (unat v))) buf)"
  using assms
proof (induction off radix v n buf rule: myitoa_digits.induct)
  case (1 off radix v n buf)
  have r: "unat (of_nat radix :: u32) = radix" using "1.prems" by (simp add: unat_of_radix)
  have zero: "(v div of_nat radix > 0) \<longleftrightarrow> \<not> unat v < radix"
    using "1.prems" r by (auto simp: word_greater_zero_iff unat_div div_eq_0_iff simp flip: unat_eq_0)
  show ?case
  proof (cases "unat v < radix")
    case True
    then have bd: "base_digits radix (unat v) = [szMap ! unat v]" by (simp add: base_digits.simps)
    with True "1.prems" show ?thesis
      by (simp add: myitoa_digits.simps [of off radix] put_def zero r unat_mod memcpy_at_def
          upd_conv_take_nth_drop)
  next
    case False
    then have bd: "base_digits radix (unat v) =
       base_digits radix (unat (v div of_nat radix)) @ [szMap ! unat (v mod of_nat radix)]"
      using "1.prems" by (simp add: base_digits.simps [of radix "unat v"] unat_div unat_mod r)
    let ?buf = "buf[off + n := szMap ! unat (v mod of_nat radix)]"
    have p: "put buf (off + n) (szMap ! unat (v mod of_nat radix)) = Some ?buf"
      using "1.prems" by (simp add: put_def bd)
    have "myitoa_digits off radix (v div of_nat radix) (Suc n) ?buf =
      Some (Suc n + length (base_digits radix (unat (v div of_nat radix))),
        memcpy_at (off + Suc n) (rev (base_digits radix (unat (v div of_nat radix)))) ?buf)"
      using "1.prems" False zero by (intro "1.IH" [OF _ p refl]) (auto simp: bd)
    moreover have "memcpy_at (off + Suc n) xs ?buf = memcpy_at (off + n) (szMap ! unat (v mod of_nat radix) # xs) buf" for xs
      using "1.prems" by (simp add: memcpy_at_Cons bd)
    ultimately show ?thesis
      using False "1.prems" p zero by (simp add: myitoa_digits.simps [of off radix v] bd Let_def)
  qed
qed

lemma length_myitoa_reverse [simp]: "length (myitoa_reverse off n k buf) = length buf"
  by (induction k arbitrary: buf) simp_all

lemma myitoa_reverse_nth:
  assumes "off + n \<le> length buf" and "2 * k \<le> n" and "i < length buf"
  shows "myitoa_reverse off n k buf ! i =
    (if off \<le> i \<and> i < off + n \<and> (i - off < k \<or> n - k \<le> i - off) then buf ! (off + (n - 1 - (i - off))) else buf ! i)"
  using assms
proof (induction k arbitrary: buf)
  case (Suc k)
  define a where "a = off + k"
  define b where "b = off + (n - 1 - k)"
  define swap where "swap = buf[a := buf ! b, b := buf ! a]"
  have ab: "a < b" "b < length buf" using Suc.prems by (auto simp: a_def b_def)
  have IH: "myitoa_reverse off n (Suc k) buf ! i =
    (if off \<le> i \<and> i < off + n \<and> (i - off < k \<or> n - k \<le> i - off) then swap ! (off + (n - 1 - (i - off))) else swap ! i)"
    using Suc.IH [of swap] Suc.prems by (simp add: swap_def a_def b_def)
  consider "i = a" | "i = b" | "i \<noteq> a" "i \<noteq> b" by blast
  then show ?case
  proof cases
    case 1
    then have "\<not> (off \<le> i \<and> i < off + n \<and> (i - off < k \<or> n - k \<le> i - off))"
      "off + (n - 1 - (i - off)) = b" "off \<le> i \<and> i < off + n \<and> i - off < Suc k"
      using Suc.prems by (auto simp: a_def b_def)
    with 1 ab show ?thesis unfolding IH by (simp add: swap_def)
  next
    case 2
    then have "\<not> (off \<le> i \<and> i < off + n \<and> (i - off < k \<or> n - k \<le> i - off))"
      "off + (n - 1 - (i - off)) = a" "off \<le> i \<and> i < off + n \<and> n - Suc k \<le> i - off"
      using Suc.prems by (auto simp: a_def b_def)
    with 2 ab show ?thesis unfolding IH by (simp add: swap_def)
  next
    case 3
    then have "(i - off < Suc k \<or> n - Suc k \<le> i - off) \<longleftrightarrow> (i - off < k \<or> n - k \<le> i - off)"
      if "off \<le> i" "i < off + n"
      using that Suc.prems by (auto simp: a_def b_def)
    moreover have "off + (n - 1 - (i - off)) \<noteq> a" "off + (n - 1 - (i - off)) \<noteq> b" if "off \<le> i" "i < off + n"
      using 3 that Suc.prems by (auto simp: a_def b_def)
    ultimately show ?thesis using 3 ab unfolding IH by (auto simp: swap_def)
  qed
qed auto

lemma myitoa_reverse_rev:
  assumes "off + length xs \<le> length buf"
  shows "myitoa_reverse off (length xs) (length xs div 2) (memcpy_at off xs buf) = memcpy_at off (rev xs) buf"
proof (rule nth_equalityI)
  fix i
  assume "i < length (myitoa_reverse off (length xs) (length xs div 2) (memcpy_at off xs buf))"
  then have i: "i < length buf" using assms by simp
  show "myitoa_reverse off (length xs) (length xs div 2) (memcpy_at off xs buf) ! i = memcpy_at off (rev xs) buf ! i"
  proof (cases "off \<le> i \<and> i < off + length xs")
    case False
    with i assms show ?thesis
      by (subst myitoa_reverse_nth) (auto simp: memcpy_at_def nth_append)
  next
    case True
    define j where "j = i - off"
    have j: "i = off + j" "j < length xs" using True by (auto simp: j_def)
    have m: "memcpy_at off ys buf ! (off + k) = ys ! k" if "k < length ys" "length ys = length xs" for ys k
      using that assms by (simp add: memcpy_at_def nth_append)
    have "memcpy_at off xs buf ! (off + length xs - Suc j) = xs ! (length xs - Suc j)"
      using m [of "length xs - Suc j" xs] j by simp
    moreover have "j < length xs div 2 \<or> length xs - length xs div 2 \<le> j \<or> length xs - 1 - j = j"
      using j by arith
    ultimately show ?thesis
      using j i assms by (subst myitoa_reverse_nth) (auto simp: m rev_nth)
  qed
qed (use assms in simp)


lemma myitoa_decimal:
  assumes "sint v \<ge> 0" and "length (base_digits 10 (unat v)) < length str"
  shows "myitoa v str 10 = Some (memcpy_at 0 (base_digits 10 (unat v) @ [CHR 0x00]) str)"
proof -
  let ?s = "base_digits 10 (unat v)"
  have neg: "\<not> v <s 0" using assms(1) by (simp add: word_sless_alt)
  have "myitoa_digits 0 10 v 0 str = Some (length ?s, memcpy_at 0 (rev ?s) str)"
    using myitoa_digits_spec [of 10 0 0 v str] assms by simp
  moreover have "myitoa_reverse 0 (length ?s) (length ?s div 2) (memcpy_at 0 (rev ?s) str) = memcpy_at 0 ?s str"
    using myitoa_reverse_rev [of 0 "rev ?s" str] assms by simp
  moreover have "(memcpy_at 0 ?s str)[length ?s := CHR 0x00] = memcpy_at 0 (?s @ [CHR 0x00]) str"
    using assms(2) by (simp add: memcpy_at_def upd_conv_take_nth_drop drop_Suc)
  ultimately show ?thesis
    using assms neg by (simp add: myitoa_def put_def Let_def)
qed

lemma szMap_dec:
  assumes "d < 10"
  shows "of_char (szMap ! d) = (48 + d :: nat)"
proof -
  have "d = 0 \<or> d = 1 \<or> d = 2 \<or> d = 3 \<or> d = 4 \<or> d = 5 \<or> d = 6 \<or> d = 7 \<or> d = 8 \<or> d = 9"
    using assms by arith
  then show ?thesis by (elim disjE) (simp_all add: szMap_def)
qed

definition dec_value :: "string \<Rightarrow> nat" where
  "dec_value s = foldl (\<lambda>n c. n * 10 + (of_char c - 48)) 0 s"

lemma dec_value_base_digits: "dec_value (base_digits 10 n) = n"
proof (induction n rule: less_induct)
  case (less n)
  show ?case
    using less [of "n div 10"]
    by (cases "n < 10")
       (simp_all add: base_digits.simps [of 10 n] dec_value_def szMap_dec)
qed

lemma base_digits_no_nul: "CHR 0x00 \<notin> set (base_digits 10 n)"
proof (induction n rule: less_induct)
  case (less n)
  have nz: "szMap ! d \<noteq> CHR 0x00" if "d < 10" for d
    using szMap_dec [OF that] by auto
  show ?case
    using less [of "n div 10"] nz [of n] nz [of "n mod 10"]
    by (cases "n < 10") (auto simp: base_digits.simps [of 10 n])
qed

lemma length_base_digits: "0 < d \<Longrightarrow> length (base_digits 10 n) \<le> d \<longleftrightarrow> n < 10 ^ d"
proof (induction d arbitrary: n)
  case (Suc d)
  show ?case
  proof (cases "n < 10")
    case True
    moreover have "(10 :: nat) \<le> 10 ^ Suc d" by simp
    ultimately show ?thesis by (simp add: base_digits.simps [of 10 n] less_le_trans)
  next
    case False
    then have "d = 0 \<Longrightarrow> ?thesis" by (simp add: base_digits.simps [of 10 n] base_digits_ne)
    moreover have "0 < d \<Longrightarrow> ?thesis"
      using Suc.IH [of "n div 10"] False by (simp add: base_digits.simps [of 10 n] div_less_iff_less_mult mult.commute)
    ultimately show ?thesis by blast
  qed
qed simp

section \<open>Generating a one-time password\<close>

definition c_strlen :: "string \<Rightarrow> nat" where
  "c_strlen buf = length (takeWhile (\<lambda>c. c \<noteq> CHR 0x00) buf)"

definition strcat0 :: "string \<Rightarrow> string option" where
  "strcat0 buf =
     (case put buf (c_strlen buf) CHR ''0'' of
        None \<Rightarrow> None
      | Some buf' \<Rightarrow> put buf' (Suc (c_strlen buf)) CHR 0x00)"

lemma c_strlen_nul: "CHR 0x00 \<notin> set s \<Longrightarrow> c_strlen (s @ CHR 0x00 # r) = length s"
  unfolding c_strlen_def by (induction s) auto

lemma c_strlen_no_nul: "CHR 0x00 \<notin> set s \<Longrightarrow> c_strlen s = length s"
  unfolding c_strlen_def by (induction s) auto

lemma c_string_cases:
  obtains (nul) s r where "buf = s @ CHR 0x00 # r" "CHR 0x00 \<notin> set s"
  | (none) "CHR 0x00 \<notin> set buf"
  by (metis split_list_first)

lemma strcat0_append:
  assumes "CHR 0x00 \<notin> set s"
  shows "strcat0 (s @ CHR 0x00 # r) =
    (case r of [] \<Rightarrow> None | _ # r' \<Rightarrow> Some ((s @ ''0'') @ CHR 0x00 # r'))"
  using assms by (simp add: strcat0_def c_strlen_nul put_def list_update_append split: list.split)

lemma strcat0_strlen: "strcat0 buf = Some buf' \<Longrightarrow> c_strlen buf' = Suc (c_strlen buf)"
proof (cases buf rule: c_string_cases)
  case (nul s r)
  then show "strcat0 buf = Some buf' \<Longrightarrow> ?thesis"
    using c_strlen_nul [of "s @ ''0''"] by (auto simp: strcat0_append c_strlen_nul split: list.splits)
next
  case none
  then show "strcat0 buf = Some buf' \<Longrightarrow> ?thesis"
    by (simp add: strcat0_def put_def c_strlen_no_nul)
qed

function pad_result :: "nat \<Rightarrow> string \<Rightarrow> string option" where
  "pad_result digits result =
     (if c_strlen result < digits
      then case strcat0 result of None \<Rightarrow> None | Some result' \<Rightarrow> pad_result digits result'
      else Some result)"
  by pat_completeness auto

termination
  by (relation "measure (\<lambda>(digits, result). digits - c_strlen result)") (auto dest: strcat0_strlen)

declare pad_result.simps [simp del]

definition otp_offset :: "byte list \<Rightarrow> int \<Rightarrow> nat" where
  "otp_offset hash truncationOffset =
     (let offset = unat (hash ! (20 - 1) AND 0xf)
      in if 0 \<le> truncationOffset \<and> truncationOffset < 20 - 4 then nat truncationOffset else offset)"

definition otp_binary :: "byte list \<Rightarrow> nat \<Rightarrow> u32" where
  "otp_binary hash offset =
     push_bit 24 (ucast (hash ! offset AND 0x7f)) OR push_bit 16 (ucast (hash ! (offset + 1) AND 0xff))
     OR push_bit 8 (ucast (hash ! (offset + 2) AND 0xff)) OR ucast (hash ! (offset + 3) AND 0xff)"

definition generateOTP ::
  "SHA1_INFO \<Rightarrow> byte list \<Rightarrow> byte list \<Rightarrow> byte list \<Rightarrow> int \<Rightarrow> bool \<Rightarrow> int \<Rightarrow> string \<Rightarrow> string option" where
  "generateOTP ctx tmp_key secret msg codeDigits addChecksum truncationOffset result =
     (let digits = (if addChecksum then codeDigits + 1 else codeDigits);
          hash = hmac_sha1 ctx tmp_key secret msg 20;
          binary = otp_binary hash (otp_offset hash truncationOffset)
      in if codeDigits < 0 \<or> 9 \<le> codeDigits then None
         else
           (let otp = binary mod (DIGITS_POWER ! nat codeDigits)
            in case (if addChecksum
                     then map_option (\<lambda>c. otp * 10 + of_int c) (calcChecksum (uint otp) codeDigits)
                     else Some otp) of
                 None \<Rightarrow> None
               | Some otp \<Rightarrow>
                   (case myitoa otp result 10 of
                      None \<Rightarrow> None
                    | Some result \<Rightarrow> pad_result (nat digits) result)))"

lemma pad_result_spec:
  assumes "CHR 0x00 \<notin> set s" and "D - length s \<le> length r"
  shows "pad_result D (s @ CHR 0x00 # r) =
    Some (s @ replicate (D - length s) CHR ''0'' @ CHR 0x00 # drop (D - length s) r)"
  using assms
proof (induction "D - length s" arbitrary: s r)
  case 0
  then show ?case by (simp add: pad_result.simps [of D] c_strlen_nul)
next
  case (Suc k)
  then obtain c r' where r: "r = c # r'" by (cases r) auto
  have "length s < D" using Suc.hyps by simp
  then have "pad_result D (s @ CHR 0x00 # r) = pad_result D ((s @ ''0'') @ CHR 0x00 # r')"
    using Suc.prems by (simp add: pad_result.simps [of D "s @ _"] c_strlen_nul strcat0_append r)
  also have "\<dots> = Some ((s @ ''0'') @ replicate (D - length (s @ ''0'')) CHR ''0'' @ CHR 0x00
      # drop (D - length (s @ ''0'')) r')"
    using Suc.hyps Suc.prems r by (intro Suc.hyps) auto
  also have "D - length s = Suc (D - length (s @ ''0''))" using Suc.hyps by simp
  then have "(s @ ''0'') @ replicate (D - length (s @ ''0'')) CHR ''0'' @ CHR 0x00 # drop (D - length (s @ ''0'')) r' =
    s @ replicate (D - length s) CHR ''0'' @ CHR 0x00 # drop (D - length s) r"
    by (simp add: r)
  finally show ?case .
qed

lemma binary_truncate:
  assumes "j + 4 \<le> length hs"
  shows "unat (otp_binary hs j) = rfc4226_snum hs j"
proof -
  have t: "truncate_loop 4 j hs 0 = push_bit 8 (push_bit 8 (push_bit 8 (ucast (hs ! j)) OR ucast (hs ! (j + 1)))
      OR ucast (hs ! (j + 2))) OR ucast (hs ! (j + 3))"
    by (simp add: eval_nat_numeral)
  have m: "(0x7f :: byte) = mask 7" "(0xff :: byte) = mask 8" "(0x7FFFFFFF :: u32) = mask 31"
    by (simp_all add: mask_eq_exp_minus_1)
  have "otp_binary hs j = truncate_loop 4 j hs 0 AND 0x7FFFFFFF"
  proof (rule bit_word_eqI)
    fix n
    assume n: "n < LENGTH(32)"
    then consider "n < 8" | "8 \<le> n" "n < 16" | "16 \<le> n" "n < 24" | "24 \<le> n" "n < 31" | "n = 31"
      by force
    then show "bit (otp_binary hs j) n = bit (truncate_loop 4 j hs 0 AND 0x7FFFFFFF) n"
      unfolding t m otp_binary_def
      by cases (auto simp: bit_simps byte_bit_False)
  qed
  with truncate_loop_be [OF assms] show ?thesis by simp
qed

definition otp_number :: "byte list \<Rightarrow> nat \<Rightarrow> bool \<Rightarrow> int \<Rightarrow> nat" where
  "otp_number hs d addChecksum t =
     (let offset = (if 0 \<le> t \<and> t < 16 then nat t else rfc4226_offset hs);
          code = rfc4226_snum hs offset mod 10 ^ d
      in if addChecksum then code * 10 + nat (- luhn_sum (int code) d mod 10) else code)"

lemma otp_number_bound: "otp_number hs d addChecksum t < 10 ^ (d + of_bool addChecksum)"
proof -
  have "code * 10 + nat (- l mod 10) < 10 * 10 ^ d" if "code < 10 ^ d" for code and l :: int
  proof -
    have "nat (- l mod 10) < 10" by simp
    then show ?thesis using that by linarith
  qed
  then show ?thesis by (auto simp: otp_number_def Let_def)
qed

lemma DIGITS_POWER_nth:
  assumes "d < 9"
  shows "unat (DIGITS_POWER ! d) = 10 ^ d"
proof -
  have "d = 0 \<or> d = 1 \<or> d = 2 \<or> d = 3 \<or> d = 4 \<or> d = 5 \<or> d = 6 \<or> d = 7 \<or> d = 8"
    using assms by arith
  then show ?thesis by (elim disjE) (simp_all add: DIGITS_POWER_def)
qed

lemma sint_nonneg: "unat (w :: u32) < 2 ^ 31 \<Longrightarrow> 0 \<le> sint w"
proof -
  assume "unat w < 2 ^ 31"
  then have "int (unat w) < int (2 ^ 31)" by (simp only: of_nat_less_iff)
  then have "uint w < 2 ^ 31" by simp
  then have "uint w div 2 ^ 31 = 0" by (intro div_pos_pos_trivial) simp_all
  then show ?thesis by (simp add: sint_uint signed_take_bit_eq_if_positive bit_iff_odd)
qed


lemma calcChecksum_otp:
  assumes "d < 9" and "unat otp < 10 ^ d"
  shows "\<exists>w. map_option (\<lambda>c. otp * 10 + of_int c) (calcChecksum (uint (otp :: u32)) (int d)) = Some w \<and>
    unat w = unat otp * 10 + nat (- luhn_sum (int (unat otp)) d mod 10)"
proof -
  define c where "c = - luhn_sum (uint otp) d mod 10"
  have c: "0 \<le> c" "c < 10" by (simp_all add: c_def)
  have le: "unat otp < 10 ^ 8" using assms power_increasing [of d 8 "10 :: nat"] by linarith
  have "(of_int c :: u32) = of_nat (nat c)" using c by simp
  then have "otp * 10 + of_int c = of_nat (unat otp * 10 + nat c)"
    by (simp add: of_nat_unat)
  moreover have "unat otp * 10 + nat c < 2 ^ 32" using le c by simp
  ultimately have "unat (otp * 10 + of_int c) = unat otp * 10 + nat c"
    by (simp only: unat_of_nat_u32)
  then show ?thesis
    by (simp add: calcChecksum_luhn c_def)
qed

lemma generateOTP_eq:
  assumes "sha1_wf ctx" and "length tmp = 64" and "length secret < 2 ^ 31" and "length msg < 2 ^ 31"
    and "d < 9" and "max 1 (d + of_bool addChecksum) < length str"
  shows "generateOTP ctx tmp secret msg (int d) addChecksum t str =
    (let s = base_digits 10 (otp_number (rfc2104 fips_sha1 64 secret msg) d addChecksum t)
     in Some (memcpy_at 0 (s @ replicate (d + of_bool addChecksum - length s) CHR ''0'' @ [CHR 0x00]) str))"
proof -
  define hs where "hs = rfc2104 fips_sha1 64 secret msg"
  define offset where "offset = (if 0 \<le> t \<and> t < 16 then nat t else rfc4226_offset hs)"
  define D where "D = d + of_bool addChecksum"
  define otp where "otp = otp_binary hs offset mod (DIGITS_POWER ! d)"
  define n where "n = otp_number hs d addChecksum t"
  define s where "s = base_digits 10 n"
  have hmac: "hmac_sha1 ctx tmp secret msg 20 = hs"
    using assms by (simp add: hmac_sha1_rfc2104 hs_def)
  have off: "offset + 4 \<le> length hs" by (auto simp: offset_def hs_def rfc4226_offset_def)
  have ofs: "otp_offset hs t = offset"
    by (simp add: otp_offset_def offset_def low4 rfc4226_offset_def)
  have otp: "unat otp = rfc4226_snum hs offset mod 10 ^ d"
    using binary_truncate [OF off] assms(5) by (simp add: otp_def unat_mod DIGITS_POWER_nth)
  have lt: "n < 10 ^ D" using otp_number_bound by (simp add: n_def D_def)
  have "10 ^ D \<le> (10 ^ 9 :: nat)" using assms(5) by (intro power_increasing) (auto simp: D_def)
  then have small: "n < 2 ^ 31" using lt by simp
  obtain w where w: "(if addChecksum then map_option (\<lambda>c. otp * 10 + of_int c) (calcChecksum (uint otp) (int d))
     else Some otp) = Some w" and wn: "unat w = n"
    using calcChecksum_otp [OF assms(5), of otp] otp
    by (cases addChecksum) (auto simp: n_def otp_number_def offset_def Let_def)
  have len: "length s \<le> max 1 D"
    using lt length_base_digits [of "max 1 D" n] by (cases "D = 0") (auto simp: s_def)
  then have str: "length s < length str" using assms(6) by (auto simp: D_def max_def split: if_splits)
  have "myitoa w str 10 = Some (memcpy_at 0 (s @ [CHR 0x00]) str)"
    using myitoa_decimal [of w str] small str by (simp add: wn s_def sint_nonneg)
  then have it: "myitoa w str 10 = Some (s @ CHR 0x00 # drop (Suc (length s)) str)"
    by (simp add: memcpy_at_def)
  have "pad_result D (s @ CHR 0x00 # drop (Suc (length s)) str) =
    Some (memcpy_at 0 (s @ replicate (D - length s) CHR ''0'' @ [CHR 0x00]) str)"
    using assms(6) str by (subst pad_result_spec) (auto simp: s_def base_digits_no_nul D_def memcpy_at_def add.commute)
  moreover have "nat (if addChecksum then int d + 1 else int d) = D" by (simp add: D_def nat_add_distrib)
  moreover have "generateOTP ctx tmp secret msg (int d) addChecksum t str =
    (case myitoa w str 10 of None \<Rightarrow> None
     | Some r \<Rightarrow> pad_result (nat (if addChecksum then int d + 1 else int d)) r)"
    using assms(5) w by (cases addChecksum) (auto simp: generateOTP_def hmac Let_def ofs simp flip: otp_def)
  ultimately show ?thesis
    by (simp add: it hs_def [symmetric] n_def [symmetric] s_def [symmetric] D_def [symmetric] Let_def)
qed

text \<open>
  C8. \<^verbatim>\<open>generateOTP\<close>, for every supported number of digits and a buffer with room for the digits and
  the terminator, makes no access out of bounds and returns the decimal digits of the truncated
  MAC modulo \<open>10 ^ d\<close> (followed by the check digit if asked for), filled up on the right with
  zeros to the requested width; the rest of the buffer is untouched.
\<close>

theorem generateOTP_result:
  assumes "sha1_wf ctx" and "length tmp = 64" and "length secret < 2 ^ 31" and "length msg < 2 ^ 31"
    and "d < 9" and "max 1 (d + of_bool addChecksum) < length str"
  shows "generateOTP ctx tmp secret msg (int d) addChecksum t str =
    (let s = base_digits 10 (otp_number (rfc2104 fips_sha1 64 secret msg) d addChecksum t)
     in Some (memcpy_at 0 (s @ replicate (d + of_bool addChecksum - length s) CHR ''0'' @ [CHR 0x00]) str))"
  using assms by (rule generateOTP_eq)

theorem generateOTP_result_witness:
  "generateOTP zero_ctx (replicate 64 0) [1, 2] [3] 6 False 0 (replicate 10 CHR 0x00) =
    (let s = base_digits 10 (otp_number (rfc2104 fips_sha1 64 [1, 2] [3]) 6 False 0)
     in Some (memcpy_at 0 (s @ replicate (6 - length s) CHR ''0'' @ [CHR 0x00]) (replicate 10 CHR 0x00)))"
  using generateOTP_result [of zero_ctx "replicate 64 0" "[1, 2]" "[3]" 6 False "replicate 10 CHR 0x00" 0]
  by (simp add: sha1_wf_def max_def)

lemma dec_value_zeros: "dec_value (s @ replicate k CHR ''0'') = dec_value s * 10 ^ k"
  by (induction k rule: nat_induct) (simp_all add: dec_value_def replicate_append_same [symmetric])

lemma takeWhile_nul: "CHR 0x00 \<notin> set s \<Longrightarrow> takeWhile (\<lambda>c. c \<noteq> CHR 0x00) (s @ CHR 0x00 # r) = s"
  by (induction s) auto

text \<open>
  The zeros \<^verbatim>\<open>generateOTP\<close> adds come after the digits, so the string it returns does not denote
  the code: read as a number it is the code times a power of ten, one factor for each missing
  leading digit (RFC 4226 pads on the left). Codes that differ by trailing zeros collide.
\<close>

theorem generateOTP_padding:
  assumes "sha1_wf ctx" and "length tmp = 64" and "length secret < 2 ^ 31" and "length msg < 2 ^ 31"
    and "d < 9" and "max 1 (d + of_bool addChecksum) < length str"
    and "n = otp_number (rfc2104 fips_sha1 64 secret msg) d addChecksum t"
  shows "map_option (\<lambda>r. dec_value (takeWhile (\<lambda>c. c \<noteq> CHR 0x00) r))
      (generateOTP ctx tmp secret msg (int d) addChecksum t str) =
    Some (n * 10 ^ (d + of_bool addChecksum - length (base_digits 10 n)))"
proof -
  let ?s = "base_digits 10 n" and ?k = "d + of_bool addChecksum - length (base_digits 10 n)"
  have "takeWhile (\<lambda>c. c \<noteq> CHR 0x00) ((?s @ replicate ?k CHR ''0'') @ CHR 0x00 # drop (Suc (length ?s + ?k)) str) =
      ?s @ replicate ?k CHR ''0''"
    by (rule takeWhile_nul) (simp add: base_digits_no_nul)
  then show ?thesis
    using generateOTP_eq [OF assms(1-6), of t] assms(7)
    by (simp add: memcpy_at_def Let_def dec_value_zeros dec_value_base_digits)
qed

theorem generateOTP_padding_witness:
  "map_option (\<lambda>r. dec_value (takeWhile (\<lambda>c. c \<noteq> CHR 0x00) r))
      (generateOTP zero_ctx (replicate 64 0) [1, 2] [3] 6 False 0 (replicate 10 CHR 0x00)) =
    (let n = otp_number (rfc2104 fips_sha1 64 [1, 2] [3]) 6 False 0
     in Some (n * 10 ^ (6 - length (base_digits 10 n))))"
  using generateOTP_padding [of zero_ctx "replicate 64 0" "[1, 2]" "[3]" 6 False "replicate 10 CHR 0x00"
      "otp_number (rfc2104 fips_sha1 64 [1, 2] [3]) 6 False 0" 0]
  by (simp add: sha1_wf_def max_def Let_def)

end
