(* ===== verification/CjsonItem.thy ===== *)
theory CjsonItem
  imports Prelude "HOL-Library.Monad_Syntax"
begin

text \<open>
  The data model of cJSON (\<^verbatim>\<open>cjson/example/cJSON.h\<close> and the first part of \<^verbatim>\<open>cJSON.c\<close>). An item is a tree:
  the \<^verbatim>\<open>child\<close> pointer and the \<^verbatim>\<open>next\<close> chain hanging from it are the list of children, in order; the
  other members keep their names (\<^verbatim>\<open>string\<close> is \<open>name\<close>). Strings are their bytes without
  the terminator, None is the NULL pointer.

  What the code takes from the C library on doubles (\<^verbatim>\<open>strtod\<close>, \<^verbatim>\<open>sprintf\<close> with \<^verbatim>\<open>%1.15g\<close> and
  \<^verbatim>\<open>%1.17g\<close>, \<^verbatim>\<open>sscanf\<close>, comparisons with the limits of \<^verbatim>\<open>int\<close>) and the locale's decimal point are
  fields of the environment \<open>env\<close>, over an abstract type \<open>'d\<close> of doubles, as are the allocator's
  answers: the \<open>k\<close>-th request of a run succeeds iff \<open>alloc_ok k\<close>, fresh memory holds \<open>junk\<close>, and
  \<open>has_realloc\<close> tells whether the hooks provide \<^verbatim>\<open>realloc\<close>.
\<close>

unbundle bit_operations_syntax

section \<open>Types of items\<close>

definition cJSON_Invalid :: u32 where "cJSON_Invalid = 0"
definition cJSON_False :: u32 where "cJSON_False = 1"
definition cJSON_True :: u32 where "cJSON_True = 2"
definition cJSON_NULL :: u32 where "cJSON_NULL = 4"
definition cJSON_Number :: u32 where "cJSON_Number = 8"
definition cJSON_String :: u32 where "cJSON_String = 16"
definition cJSON_Array :: u32 where "cJSON_Array = 32"
definition cJSON_Object :: u32 where "cJSON_Object = 64"
definition cJSON_Raw :: u32 where "cJSON_Raw = 128"
definition cJSON_IsReference :: u32 where "cJSON_IsReference = 256"
definition cJSON_StringIsConst :: u32 where "cJSON_StringIsConst = 512"

lemmas cJSON_types = cJSON_Invalid_def cJSON_False_def cJSON_True_def cJSON_NULL_def cJSON_Number_def
  cJSON_String_def cJSON_Array_def cJSON_Object_def cJSON_Raw_def cJSON_IsReference_def
  cJSON_StringIsConst_def

definition CJSON_NESTING_LIMIT :: nat where "CJSON_NESTING_LIMIT = 1000"

definition INT_MAX :: int where "INT_MAX = 2147483647"
definition INT_MIN :: int where "INT_MIN = -2147483648"

datatype 'd cJSON =
  CJSON (type_of: u32) (valuestring: "byte list option") (valueint: int) (valuedouble: 'd)
    (name: "byte list option") (child: "'d cJSON list")

section \<open>The environment\<close>

record 'd env =
  strtod :: "byte list \<Rightarrow> 'd \<times> nat"
  sprintf15 :: "'d \<Rightarrow> byte list"
  sprintf17 :: "'d \<Rightarrow> byte list"
  sscanf_lg :: "byte list \<Rightarrow> 'd option"
  d_eq :: "'d \<Rightarrow> 'd \<Rightarrow> bool"
  d_finite :: "'d \<Rightarrow> bool"
  d_ge_int_max :: "'d \<Rightarrow> bool"
  d_le_int_min :: "'d \<Rightarrow> bool"
  d_to_int :: "'d \<Rightarrow> int"
  d_zero :: "'d"
  decimal_point :: byte
  alloc_ok :: "nat \<Rightarrow> bool"
  has_realloc :: bool
  junk :: "nat \<Rightarrow> byte"

definition number_to_int :: "'d env \<Rightarrow> 'd \<Rightarrow> int" where
  "number_to_int E number =
     (if d_ge_int_max E number then INT_MAX
      else if d_le_int_min E number then INT_MIN
      else d_to_int E number)"

definition cJSON_SetNumberHelper :: "'d env \<Rightarrow> 'd cJSON \<Rightarrow> 'd \<Rightarrow> 'd cJSON" where
  "cJSON_SetNumberHelper E object number =
     (case object of CJSON t vs vi vd nm ch \<Rightarrow> CJSON t vs (number_to_int E number) number nm ch)"

definition New_Item :: "'d env \<Rightarrow> 'd cJSON" where
  "New_Item E = CJSON 0 None 0 (d_zero E) None []"

section \<open>Memory owned by items\<close>

text \<open>
  The number of heap blocks \<^verbatim>\<open>cJSON_Delete\<close> releases for an item and its children: the node itself,
  its value and children unless the item is a reference, its name unless it is a constant.
\<close>

fun cJSON_Delete_blocks :: "'d cJSON \<Rightarrow> nat" where
  "cJSON_Delete_blocks (CJSON t vs vi vd nm ch) =
     (if t AND cJSON_IsReference = 0 then sum_list (map cJSON_Delete_blocks ch) else 0)
     + (if t AND cJSON_IsReference = 0 \<and> vs \<noteq> None then 1 else 0)
     + (if t AND cJSON_StringIsConst = 0 \<and> nm \<noteq> None then 1 else 0) + 1"

section \<open>An instance with integral numbers\<close>

text \<open>
  A small environment for examples: numbers are integers, read and printed in decimal, and every
  allocation succeeds.
\<close>

fun dec_digits :: "nat \<Rightarrow> byte list" where
  "dec_digits n = (if n < 10 then [of_nat (48 + n)] else dec_digits (n div 10) @ [of_nat (48 + n mod 10)])"

declare dec_digits.simps [simp del]

definition dec_int :: "int \<Rightarrow> byte list" where
  "dec_int i = (if i < 0 then 0x2D # dec_digits (nat (- i)) else dec_digits (nat i))"

definition is_digit :: "byte \<Rightarrow> bool" where
  "is_digit ch = (0x30 \<le> ch \<and> ch \<le> 0x39)"

definition digits_value :: "byte list \<Rightarrow> nat" where
  "digits_value ds = foldl (\<lambda>n ch. n * 10 + (unat ch - 48)) 0 ds"

definition int_strtod :: "byte list \<Rightarrow> int \<times> nat" where
  "int_strtod s =
     (let neg = (s \<noteq> [] \<and> hd s = 0x2D); s' = (if neg then tl s else s); ds = takeWhile is_digit s'
      in if ds = [] then (0, 0)
         else if neg then (- int (digits_value ds), Suc (length ds))
         else (int (digits_value ds), length ds))"

definition int_env :: "int env" where
  "int_env = \<lparr>strtod = int_strtod, sprintf15 = dec_int, sprintf17 = dec_int,
     sscanf_lg = (\<lambda>s. if snd (int_strtod s) = 0 then None else Some (fst (int_strtod s))),
     d_eq = (=), d_finite = (\<lambda>_. True), d_ge_int_max = (\<lambda>d. INT_MAX \<le> d), d_le_int_min = (\<lambda>d. d \<le> INT_MIN),
     d_to_int = (\<lambda>d. d), d_zero = 0, decimal_point = 0x2E, alloc_ok = (\<lambda>_. True),
     has_realloc = True, junk = (\<lambda>_. 0xAA)\<rparr>"

lemma int_strtod_consumes: "snd (int_strtod s) \<le> length s"
  using length_takeWhile_le [of is_digit s] length_takeWhile_le [of is_digit "tl s"]
  by (cases s) (auto simp: int_strtod_def Let_def)

end
