(* ===== verification/CjsonString.thy ===== *)
theory CjsonString
  imports CjsonItem
begin

text \<open>
  The string literals of cJSON: the escapes of \<^verbatim>\<open>parse_string\<close>, \<^verbatim>\<open>parse_hex4\<close> and
  \<^verbatim>\<open>utf16_literal_to_utf8\<close>. The text is a byte list and pointers into it are indices. The two
  loops of \<^verbatim>\<open>parse_string\<close> are \<open>scan_string\<close>, which finds the closing quote and counts the escapes, and
  \<open>unescape\<close>, which writes the output into the buffer of the capacity computed from that count;
  \<open>emit\<close> is a store, None outside the capacity.

  Shown here: the first pass over-estimates the output, so the second never writes past the
  allocation, even on malformed escapes that put the two passes out of step, and the UTF-16
  literals decode to the UTF-8 encoding of their value.
\<close>

unbundle bit_operations_syntax

section \<open>Definitions\<close>

definition rd :: "byte list \<Rightarrow> nat \<Rightarrow> byte option" where
  "rd c i = (if i < length c then Some (c ! i) else None)"

definition hex_digit :: "byte \<Rightarrow> u32 option" where
  "hex_digit ch =
     (if 0x30 \<le> ch \<and> ch \<le> 0x39 then Some (ucast ch - 0x30)
      else if 0x41 \<le> ch \<and> ch \<le> 0x46 then Some (10 + ucast ch - 0x41)
      else if 0x61 \<le> ch \<and> ch \<le> 0x66 then Some (10 + ucast ch - 0x61)
      else None)"

fun parse_hex4_loop :: "nat \<Rightarrow> byte list \<Rightarrow> u32 \<Rightarrow> u32" where
  "parse_hex4_loop i [] h = h"
| "parse_hex4_loop i (ch # chs) h =
     (case hex_digit ch of
        None \<Rightarrow> 0
      | Some d \<Rightarrow> parse_hex4_loop (Suc i) chs (if i < 3 then push_bit 4 (h + d) else h + d))"

definition parse_hex4 :: "byte list \<Rightarrow> nat \<Rightarrow> u32" where
  "parse_hex4 c i = parse_hex4_loop 0 (take 4 (drop i c)) 0"

fun utf8_tail :: "nat \<Rightarrow> u32 \<Rightarrow> byte list \<Rightarrow> u32 \<times> byte list" where
  "utf8_tail 0 codepoint bs = (codepoint, bs)"
| "utf8_tail (Suc n) codepoint bs =
     utf8_tail n (drop_bit 6 codepoint) (ucast ((codepoint OR 0x80) AND 0xBF) # bs)"

definition utf8_bytes :: "nat \<Rightarrow> u32 \<Rightarrow> u32 \<Rightarrow> byte list" where
  "utf8_bytes utf8_length first_byte_mark codepoint =
     (let (codepoint, bs) = utf8_tail (utf8_length - 1) codepoint []
      in (if utf8_length > 1 then ucast ((codepoint OR first_byte_mark) AND 0xFF) else ucast (codepoint AND 0x7F)) # bs)"

definition encode_codepoint :: "u32 \<Rightarrow> byte list option" where
  "encode_codepoint codepoint =
     (if codepoint < 0x80 then Some (utf8_bytes 1 0 codepoint)
      else if codepoint < 0x800 then Some (utf8_bytes 2 0xC0 codepoint)
      else if codepoint < 0x10000 then Some (utf8_bytes 3 0xE0 codepoint)
      else if codepoint \<le> 0x10FFFF then Some (utf8_bytes 4 0xF0 codepoint)
      else None)"

definition utf16_literal :: "byte list \<Rightarrow> nat \<Rightarrow> nat \<Rightarrow> (nat \<times> u32) option" where
  "utf16_literal c first_sequence input_end =
     (if input_end - first_sequence < 6 then None
      else
        (let first_code = parse_hex4 c (first_sequence + 2)
         in if 0xDC00 \<le> first_code \<and> first_code \<le> 0xDFFF then None
            else if 0xD800 \<le> first_code \<and> first_code \<le> 0xDBFF
            then
              (let second_sequence = first_sequence + 6
               in if input_end - second_sequence < 6 then None
                  else if c ! second_sequence \<noteq> 0x5C \<or> c ! (second_sequence + 1) \<noteq> 0x75 then None
                  else
                    (let second_code = parse_hex4 c (second_sequence + 2)
                     in if second_code < 0xDC00 \<or> 0xDFFF < second_code then None
                        else Some (12, 0x10000 + (push_bit 10 (first_code AND 0x3FF) OR (second_code AND 0x3FF)))))
            else Some (6, first_code)))"

definition utf16_literal_to_utf8 :: "byte list \<Rightarrow> nat \<Rightarrow> nat \<Rightarrow> (nat \<times> byte list) option" where
  "utf16_literal_to_utf8 c input_pointer input_end =
     (case utf16_literal c input_pointer input_end of
        None \<Rightarrow> None
      | Some (sequence_length, codepoint) \<Rightarrow>
          (case encode_codepoint codepoint of
             None \<Rightarrow> None
           | Some bs \<Rightarrow> Some (sequence_length, bs)))"

function scan_string :: "byte list \<Rightarrow> nat \<Rightarrow> nat \<Rightarrow> (nat \<times> nat) option" where
  "scan_string c input_end skipped_bytes =
     (if input_end < length c \<and> c ! input_end \<noteq> 0x22
      then if c ! input_end = 0x5C
           then if input_end + 1 \<ge> length c then None
                else scan_string c (input_end + 2) (skipped_bytes + 1)
           else scan_string c (input_end + 1) skipped_bytes
      else Some (input_end, skipped_bytes))"
  by pat_completeness auto
termination by (relation "measure (\<lambda>(c, i, k). length c - i)") auto

declare scan_string.simps [simp del]

definition escape_char :: "byte \<Rightarrow> byte option" where
  "escape_char ch =
     (if ch = 0x62 then Some 0x08
      else if ch = 0x66 then Some 0x0C
      else if ch = 0x6E then Some 0x0A
      else if ch = 0x72 then Some 0x0D
      else if ch = 0x74 then Some 0x09
      else if ch = 0x22 \<or> ch = 0x5C \<or> ch = 0x2F then Some ch
      else None)"

definition emit :: "nat \<Rightarrow> byte list \<Rightarrow> byte list \<Rightarrow> byte list option" where
  "emit cap out bs = (if length out + length bs \<le> cap then Some (out @ bs) else None)"

text \<open>None: an access out of bounds. Otherwise whether the literal is valid, the final input position
  and the output.\<close>

function unescape :: "byte list \<Rightarrow> nat \<Rightarrow> nat \<Rightarrow> nat \<Rightarrow> byte list \<Rightarrow> (bool \<times> nat \<times> byte list) option" where
  "unescape c input_end cap input_pointer out =
     (if input_pointer < input_end
      then
        (case rd c input_pointer of
           None \<Rightarrow> None
         | Some ch \<Rightarrow>
             if ch \<noteq> 0x5C
             then (case emit cap out [ch] of
                     None \<Rightarrow> None
                   | Some out \<Rightarrow> unescape c input_end cap (input_pointer + 1) out)
             else if input_end - input_pointer < 1 then Some (False, input_pointer, out)
             else
               (case rd c (input_pointer + 1) of
                  None \<Rightarrow> None
                | Some e \<Rightarrow>
                    if e = 0x75
                    then (case utf16_literal_to_utf8 c input_pointer input_end of
                            None \<Rightarrow> Some (False, input_pointer, out)
                          | Some (sequence_length, bs) \<Rightarrow>
                              (case emit cap out bs of
                                 None \<Rightarrow> None
                               | Some out \<Rightarrow> if sequence_length = 0 then Some (False, input_pointer, out)
                                   else unescape c input_end cap (input_pointer + sequence_length) out))
                    else (case escape_char e of
                            None \<Rightarrow> Some (False, input_pointer, out)
                          | Some x \<Rightarrow>
                              (case emit cap out [x] of
                                 None \<Rightarrow> None
                               | Some out \<Rightarrow> unescape c input_end cap (input_pointer + 2) out))))
      else Some (True, input_pointer, out))"
  by pat_completeness auto
termination by (relation "measure (\<lambda>(c, e, cap, i, out). e - i)") auto

declare unescape.simps [simp del]

section \<open>The output fits the allocation\<close>

lemma unat_ucast_minus:
  "k \<le> unat ch \<Longrightarrow> k < 256 \<Longrightarrow> unat (ucast (ch :: byte) - of_nat k :: u32) = unat ch - k"
  by (subst unat_sub) (simp_all add: word_le_nat_alt unsigned_of_nat take_bit_eq_mod)

lemma hex_digit_unat:
  "hex_digit ch = Some d \<Longrightarrow> 48 \<le> unat ch \<and> unat ch \<le> 57 \<and> unat d = unat ch - 48 \<or>
    65 \<le> unat ch \<and> unat ch \<le> 70 \<and> unat d = unat ch - 55 \<or> 97 \<le> unat ch \<and> unat ch \<le> 102 \<and> unat d = unat ch - 87"
  using unat_ucast_minus [of 48 ch] unat_ucast_minus [of 55 ch] unat_ucast_minus [of 87 ch]
  by (auto simp: hex_digit_def word_le_nat_alt split: if_splits)

lemma hex_digit_bound: "hex_digit ch = Some d \<Longrightarrow> unat d < 16"
  by (drule hex_digit_unat) auto

lemma parse_hex4_loop_bound:
  "i + length chs = 4 \<Longrightarrow> unat h + 16 \<le> 16 ^ Suc i \<Longrightarrow> unat (parse_hex4_loop i chs h) < 65536 \<or> chs = []"
proof (induction i chs h rule: parse_hex4_loop.induct)
  case (2 i ch chs h)
  show ?case
  proof (cases "hex_digit ch")
    case (Some d)
    have d: "unat d < 16" using hex_digit_bound [OF Some] .
    have i: "i \<le> 3" using "2.prems" by simp
    then have le: "(16 :: nat) ^ Suc i \<le> 16 ^ 4" by (intro power_increasing) auto
    then have hd: "unat (h + d) = unat h + unat d"
      using d "2.prems" by (subst unat_add_lem [symmetric]) simp
    show ?thesis
    proof (cases "i < 3")
      case True
      have "unat h + unat d < 16 ^ Suc i" using d "2.prems" by simp
      moreover have "(16 :: nat) ^ Suc i \<le> 16 ^ 3" using True by (intro power_increasing) auto
      ultimately have "unat (push_bit 4 (h + d)) = 16 * (unat h + unat d)"
        by (simp add: push_bit_eq_mult unat_word_ariths hd mult.commute)
      then have "unat (push_bit 4 (h + d)) + 16 \<le> 16 ^ Suc (Suc i)"
        using d "2.prems" by simp
      moreover have "chs \<noteq> []" using True "2.prems" by auto
      ultimately show ?thesis using "2.IH" [OF Some] True "2.prems" Some by auto
    next
      case False
      then have "chs = []" "i = 3" using "2.prems" by (cases chs; simp)+
      then show ?thesis using Some hd d "2.prems" by simp
    qed
  qed simp
qed simp

lemma parse_hex4_bound: "i + 4 \<le> length c \<Longrightarrow> unat (parse_hex4 c i) < 65536"
  using parse_hex4_loop_bound [of 0 "take 4 (drop i c)" 0] by (auto simp: parse_hex4_def)

lemma length_utf8_tail: "length (snd (utf8_tail n cp bs)) = n + length bs"
  by (induction n arbitrary: cp bs) simp_all

lemma length_utf8_bytes: "0 < n \<Longrightarrow> length (utf8_bytes n mk cp) = n"
  using length_utf8_tail [of "n - 1" cp "[]"] by (auto simp: utf8_bytes_def split: prod.splits)

lemma encode_codepoint_length:
  "encode_codepoint cp = Some bs \<Longrightarrow> length bs \<le> 4 \<and> (unat cp < 65536 \<longrightarrow> length bs \<le> 3)"
  by (auto simp: encode_codepoint_def length_utf8_bytes word_less_nat_alt split: if_splits)

lemma utf16_literal_sizes:
  assumes "utf16_literal_to_utf8 c p e = Some (l, bs)" and "e \<le> length c"
  shows "l = 6 \<and> length bs \<le> 3 \<or> l = 12 \<and> length bs \<le> 4" and "p + l \<le> e"
proof -
  obtain cp where u: "utf16_literal c p e = Some (l, cp)" "encode_codepoint cp = Some bs"
    using assms(1) by (auto simp: utf16_literal_to_utf8_def split: option.splits)
  then have "l = 6 \<and> cp = parse_hex4 c (p + 2) \<or> l = 12" and pe: "p + l \<le> e"
    by (auto simp: utf16_literal_def Let_def split: if_splits)
  then show "l = 6 \<and> length bs \<le> 3 \<or> l = 12 \<and> length bs \<le> 4" and "p + l \<le> e"
    using encode_codepoint_length [OF u(2)] parse_hex4_bound [of "p + 2" c] assms(2) by auto
qed

text \<open>Where the escape sequences counted by the first pass start.\<close>

definition spaced :: "nat set \<Rightarrow> bool" where
  "spaced P \<longleftrightarrow> (\<forall>j\<in>P. Suc j \<notin> P)"

lemma spaced_card:
  assumes "spaced P"
  shows "card (P \<inter> {p..<p + 2 * m}) \<le> m"
proof (induction m)
  case (Suc m)
  have "{p..<p + 2 * Suc m} = {p..<p + 2 * m} \<union> {p + 2 * m, Suc (p + 2 * m)}" by auto
  then have eq: "P \<inter> {p..<p + 2 * Suc m} = (P \<inter> {p..<p + 2 * m}) \<union> (P \<inter> {p + 2 * m, Suc (p + 2 * m)})" by blast
  have "card (P \<inter> {x, Suc x}) \<le> 1" for x
    using assms by (cases "x \<in> P"; cases "Suc x \<in> P") (auto simp: spaced_def)
  from this [of "p + 2 * m"] Suc show ?case
    unfolding eq using card_Un_le [of "P \<inter> {p..<p + 2 * m}" "P \<inter> {p + 2 * m, Suc (p + 2 * m)}"] by linarith
qed simp

definition escapes :: "byte list \<Rightarrow> nat \<Rightarrow> nat \<Rightarrow> nat set \<Rightarrow> bool" where
  "escapes c i e P \<longleftrightarrow> spaced P \<and> P \<subseteq> {i..} \<and> (\<forall>j\<in>P. j + 2 \<le> e \<and> c ! j = 0x5C)"

lemma escapes_finite: "escapes c i e P \<Longrightarrow> finite P"
  by (rule finite_subset [of P "{..e}"]) (auto simp: escapes_def)

lemma escapes_skip: "escapes c (i + 1) e P \<Longrightarrow> escapes c i e P"
  by (auto simp: escapes_def)

lemma escapes_insert:
  assumes "escapes c (i + 2) e P" and "c ! i = 0x5C" and "i + 2 \<le> e"
  shows "escapes c i e (insert i P)" and "card (insert i P) = Suc (card P)"
proof -
  have "i \<notin> P" and "Suc i \<notin> P" and "\<forall>j\<in>P. Suc j \<noteq> i" using assms(1) by (auto simp: escapes_def)
  then show "card (insert i P) = Suc (card P)" using escapes_finite [OF assms(1)] by simp
  show "escapes c i e (insert i P)"
    using assms \<open>Suc i \<notin> P\<close> \<open>\<forall>j\<in>P. Suc j \<noteq> i\<close> by (auto simp: escapes_def spaced_def)
qed

lemma scan_string_pairs:
  assumes "scan_string c i k = Some (e, k')" and "i \<le> length c"
  shows "(\<exists>P. k' = k + card P \<and> escapes c i e P) \<and> i \<le> e \<and> e \<le> length c"
  using assms
proof (induction c i k rule: scan_string.induct)
  case (1 c i k)
  consider "\<not> (i < length c \<and> c ! i \<noteq> 0x22)" | "i < length c" "c ! i \<noteq> 0x22" "c ! i \<noteq> 0x5C"
    | "i < length c" "c ! i = 0x5C" by auto
  then show ?case
  proof cases
    case 1
    then have "e = i" "k' = k" using "1.prems" by (auto simp: scan_string.simps [of c i] split: if_splits)
    then show ?thesis using "1.prems" by (auto simp: escapes_def spaced_def intro!: exI [of _ "{}"])
  next
    case 2
    then have "scan_string c (i + 1) k = Some (e, k')" using "1.prems" by (simp add: scan_string.simps [of c i])
    from "1.IH"(2) [OF conjI [OF 2(1, 2)] 2(3) this] 2(1) show ?thesis
      using escapes_skip [of c i e] by auto
  next
    case 3
    then have s: "i + 1 < length c" "scan_string c (i + 2) (k + 1) = Some (e, k')"
      using "1.prems" by (auto simp: scan_string.simps [of c i] split: if_splits)
    have "i < length c \<and> c ! i \<noteq> 0x22" "\<not> length c \<le> i + 1" "i + 2 \<le> length c" using 3 s by auto
    from "1.IH"(1) [OF this(1) 3(2) this(2) s(2) this(3)]
    obtain P where P: "k' = k + 1 + card P" "escapes c (i + 2) e P" "i + 2 \<le> e" "e \<le> length c" by blast
    then show ?thesis
      using escapes_insert [OF P(2) 3(2) P(3)] by (auto intro!: exI [of _ "insert i P"])
  qed
qed

lemma unescape_total:
  assumes "spaced P" "\<forall>j\<in>P. j + 2 \<le> e \<and> c ! j = 0x5C" "e < length c" "p \<le> e + 1"
    and "int (length out) + (int e - int p) - int (card (P \<inter> {p..})) + 2 \<le> int cap"
  shows "\<exists>ok i out'. unescape c e cap p out = Some (ok, i, out') \<and> p \<le> i \<and> i \<le> e + 1 \<and> length out' + 1 \<le> cap"
  using assms
proof (induction c e cap p out rule: unescape.induct)
  case (1 c e cap p out)
  have fin: "finite P" using "1.prems"(2) by (intro finite_subset [of P "{..e}"]) auto
  have split: "card (P \<inter> {p..}) = card (P \<inter> {p..<q}) + card (P \<inter> {q..})" if "p \<le> q" for q
  proof -
    have "P \<inter> {p..} = (P \<inter> {p..<q}) \<union> (P \<inter> {q..})" using that by auto
    then show ?thesis using fin by (simp add: card_Un_disjoint disjoint_iff)
  qed
  have after: "int (card (P \<inter> {q..})) \<le> max 0 (int e - int q)" for q
  proof -
    have "P \<inter> {q..} \<subseteq> {q..<e}" using "1.prems"(2) by fastforce
    then have "card (P \<inter> {q..}) \<le> card {q..<e}" by (rule card_mono [rotated]) simp
    then show ?thesis by auto
  qed
  have pot: "length out + 1 \<le> cap" using "1.prems"(4, 5) after [of p] by auto
  have step: "length out + n + 1 \<le> cap \<and>
      int (length out + n) + (int e - int q) - int (card (P \<inter> {q..})) + 2 \<le> int cap"
    if "p < e" "p \<le> q" "q \<le> e + 1" "n + card (P \<inter> {p..<q}) \<le> q - p" for n q
    using "1.prems"(5) split [OF that(2)] that after [of q] by auto
  show ?case
  proof (cases "p < e")
    case False
    then show ?thesis using "1.prems" pot by (auto simp: unescape.simps [of c e cap p])
  next
    case True
    then have rd: "rd c p = Some (c ! p)" "rd c (p + 1) = Some (c ! (p + 1))"
      using "1.prems" by (auto simp: rd_def)
    show ?thesis
    proof (cases "c ! p = 0x5C")
      case False
      then have "P \<inter> {p..<p + 1} = {}" using "1.prems"(2) by force
      then have st: "length out + 1 + 1 \<le> cap \<and>
        int (length out + 1) + (int e - int (p + 1)) - int (card (P \<inter> {p + 1..})) + 2 \<le> int cap"
        using step [of "p + 1" 1] True by simp
      then have em: "emit cap out [c ! p] = Some (out @ [c ! p])" by (simp add: emit_def)
      show ?thesis
        using "1.IH"(1) [OF True rd(1) False em] "1.prems" st em False True rd
        by (auto simp: unescape.simps [of c e cap p out])
    next
      case bs: True
      have card2: "card (P \<inter> {p..<p + 2}) \<le> 1" using spaced_card [OF "1.prems"(1), of p 1] by simp
      have st2: "length out + 1 + 1 \<le> cap \<and>
        int (length out + 1) + (int e - int (p + 2)) - int (card (P \<inter> {p + 2..})) + 2 \<le> int cap"
        using step [of "p + 2" 1] True card2 by simp
      show ?thesis
      proof (cases "c ! (p + 1) = 0x75")
        case u: True
        show ?thesis
        proof (cases "utf16_literal_to_utf8 c p e")
          case None
          then show ?thesis using True bs u rd "1.prems" pot by (auto simp: unescape.simps [of c e cap p out])
        next
          case (Some lb)
          obtain l bytes where lb: "lb = (l, bytes)" by (cases lb)
          have sz: "l = 6 \<and> length bytes \<le> 3 \<or> l = 12 \<and> length bytes \<le> 4" "p + l \<le> e"
            using utf16_literal_sizes [of c p e l bytes] Some lb "1.prems" by auto
          have "card (P \<inter> {p..<p + 6}) \<le> 3" "card (P \<inter> {p..<p + 12}) \<le> 6"
            using spaced_card [OF "1.prems"(1), of p 3] spaced_card [OF "1.prems"(1), of p 6] by simp_all
          then have stl: "length out + length bytes + 1 \<le> cap \<and>
            int (length out + length bytes) + (int e - int (p + l)) - int (card (P \<inter> {p + l..})) + 2 \<le> int cap"
            using step [of "p + l" "length bytes"] True sz by auto
          then have em: "emit cap out bytes = Some (out @ bytes)" by (simp add: emit_def)
          show ?thesis
            using "1.IH"(2) [OF True rd(1) _ _ rd(2) u Some lb [symmetric] em] "1.prems" stl sz True bs u rd Some lb em
            by (auto simp: unescape.simps [of c e cap p out])
        qed
      next
        case nu: False
        show ?thesis
        proof (cases "escape_char (c ! (p + 1))")
          case None
          then show ?thesis using True bs nu rd "1.prems" pot by (auto simp: unescape.simps [of c e cap p out])
        next
          case (Some x)
          have em: "emit cap out [x] = Some (out @ [x])" using st2 by (simp add: emit_def)
          show ?thesis
            using "1.IH"(3) [OF True rd(1) _ _ rd(2) nu Some em] "1.prems" st2 True bs nu rd Some em
            by (auto simp: unescape.simps [of c e cap p out])
        qed
      qed
    qed
  qed
qed

section \<open>UTF-16 literals\<close>

definition utf8_ref :: "nat \<Rightarrow> byte list" where
  "utf8_ref v =
     (if v < 0x80 then [of_nat v]
      else if v < 0x800 then [of_nat (0xC0 + v div 64), of_nat (0x80 + v mod 64)]
      else if v < 0x10000 then [of_nat (0xE0 + v div 4096), of_nat (0x80 + v div 64 mod 64), of_nat (0x80 + v mod 64)]
      else [of_nat (0xF0 + v div 262144), of_nat (0x80 + v div 4096 mod 64), of_nat (0x80 + v div 64 mod 64),
            of_nat (0x80 + v mod 64)])"

lemma trail_byte: "ucast ((w OR 0x80) AND 0xBF) = (of_nat (0x80 + unat (w :: u32) mod 64) :: byte)"
proof -
  have "(ucast ((w OR 0x80) AND 0xBF) :: byte) = 0x80 OR ucast (take_bit 6 w)"
  proof (rule bit_word_eqI)
    fix n
    assume "n < LENGTH(8)"
    then have "n = 0 \<or> n = 1 \<or> n = 2 \<or> n = 3 \<or> n = 4 \<or> n = 5 \<or> n = 6 \<or> n = 7" by auto
    then show "bit (ucast ((w OR 0x80) AND 0xBF) :: byte) n = bit (0x80 OR ucast (take_bit 6 w) :: byte) n"
      by (elim disjE) (simp_all add: bit_simps)
  qed
  also have "\<dots> = 0x80 + ucast (take_bit 6 w)"
  proof (rule disjunctive_add [symmetric])
    have "\<not> bit (0x80 :: byte) n" if "n < 6" for n
    proof -
      have "n = 0 \<or> n = 1 \<or> n = 2 \<or> n = 3 \<or> n = 4 \<or> n = 5" using that by auto
      then show ?thesis by (elim disjE) simp_all
    qed
    then show "\<not> bit (0x80 :: byte) n \<or> \<not> bit (ucast (take_bit 6 w) :: byte) n" for n
      by (auto simp: bit_simps)
  qed
  also have "(ucast (take_bit 6 w) :: byte) = of_nat (unat (take_bit 6 w))" by (simp only: of_nat_unat)
  also have "unat (take_bit 6 w) = unat w mod 64" by (simp only: unsigned_take_bit_eq) (simp add: take_bit_eq_mod)
  finally show ?thesis by simp
qed

lemma lead_byte:
  assumes "unat (w :: u32) < 2 ^ k" and "mk = push_bit k (mk' :: u32)"
  shows "ucast ((w OR mk) AND 0xFF) = (of_nat (unat mk + unat w) :: byte)"
proof -
  have nb: "\<not> bit w i" if "k \<le> i" for i
  proof -
    have "(2 :: nat) ^ k \<le> 2 ^ i" using that by simp
    then show ?thesis using assms(1) by (intro not_bit_unat_less) linarith
  qed
  have ff: "(0xFF :: u32) = mask 8" by (simp add: mask_eq_exp_minus_1)
  have "w OR mk = w + mk"
    by (rule disjunctive_add [symmetric]) (use nb in \<open>auto simp: assms(2) bit_simps\<close>)
  moreover have "(ucast (x AND 0xFF) :: byte) = ucast x" for x :: u32
    unfolding ff by (rule bit_word_eqI) (auto simp: bit_simps)
  moreover have "w + mk = of_nat (unat mk + unat w)" by simp
  ultimately show ?thesis by (simp only: ucast_of_nat_byte)
qed

lemma utf8_bytes_split:
  "utf8_bytes 2 mk cp = [ucast ((drop_bit 6 cp OR mk) AND 0xFF), ucast ((cp OR 0x80) AND 0xBF)]"
  "utf8_bytes 3 mk cp = [ucast ((drop_bit 12 cp OR mk) AND 0xFF), ucast ((drop_bit 6 cp OR 0x80) AND 0xBF),
     ucast ((cp OR 0x80) AND 0xBF)]"
  "utf8_bytes 4 mk cp = [ucast ((drop_bit 18 cp OR mk) AND 0xFF), ucast ((drop_bit 12 cp OR 0x80) AND 0xBF),
     ucast ((drop_bit 6 cp OR 0x80) AND 0xBF), ucast ((cp OR 0x80) AND 0xBF)]"
  by (simp_all add: utf8_bytes_def numeral_2_eq_2 numeral_3_eq_3 drop_bit_drop_bit)

lemma encode_codepoint_utf8:
  "encode_codepoint cp = (if unat cp \<le> 0x10FFFF then Some (utf8_ref (unat cp)) else None)"
proof -
  have u1: "utf8_bytes 1 0 cp = [of_nat (unat cp)]" if "unat cp < 0x80"
  proof -
    have "cp AND 0x7F = take_bit 7 cp" by (simp add: take_bit_eq_mask mask_eq_exp_minus_1)
    then have "unat (cp AND 0x7F) = take_bit 7 (unat cp)" by (simp only: unsigned_take_bit_eq)
    then have "unat (cp AND 0x7F) = unat cp" using that by (simp add: take_bit_eq_mod)
    then have "cp AND 0x7F = cp" by (simp only: word_unat_eq_iff)
    then show ?thesis by (simp add: utf8_bytes_def of_nat_unat)
  qed
  have u2: "utf8_bytes 2 0xC0 cp = [of_nat (0xC0 + unat cp div 64), of_nat (0x80 + unat cp mod 64)]" if "unat cp < 0x800"
    using lead_byte [of "drop_bit 6 cp" 6 "0xC0" 3] that
    by (simp add: utf8_bytes_split trail_byte unat_drop_div del: of_nat_add)
  have u3: "utf8_bytes 3 0xE0 cp = [of_nat (0xE0 + unat cp div 4096), of_nat (0x80 + unat cp div 64 mod 64), of_nat (0x80 + unat cp mod 64)]"
    if "unat cp < 0x10000"
    using lead_byte [of "drop_bit 12 cp" 5 "0xE0" 7] that
    by (simp add: utf8_bytes_split trail_byte unat_drop_div del: of_nat_add)
  have u4: "utf8_bytes 4 0xF0 cp = [of_nat (0xF0 + unat cp div 262144), of_nat (0x80 + unat cp div 4096 mod 64),
      of_nat (0x80 + unat cp div 64 mod 64), of_nat (0x80 + unat cp mod 64)]" if "unat cp < 0x110000"
    using lead_byte [of "drop_bit 18 cp" 4 "0xF0" 15] that
    by (simp add: utf8_bytes_split trail_byte unat_drop_div del: of_nat_add)
  show ?thesis
    using u1 u2 u3 u4
    by (simp add: encode_codepoint_def word_less_nat_alt word_le_nat_alt utf8_ref_def)
qed

text \<open>Four hexadecimal digits.\<close>

definition hex_char :: "nat \<Rightarrow> byte" where
  "hex_char d = (if d < 10 then of_nat (48 + d) else of_nat (87 + d))"

definition hex4 :: "nat \<Rightarrow> byte list" where
  "hex4 n = [hex_char (n div 4096 mod 16), hex_char (n div 256 mod 16), hex_char (n div 16 mod 16), hex_char (n mod 16)]"

text \<open>The spellings of a digit and of a value, in lower or upper case.\<close>

definition spells :: "byte \<Rightarrow> nat \<Rightarrow> bool" where
  "spells ch d \<longleftrightarrow> d < 10 \<and> ch = of_nat (48 + d) \<or> 10 \<le> d \<and> d < 16 \<and> (ch = of_nat (55 + d) \<or> ch = of_nat (87 + d))"

definition spells4 :: "byte list \<Rightarrow> nat \<Rightarrow> bool" where
  "spells4 ds n \<longleftrightarrow> list_all2 spells ds [n div 4096 mod 16, n div 256 mod 16, n div 16 mod 16, n mod 16]"

definition spelling :: "nat \<Rightarrow> byte list \<Rightarrow> bool" where
  "spelling v t \<longleftrightarrow>
     (if v < 0x10000 then take 2 t = [0x5C, 0x75] \<and> spells4 (drop 2 t) v
      else take 2 t = [0x5C, 0x75] \<and> spells4 (take 4 (drop 2 t)) (0xD800 + (v - 0x10000) div 1024) \<and>
        take 2 (drop 6 t) = [0x5C, 0x75] \<and> spells4 (drop 8 t) (0xDC00 + (v - 0x10000) mod 1024))"

lemma hex_digit_spells: "spells ch d \<Longrightarrow> hex_digit ch = Some (of_nat d)"
proof -
  assume s: "spells ch d"
  then have "d = 0 \<or> d = 1 \<or> d = 2 \<or> d = 3 \<or> d = 4 \<or> d = 5 \<or> d = 6 \<or> d = 7 \<or>
    d = 8 \<or> d = 9 \<or> d = 10 \<or> d = 11 \<or> d = 12 \<or> d = 13 \<or> d = 14 \<or> d = 15" by (auto simp: spells_def)
  then show ?thesis using s by (elim disjE) (auto simp: spells_def hex_digit_def)
qed

lemma spells_hex_char: "d < 16 \<Longrightarrow> spells (hex_char d) d"
  by (simp add: spells_def hex_char_def)

lemma hex_digit_hex_char: "d < 16 \<Longrightarrow> hex_digit (hex_char d) = Some (of_nat d)"
  by (rule hex_digit_spells [OF spells_hex_char])

lemma spells4_hex4: "spells4 (hex4 n) n"
  by (simp add: spells4_def hex4_def spells_hex_char)

lemma spells4_length: "spells4 ds n \<Longrightarrow> length ds = 4"
  by (auto simp: spells4_def dest: list_all2_lengthD)

lemma parse_hex4_loop_spells:
  assumes "n < 65536" and "spells4 ds n"
  shows "parse_hex4_loop 0 ds 0 = of_nat n"
proof -
  obtain a b c d where ds: "ds = [a, b, c, d]" "spells a (n div 4096 mod 16)" "spells b (n div 256 mod 16)" "spells c (n div 16 mod 16)" "spells d (n mod 16)"
    using assms(2) by (auto simp: spells4_def list_all2_Cons2)
  have "n = (n div 4096 mod 16) * 4096 + (n div 256 mod 16) * 256 + (n div 16 mod 16) * 16 + n mod 16"
  proof -
    have "n div 16 = n div 256 * 16 + n div 16 mod 16" "n div 256 = n div 4096 * 16 + n div 256 mod 16"
      using div_mult_mod_eq [of "n div 16" 16] div_mult_mod_eq [of "n div 256" 16] by (simp_all flip: div_mult2_eq)
    moreover have "n div 4096 mod 16 = n div 4096" using assms(1) by simp
    ultimately show ?thesis using div_mult_mod_eq [of n 16] by linarith
  qed
  moreover have "parse_hex4_loop 0 ds 0 =
    of_nat ((n div 4096 mod 16) * 4096 + (n div 256 mod 16) * 256 + (n div 16 mod 16) * 16 + n mod 16)"
    unfolding ds(1) by (simp add: ds(2-5) [THEN hex_digit_spells] push_bit_eq_mult algebra_simps)
  ultimately show ?thesis by (simp only:)
qed

lemma length_hex4 [simp]: "length (hex4 n) = 4"
  by (simp add: hex4_def)

lemma parse_hex4_spells:
  assumes "n < 65536" and "spells4 ds n"
  shows "parse_hex4 (pre @ ds @ post) (length pre) = of_nat n"
  using parse_hex4_loop_spells [OF assms] spells4_length [OF assms(2)] by (simp add: parse_hex4_def)

lemma parse_hex4_at: "n < 65536 \<Longrightarrow> parse_hex4 (pre @ hex4 n @ post) (length pre) = of_nat n"
  by (rule parse_hex4_spells [OF _ spells4_hex4])

lemma low10: "unat (w AND 0x3FF) = unat (w :: u32) mod 1024"
proof -
  have "w AND 0x3FF = take_bit 10 w" by (simp add: take_bit_eq_mask mask_eq_exp_minus_1)
  then have "unat (w AND 0x3FF) = take_bit 10 (unat w)" by (simp only: unsigned_take_bit_eq)
  then show ?thesis by (simp add: take_bit_eq_mod)
qed

lemma surrogate_pair:
  assumes "hi < 1024" "lo < 1024"
  shows "push_bit 10 ((of_nat (0xD800 + hi) :: u32) AND 0x3FF) OR ((of_nat (0xDC00 + lo) :: u32) AND 0x3FF) = of_nat (hi * 1024 + lo)"
proof -
  have "unat ((of_nat (0xD800 + hi) :: u32) AND 0x3FF) = hi" "unat ((of_nat (0xDC00 + lo) :: u32) AND 0x3FF) = lo"
    unfolding low10 using assms mod_mult_self1 [of hi 54 1024] mod_mult_self1 [of lo 55 1024]
    by (subst unat_of_nat_u32; simp add: add.commute)+
  then have h: "(of_nat (0xD800 + hi) :: u32) AND 0x3FF = of_nat hi" and l: "(of_nat (0xDC00 + lo) :: u32) AND 0x3FF = of_nat lo"
    using assms by (simp_all only: word_unat_eq_iff) (simp_all add: unat_of_nat_u32)
  have "\<not> bit (of_nat lo :: u32) n" if "10 \<le> n" for n
  proof -
    have "(1024 :: nat) \<le> 2 ^ n" using power_increasing [OF that, of "2 :: nat"] by simp
    then have "lo < 2 ^ n" using assms by simp
    then show ?thesis using assms by (intro not_bit_unat_less) (simp add: unat_of_nat_u32)
  qed
  then have "push_bit 10 (of_nat hi :: u32) OR of_nat lo = push_bit 10 (of_nat hi) + of_nat lo"
    by (intro disjunctive_add [symmetric]) (auto simp: bit_simps)
  then show ?thesis unfolding h l by (simp add: push_bit_eq_mult)
qed

lemma utf16_literal_pair:
  assumes "p + 12 \<le> e" "hi < 1024" "lo < 1024"
    and h1: "parse_hex4 c (p + 2) = of_nat (0xD800 + hi)" and h2: "parse_hex4 c (p + 8) = of_nat (0xDC00 + lo)"
    and mid: "c ! (p + 6) = 0x5C" "c ! (p + 7) = 0x75"
  shows "utf16_literal c p e = Some (12, 0x10000 + of_nat (hi * 1024 + lo))"
proof -
  have u: "unat (of_nat (0xD800 + hi) :: u32) = 0xD800 + hi" "unat (of_nat (0xDC00 + lo) :: u32) = 0xDC00 + lo"
    using assms(2, 3) by (simp_all add: unat_of_nat_u32 del: of_nat_add)
  have i: "p + 6 + 1 = p + 7" "p + 6 + 2 = p + 8" by simp_all
  have d: "\<not> e - p < 6" "\<not> e - (p + 6) < 6" using assms(1) by simp_all
  have "\<not> (0xDC00 \<le> 0xD800 + hi \<and> 0xD800 + hi \<le> 0xDFFF)" "0xD800 \<le> 0xD800 + hi \<and> 0xD800 + hi \<le> 0xDBFF"
    "\<not> (0xDC00 + lo < 0xDC00 \<or> 0xDFFF < 0xDC00 + lo)"
    using assms(2, 3) by simp_all
  then show ?thesis
    unfolding utf16_literal_def Let_def h1 i h2 mid surrogate_pair [OF assms(2, 3)]
    using d u by (simp only: word_le_nat_alt word_less_nat_alt) (simp del: of_nat_add)
qed

text \<open>
  C12. Escaped Unicode: for every Unicode scalar value, the literal \<^verbatim>\<open>\uXXXX\<close> (or the surrogate pair for
  values beyond the basic plane), with hexadecimal digits of either case, is consumed entirely and decoded to the UTF-8 encoding of the
  value, wherever the literal stands in the text.
\<close>

theorem utf16_escape_utf8:
  assumes "v \<le> 0x10FFFF" and "\<not> (0xD800 \<le> v \<and> v \<le> 0xDFFF)"
    and "spelling v t" and "length pre + length t \<le> e"
  shows "utf16_literal_to_utf8 (pre @ t @ post) (length pre) e = Some (length t, utf8_ref v)"
proof (cases "v < 0x10000")
  case True
  obtain ds where t: "t = [0x5C, 0x75] @ ds" "spells4 ds v" using assms(3) True append_take_drop_id [of 2 t] by (metis spelling_def)
  have "parse_hex4 (pre @ t @ post) (length pre + 2) = of_nat v"
    using parse_hex4_spells [of v ds "pre @ [0x5C, 0x75]" post] True t by simp
  moreover have "unat (of_nat v :: u32) = v" using True by (simp add: unat_of_nat_u32)
  moreover have "\<not> (0xDC00 \<le> v \<and> v \<le> 0xDFFF)" "\<not> (0xD800 \<le> v \<and> v \<le> 0xDBFF)" using assms(2) by auto
  moreover have len: "length t = 6" using spells4_length [OF t(2)] by (simp add: t(1))
  moreover from this have "\<not> e - length pre < 6" using assms(4) by simp
  ultimately have "utf16_literal (pre @ t @ post) (length pre) e = Some (6, of_nat v)"
    unfolding utf16_literal_def by (simp only: Let_def word_le_nat_alt) simp
  then show ?thesis
    using assms len \<open>unat (of_nat v :: u32) = v\<close> by (simp add: utf16_literal_to_utf8_def encode_codepoint_utf8)
next
  case False
  define hi lo where "hi = (v - 0x10000) div 1024" and "lo = (v - 0x10000) mod 1024"
  have hl: "hi < 1024" "lo < 1024" "v = 0x10000 + (hi * 1024 + lo)"
    using False assms(1) by (auto simp: hi_def lo_def)
  let ?c = "pre @ t @ post"
  have sp: "take 2 t = [0x5C, 0x75]" "spells4 (take 4 (drop 2 t)) (0xD800 + hi)" "take 2 (drop 6 t) = [0x5C, 0x75]" "spells4 (drop 8 t) (0xDC00 + lo)"
    using assms(3) False by (simp_all add: spelling_def hi_def lo_def)
  define hs ls where "hs = take 4 (drop 2 t)" and "ls = drop 8 t"
  have "t = take 2 t @ take 4 (drop 2 t) @ take 2 (drop 6 t) @ drop 8 t"
    using append_take_drop_id [of 2 t] append_take_drop_id [of 4 "drop 2 t"] append_take_drop_id [of 2 "drop 6 t"] by simp
  then have esc: "t = [0x5C, 0x75] @ hs @ [0x5C, 0x75] @ ls" unfolding sp(1,3) hs_def [symmetric] ls_def [symmetric] .
  have h: "spells4 hs (0xD800 + hi)" "spells4 ls (0xDC00 + lo)" using sp(2,4) by (simp_all add: hs_def ls_def)
  note len = spells4_length [OF h(1)] spells4_length [OF h(2)]
  have h1: "parse_hex4 ?c (length pre + 2) = of_nat (0xD800 + hi)"
    using parse_hex4_spells [OF _ h(1), of "pre @ [0x5C, 0x75]" "[0x5C, 0x75] @ ls @ post"] hl(1, 2)
    by (simp add: esc del: of_nat_add)
  have h2: "parse_hex4 ?c (length pre + 8) = of_nat (0xDC00 + lo)"
    using parse_hex4_spells [OF _ h(2), of "pre @ [0x5C, 0x75] @ hs @ [0x5C, 0x75]" post] hl(1, 2) len
    by (simp add: esc del: of_nat_add)
  have mid: "?c ! (length pre + 6) = 0x5C" "?c ! (length pre + 7) = 0x75"
    using len by (simp_all add: esc nth_append)
  have "utf16_literal ?c (length pre) e = Some (12, 0x10000 + of_nat (hi * 1024 + lo))"
    using assms(4) hl(1, 2) h1 h2 mid len by (intro utf16_literal_pair) (simp_all add: esc)
  moreover have "(0x10000 :: u32) + of_nat (hi * 1024 + lo) = of_nat v" unfolding hl(3) by simp
  moreover have "unat (of_nat v :: u32) = v" using assms(1) by (simp add: unat_of_nat_u32)
  ultimately show ?thesis
    using assms(1) len by (simp add: utf16_literal_to_utf8_def encode_codepoint_utf8 esc)
qed

theorem utf16_escape_utf8_witness:
  "utf16_literal_to_utf8 ([0x22] @ [0x5C, 0x75, 0x44, 0x38, 0x33, 0x64, 0x5C, 0x75, 0x64, 0x45, 0x30, 0x30] @ [0x22]) (length [0x22 :: byte]) 13 =
     Some (length [0x5C, 0x75, 0x44, 0x38, 0x33, 0x64, 0x5C, 0x75, 0x64, 0x45, 0x30, 0x30 :: byte], [0xF0, 0x9F, 0x98, 0x80])"
  using utf16_escape_utf8 [of "0x1F600" "[0x5C, 0x75, 0x44, 0x38, 0x33, 0x64, 0x5C, 0x75, 0x64, 0x45, 0x30, 0x30]" "[0x22]" 13 "[0x22]"]
  by (simp add: spelling_def spells4_def spells_def utf8_ref_def)

lemma parse_hex4_loop_invalid:
  "list_ex (\<lambda>ch. hex_digit ch = None) ds \<Longrightarrow> parse_hex4_loop i ds h = 0"
  by (induction i ds h rule: parse_hex4_loop.induct) (auto split: option.splits)

text \<open>
  Malformed escapes are accepted: when one of the four characters after \<^verbatim>\<open>\u\<close> is not a
  hexadecimal digit, \<^verbatim>\<open>parse_hex4\<close> returns 0 and the literal decodes, without an error, to a NUL byte.
\<close>

theorem utf16_invalid_hex_accepted:
  assumes "length ds = 4" and "list_ex (\<lambda>ch. hex_digit ch = None) ds" and "length pre + 6 \<le> e"
  shows "utf16_literal_to_utf8 (pre @ [0x5C, 0x75] @ ds @ post) (length pre) e = Some (6, [0])"
proof -
  have "parse_hex4 (pre @ [0x5C, 0x75] @ ds @ post) (length pre + 2) = 0"
    using parse_hex4_loop_invalid [OF assms(2)] assms(1) by (simp add: parse_hex4_def)
  then show ?thesis
    using assms(3) by (simp add: utf16_literal_to_utf8_def utf16_literal_def encode_codepoint_utf8 utf8_ref_def)
qed

theorem utf16_invalid_hex_accepted_witness:
  "utf16_literal_to_utf8 ([0x22] @ [0x5C, 0x75] @ [0x7A, 0x7A, 0x7A, 0x7A] @ [0x22]) (length [0x22 :: byte]) 7 = Some (6, [0])"
  using utf16_invalid_hex_accepted [of "[0x7A, 0x7A, 0x7A, 0x7A]" "[0x22]" 7 "[0x22]"]
  by (simp add: hex_digit_def)

end
