(* ===== verification/CjsonParse.thy ===== *)
theory CjsonParse
  imports CjsonString
begin

text \<open>
  The parser of \<^verbatim>\<open>cJSON.c\<close>. The functions keep their C shape: they take the item to fill and the parse
  buffer and return the boolean, the item and the buffer. None is an access outside the text or
  an output buffer, or a bound exceeded. The buffer holds the whole text with its terminator
  (\<^verbatim>\<open>length\<close> is the length of \<open>content\<close>), and two counters of the allocator: the number of requests so
  far, which selects its answers, and the number of live blocks.

  The contract \<open>parsed_ok\<close> states at once what every parser guarantees: it stays inside the text and
  its allocations, on success it consumes input, fills the item with a well-formed tree
  (\<open>json_ok\<close>, which bounds the nesting) and accounts for its memory, on failure it leaves the item as
  it was and has released everything it allocated. It is proved for each parser from the ones it
  calls and, by induction on the nesting, for \<open>parse_value\<close>.
\<close>

unbundle bit_operations_syntax

section \<open>The parse buffer\<close>

record parse_buffer =
  content :: "byte list"
  offset :: nat
  depth :: nat
  nalloc :: nat
  live :: int

definition can_read :: "parse_buffer \<Rightarrow> nat \<Rightarrow> bool" where
  "can_read b n = (offset b + n \<le> length (content b))"

definition can_access_at_index :: "parse_buffer \<Rightarrow> nat \<Rightarrow> bool" where
  "can_access_at_index b i = (offset b + i < length (content b))"

definition buffer_at_offset :: "parse_buffer \<Rightarrow> nat \<Rightarrow> byte option" where
  "buffer_at_offset b i = rd (content b) (offset b + i)"

definition allocate :: "'d env \<Rightarrow> parse_buffer \<Rightarrow> bool \<times> parse_buffer" where
  "allocate E b =
     (if alloc_ok E (nalloc b)
      then (True, b\<lparr>nalloc := Suc (nalloc b), live := live b + 1\<rparr>)
      else (False, b\<lparr>nalloc := Suc (nalloc b)\<rparr>))"

definition deallocate :: "nat \<Rightarrow> parse_buffer \<Rightarrow> parse_buffer" where
  "deallocate n b = b\<lparr>live := live b - int n\<rparr>"

section \<open>Numbers\<close>

definition number_char :: "byte \<Rightarrow> bool" where
  "number_char ch = (ch \<in> {0x30, 0x31, 0x32, 0x33, 0x34, 0x35, 0x36, 0x37, 0x38, 0x39, 0x2B, 0x2D, 0x65, 0x45, 0x2E})"

function copy_number :: "byte \<Rightarrow> parse_buffer \<Rightarrow> nat \<Rightarrow> byte list \<Rightarrow> byte list" where
  "copy_number dp b i number_c_string =
     (if i < 64 - 1 \<and> can_access_at_index b i
      then (let ch = content b ! (offset b + i)
            in if number_char ch
               then copy_number dp b (Suc i) (number_c_string @ [if ch = 0x2E then dp else ch])
               else number_c_string)
      else number_c_string)"
  by pat_completeness auto
termination by (relation "measure (\<lambda>(dp, b, i, s). 64 - i)") auto

declare copy_number.simps [simp del]

definition parse_number :: "'d env \<Rightarrow> 'd cJSON \<Rightarrow> parse_buffer \<Rightarrow> bool \<times> 'd cJSON \<times> parse_buffer" where
  "parse_number E item b =
     (let number_c_string = copy_number (decimal_point E) b 0 [];
          (number, after_end) = strtod E number_c_string
      in if after_end = 0 then (False, item, b)
         else (True, (case item of CJSON t vs vi vd nm ch \<Rightarrow>
                        CJSON cJSON_Number vs (number_to_int E number) number nm ch),
               b\<lparr>offset := offset b + after_end\<rparr>))"

section \<open>Strings\<close>

definition parse_string :: "'d env \<Rightarrow> 'd cJSON \<Rightarrow> parse_buffer \<Rightarrow> (bool \<times> 'd cJSON \<times> parse_buffer) option" where
  "parse_string E item b =
     (let start = offset b + 1; fail = (\<lambda>i b. Some (False, item, b\<lparr>offset := i\<rparr>))
      in do {
        q \<leftarrow> buffer_at_offset b 0;
        if q \<noteq> 0x22 then fail start b
        else
          (case scan_string (content b) start 0 of
             None \<Rightarrow> fail start b
           | Some (input_end, skipped_bytes) \<Rightarrow>
               if input_end \<ge> length (content b) \<or> content b ! input_end \<noteq> 0x22 then fail start b
               else
                 (let allocation_length = (input_end - offset b) - skipped_bytes;
                      (ok, b) = allocate E b
                  in if \<not> ok then fail start b
                     else do {
                       (ok, input_pointer, out) \<leftarrow> unescape (content b) input_end (allocation_length + 1) start [];
                       if \<not> ok then fail input_pointer (deallocate 1 b)
                       else do {
                         _ \<leftarrow> emit (allocation_length + 1) out [0];
                         Some (True, (case item of CJSON t vs vi vd nm ch \<Rightarrow>
                                        CJSON cJSON_String (Some out) vi vd nm ch),
                               b\<lparr>offset := input_end + 1\<rparr>)
                       }
                     }))
      })"

section \<open>Values\<close>

function skip_ws :: "byte list \<Rightarrow> nat \<Rightarrow> nat" where
  "skip_ws c i = (if i < length c \<and> c ! i \<le> 32 then skip_ws c (Suc i) else i)"
  by pat_completeness auto
termination by (relation "measure (\<lambda>(c, i). length c - i)") auto

declare skip_ws.simps [simp del]

definition buffer_skip_whitespace :: "parse_buffer \<Rightarrow> parse_buffer option" where
  "buffer_skip_whitespace b =
     (let i = skip_ws (content b) (offset b)
      in if i = length (content b)
         then if i = 0 then None else Some (b\<lparr>offset := i - 1\<rparr>)
         else Some (b\<lparr>offset := i\<rparr>))"

definition strncmp_at :: "parse_buffer \<Rightarrow> byte list \<Rightarrow> bool" where
  "strncmp_at b lit = (take (length lit) (drop (offset b) (content b)) = lit)"

definition set_type :: "u32 \<Rightarrow> 'd cJSON \<Rightarrow> 'd cJSON" where
  "set_type t item = (case item of CJSON _ vs vi vd nm ch \<Rightarrow> CJSON t vs vi vd nm ch)"

definition set_valueint :: "int \<Rightarrow> 'd cJSON \<Rightarrow> 'd cJSON" where
  "set_valueint i item = (case item of CJSON t vs _ vd nm ch \<Rightarrow> CJSON t vs i vd nm ch)"

definition set_children :: "u32 \<Rightarrow> 'd cJSON list \<Rightarrow> 'd cJSON \<Rightarrow> 'd cJSON" where
  "set_children t ch item = (case item of CJSON _ vs vi vd nm _ \<Rightarrow> CJSON t vs vi vd nm ch)"

definition string_to_name :: "'d cJSON \<Rightarrow> 'd cJSON" where
  "string_to_name item = (case item of CJSON t vs vi vd nm ch \<Rightarrow> CJSON t None vi vd vs ch)"

definition Delete_list :: "'d cJSON list \<Rightarrow> parse_buffer \<Rightarrow> parse_buffer" where
  "Delete_list items b = deallocate (sum_list (map cJSON_Delete_blocks items)) b"

definition dec_offset :: "parse_buffer \<Rightarrow> parse_buffer option" where
  "dec_offset b = (if offset b = 0 then None else Some (b\<lparr>offset := offset b - 1\<rparr>))"

definition inc_offset :: "parse_buffer \<Rightarrow> parse_buffer" where
  "inc_offset b = b\<lparr>offset := Suc (offset b)\<rparr>"

type_synonym 'd parser = "'d cJSON \<Rightarrow> parse_buffer \<Rightarrow> (bool \<times> 'd cJSON \<times> parse_buffer) option"

text \<open>
  The three parsers of values, arrays and objects call each other. \<open>parse_array\<close> and
  \<open>parse_object\<close> take the parser of nested values as an argument; their loops are bounded by the
  length of the text and \<open>parse_value\<close> by the nesting depth, None standing for a loop or a nesting
  that exceeds its bound.
\<close>

fun parse_elements :: "'d env \<Rightarrow> 'd parser \<Rightarrow> nat \<Rightarrow> 'd cJSON list \<Rightarrow> parse_buffer
    \<Rightarrow> (bool \<times> 'd cJSON list \<times> parse_buffer) option" where
  "parse_elements E pv 0 head b = None"
| "parse_elements E pv (Suc k) head b =
     (let (ok, b) = allocate E b
      in if \<not> ok then Some (False, head, b)
         else do {
           b \<leftarrow> buffer_skip_whitespace (inc_offset b);
           (ok, current_item, b) \<leftarrow> pv (New_Item E) b;
           if \<not> ok then Some (False, head @ [current_item], b)
           else do {
             b \<leftarrow> buffer_skip_whitespace b;
             if can_access_at_index b 0 \<and> content b ! offset b = 0x2C
             then parse_elements E pv k (head @ [current_item]) b
             else Some (True, head @ [current_item], b)
           }
         })"

definition parse_array :: "'d env \<Rightarrow> 'd parser \<Rightarrow> 'd parser" where
  "parse_array E pv item b =
     (if depth b \<ge> CJSON_NESTING_LIMIT then Some (False, item, b)
      else do {
        let b = b\<lparr>depth := Suc (depth b)\<rparr>;
        ch \<leftarrow> buffer_at_offset b 0;
        if ch \<noteq> 0x5B then Some (False, item, b)
        else do {
          b \<leftarrow> buffer_skip_whitespace (inc_offset b);
          if can_access_at_index b 0 \<and> content b ! offset b = 0x5D
          then Some (True, set_children cJSON_Array [] item, inc_offset (b\<lparr>depth := depth b - 1\<rparr>))
          else if \<not> can_access_at_index b 0
          then do { b \<leftarrow> dec_offset b; Some (False, item, b) }
          else do {
            b \<leftarrow> dec_offset b;
            (ok, head, b) \<leftarrow> parse_elements E pv (Suc (length (content b))) [] b;
            if \<not> ok \<or> \<not> can_access_at_index b 0 \<or> content b ! offset b \<noteq> 0x5D
            then Some (False, item, Delete_list head b)
            else Some (True, set_children cJSON_Array head item, inc_offset (b\<lparr>depth := depth b - 1\<rparr>))
          }
        }
      })"

fun parse_members :: "'d env \<Rightarrow> 'd parser \<Rightarrow> nat \<Rightarrow> 'd cJSON list \<Rightarrow> parse_buffer
    \<Rightarrow> (bool \<times> 'd cJSON list \<times> parse_buffer) option" where
  "parse_members E pv 0 head b = None"
| "parse_members E pv (Suc k) head b =
     (let (ok, b) = allocate E b
      in if \<not> ok then Some (False, head, b)
         else do {
           b \<leftarrow> buffer_skip_whitespace (inc_offset b);
           (ok, current_item, b) \<leftarrow> parse_string E (New_Item E) b;
           if \<not> ok then Some (False, head @ [current_item], b)
           else do {
             b \<leftarrow> buffer_skip_whitespace b;
             let current_item = string_to_name current_item;
             if \<not> can_access_at_index b 0 \<or> content b ! offset b \<noteq> 0x3A
             then Some (False, head @ [current_item], b)
             else do {
               b \<leftarrow> buffer_skip_whitespace (inc_offset b);
               (ok, current_item, b) \<leftarrow> pv current_item b;
               if \<not> ok then Some (False, head @ [current_item], b)
               else do {
                 b \<leftarrow> buffer_skip_whitespace b;
                 if can_access_at_index b 0 \<and> content b ! offset b = 0x2C
                 then parse_members E pv k (head @ [current_item]) b
                 else Some (True, head @ [current_item], b)
               }
             }
           }
         })"

definition parse_object :: "'d env \<Rightarrow> 'd parser \<Rightarrow> 'd parser" where
  "parse_object E pv item b =
     (if depth b \<ge> CJSON_NESTING_LIMIT then Some (False, item, b)
      else do {
        let b = b\<lparr>depth := Suc (depth b)\<rparr>;
        if \<not> can_access_at_index b 0 \<or> content b ! offset b \<noteq> 0x7B then Some (False, item, b)
        else do {
          b \<leftarrow> buffer_skip_whitespace (inc_offset b);
          if can_access_at_index b 0 \<and> content b ! offset b = 0x7D
          then Some (True, set_children cJSON_Object [] item, inc_offset (b\<lparr>depth := depth b - 1\<rparr>))
          else if \<not> can_access_at_index b 0
          then do { b \<leftarrow> dec_offset b; Some (False, item, b) }
          else do {
            b \<leftarrow> dec_offset b;
            (ok, head, b) \<leftarrow> parse_members E pv (Suc (length (content b))) [] b;
            if \<not> ok \<or> \<not> can_access_at_index b 0 \<or> content b ! offset b \<noteq> 0x7D
            then Some (False, item, Delete_list head b)
            else Some (True, set_children cJSON_Object head item, inc_offset (b\<lparr>depth := depth b - 1\<rparr>))
          }
        }
      })"

fun parse_value :: "'d env \<Rightarrow> nat \<Rightarrow> 'd parser" where
  "parse_value E 0 item b = None"
| "parse_value E (Suc n) item b =
     (if can_read b 4 \<and> strncmp_at b [0x6E, 0x75, 0x6C, 0x6C]
      then Some (True, set_type cJSON_NULL item, b\<lparr>offset := offset b + 4\<rparr>)
      else if can_read b 5 \<and> strncmp_at b [0x66, 0x61, 0x6C, 0x73, 0x65]
      then Some (True, set_type cJSON_False item, b\<lparr>offset := offset b + 5\<rparr>)
      else if can_read b 4 \<and> strncmp_at b [0x74, 0x72, 0x75, 0x65]
      then Some (True, set_valueint 1 (set_type cJSON_True item), b\<lparr>offset := offset b + 4\<rparr>)
      else if can_access_at_index b 0 \<and> content b ! offset b = 0x22
      then parse_string E item b
      else if can_access_at_index b 0 \<and> (content b ! offset b = 0x2D
                 \<or> (0x30 \<le> content b ! offset b \<and> content b ! offset b \<le> 0x39))
      then Some (parse_number E item b)
      else if can_access_at_index b 0 \<and> content b ! offset b = 0x5B
      then parse_array E (parse_value E n) item b
      else if can_access_at_index b 0 \<and> content b ! offset b = 0x7B
      then parse_object E (parse_value E n) item b
      else Some (False, item, b))"

declare parse_value.simps [simp del] parse_elements.simps [simp del] parse_members.simps [simp del]

record error =
  err_json :: "byte list option"
  err_position :: nat

record 'd parse_result =
  parsed :: "'d cJSON option"
  return_parse_end :: "nat option"
  new_global_error :: error
  final_buffer :: parse_buffer

definition error_position :: "parse_buffer \<Rightarrow> nat" where
  "error_position b =
     (if offset b < length (content b) then offset b
      else if 0 < length (content b) then length (content b) - 1 else 0)"

definition cJSON_ParseWithOpts :: "'d env \<Rightarrow> nat \<Rightarrow> int \<Rightarrow> byte list option \<Rightarrow> bool \<Rightarrow> bool \<Rightarrow> 'd parse_result option" where
  "cJSON_ParseWithOpts E k l value want_end require_null_terminated =
     (let no_error = \<lparr>err_json = None, err_position = 0\<rparr>
      in case value of
           None \<Rightarrow> Some \<lparr>parsed = None, return_parse_end = None, new_global_error = no_error,
                    final_buffer = \<lparr>content = [], offset = 0, depth = 0, nalloc = k, live = l\<rparr>\<rparr>
         | Some s \<Rightarrow>
             (let b = \<lparr>content = s @ [0], offset = 0, depth = 0, nalloc = k, live = l\<rparr>;
                  fail = (\<lambda>b. Some \<lparr>parsed = None,
                     return_parse_end = (if want_end then Some (error_position b) else None),
                     new_global_error = (if want_end then no_error
                        else \<lparr>err_json = Some s, err_position = error_position b\<rparr>),
                     final_buffer = b\<rparr>);
                  success = (\<lambda>item b. Some \<lparr>parsed = Some item,
                     return_parse_end = (if want_end then Some (offset b) else None),
                     new_global_error = no_error, final_buffer = b\<rparr>);
                  (ok, b) = allocate E b
              in if \<not> ok then fail b
                 else do {
                   b \<leftarrow> buffer_skip_whitespace b;
                   (ok, item, b) \<leftarrow> parse_value E (Suc CJSON_NESTING_LIMIT) (New_Item E) b;
                   if \<not> ok then fail (Delete_list [item] b)
                   else if require_null_terminated
                   then do {
                     b \<leftarrow> buffer_skip_whitespace b;
                     if offset b \<ge> length (content b) \<or> content b ! offset b \<noteq> 0
                     then fail (Delete_list [item] b)
                     else success item b
                   }
                   else success item b
                 }))"

definition cJSON_Parse :: "'d env \<Rightarrow> nat \<Rightarrow> int \<Rightarrow> byte list option \<Rightarrow> 'd parse_result option" where
  "cJSON_Parse E k l value = cJSON_ParseWithOpts E k l value False False"

section \<open>Well-formed trees and the contract of the parsers\<close>

fun json_ok :: "'d env \<Rightarrow> nat \<Rightarrow> 'd cJSON \<Rightarrow> bool" where
  "json_ok E k (CJSON t vs vi vd nm ch) \<longleftrightarrow>
     (t = cJSON_NULL \<or> t = cJSON_False) \<and> vs = None \<and> vi = 0 \<and> vd = d_zero E \<and> ch = [] \<or>
     t = cJSON_True \<and> vs = None \<and> vi = 1 \<and> vd = d_zero E \<and> ch = [] \<or>
     t = cJSON_Number \<and> vs = None \<and> vi = number_to_int E vd \<and> ch = [] \<or>
     t = cJSON_String \<and> vs \<noteq> None \<and> vi = 0 \<and> vd = d_zero E \<and> ch = [] \<or>
     t = cJSON_Array \<and> vs = None \<and> vi = 0 \<and> vd = d_zero E \<and> 0 < k \<and>
       (\<forall>c\<in>set ch. name c = None \<and> json_ok E (k - 1) c) \<or>
     t = cJSON_Object \<and> vs = None \<and> vi = 0 \<and> vd = d_zero E \<and> 0 < k \<and>
       (\<forall>c\<in>set ch. name c \<noteq> None \<and> json_ok E (k - 1) c)"

definition fresh :: "'d env \<Rightarrow> 'd cJSON \<Rightarrow> bool" where
  "fresh E item \<longleftrightarrow> type_of item \<in> {0, cJSON_String} \<and> valuestring item = None \<and> valueint item = 0 \<and>
     valuedouble item = d_zero E \<and> child item = []"

definition buf_ok :: "parse_buffer \<Rightarrow> bool" where
  "buf_ok b \<longleftrightarrow> content b \<noteq> [] \<and> last (content b) = 0 \<and> offset b \<le> length (content b)"

definition strtod_ok :: "'d env \<Rightarrow> bool" where
  "strtod_ok E \<longleftrightarrow> (\<forall>s. snd (strtod E s) \<le> length s)"

definition parsed_ok :: "'d env \<Rightarrow> nat \<Rightarrow> 'd cJSON \<Rightarrow> parse_buffer \<Rightarrow> (bool \<times> 'd cJSON \<times> parse_buffer) option \<Rightarrow> bool" where
  "parsed_ok E k item b r \<longleftrightarrow>
     (case r of
        None \<Rightarrow> False
      | Some (ok, item', b') \<Rightarrow>
          content b' = content b \<and> offset b' \<le> length (content b) \<and>
          (if ok then offset b < offset b' \<and> offset b' < length (content b) \<and> depth b' = depth b \<and>
             live b' = live b + int (cJSON_Delete_blocks item') - int (cJSON_Delete_blocks item) \<and>
             json_ok E k item' \<and> name item' = name item
           else item' = item \<and> live b' = live b))"

lemma nonzero_inside:
  "buf_ok b \<Longrightarrow> i < length (content b) \<Longrightarrow> content b ! i \<noteq> 0 \<Longrightarrow> Suc i < length (content b)"
  by (cases "Suc i = length (content b)") (auto simp: buf_ok_def last_conv_nth dest: sym)

lemma skip_ws_bounds: "i \<le> length c \<Longrightarrow> i \<le> skip_ws c i \<and> skip_ws c i \<le> length c"
  by (induction c i rule: skip_ws.induct) (subst (1 2) skip_ws.simps, auto simp: Suc_le_eq)

lemma skip_whitespace_ok:
  assumes "buf_ok b"
  obtains j where "buffer_skip_whitespace b = Some (b\<lparr>offset := j\<rparr>)" "j < length (content b)"
    "offset b < length (content b) \<Longrightarrow> offset b \<le> j"
proof -
  have "0 < length (content b)" "offset b \<le> length (content b)" using assms by (auto simp: buf_ok_def)
  with skip_ws_bounds [of "offset b" "content b"] show ?thesis
    by (intro that [of "if skip_ws (content b) (offset b) = length (content b) then length (content b) - 1
          else skip_ws (content b) (offset b)"])
       (auto simp: buffer_skip_whitespace_def Let_def)
qed

lemma fresh_blocks: "fresh E item \<Longrightarrow> cJSON_Delete_blocks item = (if name item = None then 1 else 2)"
  by (cases item) (auto simp: fresh_def cJSON_types)

lemma copy_number_spec:
  assumes "list_all number_char (take i (drop (offset b) (content b)))" "length s = i" "offset b + i \<le> length (content b)"
  shows "list_all number_char (take (length (copy_number dp b i s)) (drop (offset b) (content b))) \<and>
    offset b + length (copy_number dp b i s) \<le> length (content b)"
  using assms
proof (induction dp b i s rule: copy_number.induct)
  case (1 dp b i s)
  show ?case
  proof (cases "i < 64 - 1 \<and> can_access_at_index b i \<and> number_char (content b ! (offset b + i))")
    case True
    then have lt: "offset b + i < length (content b)" by (simp add: can_access_at_index_def)
    then have "take (Suc i) (drop (offset b) (content b)) = take i (drop (offset b) (content b)) @ [content b ! (offset b + i)]"
      by (simp add: take_Suc_conv_app_nth)
    then have "list_all number_char (take (Suc i) (drop (offset b) (content b)))" using True "1.prems"(1) by simp
    then show ?thesis using "1.IH" True "1.prems" lt by (subst (1 2) copy_number.simps) (auto simp: Let_def)
  next
    case False
    then have "copy_number dp b i s = s" by (subst copy_number.simps) (auto simp: Let_def)
    then show ?thesis using "1.prems" by simp
  qed
qed

lemma number_char_nonzero: "number_char ch \<Longrightarrow> ch \<noteq> 0"
  by (auto simp: number_char_def)

lemma parse_number_ok:
  assumes "strtod_ok E" "buf_ok b" "fresh E item"
  shows "parsed_ok E k item b (Some (parse_number E item b))"
proof -
  define s where "s = copy_number (decimal_point E) b 0 []"
  obtain d n where dn: "strtod E s = (d, n)" by (cases "strtod E s")
  have s: "list_all number_char (take (length s) (drop (offset b) (content b)))" "offset b + length s \<le> length (content b)"
    using copy_number_spec [of 0 b "[]"] assms(2) by (auto simp: s_def buf_ok_def)
  have n: "n \<le> length s" using assms(1) dn by (metis strtod_ok_def snd_conv)
  have "offset b + n < length (content b)" if "0 < n"
  proof -
    have "offset b + (n - 1) < length (content b)" using s n that by simp
    moreover have "number_char (content b ! (offset b + (n - 1)))"
    proof -
      have lt: "n - 1 < length s" using n that by simp
      then have "number_char (take (length s) (drop (offset b) (content b)) ! (n - 1))"
        using s by (simp add: list_all_length)
      then show ?thesis using lt s(2) by simp
    qed
    ultimately show ?thesis using nonzero_inside [OF assms(2), of "offset b + (n - 1)"] that number_char_nonzero by auto
  qed
  then show ?thesis
    using assms fresh_blocks [OF assms(3)] dn
    by (cases item) (auto simp: parsed_ok_def parse_number_def s_def [symmetric] fresh_def buf_ok_def cJSON_types)
qed

lemma parse_string_ok:
  assumes "buf_ok b" "fresh E item" "offset b < length (content b)"
  shows "parsed_ok E k item b (parse_string E item b)"
proof -
  let ?c = "content b" and ?start = "offset b + 1"
  have q: "buffer_at_offset b 0 = Some (?c ! offset b)" using assms by (simp add: buffer_at_offset_def rd_def)
  have fail: "parsed_ok E k item b (Some (False, item, b'))"
    if "content b' = ?c" "offset b' \<le> length ?c" "live b' = live b" for b'
    using that by (simp add: parsed_ok_def)
  show ?thesis
  proof (cases "?c ! offset b = 0x22")
    case False
    then show ?thesis using q assms fail by (simp add: parse_string_def)
  next
    case True
    then have inside: "?start < length ?c" using nonzero_inside [OF assms(1,3)] by simp
    show ?thesis
    proof (cases "scan_string ?c ?start 0")
      case None
      then show ?thesis using q True inside fail by (simp add: parse_string_def)
    next
      case (Some ek)
      obtain e sk where ek: "ek = (e, sk)" by (cases ek)
      from scan_string_pairs [of ?c ?start 0 e sk] Some ek inside
      obtain P where P: "sk = card P" "escapes ?c ?start e P" and e: "?start \<le> e" "e \<le> length ?c" by auto
      show ?thesis
      proof (cases "e \<ge> length ?c \<or> ?c ! e \<noteq> 0x22")
        case bad: True
        then show ?thesis using q True Some ek inside fail by (simp add: parse_string_def)
      next
        case good: False
        then have e1: "Suc e < length ?c" using nonzero_inside [OF assms(1), of e] by simp
        show ?thesis
        proof (cases "alloc_ok E (nalloc b)")
          case noalloc: False
          then show ?thesis using q True Some ek good inside by (auto simp: parse_string_def allocate_def intro!: fail)
        next
          case alloc: True
          have cardP: "card P \<le> e - ?start"
          proof -
            have "P \<subseteq> {?start..<e}" using P(2) by (force simp: escapes_def)
            then show ?thesis using card_mono [of "{?start..<e}" P] by simp
          qed
          have "P \<inter> {?start..} = P" using P(2) by (auto simp: escapes_def)
          then obtain ok i out where u: "unescape ?c e ((e - offset b) - sk + 1) ?start [] = Some (ok, i, out)"
            "i \<le> e + 1" "length out + 1 \<le> (e - offset b) - sk + 1"
            using unescape_total [of P e ?c ?start "[]" "(e - offset b) - sk + 1"] P e e1 cardP
            by (auto simp: escapes_def)
          have "parse_string E item b =
            (if ok then Some (True, (case item of CJSON t vs vi vd nm ch \<Rightarrow> CJSON cJSON_String (Some out) vi vd nm ch),
                b\<lparr>nalloc := Suc (nalloc b), live := live b + 1, offset := e + 1\<rparr>)
             else Some (False, item, b\<lparr>nalloc := Suc (nalloc b), live := live b, offset := i\<rparr>))"
            using q True Some ek good alloc u(1, 3)
            by (simp add: parse_string_def allocate_def Let_def deallocate_def emit_def)
          then show ?thesis
            using u e1 assms fresh_blocks [OF assms(2)] e
            by (cases item) (auto simp: parsed_ok_def fresh_def cJSON_types intro!: fail)
        qed
      qed
    qed
  qed
qed

definition parser_ok :: "'d env \<Rightarrow> nat \<Rightarrow> nat \<Rightarrow> 'd parser \<Rightarrow> bool" where
  "parser_ok E d k pv \<longleftrightarrow>
     (\<forall>item b. buf_ok b \<and> offset b < length (content b) \<and> fresh E item \<and> depth b = d \<longrightarrow>
        parsed_ok E k item b (pv item b))"

abbreviation blocks_of :: "'d cJSON list \<Rightarrow> int" where
  "blocks_of xs \<equiv> int (sum_list (map cJSON_Delete_blocks xs))"

definition list_ok :: "('d cJSON \<Rightarrow> bool) \<Rightarrow> 'd cJSON list \<Rightarrow> parse_buffer \<Rightarrow> (bool \<times> 'd cJSON list \<times> parse_buffer) option \<Rightarrow> bool" where
  "list_ok Q head b r \<longleftrightarrow>
     (case r of
        None \<Rightarrow> False
      | Some (ok, head', b') \<Rightarrow>
          content b' = content b \<and> offset b' \<le> length (content b) \<and>
          live b' = live b + blocks_of head' - blocks_of head \<and>
          (ok \<longrightarrow> offset b < offset b' \<and> offset b' < length (content b) \<and> depth b' = depth b \<and>
             (list_all Q head \<longrightarrow> list_all Q head')))"

lemma list_ok_fail:
  "content b' = content b \<Longrightarrow> offset b' \<le> length (content b) \<Longrightarrow> live b' = live b + blocks_of head' - blocks_of head
    \<Longrightarrow> list_ok Q head b (Some (False, head', b'))"
  by (simp add: list_ok_def)

lemma list_ok_trans:
  assumes "list_ok Q (head @ [x]) b' r" and "content b' = content b" "offset b < offset b'" "depth b' = depth b"
    "live b' = live b + int (cJSON_Delete_blocks x)" "Q x"
  shows "list_ok Q head b r"
  using assms by (auto simp: list_ok_def split: option.splits prod.splits)

lemma fresh_New_Item: "fresh E (New_Item E)" "name (New_Item E) = None" "cJSON_Delete_blocks (New_Item E) = 1"
  by (auto simp: fresh_def New_Item_def cJSON_types)

lemma parsed_okD:
  assumes "parsed_ok E k item b r"
  obtains ok item' b' where "r = Some (ok, item', b')" "content b' = content b" "offset b' \<le> length (content b)"
    "ok \<Longrightarrow> offset b < offset b' \<and> offset b' < length (content b) \<and> depth b' = depth b \<and>
       live b' = live b + int (cJSON_Delete_blocks item') - int (cJSON_Delete_blocks item) \<and>
       json_ok E k item' \<and> name item' = name item"
    "\<not> ok \<Longrightarrow> item' = item \<and> live b' = live b"
  using assms by (auto simp: parsed_ok_def split: option.splits prod.splits if_splits)

lemma parser_okD:
  "parser_ok E d k pv \<Longrightarrow> buf_ok b \<Longrightarrow> offset b < length (content b) \<Longrightarrow> fresh E item \<Longrightarrow> depth b = d
    \<Longrightarrow> parsed_ok E k item b (pv item b)"
  by (simp add: parser_ok_def)

lemma skip_inc_ok:
  assumes "buf_ok b" "offset b < length (content b)"
  obtains j where "buffer_skip_whitespace (inc_offset b) = Some (b\<lparr>offset := j\<rparr>)" "j < length (content b)"
    "offset b \<le> j" "content b ! offset b \<noteq> 0 \<Longrightarrow> offset b < j" "buf_ok (b\<lparr>offset := j\<rparr>)"
proof -
  have "buf_ok (inc_offset b)" using assms by (simp add: buf_ok_def inc_offset_def)
  from skip_whitespace_ok [OF this] obtain j where
    j: "buffer_skip_whitespace (inc_offset b) = Some (b\<lparr>offset := j\<rparr>)" "j < length (content b)"
      "Suc (offset b) < length (content b) \<Longrightarrow> Suc (offset b) \<le> j"
    by (auto simp: inc_offset_def)
  show ?thesis
  proof (cases "Suc (offset b) < length (content b)")
    case True
    then show ?thesis using that [of j] j assms by (auto simp: buf_ok_def)
  next
    case False
    then have "skip_ws (content b) (Suc (offset b)) = length (content b)"
      using assms by (subst skip_ws.simps) auto
    then have "j = offset b" using j(1) False assms
      by (auto simp: buffer_skip_whitespace_def Let_def inc_offset_def dest!: arg_cong [where f = offset] split: if_splits)
    then show ?thesis using that [of j] j assms nonzero_inside [OF assms] False by (auto simp: buf_ok_def)
  qed
qed

lemma skip_ok:
  assumes "buf_ok b" "offset b < length (content b)"
  obtains j where "buffer_skip_whitespace b = Some (b\<lparr>offset := j\<rparr>)" "j < length (content b)" "offset b \<le> j"
    "buf_ok (b\<lparr>offset := j\<rparr>)"
  using skip_whitespace_ok [OF assms(1)] assms by (metis (no_types, lifting) buf_ok_def less_imp_le
      parse_buffer.select_convs(1,2) parse_buffer.surjective parse_buffer.update_convs(2))

lemma parse_string_result:
  assumes "parse_string E item b = Some (ok, item', b')"
  shows "if ok then \<exists>s. item' = (case item of CJSON t vs vi vd nm ch \<Rightarrow> CJSON cJSON_String (Some s) vi vd nm ch) else item' = item"
  using assms
  by (auto simp: parse_string_def Let_def split: option.splits prod.splits if_splits bind_splits)

lemma list_continue:
  assumes "buf_ok b" "content b3 = content b" "depth b3 = depth b" "offset b < offset b3" "offset b3 < length (content b)"
    "live b3 = live b + int (cJSON_Delete_blocks item)" "Q item"
    and IH: "\<And>b'. buf_ok b' \<Longrightarrow> content b' = content b \<Longrightarrow> offset b < offset b' \<Longrightarrow> offset b' < length (content b)
      \<Longrightarrow> depth b' = depth b \<Longrightarrow> list_ok Q (head @ [item]) b' (F b')"
  shows "list_ok Q head b
    (case buffer_skip_whitespace b3 of None \<Rightarrow> None
     | Some b \<Rightarrow> if can_access_at_index b 0 \<and> content b ! offset b = 0x2C then F b else Some (True, head @ [item], b))"
proof -
  have "buf_ok b3" "offset b3 < length (content b3)" using assms by (simp_all add: buf_ok_def)
  from skip_ok [OF this] obtain j where
    skip: "buffer_skip_whitespace b3 = Some (b3\<lparr>offset := j\<rparr>)" "j < length (content b)" "offset b3 \<le> j" "buf_ok (b3\<lparr>offset := j\<rparr>)"
    by (auto simp: assms)
  define b4 where "b4 = b3\<lparr>offset := j\<rparr>"
  have b4: "content b4 = content b" "offset b4 = j" "depth b4 = depth b" "live b4 = live b + int (cJSON_Delete_blocks item)"
    "buf_ok b4" "offset b < j"
    using assms skip by (auto simp: b4_def)
  have "list_ok Q head b (F b4)"
    using b4 skip(2) assms(7) by (intro list_ok_trans [OF IH]) auto
  moreover have "list_ok Q head b (Some (True, head @ [item], b4))"
    using b4 skip(2) assms(7) by (simp add: list_ok_def)
  ultimately show ?thesis using skip(1) by (simp add: b4_def [symmetric])
qed

lemma parse_elements_ok:
  assumes pv: "parser_ok E d k pv"
  shows "buf_ok b \<Longrightarrow> offset b < length (content b) \<Longrightarrow> depth b = d \<Longrightarrow> length (content b) - offset b < n \<Longrightarrow>
    list_ok (\<lambda>c. name c = None \<and> json_ok E k c) head b (parse_elements E pv n head b)"
proof (induction n arbitrary: head b)
  case (Suc n)
  note prems = Suc.prems
  show ?case
  proof (cases "alloc_ok E (nalloc b)")
    case False
    then show ?thesis using prems by (simp add: parse_elements.simps allocate_def list_ok_def)
  next
    case True
    define b1 where "b1 = b\<lparr>nalloc := Suc (nalloc b), live := live b + 1\<rparr>"
    have b1: "buf_ok b1" "offset b1 < length (content b1)" using prems by (auto simp: buf_ok_def b1_def)
    from skip_inc_ok [OF b1] obtain j where
      skip: "buffer_skip_whitespace (inc_offset b1) = Some (b1\<lparr>offset := j\<rparr>)" "j < length (content b)" "offset b \<le> j"
        "buf_ok (b1\<lparr>offset := j\<rparr>)"
      by (auto simp: b1_def)
    define b2 where "b2 = b1\<lparr>offset := j\<rparr>"
    have b2: "content b2 = content b" "offset b2 = j" "live b2 = live b + 1" "depth b2 = depth b" "buf_ok b2"
      using skip(4) by (auto simp: b2_def b1_def)
    have "parsed_ok E k (New_Item E) b2 (pv (New_Item E) b2)"
      using b2 skip prems by (intro parser_okD [OF pv]) (simp_all add: fresh_New_Item)
    from parsed_okD [OF this] obtain ok item b3 where
      pv3: "pv (New_Item E) b2 = Some (ok, item, b3)" and c3: "content b3 = content b" "offset b3 \<le> length (content b)"
        and ok3: "ok \<Longrightarrow> j < offset b3 \<and> offset b3 < length (content b) \<and> depth b3 = depth b \<and>
          live b3 = live b + int (cJSON_Delete_blocks item) \<and> json_ok E k item \<and> name item = None"
        and fail3: "\<not> ok \<Longrightarrow> item = New_Item E \<and> live b3 = live b + 1"
      by (auto simp: b2 fresh_New_Item)
    have step: "parse_elements E pv (Suc n) head b =
      (if \<not> ok then Some (False, head @ [item], b3)
       else case buffer_skip_whitespace b3 of None \<Rightarrow> None
        | Some b \<Rightarrow> if can_access_at_index b 0 \<and> content b ! offset b = 0x2C
             then parse_elements E pv n (head @ [item]) b else Some (True, head @ [item], b))"
      using True skip(1) pv3 by (simp add: parse_elements.simps allocate_def b1_def b2_def split: option.split)
    show ?thesis
    proof (cases ok)
      case False
      then show ?thesis using step fail3 c3 fresh_New_Item by (simp add: list_ok_def)
    next
      case ok: True
      have "list_ok (\<lambda>c. name c = None \<and> json_ok E k c) head b
        (case buffer_skip_whitespace b3 of None \<Rightarrow> None
        | Some b \<Rightarrow> if can_access_at_index b 0 \<and> content b ! offset b = 0x2C
             then parse_elements E pv n (head @ [item]) b else Some (True, head @ [item], b))"
        using ok3 [OF ok] c3 skip(3) prems by (intro list_continue Suc.IH) auto
      then show ?thesis using step ok by simp
    qed
  qed
qed simp

lemma parse_members_ok:
  assumes pv: "parser_ok E d k pv"
  shows "buf_ok b \<Longrightarrow> offset b < length (content b) \<Longrightarrow> depth b = d \<Longrightarrow> length (content b) - offset b < n \<Longrightarrow>
    list_ok (\<lambda>c. name c \<noteq> None \<and> json_ok E k c) head b (parse_members E pv n head b)"
proof (induction n arbitrary: head b)
  case (Suc n)
  note prems = Suc.prems
  let ?Q = "\<lambda>c. name c \<noteq> None \<and> json_ok E k c"
  show ?case
  proof (cases "alloc_ok E (nalloc b)")
    case False
    then show ?thesis using prems by (simp add: parse_members.simps allocate_def list_ok_def)
  next
    case True
    define b1 where "b1 = b\<lparr>nalloc := Suc (nalloc b), live := live b + 1\<rparr>"
    have b1: "buf_ok b1" "offset b1 < length (content b1)" using prems by (auto simp: buf_ok_def b1_def)
    from skip_inc_ok [OF b1] obtain j where
      skip: "buffer_skip_whitespace (inc_offset b1) = Some (b1\<lparr>offset := j\<rparr>)" "j < length (content b)" "offset b \<le> j"
        "buf_ok (b1\<lparr>offset := j\<rparr>)"
      by (auto simp: b1_def)
    define b2 where "b2 = b1\<lparr>offset := j\<rparr>"
    have b2: "content b2 = content b" "offset b2 = j" "live b2 = live b + 1" "depth b2 = depth b" "buf_ok b2"
      using skip(4) by (auto simp: b2_def b1_def)
    have "parsed_ok E k (New_Item E) b2 (parse_string E (New_Item E) b2)"
      using b2 skip by (intro parse_string_ok) (simp_all add: fresh_New_Item)
    from parsed_okD [OF this] obtain ok item b3 where
      ps3: "parse_string E (New_Item E) b2 = Some (ok, item, b3)" and c3: "content b3 = content b" "offset b3 \<le> length (content b)"
        and ok3: "ok \<Longrightarrow> j < offset b3 \<and> offset b3 < length (content b) \<and> depth b3 = depth b \<and>
          live b3 = live b + int (cJSON_Delete_blocks item) \<and> json_ok E k item \<and> name item = None"
        and fail3: "\<not> ok \<Longrightarrow> item = New_Item E \<and> live b3 = live b + 1"
      by (auto simp: b2 fresh_New_Item)
    show ?thesis
    proof (cases ok)
      case False
      then show ?thesis using True skip(1) ps3 fail3 c3
        by (simp add: parse_members.simps allocate_def b1_def b2_def list_ok_def fresh_New_Item split: option.split)
    next
      case ok: True
      have item: "fresh E (string_to_name item)" "name (string_to_name item) \<noteq> None"
        "cJSON_Delete_blocks (string_to_name item) = cJSON_Delete_blocks item"
        using parse_string_result [OF ps3] ok by (auto simp: fresh_def string_to_name_def New_Item_def cJSON_types)
      have "buf_ok b3" "offset b3 < length (content b3)" using prems c3 ok3 [OF ok] by (simp_all add: buf_ok_def)
      from skip_ok [OF this] obtain j' where
        skip': "buffer_skip_whitespace b3 = Some (b3\<lparr>offset := j'\<rparr>)" "j' < length (content b)" "offset b3 \<le> j'"
           "buf_ok (b3\<lparr>offset := j'\<rparr>)"
        by (auto simp: c3)
      define b4 where "b4 = b3\<lparr>offset := j'\<rparr>"
      have b4: "content b4 = content b" "offset b4 = j'" "depth b4 = depth b" "live b4 = live b3"
        "buf_ok b4" "offset b4 < length (content b4)"
        using ok3 [OF ok] skip' c3 by (auto simp: b4_def)
      from skip_inc_ok [OF b4(5,6)] obtain j'' where
        skip'': "buffer_skip_whitespace (inc_offset b4) = Some (b4\<lparr>offset := j''\<rparr>)" "j'' < length (content b)" "j' \<le> j''"
          "buf_ok (b4\<lparr>offset := j''\<rparr>)"
        by (auto simp: b4)
      define b5 where "b5 = b4\<lparr>offset := j''\<rparr>"
      have b5: "content b5 = content b" "offset b5 = j''" "depth b5 = depth b" "live b5 = live b3" "buf_ok b5"
        using b4 skip'' by (auto simp: b5_def)
      have "parsed_ok E k (string_to_name item) b5 (pv (string_to_name item) b5)"
        using b5 skip'' prems item by (intro parser_okD [OF pv]) auto
      from parsed_okD [OF this] obtain ok' item' b6 where
        pv6: "pv (string_to_name item) b5 = Some (ok', item', b6)" and c6: "content b6 = content b" "offset b6 \<le> length (content b)"
          and ok6: "ok' \<Longrightarrow> j'' < offset b6 \<and> offset b6 < length (content b) \<and> depth b6 = depth b \<and>
            live b6 = live b + int (cJSON_Delete_blocks item') \<and> json_ok E k item' \<and> name item' = name (string_to_name item)"
          and fail6: "\<not> ok' \<Longrightarrow> item' = string_to_name item \<and> live b6 = live b3"
        using ok3 [OF ok] item(3) by (auto simp: b5)
      have step: "parse_members E pv (Suc n) head b =
        (if \<not> can_access_at_index b4 0 \<or> content b4 ! offset b4 \<noteq> 0x3A then Some (False, head @ [string_to_name item], b4)
         else if \<not> ok' then Some (False, head @ [item'], b6)
         else case buffer_skip_whitespace b6 of None \<Rightarrow> None
          | Some b \<Rightarrow> if can_access_at_index b 0 \<and> content b ! offset b = 0x2C
               then parse_members E pv n (head @ [item']) b else Some (True, head @ [item'], b))"
        using True skip(1) ps3 ok skip'(1) skip''(1) pv6
        by (simp add: parse_members.simps allocate_def b1_def [symmetric] b2_def [symmetric] b4_def [symmetric] b5_def [symmetric]
            Let_def split: option.split)
      have "list_ok ?Q head b (case buffer_skip_whitespace b6 of None \<Rightarrow> None
          | Some b \<Rightarrow> if can_access_at_index b 0 \<and> content b ! offset b = 0x2C
               then parse_members E pv n (head @ [item']) b else Some (True, head @ [item'], b))" if ok'
        using ok6 [OF that] item(2) ok3 [OF ok] c6 skip(3) skip'(3) skip''(3) prems by (intro list_continue Suc.IH) auto
      moreover have "list_ok ?Q head b (Some (False, head @ [item'], b6))" if "\<not> ok'"
        using fail6 [OF that] c6 item ok3 [OF ok] by (intro list_ok_fail) auto
      moreover have "list_ok ?Q head b (Some (False, head @ [string_to_name item], b4))"
        using b4 item ok3 [OF ok] by (intro list_ok_fail) auto
      ultimately show ?thesis using step by (cases ok') auto
    qed
  qed
qed simp

lemma set_children_ok:
  assumes "fresh E item" "list_all (\<lambda>c. name c = None \<and> json_ok E k c) cs"
  shows "json_ok E (Suc k) (set_children cJSON_Array cs item)"
  using assms by (cases item) (auto simp: fresh_def set_children_def cJSON_types list_all_iff)

lemma set_members_ok:
  assumes "fresh E item" "list_all (\<lambda>c. name c \<noteq> None \<and> json_ok E k c) cs"
  shows "json_ok E (Suc k) (set_children cJSON_Object cs item)"
  using assms by (cases item) (auto simp: fresh_def set_children_def cJSON_types list_all_iff)

lemma set_children_blocks:
  assumes "fresh E item" "t \<in> {cJSON_Array, cJSON_Object}"
  shows "cJSON_Delete_blocks (set_children t cs item) = cJSON_Delete_blocks item + sum_list (map cJSON_Delete_blocks cs)"
    and "name (set_children t cs item) = name item"
  using assms by (cases item; auto simp: fresh_def set_children_def cJSON_types)+

text \<open>The common part of arrays and objects after the opening bracket.\<close>

definition bracketed :: "u32 \<Rightarrow> byte \<Rightarrow> (parse_buffer \<Rightarrow> (bool \<times> 'd cJSON list \<times> parse_buffer) option) \<Rightarrow> 'd parser" where
  "bracketed t close elems item b =
     do {
       b \<leftarrow> buffer_skip_whitespace (inc_offset b);
       if can_access_at_index b 0 \<and> content b ! offset b = close
       then Some (True, set_children t [] item, inc_offset (b\<lparr>depth := depth b - 1\<rparr>))
       else if \<not> can_access_at_index b 0
       then do { b \<leftarrow> dec_offset b; Some (False, item, b) }
       else do {
         b \<leftarrow> dec_offset b;
         (ok, head, b) \<leftarrow> elems b;
         if \<not> ok \<or> \<not> can_access_at_index b 0 \<or> content b ! offset b \<noteq> close
         then Some (False, item, Delete_list head b)
         else Some (True, set_children t head item, inc_offset (b\<lparr>depth := depth b - 1\<rparr>))
       }
     }"

lemma bracketed_ok:
  assumes b: "buf_ok b" "offset b < length (content b)" "content b ! offset b \<noteq> 0" "depth b = Suc d" "close \<noteq> 0"
    and item: "fresh E item" and t: "t \<in> {cJSON_Array, cJSON_Object}"
    and wf: "\<And>cs. list_all Q cs \<Longrightarrow> json_ok E k (set_children t cs item)"
    and elems: "\<And>b'. buf_ok b' \<Longrightarrow> content b' = content b \<Longrightarrow> offset b' < length (content b') \<Longrightarrow> depth b' = depth b
      \<Longrightarrow> list_ok Q [] b' (elems b')"
  shows "parsed_ok E k item (b\<lparr>depth := d\<rparr>) (bracketed t close elems item b)"
proof -
  from skip_inc_ok [OF b(1, 2)] b(3) obtain j where
    skip: "buffer_skip_whitespace (inc_offset b) = Some (b\<lparr>offset := j\<rparr>)" "j < length (content b)" "offset b < j"
      "buf_ok (b\<lparr>offset := j\<rparr>)" by blast
  define b1 where "b1 = b\<lparr>offset := j - 1\<rparr>"
  have b1: "content b1 = content b" "offset b1 = j - 1" "depth b1 = Suc d" "live b1 = live b" "buf_ok b1"
    using skip b by (auto simp: b1_def buf_ok_def)
  have "list_ok Q [] b1 (elems b1)" using b1 skip b by (intro elems) auto
  then obtain ok head b2 where e: "elems b1 = Some (ok, head, b2)" "content b2 = content b" "offset b2 \<le> length (content b)"
     "live b2 = live b + blocks_of head"
     and ok: "ok \<Longrightarrow> j - 1 < offset b2 \<and> offset b2 < length (content b) \<and> depth b2 = Suc d \<and> list_all Q head"
    using b1 by (auto simp: list_ok_def split: option.splits)
  have nz: "content b ! i = close \<Longrightarrow> i < length (content b) \<Longrightarrow> Suc i < length (content b)" for i
    using nonzero_inside [OF b(1), of i] b(5) by auto
  have res: "bracketed t close elems item b =
    (if content b ! j = close then Some (True, set_children t [] item, inc_offset (b\<lparr>offset := j, depth := d\<rparr>))
     else if \<not> ok \<or> \<not> can_access_at_index b2 0 \<or> content b ! offset b2 \<noteq> close
       then Some (False, item, Delete_list head b2)
       else Some (True, set_children t head item, inc_offset (b2\<lparr>depth := depth b2 - 1\<rparr>)))"
    using skip e b(4) by (simp add: bracketed_def can_access_at_index_def dec_offset_def b1_def)
  have "parsed_ok E k item (b\<lparr>depth := d\<rparr>) (Some (True, set_children t [] item, inc_offset (b\<lparr>offset := j, depth := d\<rparr>)))"
    if "content b ! j = close"
    using nz [OF that skip(2)] skip(3) wf [of "[]"] set_children_blocks [OF item t, of "[]"]
    by (simp add: parsed_ok_def inc_offset_def)
  moreover have "parsed_ok E k item (b\<lparr>depth := d\<rparr>) (Some (False, item, Delete_list head b2))"
    using e by (simp add: parsed_ok_def Delete_list_def deallocate_def)
  moreover have "parsed_ok E k item (b\<lparr>depth := d\<rparr>) (Some (True, set_children t head item, inc_offset (b2\<lparr>depth := depth b2 - 1\<rparr>)))"
    if "ok" "content b ! offset b2 = close"
    using ok [OF that(1)] nz [OF that(2)] skip(3) wf [of head] e set_children_blocks [OF item t, of head]
    by (auto simp: parsed_ok_def inc_offset_def)
  ultimately show ?thesis unfolding res by auto
qed

lemma parse_array_bracketed:
  assumes "depth b < CJSON_NESTING_LIMIT" "offset b < length (content b)" "content b ! offset b = 0x5B"
  shows "parse_array E pv item b =
    bracketed cJSON_Array 0x5D (\<lambda>b. parse_elements E pv (Suc (length (content b))) [] b) item (b\<lparr>depth := Suc (depth b)\<rparr>)"
  using assms by (simp add: parse_array_def bracketed_def buffer_at_offset_def rd_def)

lemma parse_object_bracketed:
  assumes "depth b < CJSON_NESTING_LIMIT" "offset b < length (content b)" "content b ! offset b = 0x7B"
  shows "parse_object E pv item b =
    bracketed cJSON_Object 0x7D (\<lambda>b. parse_members E pv (Suc (length (content b))) [] b) item (b\<lparr>depth := Suc (depth b)\<rparr>)"
  using assms by (simp add: parse_object_def bracketed_def can_access_at_index_def)

lemma parsed_ok_stay: "parsed_ok E k item b (Some (False, item, b)) \<longleftrightarrow> offset b \<le> length (content b)"
  by (simp add: parsed_ok_def)

lemma parse_array_ok:
  assumes pv: "depth b < CJSON_NESTING_LIMIT \<Longrightarrow> parser_ok E (Suc (depth b)) k pv"
    and b: "buf_ok b" "offset b < length (content b)" "content b ! offset b = 0x5B" and item: "fresh E item"
  shows "parsed_ok E (Suc k) item b (parse_array E pv item b)"
proof (cases "depth b < CJSON_NESTING_LIMIT")
  case False
  then show ?thesis using b by (simp add: parse_array_def parsed_ok_stay)
next
  case True
  have "parsed_ok E (Suc k) item ((b\<lparr>depth := Suc (depth b)\<rparr>)\<lparr>depth := depth b\<rparr>)
    (bracketed cJSON_Array 0x5D (\<lambda>b. parse_elements E pv (Suc (length (content b))) [] b) item (b\<lparr>depth := Suc (depth b)\<rparr>))"
    using b item
    by (intro bracketed_ok [where Q = "\<lambda>c. name c = None \<and> json_ok E k c"] parse_elements_ok [OF pv [OF True]] set_children_ok [OF item])
       (auto simp: buf_ok_def)
  then show ?thesis unfolding parse_array_bracketed [OF True b(2, 3)] by simp
qed

lemma parse_object_ok:
  assumes pv: "depth b < CJSON_NESTING_LIMIT \<Longrightarrow> parser_ok E (Suc (depth b)) k pv"
    and b: "buf_ok b" "offset b < length (content b)" "content b ! offset b = 0x7B" and item: "fresh E item"
  shows "parsed_ok E (Suc k) item b (parse_object E pv item b)"
proof (cases "depth b < CJSON_NESTING_LIMIT")
  case False
  then show ?thesis using b by (simp add: parse_object_def parsed_ok_stay)
next
  case True
  have "parsed_ok E (Suc k) item ((b\<lparr>depth := Suc (depth b)\<rparr>)\<lparr>depth := depth b\<rparr>)
    (bracketed cJSON_Object 0x7D (\<lambda>b. parse_members E pv (Suc (length (content b))) [] b) item (b\<lparr>depth := Suc (depth b)\<rparr>))"
    using b item
    by (intro bracketed_ok [where Q = "\<lambda>c. name c \<noteq> None \<and> json_ok E k c"] parse_members_ok [OF pv [OF True]] set_members_ok [OF item])
       (auto simp: buf_ok_def)
  then show ?thesis unfolding parse_object_bracketed [OF True b(2, 3)] by simp
qed

lemma literal_ok:
  assumes "buf_ok b" "strncmp_at b lit" "lit \<noteq> []" "last lit \<noteq> 0" "n = length lit"
    and "json_ok E k item'" "name item' = name item" "cJSON_Delete_blocks item' = cJSON_Delete_blocks item"
  shows "parsed_ok E k item b (Some (True, item', b\<lparr>offset := offset b + n\<rparr>))"
proof -
  have eq: "take (length lit) (drop (offset b) (content b)) = lit" using assms(2) by (simp add: strncmp_at_def)
  then have len: "offset b + length lit \<le> length (content b)"
    using assms(1) by (metis buf_ok_def length_drop length_take min.cobounded1 Nat.le_diff_conv2 add.commute)
  have "content b ! (offset b + (length lit - 1)) = last lit"
    using assms(3) len arg_cong [OF eq, of "\<lambda>l. l ! (length lit - 1)"] by (simp add: last_conv_nth)
  then have "Suc (offset b + (length lit - 1)) < length (content b)"
    using assms(3, 4) len by (intro nonzero_inside [OF assms(1)]) (cases lit; simp)+
  moreover have "0 < length lit" using assms(3) by simp
  ultimately show ?thesis using assms by (simp add: parsed_ok_def)
qed

lemma fresh_set_type:
  assumes "fresh E item"
  shows "name (set_type t item) = name item" "name (set_valueint i (set_type t item)) = name item"
    "json_ok E k (set_type cJSON_NULL item)" "json_ok E k (set_type cJSON_False item)"
    "json_ok E k (set_valueint 1 (set_type cJSON_True item))"
    "t \<in> {cJSON_NULL, cJSON_False, cJSON_True} \<Longrightarrow> cJSON_Delete_blocks (set_type t item) = cJSON_Delete_blocks item"
    "t \<in> {cJSON_NULL, cJSON_False, cJSON_True} \<Longrightarrow> cJSON_Delete_blocks (set_valueint i (set_type t item)) = cJSON_Delete_blocks item"
  using assms by (cases item; auto simp: fresh_def set_type_def set_valueint_def cJSON_types)+

lemma parse_value_ok:
  assumes strtod: "strtod_ok E"
  shows "d + n = Suc CJSON_NESTING_LIMIT \<Longrightarrow> parser_ok E d (CJSON_NESTING_LIMIT - d) (parse_value E n)
     \<or> d > CJSON_NESTING_LIMIT"
proof (induction n arbitrary: d)
  case (Suc n)
  have dl: "d \<le> CJSON_NESTING_LIMIT" using Suc.prems by simp
  let ?k = "CJSON_NESTING_LIMIT - d"
  have "parsed_ok E ?k item b (parse_value E (Suc n) item b)"
    if b: "buf_ok b" "offset b < length (content b)" "fresh E item" "depth b = d" for item b
  proof -
    have pv: "parser_ok E (Suc (depth b)) (?k - 1) (parse_value E n)" if "depth b < CJSON_NESTING_LIMIT"
      using Suc.IH [of "Suc d"] Suc.prems that b(4) by auto
    have mono: "parsed_ok E (Suc (?k - 1)) item b r \<Longrightarrow> depth b < CJSON_NESTING_LIMIT \<Longrightarrow> parsed_ok E ?k item b r" for r
      using b(4) by (simp add: Suc_diff_Suc)
    have arr: "parsed_ok E ?k item b (parse_array E (parse_value E n) item b)" if "content b ! offset b = 0x5B"
      using parse_array_ok [OF pv b(1, 2) that b(3)] mono b(1)
      by (cases "depth b < CJSON_NESTING_LIMIT") (auto simp: parse_array_def parsed_ok_stay buf_ok_def)
    have obj: "parsed_ok E ?k item b (parse_object E (parse_value E n) item b)" if "content b ! offset b = 0x7B"
      using parse_object_ok [OF pv b(1, 2) that b(3)] mono b(1)
      by (cases "depth b < CJSON_NESTING_LIMIT") (auto simp: parse_object_def parsed_ok_stay buf_ok_def)
    have "strncmp_at b [0x6E, 0x75, 0x6C, 0x6C] \<Longrightarrow>
        parsed_ok E ?k item b (Some (True, set_type cJSON_NULL item, b\<lparr>offset := offset b + 4\<rparr>))"
      and "strncmp_at b [0x66, 0x61, 0x6C, 0x73, 0x65] \<Longrightarrow>
        parsed_ok E ?k item b (Some (True, set_type cJSON_False item, b\<lparr>offset := offset b + 5\<rparr>))"
      and "strncmp_at b [0x74, 0x72, 0x75, 0x65] \<Longrightarrow>
        parsed_ok E ?k item b (Some (True, set_valueint 1 (set_type cJSON_True item), b\<lparr>offset := offset b + 4\<rparr>))"
      using b(3) by (auto intro!: literal_ok [OF b(1)] simp: fresh_set_type)
    then show ?thesis
      unfolding parse_value.simps
      using arr obj parse_number_ok [OF strtod b(1, 3)] parse_string_ok [OF b(1, 3, 2)] b(2)
      by (simp add: parsed_ok_stay)
  qed
  then show ?case by (simp add: parser_ok_def)
qed simp

lemma parse_value_top:
  assumes "strtod_ok E" "buf_ok b" "offset b < length (content b)" "fresh E item" "depth b = 0"
  shows "parsed_ok E CJSON_NESTING_LIMIT item b (parse_value E (Suc CJSON_NESTING_LIMIT) item b)"
  using parse_value_ok [OF assms(1), of 0 "Suc CJSON_NESTING_LIMIT"] assms
  by (intro parser_okD [where d = 0 and k = CJSON_NESTING_LIMIT]) auto

definition result_ok :: "'d env \<Rightarrow> int \<Rightarrow> byte list \<Rightarrow> 'd parse_result \<Rightarrow> bool" where
  "result_ok E l s r \<longleftrightarrow>
     (case parsed r of
        None \<Rightarrow> live (final_buffer r) = l
      | Some item \<Rightarrow> live (final_buffer r) = l + int (cJSON_Delete_blocks item) \<and>
          json_ok E CJSON_NESTING_LIMIT item \<and> name item = None) \<and>
     (case return_parse_end r of None \<Rightarrow> True | Some p \<Rightarrow> p \<le> length s) \<and>
     err_position (new_global_error r) \<le> length s"

lemma ParseWithOpts_result:
  assumes E: "strtod_ok E"
  shows "\<exists>r. cJSON_ParseWithOpts E k l (Some s) want_end rnt = Some r \<and> result_ok E l s r"
proof -
  let ?c = "s @ [0]"
  have pos: "error_position b \<le> length s" if "content b = ?c" for b
    using that by (auto simp: error_position_def)
  show ?thesis
  proof (cases "alloc_ok E k")
    case False
    then show ?thesis
      by (simp add: cJSON_ParseWithOpts_def allocate_def result_ok_def error_position_def)
  next
    case True
    define b0 where "b0 = \<lparr>content = ?c, offset = 0, depth = 0, nalloc = Suc k, live = l + 1\<rparr>"
    have "buf_ok b0" "offset b0 < length (content b0)" by (auto simp: b0_def buf_ok_def)
    from skip_ok [OF this] obtain j where
      j: "buffer_skip_whitespace b0 = Some (b0\<lparr>offset := j\<rparr>)" "j < length ?c" "buf_ok (b0\<lparr>offset := j\<rparr>)"
      by (auto simp: b0_def)
    define b1 where "b1 = b0\<lparr>offset := j\<rparr>"
    have b1: "content b1 = ?c" "live b1 = l + 1" "depth b1 = 0" "offset b1 = j" "buf_ok b1"
      using j by (auto simp: b1_def b0_def)
    have "parsed_ok E CJSON_NESTING_LIMIT (New_Item E) b1 (parse_value E (Suc CJSON_NESTING_LIMIT) (New_Item E) b1)"
      using b1 j by (intro parse_value_top [OF E]) (auto simp: fresh_New_Item)
    from parsed_okD [OF this] obtain ok item b2 where
      pv: "parse_value E (Suc CJSON_NESTING_LIMIT) (New_Item E) b1 = Some (ok, item, b2)"
        and c2: "content b2 = ?c" "offset b2 \<le> length ?c"
        and ok2: "ok \<Longrightarrow> j < offset b2 \<and> offset b2 < length ?c \<and> depth b2 = 0 \<and>
          live b2 = l + int (cJSON_Delete_blocks item) \<and> json_ok E CJSON_NESTING_LIMIT item \<and> name item = None"
        and fail2: "\<not> ok \<Longrightarrow> item = New_Item E \<and> live b2 = l + 1"
      by (auto simp: b1 fresh_New_Item)
    show ?thesis
    proof (cases ok)
      case False
      then show ?thesis
        using True j(1) pv fail2 pos [OF c2(1)] c2
        by (simp add: cJSON_ParseWithOpts_def allocate_def b0_def [symmetric] b1_def [symmetric] result_ok_def
            Delete_list_def deallocate_def fresh_New_Item error_position_def)
    next
      case ok: True
      have "buf_ok b2" "offset b2 < length (content b2)" using c2 ok2 [OF ok] by (auto simp: buf_ok_def)
      from skip_ok [OF this] obtain j' where
        j': "buffer_skip_whitespace b2 = Some (b2\<lparr>offset := j'\<rparr>)" "j' < length ?c"
        by (auto simp: c2)
      then show ?thesis
        using True ok j(1) pv ok2 [OF ok] c2
        by (cases rnt; cases want_end)
          (simp_all add: cJSON_ParseWithOpts_def allocate_def b0_def [symmetric] b1_def [symmetric] result_ok_def
            Delete_list_def deallocate_def error_position_def Let_def)
    qed
  qed
qed

section \<open>Properties of the parser\<close>

lemma int_env_strtod_ok: "strtod_ok int_env"
  by (simp add: strtod_ok_def int_env_def int_strtod_consumes)

definition example_text :: "byte list" where
  "example_text = [0x7B, 0x22, 0x61, 0x22, 0x3A, 0x20, 0x5B, 0x2D, 0x37, 0x2C, 0x74, 0x72, 0x75, 0x65, 0x5D, 0x7D]"

definition example_item :: "int cJSON" where
  "example_item = CJSON 64 None 0 0 None [CJSON 32 None 0 0 (Some [0x61])
     [CJSON 8 None (-7) (-7) None [], CJSON 2 None 1 0 None []]]"

definition example_result :: "int parse_result" where
  "example_result = \<lparr>parsed = Some example_item, return_parse_end = None,
     new_global_error = \<lparr>err_json = None, err_position = 0\<rparr>,
     final_buffer = \<lparr>content = example_text @ [0], offset = 16, depth = 0, nalloc = 5, live = 5\<rparr>\<rparr>"

lemma example_parse: "cJSON_ParseWithOpts int_env 0 0 (Some example_text) False True = Some example_result"
  by code_simp

text \<open>
  C9. Memory safety and termination: on every text, whatever the allocator answers, parsing stays
  within the text and its allocations, within the nesting limit and the loop bounds, and returns;
  the reported end or error position lies within the text or at its terminator.
\<close>

theorem parse_memory_safe:
  assumes "strtod_ok E"
  shows "\<exists>r. cJSON_ParseWithOpts E k l (Some s) want_end require_null_terminated = Some r \<and>
    (case return_parse_end r of None \<Rightarrow> True | Some p \<Rightarrow> p \<le> length s) \<and> err_position (new_global_error r) \<le> length s"
  using ParseWithOpts_result [OF assms, of k l s want_end require_null_terminated] by (auto simp: result_ok_def)

theorem parse_memory_safe_witness:
  "\<exists>r. cJSON_ParseWithOpts int_env 0 0 (Some example_text) True True = Some r \<and>
    (case return_parse_end r of None \<Rightarrow> True | Some p \<Rightarrow> p \<le> length example_text) \<and>
    err_position (new_global_error r) \<le> length example_text"
  by (rule parse_memory_safe [OF int_env_strtod_ok])

text \<open>
  C10. No leaks: after a failed parse exactly the blocks live before the call are live again; after a
  successful one, in addition those that \<^verbatim>\<open>cJSON_Delete\<close> on the result releases.
\<close>

theorem parse_leak_free:
  assumes "strtod_ok E" and "cJSON_ParseWithOpts E k l (Some s) want_end require_null_terminated = Some r"
  shows "live (final_buffer r) =
    l + (case parsed r of None \<Rightarrow> 0 | Some item \<Rightarrow> int (cJSON_Delete_blocks item))"
  using ParseWithOpts_result [OF assms(1), of k l s want_end require_null_terminated] assms(2)
  by (auto simp: result_ok_def split: option.splits)

theorem parse_leak_free_witness:
  "live (final_buffer example_result) = int (cJSON_Delete_blocks example_item)"
  using parse_leak_free [OF int_env_strtod_ok example_parse] by (simp add: example_result_def)

text \<open>
  C11. The tree invariant: a parsed item is well-formed -- a known type with exactly the members of
  that type set, the integer view of a number saturated, names on the members of objects and only
  there -- and nested at most to the limit.
\<close>

theorem parse_well_formed:
  assumes "strtod_ok E" and "cJSON_ParseWithOpts E k l (Some s) want_end require_null_terminated = Some r"
    and "parsed r = Some item"
  shows "json_ok E CJSON_NESTING_LIMIT item \<and> name item = None"
  using ParseWithOpts_result [OF assms(1), of k l s want_end require_null_terminated] assms(2, 3)
  by (auto simp: result_ok_def)

theorem parse_well_formed_witness: "json_ok int_env CJSON_NESTING_LIMIT example_item \<and> name example_item = None"
  using parse_well_formed [OF int_env_strtod_ok example_parse] by (simp add: example_result_def)

end
