(* ===== verification/CjsonPrint.thy ===== *)
theory CjsonPrint
  imports CjsonString
begin

text \<open>
  The printer of \<^verbatim>\<open>cJSON.c\<close>. A print buffer keeps its bytes (a list as long as the allocation), the members
  \<^verbatim>\<open>length\<close>, \<^verbatim>\<open>offset\<close>, \<^verbatim>\<open>depth\<close>, \<^verbatim>\<open>noalloc\<close> and \<^verbatim>\<open>format\<close> (here \<open>plen\<close>, \<open>poff\<close>, \<open>pdepth\<close>, \<open>noalloc\<close>,
  \<open>pformat\<close>) and whether the block is still allocated. \<open>store\<close> is a run of byte stores; a store outside
  the block, a read past it, a use or second release of a released block is None. The pieces of
  \<^verbatim>\<open>print_array\<close> and \<^verbatim>\<open>print_object\<close> are named after what they print.

  \<open>render\<close> gives the text of a tree independently of buffers. The contracts \<open>appends\<close> (the offset has
  moved past the text) and \<open>prints\<close> (the text is terminated but the offset may lag, as after the C
  functions before \<^verbatim>\<open>update_offset\<close>) compose along the code, and include that printing succeeds
  whenever there is room.
\<close>

unbundle bit_operations_syntax

section \<open>The print buffer\<close>

record printbuffer =
  buf :: "byte list option"
  plen :: nat
  poff :: nat
  pdepth :: nat
  noalloc :: bool
  pformat :: bool
  alive :: bool
  pnalloc :: nat

definition INT_MAXn :: nat where "INT_MAXn = 2147483647"

definition fresh_mem :: "'d env \<Rightarrow> nat \<Rightarrow> byte list" where
  "fresh_mem E n = map (junk E) [0..<n]"

definition free_buffer :: "printbuffer \<Rightarrow> printbuffer option" where
  "free_buffer p = (case buf p of
      None \<Rightarrow> Some p
    | Some bs \<Rightarrow> if alive p then Some (p\<lparr>alive := False\<rparr>) else None)"

definition regrow :: "'d env \<Rightarrow> nat \<Rightarrow> byte list \<Rightarrow> printbuffer \<Rightarrow> byte list option" where
  "regrow E newsize bs p =
     (if has_realloc E then Some (take newsize bs @ drop (length bs) (fresh_mem E newsize))
      else if poff p + 1 \<le> length bs \<and> poff p + 1 \<le> newsize
           then Some (memcpy_at 0 (take (poff p + 1) bs) (fresh_mem E newsize))
           else None)"

definition ensure :: "'d env \<Rightarrow> printbuffer \<Rightarrow> nat \<Rightarrow> (bool \<times> printbuffer) option" where
  "ensure E p needed =
     (case buf p of
        None \<Rightarrow> Some (False, p)
      | Some bs \<Rightarrow>
          if 0 < plen p \<and> plen p \<le> poff p then Some (False, p)
          else if needed > INT_MAXn then Some (False, p)
          else
            (let needed = needed + (poff p + 1)
             in if needed \<le> plen p then Some (True, p)
                else if noalloc p then Some (False, p)
                else if needed > INT_MAXn div 2 \<and> \<not> needed \<le> INT_MAXn then Some (False, p)
                else
                  (let newsize = (if needed > INT_MAXn div 2 then INT_MAXn else needed * 2);
                       ok = alloc_ok E (pnalloc p); p = p\<lparr>pnalloc := Suc (pnalloc p)\<rparr>
                   in if \<not> ok
                      then map_option (\<lambda>p. (False, p\<lparr>plen := 0, buf := None\<rparr>)) (free_buffer p)
                      else if \<not> alive p then None
                      else map_option (\<lambda>bs'. (True, p\<lparr>plen := newsize, buf := Some bs'\<rparr>)) (regrow E newsize bs p))))"

definition update_offset :: "printbuffer \<Rightarrow> printbuffer option" where
  "update_offset p =
     (case buf p of
        None \<Rightarrow> Some p
      | Some bs \<Rightarrow>
          if 0 \<in> set (drop (poff p) bs)
          then Some (p\<lparr>poff := poff p + length (takeWhile (\<lambda>c. c \<noteq> 0) (drop (poff p) bs))\<rparr>)
          else None)"

definition store :: "nat \<Rightarrow> byte list \<Rightarrow> printbuffer \<Rightarrow> printbuffer option" where
  "store i xs p =
     (case buf p of
        None \<Rightarrow> None
      | Some bs \<Rightarrow> if alive p \<and> i + length xs \<le> length bs then Some (p\<lparr>buf := Some (memcpy_at i xs bs)\<rparr>) else None)"

definition advance :: "nat \<Rightarrow> printbuffer \<Rightarrow> printbuffer" where
  "advance n p = p\<lparr>poff := poff p + n\<rparr>"

section \<open>Numbers and strings\<close>

definition number_text :: "'d env \<Rightarrow> 'd \<Rightarrow> byte list option" where
  "number_text E d =
     (if \<not> d_finite E d then Some [0x6E, 0x75, 0x6C, 0x6C]
      else
        (let s = sprintf15 E d
         in if 26 < length s + 1 then None
            else
              (let recovered = (case sscanf_lg E s of None \<Rightarrow> False | Some test \<Rightarrow> d_eq E test d)
               in if recovered then Some s
                  else (let s = sprintf17 E d in if 26 < length s + 1 then None else Some s))))"

definition print_number :: "'d env \<Rightarrow> 'd cJSON \<Rightarrow> printbuffer \<Rightarrow> (bool \<times> printbuffer) option" where
  "print_number E item p =
     do {
       number_buffer \<leftarrow> number_text E (valuedouble item);
       if 26 - 1 < length number_buffer then Some (False, p)
       else do {
         (ok, p) \<leftarrow> ensure E p (length number_buffer);
         if \<not> ok then Some (False, p)
         else do {
           p \<leftarrow> store (poff p) (map (\<lambda>c. if c = decimal_point E then 0x2E else c) number_buffer) p;
           p \<leftarrow> store (poff p + length number_buffer) [0] p;
           Some (True, advance (length number_buffer) p)
         }
       }
     }"

definition escape_extra :: "byte \<Rightarrow> nat" where
  "escape_extra c =
     (if c \<in> {0x22, 0x5C, 0x08, 0x0C, 0x0A, 0x0D, 0x09} then 1 else if c < 32 then 5 else 0)"

definition escape_short :: "byte \<Rightarrow> byte option" where
  "escape_short c =
     (if c = 0x5C then Some 0x5C else if c = 0x22 then Some 0x22 else if c = 0x08 then Some 0x62
      else if c = 0x0C then Some 0x66 else if c = 0x0A then Some 0x6E else if c = 0x0D then Some 0x72
      else if c = 0x09 then Some 0x74 else None)"

fun escape_loop :: "byte list \<Rightarrow> nat \<Rightarrow> printbuffer \<Rightarrow> (nat \<times> printbuffer) option" where
  "escape_loop [] i p = Some (i, p)"
| "escape_loop (c # cs) i p =
     (if c > 31 \<and> c \<noteq> 0x22 \<and> c \<noteq> 0x5C
      then do { p \<leftarrow> store i [c] p; escape_loop cs (i + 1) p }
      else do {
        p \<leftarrow> store i [0x5C] p;
        (case escape_short c of
           Some e \<Rightarrow> do { p \<leftarrow> store (i + 1) [e] p; escape_loop cs (i + 2) p }
         | None \<Rightarrow> do { p \<leftarrow> store (i + 1) (0x75 # hex4 (unat c) @ [0]) p; escape_loop cs (i + 6) p })
      })"

definition print_string_ptr :: "'d env \<Rightarrow> byte list option \<Rightarrow> printbuffer \<Rightarrow> (bool \<times> printbuffer) option" where
  "print_string_ptr E s p =
     (case s of
        None \<Rightarrow>
          do {
            (ok, p) \<leftarrow> ensure E p 3;
            if \<not> ok then Some (False, p)
            else do { p \<leftarrow> store (poff p) [0x22, 0x22, 0] p; Some (True, p) }
          }
      | Some bytes \<Rightarrow>
          (let input = takeWhile (\<lambda>c. c \<noteq> 0) bytes;
               escape_characters = sum_list (map escape_extra input);
               output_length = length input + escape_characters
           in do {
                (ok, p) \<leftarrow> ensure E p (output_length + 3);
                if \<not> ok then Some (False, p)
                else if escape_characters = 0
                then do { p \<leftarrow> store (poff p) (0x22 # input @ [0x22, 0]) p; Some (True, p) }
                else do {
                  p \<leftarrow> store (poff p) [0x22] p;
                  (_, p) \<leftarrow> escape_loop input (poff p + 1) p;
                  p \<leftarrow> store (poff p + output_length + 1) [0x22, 0] p;
                  Some (True, p)
                }
              }))"

section \<open>Values\<close>

type_synonym 'd printer = "'d cJSON \<Rightarrow> printbuffer \<Rightarrow> (bool \<times> printbuffer) option"

definition print_literal :: "'d env \<Rightarrow> nat \<Rightarrow> byte list \<Rightarrow> printbuffer \<Rightarrow> (bool \<times> printbuffer) option" where
  "print_literal E needed text p =
     do {
       (ok, p) \<leftarrow> ensure E p needed;
       if \<not> ok then Some (False, p)
       else do { p \<leftarrow> store (poff p) (text @ [0]) p; Some (True, p) }
     }"

definition print_separator :: "'d env \<Rightarrow> printbuffer \<Rightarrow> (bool \<times> printbuffer) option" where
  "print_separator E p =
     (let n = (if pformat p then 2 else 1)
      in do {
        (ok, p) \<leftarrow> ensure E p (n + 1);
        if \<not> ok then Some (False, p)
        else do { p \<leftarrow> store (poff p) (if pformat p then [0x2C, 0x20, 0] else [0x2C, 0]) p; Some (True, advance n p) }
      })"

fun print_elements :: "'d env \<Rightarrow> 'd printer \<Rightarrow> 'd cJSON list \<Rightarrow> printbuffer \<Rightarrow> (bool \<times> printbuffer) option" where
  "print_elements E pv [] p = Some (True, p)"
| "print_elements E pv (x # xs) p =
     do {
       (ok, p) \<leftarrow> pv x p;
       if \<not> ok then Some (False, p)
       else do {
         p \<leftarrow> update_offset p;
         if xs = [] then Some (True, p)
         else do {
           (ok, p) \<leftarrow> print_separator E p;
           if \<not> ok then Some (False, p) else print_elements E pv xs p
         }
       }
     }"

definition print_open_array :: "'d env \<Rightarrow> printbuffer \<Rightarrow> (bool \<times> printbuffer) option" where
  "print_open_array E p =
     do {
       (ok, p) \<leftarrow> ensure E p 1;
       if \<not> ok then Some (False, p)
       else do { p \<leftarrow> store (poff p) [0x5B] p; Some (True, advance 1 p) }
     }"

definition print_close_array :: "'d env \<Rightarrow> printbuffer \<Rightarrow> (bool \<times> printbuffer) option" where
  "print_close_array E p =
     do {
       (ok, p) \<leftarrow> ensure E p 2;
       if \<not> ok then Some (False, p)
       else do { p \<leftarrow> store (poff p) [0x5D, 0] p; Some (True, p) }
     }"

definition print_array :: "'d env \<Rightarrow> 'd printer \<Rightarrow> 'd printer" where
  "print_array E pv item p =
     do {
       (ok, p) \<leftarrow> print_open_array E p;
       if \<not> ok then Some (False, p)
       else do {
         (ok, p) \<leftarrow> print_elements E pv (child item) (p\<lparr>pdepth := Suc (pdepth p)\<rparr>);
         if \<not> ok then Some (False, p)
         else do {
           (ok, p) \<leftarrow> print_close_array E p;
           if \<not> ok then Some (False, p) else Some (True, p\<lparr>pdepth := pdepth p - 1\<rparr>)
         }
       }
     }"

definition print_indent :: "'d env \<Rightarrow> printbuffer \<Rightarrow> (bool \<times> printbuffer) option" where
  "print_indent E p =
     (if pformat p
      then do {
        (ok, p) \<leftarrow> ensure E p (pdepth p);
        if \<not> ok then Some (False, p)
        else do { p \<leftarrow> store (poff p) (replicate (pdepth p) 0x09) p; Some (True, advance (pdepth p) p) }
      }
      else Some (True, p))"

definition print_colon :: "'d env \<Rightarrow> printbuffer \<Rightarrow> (bool \<times> printbuffer) option" where
  "print_colon E p =
     (let n = (if pformat p then 2 else 1)
      in do {
        (ok, p) \<leftarrow> ensure E p n;
        if \<not> ok then Some (False, p)
        else do { p \<leftarrow> store (poff p) (if pformat p then [0x3A, 0x09] else [0x3A]) p; Some (True, advance n p) }
      })"

definition print_comma :: "'d env \<Rightarrow> bool \<Rightarrow> printbuffer \<Rightarrow> (bool \<times> printbuffer) option" where
  "print_comma E has_next p =
     (let text = (if has_next then [0x2C] else []) @ (if pformat p then [0x0A] else [])
      in do {
        (ok, p) \<leftarrow> ensure E p (length text + 1);
        if \<not> ok then Some (False, p)
        else do { p \<leftarrow> store (poff p) (text @ [0]) p; Some (True, advance (length text) p) }
      })"

fun print_members :: "'d env \<Rightarrow> 'd printer \<Rightarrow> 'd cJSON list \<Rightarrow> printbuffer \<Rightarrow> (bool \<times> printbuffer) option" where
  "print_members E pv [] p = Some (True, p)"
| "print_members E pv (x # xs) p =
     do {
       (ok, p) \<leftarrow> print_indent E p;
       if \<not> ok then Some (False, p)
       else do {
         (ok, p) \<leftarrow> print_string_ptr E (name x) p;
         if \<not> ok then Some (False, p)
         else do {
           p \<leftarrow> update_offset p;
           (ok, p) \<leftarrow> print_colon E p;
           if \<not> ok then Some (False, p)
           else do {
             (ok, p) \<leftarrow> pv x p;
             if \<not> ok then Some (False, p)
             else do {
               p \<leftarrow> update_offset p;
               (ok, p) \<leftarrow> print_comma E (xs \<noteq> []) p;
               if \<not> ok then Some (False, p) else print_members E pv xs p
             }
           }
         }
       }
     }"

definition print_open_object :: "'d env \<Rightarrow> printbuffer \<Rightarrow> (bool \<times> printbuffer) option" where
  "print_open_object E p =
     (let n = (if pformat p then 2 else 1)
      in do {
        (ok, p) \<leftarrow> ensure E p (n + 1);
        if \<not> ok then Some (False, p)
        else do { p \<leftarrow> store (poff p) (if pformat p then [0x7B, 0x0A] else [0x7B]) p; Some (True, advance n p) }
      })"

definition print_close_object :: "'d env \<Rightarrow> printbuffer \<Rightarrow> (bool \<times> printbuffer) option" where
  "print_close_object E p =
     do {
       (ok, p) \<leftarrow> ensure E p (if pformat p then pdepth p + 1 else 2);
       if \<not> ok then Some (False, p)
       else do {
         p \<leftarrow> store (poff p) ((if pformat p then replicate (pdepth p - 1) 0x09 else []) @ [0x7D, 0]) p;
         Some (True, p)
       }
     }"

definition print_object :: "'d env \<Rightarrow> 'd printer \<Rightarrow> 'd printer" where
  "print_object E pv item p =
     do {
       (ok, p) \<leftarrow> print_open_object E p;
       if \<not> ok then Some (False, p)
       else do {
         (ok, p) \<leftarrow> print_members E pv (child item) (p\<lparr>pdepth := Suc (pdepth p)\<rparr>);
         if \<not> ok then Some (False, p)
         else do {
           (ok, p) \<leftarrow> print_close_object E p;
           if \<not> ok then Some (False, p) else Some (True, p\<lparr>pdepth := pdepth p - 1\<rparr>)
         }
       }
     }"

lemma print_elements_cong [fundef_cong]:
  assumes "xs = ys" "p = q" and "\<And>x p. x \<in> set ys \<Longrightarrow> f x p = g x p"
  shows "print_elements E f xs p = print_elements E g ys q"
  using assms(3) unfolding assms(1, 2)
proof (induction ys arbitrary: q)
  case (Cons y ys)
  have fg: "f y = g y" and IH: "print_elements E f ys = print_elements E g ys" using Cons by auto
  show ?case unfolding print_elements.simps fg IH by (rule refl)
qed simp

lemma print_members_cong [fundef_cong]:
  assumes "xs = ys" "p = q" and "\<And>x p. x \<in> set ys \<Longrightarrow> f x p = g x p"
  shows "print_members E f xs p = print_members E g ys q"
  using assms(3) unfolding assms(1, 2)
proof (induction ys arbitrary: q)
  case (Cons y ys)
  have fg: "f y = g y" and IH: "print_members E f ys = print_members E g ys" using Cons by auto
  show ?case unfolding print_members.simps fg IH by (rule refl)
qed simp

lemma print_array_cong [fundef_cong]:
  assumes "item = item'" "p = q" and "\<And>x p. x \<in> set (child item') \<Longrightarrow> f x p = g x p"
  shows "print_array E f item p = print_array E g item' q"
proof -
  have eq: "print_elements E f (child item') = print_elements E g (child item')"
    by (intro ext print_elements_cong) (auto simp: assms(3))
  show ?thesis unfolding assms(1, 2) print_array_def eq by (rule refl)
qed

lemma print_object_cong [fundef_cong]:
  assumes "item = item'" "p = q" and "\<And>x p. x \<in> set (child item') \<Longrightarrow> f x p = g x p"
  shows "print_object E f item p = print_object E g item' q"
proof -
  have eq: "print_members E f (child item') = print_members E g (child item')"
    by (intro ext print_members_cong) (auto simp: assms(3))
  show ?thesis unfolding assms(1, 2) print_object_def eq by (rule refl)
qed

lemma child_size: "x \<in> set (child item) \<Longrightarrow> size x < size item"
  by (cases item) (auto dest: size_list_estimation' [where f = size])

function print_value :: "'d env \<Rightarrow> 'd printer" where
  "print_value E item p =
     (let t = type_of item AND 0xFF
      in if t = cJSON_NULL then print_literal E 5 [0x6E, 0x75, 0x6C, 0x6C] p
         else if t = cJSON_False then print_literal E 6 [0x66, 0x61, 0x6C, 0x73, 0x65] p
         else if t = cJSON_True then print_literal E 5 [0x74, 0x72, 0x75, 0x65] p
         else if t = cJSON_Number then print_number E item p
         else if t = cJSON_Raw
         then (case valuestring item of
                 None \<Rightarrow> if noalloc p then Some (False, p) else map_option (\<lambda>p. (False, p)) (free_buffer p)
               | Some raw \<Rightarrow>
                   (let text = takeWhile (\<lambda>c. c \<noteq> 0) raw in print_literal E (length text + 1) text p))
         else if t = cJSON_String then print_string_ptr E (valuestring item) p
         else if t = cJSON_Array then print_array E (print_value E) item p
         else if t = cJSON_Object then print_object E (print_value E) item p
         else Some (False, p))"
  by pat_completeness auto
termination
  by (relation "measure (\<lambda>(E, item, p). size item)") (auto dest: child_size)

declare print_value.simps [simp del]

section \<open>Entry points\<close>

definition hooks_allocate :: "'d env \<Rightarrow> nat \<Rightarrow> nat \<Rightarrow> byte list option" where
  "hooks_allocate E k n = (if alloc_ok E k then Some (fresh_mem E n) else None)"

definition print_fail :: "printbuffer \<Rightarrow> byte list option option" where
  "print_fail p =
     (case buf p of
        None \<Rightarrow> Some None
      | Some _ \<Rightarrow> map_option (\<lambda>_. None) (free_buffer p))"

text \<open>The result of \<open>print\<close>: None is a memory fault, Some None a NULL result, Some (Some bytes) the block returned.\<close>

definition print :: "'d env \<Rightarrow> nat \<Rightarrow> 'd cJSON \<Rightarrow> bool \<Rightarrow> byte list option option" where
  "print E k item format =
     (case hooks_allocate E k 256 of
        None \<Rightarrow> Some None
      | Some bs \<Rightarrow>
          do {
            let p = \<lparr>buf = Some bs, plen = 0, poff = 0, pdepth = 0, noalloc = False, pformat = format, alive = True, pnalloc = Suc k\<rparr>;
            (ok, p) \<leftarrow> print_value E item p;
            if \<not> ok then print_fail p
            else do {
              p \<leftarrow> update_offset p;
              bs \<leftarrow> buf p;
              if has_realloc E
              then if alloc_ok E (pnalloc p)
                   then Some (Some (take (plen p) bs @ drop (length bs) (fresh_mem E (plen p))))
                   else Some None
              else
                (case hooks_allocate E (pnalloc p) (poff p + 1) of
                   None \<Rightarrow> print_fail p
                 | Some printed \<Rightarrow>
                     if alive p \<and> min (plen p) (poff p + 1) \<le> length bs
                     then Some (Some ((memcpy_at 0 (take (min (plen p) (poff p + 1)) bs) printed)[poff p := 0]))
                     else None)
            }
          })"

definition cJSON_Print :: "'d env \<Rightarrow> nat \<Rightarrow> 'd cJSON \<Rightarrow> byte list option option" where
  "cJSON_Print E k item = print E k item True"

definition cJSON_PrintUnformatted :: "'d env \<Rightarrow> nat \<Rightarrow> 'd cJSON \<Rightarrow> byte list option option" where
  "cJSON_PrintUnformatted E k item = print E k item False"

definition cJSON_PrintBuffered :: "'d env \<Rightarrow> nat \<Rightarrow> 'd cJSON \<Rightarrow> int \<Rightarrow> bool \<Rightarrow> byte list option option" where
  "cJSON_PrintBuffered E k item prebuffer fmt =
     (if prebuffer < 0 then Some None
      else
        (case hooks_allocate E k (nat prebuffer) of
           None \<Rightarrow> Some None
         | Some bs \<Rightarrow>
             do {
               (ok, p) \<leftarrow> print_value E item \<lparr>buf = Some bs, plen = nat prebuffer, poff = 0, pdepth = 0, noalloc = False,
                  pformat = fmt, alive = True, pnalloc = Suc k\<rparr>;
               if \<not> ok then map_option (\<lambda>_. None) (free_buffer p) else Some (buf p)
             }))"

definition cJSON_PrintPreallocated :: "'d env \<Rightarrow> nat \<Rightarrow> 'd cJSON \<Rightarrow> byte list option \<Rightarrow> int \<Rightarrow> bool \<Rightarrow> (bool \<times> byte list option) option" where
  "cJSON_PrintPreallocated E k item buffer len fmt =
     (if len < 0 \<or> buffer = None then Some (False, buffer)
      else
        do {
          (ok, p) \<leftarrow> print_value E item \<lparr>buf = buffer, plen = nat len, poff = 0, pdepth = 0, noalloc = True,
             pformat = fmt, alive = True, pnalloc = k\<rparr>;
          Some (ok, buf p)
        })"

section \<open>The state of the buffer\<close>

definition pb_ok :: "'d env \<Rightarrow> printbuffer \<Rightarrow> byte list \<Rightarrow> bool" where
  "pb_ok E p pre \<longleftrightarrow>
     (case buf p of
        None \<Rightarrow> False
      | Some bs \<Rightarrow> alive p \<and> plen p \<le> length bs \<and> length pre = poff p \<and> take (poff p) bs = pre \<and>
          (plen p = 0 \<or> poff p < plen p) \<and> (noalloc p \<or> has_realloc E \<or> poff p < length bs))"

definition frame :: "printbuffer \<Rightarrow> printbuffer \<Rightarrow> bool" where
  "frame p p' \<longleftrightarrow> noalloc p' = noalloc p \<and> pformat p' = pformat p \<and> pdepth p' = pdepth p \<and>
     (noalloc p \<longrightarrow> plen p' = plen p \<and> map_option length (buf p') = map_option length (buf p))"

definition failed :: "printbuffer \<Rightarrow> bool" where
  "failed p \<longleftrightarrow> buf p = None \<or> alive p"

definition room :: "'d env \<Rightarrow> printbuffer \<Rightarrow> nat \<Rightarrow> bool" where
  "room E p n \<longleftrightarrow> n \<le> INT_MAXn \<and> (if noalloc p then n \<le> plen p else (\<forall>k. alloc_ok E k))"

lemma frame_refl [simp]: "frame p p"
  by (simp add: frame_def)

lemma frame_trans: "frame p q \<Longrightarrow> frame q r \<Longrightarrow> frame p r"
  by (auto simp: frame_def)

lemma room_frame: "frame p p' \<Longrightarrow> room E p' n = room E p n"
  by (auto simp: room_def frame_def)

lemma room_mono: "room E p n \<Longrightarrow> m \<le> n \<Longrightarrow> room E p m"
  by (auto simp: room_def split: if_splits)

lemma length_regrow:
  assumes "regrow E n bs p = Some bs'" and "length bs \<le> n \<or> \<not> has_realloc E"
  shows "length bs' = n"
  using assms by (auto simp: regrow_def fresh_mem_def split: if_splits)

lemma regrow_ok:
  assumes "poff p \<le> length bs" "poff p + 1 \<le> n" "has_realloc E \<or> poff p < length bs"
  shows "\<exists>bs'. regrow E n bs p = Some bs' \<and> length bs' = n \<and> take (poff p) bs' = take (poff p) bs"
proof (cases "has_realloc E")
  case True
  have "length (take n bs @ drop (length bs) (fresh_mem E n)) = n" by (simp add: fresh_mem_def)
  then show ?thesis using True assms by (auto simp: regrow_def)
next
  case False
  then have "poff p + 1 \<le> length bs" using assms by simp
  then show ?thesis using False assms by (simp add: regrow_def memcpy_at_def fresh_mem_def)
qed

lemma ensure_frame: "ensure E p n = Some (True, p') \<Longrightarrow> frame p p' \<and> poff p' = poff p"
  by (auto simp: ensure_def frame_def Let_def split: option.splits if_splits)

lemma ensure_ok:
  assumes "pb_ok E p pre"
  shows "\<exists>ok p'. ensure E p n = Some (ok, p') \<and>
    (if ok then pb_ok E p' pre \<and> frame p p' \<and> poff p' = poff p \<and> poff p + n + 1 \<le> plen p' else failed p') \<and>
    (room E p (poff p + n + 1) \<longrightarrow> ok)"
proof -
  obtain bs where bs: "buf p = Some bs" "alive p" "plen p \<le> length bs" "length pre = poff p" "take (poff p) bs = pre"
    "plen p = 0 \<or> poff p < plen p" "noalloc p \<or> has_realloc E \<or> poff p < length bs"
    using assms by (auto simp: pb_ok_def split: option.splits)
  have off: "poff p \<le> length bs" using bs(4, 5) by (metis length_take min.cobounded1)
  define needed where "needed = n + (poff p + 1)"
  consider (big) "n > INT_MAXn" | (fits) "n \<le> INT_MAXn" "needed \<le> plen p"
    | (noalloc) "n \<le> INT_MAXn" "\<not> needed \<le> plen p" "noalloc p"
    | (over) "n \<le> INT_MAXn" "\<not> needed \<le> plen p" "\<not> noalloc p" "\<not> needed \<le> INT_MAXn"
    | (grow) "n \<le> INT_MAXn" "\<not> needed \<le> plen p" "\<not> noalloc p" "needed \<le> INT_MAXn" by linarith
  then show ?thesis
  proof cases
    case big
    then have "ensure E p n = Some (False, p)" using bs by (simp add: ensure_def)
    then show ?thesis using bs big by (auto simp: failed_def room_def)
  next
    case fits
    then have "ensure E p n = Some (True, p)" using bs by (auto simp: ensure_def needed_def)
    then show ?thesis using assms fits by (auto simp: needed_def)
  next
    case noalloc
    then have "ensure E p n = Some (False, p)" using bs by (auto simp: ensure_def needed_def)
    then show ?thesis using bs noalloc by (auto simp: failed_def room_def needed_def)
  next
    case over
    moreover from this have "INT_MAXn div 2 < needed" by simp
    ultimately have "ensure E p n = Some (False, p)" using bs by (auto simp: ensure_def needed_def)
    then show ?thesis using bs over by (auto simp: failed_def room_def needed_def)
  next
    case grow
    define newsize where "newsize = (if needed > INT_MAXn div 2 then INT_MAXn else needed * 2)"
    have ns: "needed \<le> newsize" using grow by (simp add: newsize_def)
    obtain bs' where bs': "regrow E newsize bs (p\<lparr>pnalloc := Suc (pnalloc p)\<rparr>) = Some bs'" "length bs' = newsize"
      "take (poff p) bs' = take (poff p) bs"
      using regrow_ok [of "p\<lparr>pnalloc := Suc (pnalloc p)\<rparr>" bs newsize E] off ns bs(7) grow by (auto simp: needed_def)
    have "ensure E p n = (if alloc_ok E (pnalloc p)
        then Some (True, p\<lparr>pnalloc := Suc (pnalloc p), plen := newsize, buf := Some bs'\<rparr>)
        else Some (False, p\<lparr>pnalloc := Suc (pnalloc p), alive := False, plen := 0, buf := None\<rparr>))"
      using bs grow bs'(1) by (auto simp: ensure_def needed_def Let_def newsize_def free_buffer_def)
    moreover have "pb_ok E (p\<lparr>pnalloc := Suc (pnalloc p), plen := newsize, buf := Some bs'\<rparr>) pre"
      using bs bs' ns grow by (auto simp: pb_ok_def needed_def)
    ultimately show ?thesis using grow ns by (auto simp: frame_def failed_def room_def needed_def)
  qed
qed

lemma store_ok:
  assumes "pb_ok E p pre" "poff p + length xs \<le> plen p"
  obtains bs' where "store (poff p) xs p = Some (p\<lparr>buf := Some bs'\<rparr>)" "take (poff p + length xs) bs' = pre @ xs"
    "map_option length (buf p) = Some (length bs')" "plen p \<le> length bs'"
proof -
  obtain bs where bs: "buf p = Some bs" "alive p" "plen p \<le> length bs" "length pre = poff p" "take (poff p) bs = pre"
    using assms by (auto simp: pb_ok_def split: option.splits)
  show ?thesis
    using assms(2) bs by (intro that [of "memcpy_at (poff p) xs bs"]) (auto simp: store_def memcpy_at_def)
qed


definition appends :: "'d env \<Rightarrow> byte list \<Rightarrow> byte list \<Rightarrow> printbuffer \<Rightarrow> (bool \<times> printbuffer) option \<Rightarrow> bool" where
  "appends E pre tx p r \<longleftrightarrow>
     (case r of
        None \<Rightarrow> False
      | Some (ok, p') \<Rightarrow>
          (if ok then pb_ok E p' (pre @ tx) \<and> frame p p' \<and> length pre + length tx < plen p' else failed p') \<and>
          (room E p (poff p + length tx + 2) \<longrightarrow> ok))"

definition pending :: "printbuffer \<Rightarrow> byte list \<Rightarrow> byte list \<Rightarrow> bool" where
  "pending p pre tx \<longleftrightarrow>
     (case buf p of
        None \<Rightarrow> False
      | Some bs \<Rightarrow> alive p \<and> plen p \<le> length bs \<and> length pre \<le> poff p \<and> poff p \<le> length pre + length tx \<and>
          take (length pre + length tx + 1) bs = pre @ tx @ [0] \<and> length pre + length tx < plen p)"

definition prints :: "'d env \<Rightarrow> byte list \<Rightarrow> byte list \<Rightarrow> printbuffer \<Rightarrow> (bool \<times> printbuffer) option \<Rightarrow> bool" where
  "prints E pre tx p r \<longleftrightarrow>
     (case r of
        None \<Rightarrow> False
      | Some (ok, p') \<Rightarrow>
          (if ok then pending p' pre tx \<and> frame p p' else failed p') \<and>
          (room E p (poff p + length tx + 2) \<longrightarrow> ok))"

lemma advance_0: "advance 0 p = p"
  by (simp add: advance_def)

definition emit_step :: "'d env \<Rightarrow> nat \<Rightarrow> byte list \<Rightarrow> nat \<Rightarrow> printbuffer \<Rightarrow> (bool \<times> printbuffer) option" where
  "emit_step E n xs k p =
     do {
       (ok, p) \<leftarrow> ensure E p n;
       if \<not> ok then Some (False, p)
       else do { p \<leftarrow> store (poff p) xs p; Some (True, advance k p) }
     }"

lemma pb_ok_length: "pb_ok E p pre \<Longrightarrow> length pre = poff p"
  by (auto simp: pb_ok_def split: option.splits)

lemma emit_step_cases:
  assumes "pb_ok E p pre" "length xs \<le> n + 1"
  obtains (fail) p' where "emit_step E n xs k p = Some (False, p')" "failed p'" "\<not> room E p (poff p + n + 1)"
  | (ok) p' bs' where "emit_step E n xs k p = Some (True, advance k (p'\<lparr>buf := Some bs'\<rparr>))" "pb_ok E p' pre" "frame p p'" "poff p' = poff p"
      "poff p + n + 1 \<le> plen p'" "take (poff p + length xs) bs' = pre @ xs"
      "map_option length (buf p') = Some (length bs')" "plen p' \<le> length bs'"
proof -
  obtain ok p' where e: "ensure E p n = Some (ok, p')"
    "if ok then pb_ok E p' pre \<and> frame p p' \<and> poff p' = poff p \<and> poff p + n + 1 \<le> plen p' else failed p'"
    "room E p (poff p + n + 1) \<longrightarrow> ok"
    using ensure_ok [OF assms(1)] by blast
  show ?thesis
  proof (cases ok)
    case False
    then show ?thesis using e fail [of p'] by (simp add: emit_step_def)
  next
    case True
    then have p': "pb_ok E p' pre" "frame p p'" "poff p' = poff p" "poff p + n + 1 \<le> plen p'" using e by auto
    obtain bs' where "store (poff p') xs p' = Some (p'\<lparr>buf := Some bs'\<rparr>)" "take (poff p' + length xs) bs' = pre @ xs"
      "map_option length (buf p') = Some (length bs')" "plen p' \<le> length bs'"
      using store_ok [OF p'(1), of xs] p' assms(2) by auto
    then show ?thesis using True e(1) p' ok [where bs' = bs' and p' = p'] by (simp add: emit_step_def)
  qed
qed

lemma emit_step_appends:
  assumes "pb_ok E p pre" "length xs \<le> n + 1" "k \<le> length xs" "k \<le> n" "n \<le> k + 1"
  shows "appends E pre (take k xs) p (emit_step E n xs k p)"
  using assms(1, 2)
proof (cases rule: emit_step_cases [where k = k])
  case (fail p')
  then show ?thesis using assms by (auto simp: appends_def intro: room_mono)
next
  case (ok p' bs')
  have t: "take (poff p + k) bs' = pre @ take k xs"
    using arg_cong [OF ok(6), of "take (poff p + k)"] assms(3) pb_ok_length [OF assms(1)] by (simp add: min_def)
  have "pb_ok E (advance k (p'\<lparr>buf := Some bs'\<rparr>)) (pre @ take k xs)"
    using ok t assms(3-5) pb_ok_length [OF assms(1)] by (auto simp: pb_ok_def advance_def split: option.splits)
  moreover have "frame p (advance k (p'\<lparr>buf := Some bs'\<rparr>))" using ok(3, 7) by (auto simp: frame_def advance_def)
  moreover have "length pre + length (take k xs) < plen p'" using ok assms pb_ok_length [OF assms(1)] by simp
  ultimately show ?thesis using ok(1) by (simp add: appends_def advance_def)
qed

lemma emit_step_prints:
  assumes "pb_ok E p pre" "length tx \<le> n" "n \<le> length tx + 1" "k = 0 \<or> k = length tx"
  shows "prints E pre tx p (emit_step E n (tx @ [0]) k p)"
proof -
  have len: "length (tx @ [0]) \<le> n + 1" using assms(2) by simp
  show ?thesis
    using assms(1) len
  proof (cases rule: emit_step_cases [where k = k])
  case (fail p')
  then show ?thesis using assms by (auto simp: prints_def intro: room_mono)
next
  case (ok p' bs')
  have "pending (advance k (p'\<lparr>buf := Some bs'\<rparr>)) pre tx"
    using ok assms pb_ok_length [OF assms(1)] by (auto simp: pending_def advance_def pb_ok_def split: option.splits)
  moreover have "frame p (advance k (p'\<lparr>buf := Some bs'\<rparr>))" using ok(3, 7) by (auto simp: frame_def advance_def)
  ultimately show ?thesis using ok(1) by (simp add: prints_def)
  qed
qed

lemma update_offset_ok:
  assumes "pending p pre tx" "0 \<notin> set tx"
  shows "\<exists>p'. update_offset p = Some p' \<and> pb_ok E p' (pre @ tx) \<and> frame p p' \<and> length pre + length tx < plen p' \<and>
    p' = p\<lparr>poff := length pre + length tx\<rparr>"
proof -
  obtain bs where bs: "buf p = Some bs" "alive p" "plen p \<le> length bs" "length pre \<le> poff p" "poff p \<le> length pre + length tx"
    "take (length pre + length tx + 1) bs = pre @ tx @ [0]" "length pre + length tx < plen p"
    using assms(1) by (auto simp: pending_def split: option.splits)
  define rest where "rest = drop (length pre + length tx + 1) bs"
  have split: "bs = pre @ tx @ 0 # rest"
    using bs(6) append_take_drop_id [of "length pre + length tx + 1" bs]
    by (metis append.assoc append_Cons append_Nil rest_def)
  define k where "k = poff p - length pre"
  have k: "poff p = length pre + k" "k \<le> length tx" using bs(4, 5) by (auto simp: k_def)
  then have d: "drop (poff p) bs = drop k tx @ 0 # rest" unfolding split by simp
  have "takeWhile (\<lambda>c. c \<noteq> 0) (ys @ 0 # xs) = ys" if "0 \<notin> set ys" for xs ys :: "byte list"
    using that by (induction ys) auto
  moreover have "0 \<notin> set (drop k tx)" using assms(2) by (auto dest: in_set_dropD)
  ultimately have "takeWhile (\<lambda>c. c \<noteq> 0) (drop (poff p) bs) = drop k tx" unfolding d by simp
  then have "poff p + length (takeWhile (\<lambda>c. c \<noteq> 0) (drop (poff p) bs)) = length pre + length tx"
    using k by simp
  moreover have "take (length pre + length tx) bs = pre @ tx" unfolding split by simp
  ultimately show ?thesis
    using bs d by (auto simp: update_offset_def pb_ok_def frame_def)
qed

section \<open>The rendering of a tree\<close>

definition esc_byte :: "byte \<Rightarrow> byte list" where
  "esc_byte c =
     (if c > 31 \<and> c \<noteq> 0x22 \<and> c \<noteq> 0x5C then [c]
      else case escape_short c of Some e \<Rightarrow> [0x5C, e] | None \<Rightarrow> [0x5C, 0x75] @ hex4 (unat c))"

definition render_string :: "byte list option \<Rightarrow> byte list" where
  "render_string s =
     (case s of None \<Rightarrow> [0x22, 0x22]
      | Some bytes \<Rightarrow> 0x22 # concat (map esc_byte (takeWhile (\<lambda>c. c \<noteq> 0) bytes)) @ [0x22])"

definition render_number :: "'d env \<Rightarrow> 'd \<Rightarrow> byte list" where
  "render_number E d = map (\<lambda>c. if c = decimal_point E then 0x2E else c) (the (number_text E d))"

fun join_elements :: "bool \<Rightarrow> byte list list \<Rightarrow> byte list" where
  "join_elements fmt [] = []"
| "join_elements fmt [t] = t"
| "join_elements fmt (t # ts) = t @ (if fmt then [0x2C, 0x20] else [0x2C]) @ join_elements fmt ts"

fun join_members :: "bool \<Rightarrow> nat \<Rightarrow> (byte list option \<times> byte list) list \<Rightarrow> byte list" where
  "join_members fmt d [] = []"
| "join_members fmt d ((key, t) # ms) =
     (if fmt then replicate d 0x09 else []) @ render_string key @ (if fmt then [0x3A, 0x09] else [0x3A]) @ t
     @ (if ms \<noteq> [] then [0x2C] else []) @ (if fmt then [0x0A] else []) @ join_members fmt d ms"

fun render :: "'d env \<Rightarrow> bool \<Rightarrow> nat \<Rightarrow> 'd cJSON \<Rightarrow> byte list" where
  "render E fmt d (CJSON t vs vi vd nm ch) =
     (let k = t AND 0xFF
      in if k = cJSON_NULL then [0x6E, 0x75, 0x6C, 0x6C]
         else if k = cJSON_False then [0x66, 0x61, 0x6C, 0x73, 0x65]
         else if k = cJSON_True then [0x74, 0x72, 0x75, 0x65]
         else if k = cJSON_Number then render_number E vd
         else if k = cJSON_Raw then takeWhile (\<lambda>c. c \<noteq> 0) (case vs of None \<Rightarrow> [] | Some s \<Rightarrow> s)
         else if k = cJSON_String then render_string vs
         else if k = cJSON_Array then 0x5B # join_elements fmt (map (render E fmt (Suc d)) ch) @ [0x5D]
         else (if fmt then [0x7B, 0x0A] else [0x7B])
              @ join_members fmt (Suc d) (map (\<lambda>c. (name c, render E fmt (Suc d) c)) ch)
              @ (if fmt then replicate d 0x09 else []) @ [0x7D])"

definition number_fits :: "'d env \<Rightarrow> 'd \<Rightarrow> bool" where
  "number_fits E d = (case number_text E d of None \<Rightarrow> False | Some s \<Rightarrow> length s \<le> 25 \<and> 0 \<notin> set s)"

fun printable :: "'d env \<Rightarrow> 'd cJSON \<Rightarrow> bool" where
  "printable E (CJSON t vs vi vd nm ch) \<longleftrightarrow>
     (let k = t AND 0xFF
      in k \<in> {cJSON_NULL, cJSON_False, cJSON_True, cJSON_String} \<or> k = cJSON_Number \<and> number_fits E vd \<or>
         k = cJSON_Raw \<and> vs \<noteq> None \<or>
         (k = cJSON_Array \<or> k = cJSON_Object) \<and> (\<forall>c\<in>set ch. printable E c))"

lemma esc_byte_length: "length (esc_byte c) = 1 + escape_extra c"
  by (auto simp: esc_byte_def escape_extra_def escape_short_def word_less_nat_alt)

lemma escape_length: "length (concat (map esc_byte cs)) = length cs + sum_list (map escape_extra cs)"
  by (induction cs) (simp_all add: esc_byte_length)

lemma escape_none: "sum_list (map escape_extra cs) = 0 \<Longrightarrow> concat (map esc_byte cs) = cs"
  by (induction cs) (auto simp: esc_byte_def escape_extra_def word_less_nat_alt not_less split: if_splits)

lemma hex_char_nonzero: "d < 16 \<Longrightarrow> hex_char d \<noteq> 0"
  by (auto simp: hex_char_def word_unat_eq_iff unsigned_of_nat take_bit_eq_mod simp del: of_nat_add)

lemma esc_byte_nonzero: "c \<noteq> 0 \<Longrightarrow> 0 \<notin> set (esc_byte c)"
  using hex_char_nonzero [of "unat c div 4096 mod 16"] hex_char_nonzero [of "unat c div 256 mod 16"]
    hex_char_nonzero [of "unat c div 16 mod 16"] hex_char_nonzero [of "unat c mod 16"]
  by (auto simp: esc_byte_def escape_short_def hex4_def split: if_splits)

lemma render_string_nonzero: "0 \<notin> set (render_string s)"
  by (auto simp: render_string_def dest: set_takeWhileD esc_byte_nonzero split: option.splits)

lemma store_at:
  "buf p = Some bs \<Longrightarrow> alive p \<Longrightarrow> i + length xs \<le> length bs \<Longrightarrow> store i xs p = Some (p\<lparr>buf := Some (memcpy_at i xs bs)\<rparr>)"
  by (simp add: store_def)

lemma store_two:
  "store (poff p) (xs @ ys) p = (case store (poff p) xs p of None \<Rightarrow> None | Some p \<Rightarrow> store (poff p + length xs) ys p)
     \<or> (\<exists>bs. buf p = Some bs \<and> length bs < poff p + length (xs @ ys))"
  by (auto simp: store_def memcpy_at_def ac_simps split: option.splits)

lemma escape_loop_ok:
  assumes "buf p = Some bs" "alive p" "i + length (concat (map esc_byte cs)) + 1 \<le> length bs"
  shows "\<exists>bs'. escape_loop cs i p = Some (i + length (concat (map esc_byte cs)), p\<lparr>buf := Some bs'\<rparr>) \<and> length bs' = length bs \<and>
    take (i + length (concat (map esc_byte cs))) bs' = take i bs @ concat (map esc_byte cs)"
  using assms
proof (induction cs arbitrary: i p bs)
  case Nil
  then show ?case by (cases p) simp
next
  case (Cons c cs)
  let ?n = "length (esc_byte c)"
  define zs where "zs = (if c > 31 \<and> c \<noteq> 0x22 \<and> c \<noteq> 0x5C \<or> escape_short c \<noteq> None then [] else [0 :: byte])"
  define bs1 where "bs1 = memcpy_at i (esc_byte c @ zs) bs"
  have len: "i + ?n + length zs \<le> length bs" using Cons.prems by (simp add: zs_def)
  have step: "escape_loop (c # cs) i p = escape_loop cs (i + ?n) (p\<lparr>buf := Some bs1\<rparr>)"
    using Cons.prems len
    by (auto simp: esc_byte_def zs_def bs1_def store_def memcpy_at_def min_def add.commute split: option.splits if_splits)
  have bs1: "length bs1 = length bs" "take (i + ?n) bs1 = take i bs @ esc_byte c"
    using len by (auto simp: bs1_def memcpy_at_def)
  obtain bs' where "escape_loop cs (i + ?n) (p\<lparr>buf := Some bs1\<rparr>) =
      Some (i + ?n + length (concat (map esc_byte cs)), p\<lparr>buf := Some bs'\<rparr>)" "length bs' = length bs"
      "take (i + ?n + length (concat (map esc_byte cs))) bs' = take (i + ?n) bs1 @ concat (map esc_byte cs)"
    using Cons.IH [of "p\<lparr>buf := Some bs1\<rparr>" bs1 "i + ?n"] Cons.prems bs1 by auto
  then show ?case using step bs1 by (auto simp: add.assoc)
qed


section \<open>The printers append their rendering\<close>

lemma print_string_ptr_ok:
  assumes "pb_ok E p pre"
  shows "prints E pre (render_string s) p (print_string_ptr E s p)"
proof (cases s)
  case None
  have "print_string_ptr E s p = emit_step E 3 ([0x22, 0x22] @ [0]) 0 p"
    unfolding print_string_ptr_def emit_step_def None advance_0 append.simps by simp
  then show ?thesis using emit_step_prints [OF assms, of "[0x22, 0x22]" 3 0] None by (simp add: render_string_def)
next
  case (Some bytes)
  define input where "input = takeWhile (\<lambda>c. c \<noteq> 0) bytes"
  define tx where "tx = concat (map esc_byte input)"
  have rs: "render_string s = 0x22 # tx @ [0x22]" by (simp add: Some render_string_def tx_def input_def)
  have len: "length tx = length input + sum_list (map escape_extra input)" by (simp add: tx_def escape_length)
  show ?thesis
  proof (cases "sum_list (map escape_extra input) = 0")
    case True
    then have "tx = input" by (simp add: tx_def escape_none)
    then have "print_string_ptr E s p = emit_step E (length input + 3) ((0x22 # input @ [0x22]) @ [0]) 0 p"
      unfolding print_string_ptr_def emit_step_def Some advance_0 option.case input_def [symmetric] Let_def True by (simp cong: if_cong)
    then show ?thesis using emit_step_prints [OF assms, of "0x22 # input @ [0x22]" "length input + 3" 0] rs \<open>tx = input\<close> by simp
  next
    case False
    obtain ok p' where e: "ensure E p (length tx + 3) = Some (ok, p')"
      "if ok then pb_ok E p' pre \<and> frame p p' \<and> poff p' = poff p \<and> poff p + (length tx + 3) + 1 \<le> plen p' else failed p'"
      "room E p (poff p + (length tx + 3) + 1) \<longrightarrow> ok"
      using ensure_ok [OF assms] by blast
    show ?thesis
    proof (cases ok)
      case nok: False
      then have "print_string_ptr E s p = Some (False, p')"
        using e(1) False by (simp add: print_string_ptr_def Some input_def [symmetric] len [symmetric] Let_def)
      moreover have eq: "poff p + (length tx + 3) + 1 = poff p + length (render_string s) + 2" by (simp add: rs)
      have "\<not> room E p (poff p + length (render_string s) + 2)" using e(3) nok unfolding eq by simp
      ultimately show ?thesis using nok e(2) by (simp only: prints_def) simp
    next
      case ok: True
      then have p': "pb_ok E p' pre" "frame p p'" "poff p' = poff p" "poff p + length tx + 4 \<le> plen p'" using e by auto
      then obtain bs where bs: "buf p' = Some bs" "alive p'" "plen p' \<le> length bs" "take (poff p) bs = pre" "length pre = poff p"
        by (auto simp: pb_ok_def split: option.splits)
      define bs1 where "bs1 = memcpy_at (poff p) [0x22] bs"
      have bs1: "length bs1 = length bs" "take (poff p + 1) bs1 = pre @ [0x22]"
        using bs p'(4) by (auto simp: bs1_def memcpy_at_def)
      obtain bs2 where bs2: "escape_loop input (poff p + 1) (p'\<lparr>buf := Some bs1\<rparr>) =
          Some (poff p + 1 + length tx, p'\<lparr>buf := Some bs2\<rparr>)" "length bs2 = length bs"
          "take (poff p + 1 + length tx) bs2 = pre @ [0x22] @ tx"
        using escape_loop_ok [of "p'\<lparr>buf := Some bs1\<rparr>" bs1 "poff p + 1" input] bs bs1 p'(4) by (auto simp: tx_def [symmetric])
      define bs3 where "bs3 = memcpy_at (poff p + length tx + 1) [0x22, 0] bs2"
      have "print_string_ptr E s p = Some (True, p'\<lparr>buf := Some bs3\<rparr>)"
        using e(1) ok False bs bs1 bs2 p'(3, 4)
        by (auto simp: print_string_ptr_def Some input_def [symmetric] len [symmetric] Let_def store_at bs1_def [symmetric] bs3_def)
      moreover have "take (length pre + (length tx + 2) + 1) bs3 = pre @ (0x22 # tx @ [0x22]) @ [0]"
      proof -
        have "take (poff p + length tx + 1) bs2 = pre @ [0x22] @ tx" using bs2(3) by (simp add: add.commute add.left_commute)
        then show ?thesis using bs2(2) bs p'(4) by (simp add: bs3_def memcpy_at_def numeral_3_eq_3)
      qed
      ultimately show ?thesis using p' bs bs2(2) rs
        by (auto simp: prints_def pending_def frame_def bs3_def)
    qed
  qed
qed

lemma print_number_ok:
  assumes "pb_ok E p pre" "number_fits E (valuedouble item)"
  shows "prints E pre (render_number E (valuedouble item)) p (print_number E item p)"
proof -
  obtain s where s: "number_text E (valuedouble item) = Some s" "length s \<le> 25"
    using assms(2) by (auto simp: number_fits_def split: option.splits)
  define tx where "tx = render_number E (valuedouble item)"
  have len: "length tx = length s" using s by (simp add: tx_def render_number_def)
  have tx: "map (\<lambda>c. if c = decimal_point E then 0x2E else c) s = tx" by (simp add: tx_def render_number_def s)
  obtain ok p' where e: "ensure E p (length tx) = Some (ok, p')"
    "if ok then pb_ok E p' pre \<and> frame p p' \<and> poff p' = poff p \<and> poff p + length tx + 1 \<le> plen p' else failed p'"
    using ensure_ok [OF assms(1)] by blast
  have "print_number E item p = emit_step E (length tx) (tx @ [0]) (length tx) p"
  proof (cases ok)
    case False
    then show ?thesis using s tx len e(1) by (simp add: print_number_def emit_step_def)
  next
    case True
    then obtain bs where "buf p' = Some bs" "alive p'" "poff p' + length (tx @ [0]) \<le> length bs"
      using e(2) by (auto simp: pb_ok_def split: option.splits)
    then show ?thesis using s tx len e(1) True
      by (simp add: print_number_def emit_step_def store_def memcpy_at_def)
  qed
  then show ?thesis using emit_step_prints [OF assms(1), of tx "length tx" "length tx"] by (simp add: tx_def)
qed

lemma print_literal_ok:
  assumes "pb_ok E p pre" "n = length tx + 1"
  shows "prints E pre tx p (print_literal E n tx p)"
proof -
  have "print_literal E n tx p = emit_step E n (tx @ [0]) 0 p"
    unfolding print_literal_def emit_step_def advance_0 by (rule refl)
  then show ?thesis using emit_step_prints [OF assms(1), of tx n 0] assms(2) by simp
qed


lemma appends_pre: "appends E pre tx p r \<Longrightarrow> length pre = poff p \<Longrightarrow> r \<noteq> None"
  by (auto simp: appends_def split: option.splits)

text \<open>Sequencing: first one text is appended, then, from the state reached, another is appended or printed.\<close>

definition andthen :: "(bool \<times> printbuffer) option \<Rightarrow> (printbuffer \<Rightarrow> (bool \<times> printbuffer) option) \<Rightarrow> (bool \<times> printbuffer) option" where
  "andthen r F = (case r of None \<Rightarrow> None | Some (ok, p) \<Rightarrow> if \<not> ok then Some (False, p) else F p)"

lemma bind_andthen: "(r \<bind> (\<lambda>(ok, p). if \<not> ok then Some (False, p) else F p)) = andthen r F"
  by (auto simp: andthen_def split: option.splits bind_splits)

lemma appendsD:
  assumes "appends E pre tx p r"
  obtains ok p1 where "r = Some (ok, p1)"
    "if ok then pb_ok E p1 (pre @ tx) \<and> frame p p1 \<and> length pre + length tx < plen p1 else failed p1"
    "room E p (poff p + length tx + 2) \<longrightarrow> ok"
  using assms by (auto simp: appends_def split: option.splits)

lemma appends_then:
  assumes "appends E pre tx p r" "length pre = poff p"
    and "\<And>p'. pb_ok E p' (pre @ tx) \<Longrightarrow> frame p p' \<Longrightarrow> poff p' < plen p' \<Longrightarrow> appends E (pre @ tx) tx' p' (F p')"
  shows "appends E pre (tx @ tx') p (andthen r F)"
  using assms(1)
proof (cases rule: appendsD)
  case (1 ok p1)
  show ?thesis
  proof (cases ok)
    case False
    then show ?thesis using 1 room_mono [of E p "poff p + length (tx @ tx') + 2" "poff p + length tx + 2"]
      by (auto simp: appends_def andthen_def)
  next
    case True
    then have p1: "pb_ok E p1 (pre @ tx)" "frame p p1" "poff p1 < plen p1" using 1 pb_ok_length [of E p1 "pre @ tx"] by auto
    have off: "poff p1 = poff p + length tx" using pb_ok_length [OF p1(1)] assms(2) by simp
    from assms(3) [OF p1] show ?thesis
      using True 1(1) off frame_trans [OF p1(2)] room_frame [OF p1(2), of E]
      by (auto simp: appends_def andthen_def add.assoc split: option.splits)
  qed
qed

lemma pending_append: "pending p (pre @ tx) tx' \<Longrightarrow> pending p pre (tx @ tx')"
  by (auto simp: pending_def add.assoc split: option.splits)

lemma prints_then:
  assumes "appends E pre tx p r" "length pre = poff p"
    and "\<And>p'. pb_ok E p' (pre @ tx) \<Longrightarrow> frame p p' \<Longrightarrow> poff p' < plen p' \<Longrightarrow> prints E (pre @ tx) tx' p' (F p')"
  shows "prints E pre (tx @ tx') p (andthen r F)"
  using assms(1)
proof (cases rule: appendsD)
  case (1 ok p1)
  show ?thesis
  proof (cases ok)
    case False
    then show ?thesis using 1 room_mono [of E p "poff p + length (tx @ tx') + 2" "poff p + length tx + 2"]
      by (auto simp: prints_def andthen_def)
  next
    case True
    then have p1: "pb_ok E p1 (pre @ tx)" "frame p p1" "poff p1 < plen p1" using 1 pb_ok_length [of E p1 "pre @ tx"] by auto
    have off: "poff p1 = poff p + length tx" using pb_ok_length [OF p1(1)] assms(2) by simp
    from assms(3) [OF p1] show ?thesis
      using True 1(1) off frame_trans [OF p1(2)] room_frame [OF p1(2), of E]
      by (auto simp: prints_def andthen_def add.assoc intro: pending_append split: option.splits)
  qed
qed

lemma prints_update:
  assumes "prints E pre tx p r" "0 \<notin> set tx"
  shows "appends E pre tx p (andthen r (\<lambda>p. map_option (\<lambda>p. (True, p)) (update_offset p)))"
proof -
  obtain ok p1 where r: "r = Some (ok, p1)" "if ok then pending p1 pre tx \<and> frame p p1 else failed p1"
    "room E p (poff p + length tx + 2) \<longrightarrow> ok"
    using assms(1) by (auto simp: prints_def split: option.splits)
  show ?thesis
  proof (cases ok)
    case False
    then show ?thesis using r by (auto simp: appends_def andthen_def)
  next
    case True
    then show ?thesis using r update_offset_ok [OF _ assms(2), of p1 pre E] frame_trans [of p p1]
      by (fastforce simp: appends_def andthen_def)
  qed
qed

lemma andthen_update:
  "andthen r (\<lambda>p. update_offset p \<bind> F) = andthen (andthen r (\<lambda>p. map_option (\<lambda>p. (True, p)) (update_offset p))) F"
  by (auto simp: andthen_def split: option.splits bind_splits)


subsection \<open>The pieces of arrays and objects\<close>

lemma ensure_then_eq:
  assumes "\<And>p'. frame p p' \<Longrightarrow> poff p' = poff p \<Longrightarrow> F p' = G p'"
  shows "andthen (ensure E p n) F = andthen (ensure E p n) G"
  using assms ensure_frame [of E p n] by (auto simp: andthen_def split: option.splits)

lemma emit_step_andthen:
  "emit_step E n xs k p = andthen (ensure E p n) (\<lambda>p. store (poff p) xs p \<bind> (\<lambda>p. Some (True, advance k p)))"
  unfolding emit_step_def bind_andthen by (rule refl)

lemma emit_step_0:
  "emit_step E n xs 0 p = andthen (ensure E p n) (\<lambda>p. store (poff p) xs p \<bind> (\<lambda>p. Some (True, p)))"
  unfolding emit_step_andthen advance_0 by (rule refl)

lemma store_format: "store i xs p = Some p' \<Longrightarrow> pformat p' = pformat p \<and> pdepth p' = pdepth p"
  by (auto simp: store_def split: option.splits if_splits)

lemma separator_eq:
  "print_separator E p = emit_step E ((if pformat p then 2 else 1) + 1) (if pformat p then [0x2C, 0x20, 0] else [0x2C, 0])
     (if pformat p then 2 else 1) p"
  unfolding print_separator_def Let_def bind_andthen emit_step_andthen by (rule ensure_then_eq) (simp add: frame_def)

lemma open_array_eq: "print_open_array E p = emit_step E 1 [0x5B] 1 p"
  unfolding print_open_array_def bind_andthen emit_step_andthen by (rule refl)

lemma close_array_eq: "print_close_array E p = emit_step E 2 ([0x5D] @ [0]) 0 p"
  unfolding print_close_array_def bind_andthen emit_step_0 by simp

lemma indent_eq:
  "print_indent E p = (if pformat p then emit_step E (pdepth p) (replicate (pdepth p) 0x09) (pdepth p) p else Some (True, p))"
  unfolding print_indent_def bind_andthen emit_step_andthen
  by (auto intro!: ensure_then_eq Option.bind_cong dest: store_format simp: frame_def)

lemma colon_eq:
  "print_colon E p = emit_step E (if pformat p then 2 else 1) (if pformat p then [0x3A, 0x09] else [0x3A]) (if pformat p then 2 else 1) p"
  unfolding print_colon_def Let_def bind_andthen emit_step_andthen by (rule ensure_then_eq) (simp add: frame_def)

lemma comma_eq:
  "print_comma E h p = (let tx = (if h then [0x2C] else []) @ (if pformat p then [0x0A] else [])
     in emit_step E (length tx + 1) (tx @ [0]) (length tx) p)"
  unfolding print_comma_def Let_def bind_andthen emit_step_andthen by (rule ensure_then_eq) simp

lemma open_object_eq:
  "print_open_object E p = emit_step E ((if pformat p then 2 else 1) + 1) (if pformat p then [0x7B, 0x0A] else [0x7B])
     (if pformat p then 2 else 1) p"
  unfolding print_open_object_def Let_def bind_andthen emit_step_andthen by (rule ensure_then_eq) (simp add: frame_def)

lemma close_object_eq:
  "print_close_object E p = emit_step E (if pformat p then pdepth p + 1 else 2)
     (((if pformat p then replicate (pdepth p - 1) 0x09 else []) @ [0x7D]) @ [0]) 0 p"
  unfolding print_close_object_def bind_andthen emit_step_0 by (rule ensure_then_eq) (simp add: frame_def)

lemma separator_ok: "pb_ok E p pre \<Longrightarrow> appends E pre (if pformat p then [0x2C, 0x20] else [0x2C]) p (print_separator E p)"
  using emit_step_appends [of E p pre "if pformat p then [0x2C, 0x20, 0] else [0x2C, 0]" "(if pformat p then 2 else 1) + 1" "if pformat p then 2 else 1"]
  unfolding separator_eq by (cases "pformat p") simp_all

lemma open_array_ok: "pb_ok E p pre \<Longrightarrow> appends E pre [0x5B] p (print_open_array E p)"
  using emit_step_appends [of E p pre "[0x5B]" 1 1] unfolding open_array_eq by simp

lemma close_array_ok: "pb_ok E p pre \<Longrightarrow> prints E pre [0x5D] p (print_close_array E p)"
  using emit_step_prints [of E p pre "[0x5D]" 2 0] unfolding close_array_eq by simp

lemma indent_ok:
  assumes "pb_ok E p pre" "poff p < plen p"
  shows "appends E pre (if pformat p then replicate (pdepth p) 0x09 else []) p (print_indent E p)"
  using emit_step_appends [of E p pre "replicate (pdepth p) 0x09" "pdepth p" "pdepth p"] assms pb_ok_length [OF assms(1)]
  unfolding indent_eq by (cases "pformat p") (simp_all add: appends_def)

lemma colon_ok: "pb_ok E p pre \<Longrightarrow> appends E pre (if pformat p then [0x3A, 0x09] else [0x3A]) p (print_colon E p)"
  using emit_step_appends [of E p pre "if pformat p then [0x3A, 0x09] else [0x3A]" "if pformat p then 2 else 1" "if pformat p then 2 else 1"]
  unfolding colon_eq by (cases "pformat p") simp_all

lemma comma_ok:
  assumes "pb_ok E p pre"
  shows "appends E pre ((if h then [0x2C] else []) @ (if pformat p then [0x0A] else [])) p (print_comma E h p)"
proof -
  define tx where "tx = (if h then [0x2C] else []) @ (if pformat p then [0x0A] else [] :: byte list)"
  have "appends E pre (take (length tx) (tx @ [0])) p (emit_step E (length tx + 1) (tx @ [0]) (length tx) p)"
    by (rule emit_step_appends [OF assms]) simp_all
  then show ?thesis unfolding comma_eq Let_def tx_def [symmetric] by simp
qed

lemma open_object_ok: "pb_ok E p pre \<Longrightarrow> appends E pre (if pformat p then [0x7B, 0x0A] else [0x7B]) p (print_open_object E p)"
  using emit_step_appends [of E p pre "if pformat p then [0x7B, 0x0A] else [0x7B]" "(if pformat p then 2 else 1) + 1" "if pformat p then 2 else 1"]
  unfolding open_object_eq by (cases "pformat p") simp_all

lemma close_object_ok:
  assumes "pb_ok E p pre" "pdepth p = Suc d"
  shows "prints E pre ((if pformat p then replicate d 0x09 else []) @ [0x7D]) p (print_close_object E p)"
proof -
  define tx where "tx = (if pformat p then replicate d 0x09 else []) @ [0x7D :: byte]"
  have "prints E pre tx p (emit_step E (if pformat p then pdepth p + 1 else 2) (tx @ [0]) 0 p)"
    using assms(2) by (intro emit_step_prints [OF assms(1)]) (simp_all add: tx_def)
  then show ?thesis unfolding close_object_eq by (simp add: assms(2) tx_def cong: if_cong)
qed


subsection \<open>Lists of elements and members\<close>

lemma join_elements_Cons:
  "join_elements fmt (t # ts) = t @ (if ts = [] then [] else (if fmt then [0x2C, 0x20] else [0x2C]) @ join_elements fmt ts)"
  by (cases ts) simp_all

lemma appends_nil: "pb_ok E p pre \<Longrightarrow> poff p < plen p \<Longrightarrow> appends E pre [] p (Some (True, p))"
  by (simp add: appends_def pb_ok_length)

definition value_printer :: "'d env \<Rightarrow> ('d cJSON \<Rightarrow> byte list) \<Rightarrow> bool \<Rightarrow> nat \<Rightarrow> 'd printer \<Rightarrow> 'd cJSON \<Rightarrow> bool" where
  "value_printer E text_of fmt d pv x \<longleftrightarrow>
     0 \<notin> set (text_of x) \<and>
     (\<forall>p pre. pb_ok E p pre \<and> pformat p = fmt \<and> pdepth p = d \<longrightarrow> prints E pre (text_of x) p (pv x p))"

lemma print_elements_ok:
  assumes "\<And>x. x \<in> set xs \<Longrightarrow> value_printer E text_of fmt d pv x"
    and "pb_ok E p pre" "poff p < plen p" "pformat p = fmt" "pdepth p = d"
  shows "appends E pre (join_elements fmt (map text_of xs)) p (print_elements E pv xs p)"
  using assms
proof (induction xs arbitrary: p pre)
  case Nil
  then show ?case by (simp add: appends_nil)
next
  case (Cons x xs)
  have x: "value_printer E text_of fmt d pv x" using Cons.prems by simp
  have "prints E pre (text_of x) p (pv x p)" "0 \<notin> set (text_of x)" using x Cons.prems by (auto simp: value_printer_def)
  from prints_update [OF this] have upd: "appends E pre (text_of x) p
    (andthen (pv x p) (\<lambda>p. map_option (\<lambda>p. (True, p)) (update_offset p)))" .
  let ?sep = "if fmt then [0x2C, 0x20] else [0x2C] :: byte list"
  have step: "print_elements E pv (x # xs) p =
    andthen (andthen (pv x p) (\<lambda>p. map_option (\<lambda>p. (True, p)) (update_offset p)))
      (\<lambda>p. if xs = [] then Some (True, p) else andthen (print_separator E p) (print_elements E pv xs))"
    unfolding print_elements.simps bind_andthen andthen_update by (rule refl)
  have rest: "appends E (pre @ text_of x) (if xs = [] then [] else ?sep @ join_elements fmt (map text_of xs)) p'
      (if xs = [] then Some (True, p') else andthen (print_separator E p') (print_elements E pv xs))"
    if p': "pb_ok E p' (pre @ text_of x)" "frame p p'" "poff p' < plen p'" for p'
  proof (cases "xs = []")
    case True
    then show ?thesis using p' by (simp add: appends_nil)
  next
    case False
    have fmt: "pformat p' = fmt" "pdepth p' = d" using p'(2) Cons.prems by (auto simp: frame_def)
    have "appends E (pre @ text_of x) (?sep @ join_elements fmt (map text_of xs)) p' (andthen (print_separator E p') (print_elements E pv xs))"
    proof (rule appends_then)
      show "appends E (pre @ text_of x) ?sep p' (print_separator E p')" using separator_ok [OF p'(1)] fmt by simp
      show "length (pre @ text_of x) = poff p'" by (rule pb_ok_length [OF p'(1)])
      show "appends E ((pre @ text_of x) @ ?sep) (join_elements fmt (map text_of xs)) q (print_elements E pv xs q)"
        if "pb_ok E q ((pre @ text_of x) @ ?sep)" "frame p' q" "poff q < plen q" for q
        using that fmt Cons.prems(1) by (intro Cons.IH) (auto simp: frame_def)
    qed
    then show ?thesis using False by simp
  qed
  have "appends E pre (text_of x @ (if xs = [] then [] else ?sep @ join_elements fmt (map text_of xs))) p (print_elements E pv (x # xs) p)"
    unfolding step using upd pb_ok_length [OF Cons.prems(2)] rest by (intro appends_then) auto
  then show ?case unfolding list.map join_elements_Cons by simp
qed

abbreviation updated :: "(bool \<times> printbuffer) option \<Rightarrow> (bool \<times> printbuffer) option" where
  "updated r \<equiv> andthen r (\<lambda>p. map_option (\<lambda>p. (True, p)) (update_offset p))"

lemma andthen_assoc: "andthen (andthen r F) G = andthen r (\<lambda>p. andthen (F p) G)"
  by (auto simp: andthen_def split: option.splits)

definition print_key :: "'d env \<Rightarrow> byte list option \<Rightarrow> printbuffer \<Rightarrow> (bool \<times> printbuffer) option" where
  "print_key E key p = andthen (print_indent E p) (\<lambda>p. andthen (updated (print_string_ptr E key p)) (print_colon E))"

lemma print_key_ok:
  assumes p: "pb_ok E p pre" "poff p < plen p" "pformat p = fmt" "pdepth p = d"
  shows "appends E pre ((if fmt then replicate d 0x09 else []) @ render_string key @ (if fmt then [0x3A, 0x09] else [0x3A])) p
    (print_key E key p)"
  unfolding print_key_def
proof (intro appends_then)
  show "appends E pre (if fmt then replicate d 0x09 else []) p (print_indent E p)"
    using indent_ok [OF p(1, 2)] unfolding p(3, 4) .
  show "length pre = poff p" by (rule pb_ok_length [OF p(1)])
  fix p1 assume p1: "pb_ok E p1 (pre @ (if fmt then replicate d 0x09 else []))" "frame p p1"
  show "appends E (pre @ (if fmt then replicate d 0x09 else [])) (render_string key) p1 (updated (print_string_ptr E key p1))"
    by (rule prints_update [OF print_string_ptr_ok [OF p1(1)] render_string_nonzero])
  show "length (pre @ (if fmt then replicate d 0x09 else [])) = poff p1" by (rule pb_ok_length [OF p1(1)])
  fix p2 assume p2: "pb_ok E p2 ((pre @ (if fmt then replicate d 0x09 else [])) @ render_string key)" "frame p1 p2"
  have "pformat p2 = fmt" using p1(2) p2(2) p(3) by (simp add: frame_def)
  with colon_ok [OF p2(1)] show "appends E ((pre @ (if fmt then replicate d 0x09 else [])) @ render_string key)
      (if fmt then [0x3A, 0x09] else [0x3A]) p2 (print_colon E p2)" by (simp cong: if_cong)
qed

lemma print_members_step:
  "print_members E pv (x # xs) p = andthen (print_key E (name x) p) (\<lambda>p. andthen (updated (pv x p)) (\<lambda>p.
        andthen (print_comma E (xs \<noteq> []) p) (print_members E pv xs)))"
  unfolding print_members.simps bind_andthen andthen_update print_key_def andthen_assoc by (rule refl)

lemma print_members_ok:
  assumes "\<And>x. x \<in> set xs \<Longrightarrow> value_printer E text_of fmt d pv x"
    and "pb_ok E p pre" "poff p < plen p" "pformat p = fmt" "pdepth p = d"
  shows "appends E pre (join_members fmt d (map (\<lambda>x. (name x, text_of x)) xs)) p (print_members E pv xs p)"
  using assms
proof (induction xs arbitrary: p pre)
  case Nil
  then show ?case by (simp add: appends_nil)
next
  case (Cons x xs)
  let ?key = "(if fmt then replicate d 0x09 else []) @ render_string (name x) @ (if fmt then [0x3A, 0x09] else [0x3A])"
  let ?sep = "(if xs \<noteq> [] then [0x2C] else []) @ (if fmt then [0x0A] else [] :: byte list)"
  let ?ms = "join_members fmt d (map (\<lambda>x. (name x, text_of x)) xs)"
  have fr: "pformat q = fmt \<and> pdepth q = d" if "frame p q" for q using that Cons.prems by (auto simp: frame_def)
  have "appends E pre (?key @ text_of x @ ?sep @ ?ms) p (print_members E pv (x # xs) p)"
    unfolding print_members_step
  proof (intro appends_then)
    show "appends E pre ?key p (print_key E (name x) p)" by (rule print_key_ok [OF Cons.prems(2-5)])
    show "length pre = poff p" by (rule pb_ok_length [OF Cons.prems(2)])
    fix p1 assume p1: "pb_ok E p1 (pre @ ?key)" "frame p p1"
    show "appends E (pre @ ?key) (text_of x) p1 (updated (pv x p1))"
      using Cons.prems(1) [of x] p1 fr [OF p1(2)] by (intro prints_update) (auto simp: value_printer_def)
    show "length (pre @ ?key) = poff p1" by (rule pb_ok_length [OF p1(1)])
    fix p2 assume p2: "pb_ok E p2 ((pre @ ?key) @ text_of x)" "frame p1 p2"
    show "appends E ((pre @ ?key) @ text_of x) ?sep p2 (print_comma E (xs \<noteq> []) p2)"
      using comma_ok [OF p2(1)] fr [OF frame_trans [OF p1(2) p2(2)]] by simp
    show "length ((pre @ ?key) @ text_of x) = poff p2" by (rule pb_ok_length [OF p2(1)])
    fix p3 assume p3: "pb_ok E p3 (((pre @ ?key) @ text_of x) @ ?sep)" "frame p2 p3" "poff p3 < plen p3"
    then show "appends E (((pre @ ?key) @ text_of x) @ ?sep) ?ms p3 (print_members E pv xs p3)"
      using fr [OF frame_trans [OF frame_trans [OF p1(2) p2(2)] p3(2)]] Cons.prems(1) by (intro Cons.IH) auto
  qed
  then show ?case by simp
qed

subsection \<open>Arrays, objects and values\<close>

lemma prints_depth:
  assumes "prints E pre tx (p\<lparr>pdepth := Suc (pdepth p)\<rparr>) r"
  shows "prints E pre tx p (andthen r (\<lambda>p. Some (True, p\<lparr>pdepth := pdepth p - 1\<rparr>)))"
  using assms by (auto simp: prints_def andthen_def pending_def frame_def room_def split: option.splits if_splits)

lemma pb_ok_depth [simp]: "pb_ok E (p\<lparr>pdepth := d\<rparr>) pre = pb_ok E p pre"
  by (simp add: pb_ok_def split: option.split)

lemma prints_bracket:
  assumes "pb_ok E p pre" "appends E pre t1 p r1"
    and mid: "\<And>p'. pb_ok E p' (pre @ t1) \<Longrightarrow> frame p p' \<Longrightarrow> poff p' < plen p' \<Longrightarrow>
      appends E (pre @ t1) t2 (p'\<lparr>pdepth := Suc (pdepth p')\<rparr>) (M (p'\<lparr>pdepth := Suc (pdepth p')\<rparr>))"
    and close: "\<And>p' pre'. pb_ok E p' pre' \<Longrightarrow> pdepth p' = Suc (pdepth p) \<Longrightarrow> pformat p' = pformat p \<Longrightarrow> prints E pre' t3 p' (C p')"
  shows "prints E pre (t1 @ t2 @ t3) p
    (andthen r1 (\<lambda>p. andthen (andthen (M (p\<lparr>pdepth := Suc (pdepth p)\<rparr>)) C) (\<lambda>p. Some (True, p\<lparr>pdepth := pdepth p - 1\<rparr>))))"
proof (rule prints_then [OF assms(2) pb_ok_length [OF assms(1)]])
  fix p' assume p': "pb_ok E p' (pre @ t1)" "frame p p'" "poff p' < plen p'"
  show "prints E (pre @ t1) (t2 @ t3) p' (andthen (andthen (M (p'\<lparr>pdepth := Suc (pdepth p')\<rparr>)) C) (\<lambda>p. Some (True, p\<lparr>pdepth := pdepth p - 1\<rparr>)))"
  proof (rule prints_depth, rule prints_then [OF mid [OF p']])
    show "length (pre @ t1) = poff (p'\<lparr>pdepth := Suc (pdepth p')\<rparr>)" using pb_ok_length [OF p'(1)] by simp
    fix q assume q: "pb_ok E q ((pre @ t1) @ t2)" "frame (p'\<lparr>pdepth := Suc (pdepth p')\<rparr>) q"
    show "prints E ((pre @ t1) @ t2) t3 q (C q)" using q p'(2) by (intro close [OF q(1)]) (auto simp: frame_def)
  qed
qed

lemma print_array_ok:
  assumes "pb_ok E p pre" "\<And>x. x \<in> set (child item) \<Longrightarrow> value_printer E text_of (pformat p) (Suc (pdepth p)) pv x"
  shows "prints E pre ([0x5B] @ join_elements (pformat p) (map text_of (child item)) @ [0x5D]) p (print_array E pv item p)"
proof -
  have eq: "print_array E pv item p = andthen (print_open_array E p) (\<lambda>p.
    andthen (andthen (print_elements E pv (child item) (p\<lparr>pdepth := Suc (pdepth p)\<rparr>)) (print_close_array E))
      (\<lambda>p. Some (True, p\<lparr>pdepth := pdepth p - 1\<rparr>)))"
    unfolding print_array_def bind_andthen andthen_assoc by (rule refl)
  show ?thesis unfolding eq
    using assms
    by (intro prints_bracket open_array_ok close_array_ok print_elements_ok) (auto simp: frame_def)
qed

lemma print_object_ok:
  assumes "pb_ok E p pre" "\<And>x. x \<in> set (child item) \<Longrightarrow> value_printer E text_of (pformat p) (Suc (pdepth p)) pv x"
  shows "prints E pre ((if pformat p then [0x7B, 0x0A] else [0x7B])
      @ join_members (pformat p) (Suc (pdepth p)) (map (\<lambda>x. (name x, text_of x)) (child item))
      @ (if pformat p then replicate (pdepth p) 0x09 else []) @ [0x7D]) p (print_object E pv item p)"
proof -
  have eq: "print_object E pv item p = andthen (print_open_object E p) (\<lambda>p.
    andthen (andthen (print_members E pv (child item) (p\<lparr>pdepth := Suc (pdepth p)\<rparr>)) (print_close_object E))
      (\<lambda>p. Some (True, p\<lparr>pdepth := pdepth p - 1\<rparr>)))"
    unfolding print_object_def bind_andthen andthen_assoc by (rule refl)
  have close: "prints E pre' ((if pformat p then replicate (pdepth p) 0x09 else []) @ [0x7D]) p' (print_close_object E p')"
    if "pb_ok E p' pre'" "pdepth p' = Suc (pdepth p)" "pformat p' = pformat p" for p' pre'
    using close_object_ok [OF that(1, 2)] unfolding that(3) .
  show ?thesis unfolding eq
    using assms
    by (intro prints_bracket open_object_ok close print_members_ok) (auto simp: frame_def)
qed

lemma join_elements_nonzero: "(\<And>t. t \<in> set ts \<Longrightarrow> 0 \<notin> set t) \<Longrightarrow> 0 \<notin> set (join_elements fmt ts)"
  by (induction fmt ts rule: join_elements.induct) auto

lemma join_members_nonzero: "\<forall>m\<in>set ms. 0 \<notin> set (snd m) \<Longrightarrow> 0 \<notin> set (join_members fmt d ms)"
  by (induction fmt d ms rule: join_members.induct) (auto simp: render_string_nonzero)

lemma printable_cases:
  assumes "printable E (CJSON t vs vi vd nm ch)"
  obtains (null) "t AND 0xFF = cJSON_NULL" | (false) "t AND 0xFF = cJSON_False" | (true) "t AND 0xFF = cJSON_True"
  | (str) "t AND 0xFF = cJSON_String" | (num) "t AND 0xFF = cJSON_Number" "number_fits E vd"
  | (raw) s where "t AND 0xFF = cJSON_Raw" "vs = Some s"
  | (arr) "t AND 0xFF = cJSON_Array" "\<And>c. c \<in> set ch \<Longrightarrow> printable E c"
  | (obj) "t AND 0xFF = cJSON_Object" "\<And>c. c \<in> set ch \<Longrightarrow> printable E c"
  using assms by (auto simp: Let_def)

lemmas render_unfold = render.simps Let_def cJSON_types

lemma render_nonzero: "printable E item \<Longrightarrow> 0 \<notin> set (render E fmt d item)"
proof (induction item arbitrary: d)
  case (CJSON t vs vi vd nm ch)
  show ?case
    using CJSON.prems
  proof (cases rule: printable_cases)
    case num
    then have "0 \<notin> set (render_number E vd)"
      by (auto simp: number_fits_def render_number_def split: option.splits if_splits)
    then show ?thesis using num by (simp add: render_unfold)
  next
    case (raw s)
    then show ?thesis by (auto simp: render_unfold dest: set_takeWhileD)
  next
    case arr
    then have "0 \<notin> set (join_elements fmt (map (render E fmt (Suc d)) ch))"
      using CJSON.IH by (intro join_elements_nonzero) auto
    then show ?thesis using arr(1) by (simp add: render_unfold)
  next
    case obj
    then have "0 \<notin> set (join_members fmt (Suc d) (map (\<lambda>c. (name c, render E fmt (Suc d) c)) ch))"
      using CJSON.IH by (intro join_members_nonzero) auto
    then show ?thesis using obj(1) by (simp add: render_unfold)
  qed (simp_all add: render_unfold render_string_nonzero)
qed

lemma print_value_ok:
  "printable E item \<Longrightarrow> value_printer E (render E fmt d) fmt d (print_value E) item"
proof (induction item arbitrary: d)
  case (CJSON t vs vi vd nm ch)
  let ?item = "CJSON t vs vi vd nm ch"
  have "prints E pre (render E fmt d ?item) p (print_value E ?item p)"
    if p: "pb_ok E p pre" "pformat p = fmt" "pdepth p = d" for p pre
    using CJSON.prems
  proof (cases rule: printable_cases)
    case num
    then show ?thesis using print_number_ok [OF p(1), of ?item]
      by (simp add: render_unfold print_value.simps [of E ?item p])
  next
    case (raw s)
    then show ?thesis unfolding print_value.simps [of E ?item p]
      using print_literal_ok [OF p(1), of _ "takeWhile (\<lambda>c. c \<noteq> 0) s"] by (simp add: render_unfold)
  next
    case arr
    then show ?thesis using print_array_ok [OF p(1), of ?item "render E fmt (Suc d)" "print_value E"] CJSON.IH p(2, 3)
      by (simp add: render_unfold print_value.simps [of E ?item p])
  next
    case obj
    then show ?thesis using print_object_ok [OF p(1), of ?item "render E fmt (Suc d)" "print_value E"] CJSON.IH p(2, 3)
      by (simp add: render_unfold print_value.simps [of E ?item p] cong: if_cong)
  next
    case str
    then show ?thesis using print_string_ptr_ok [OF p(1)]
      by (simp add: render_unfold print_value.simps [of E ?item p])
  qed (simp_all add: render_unfold print_value.simps [of E ?item p] print_literal_ok [OF p(1)])
  then show ?case using render_nonzero [OF CJSON.prems] by (simp add: value_printer_def)
qed


section \<open>Properties of the entry points\<close>

lemma prints_result:
  assumes "printable E item" "pb_ok E p []" "pformat p = fmt" "pdepth p = 0"
  obtains (fail) p' where "print_value E item p = Some (False, p')" "failed p'" "\<not> room E p (length (render E fmt 0 item) + 2)"
  | (ok) p' where "print_value E item p = Some (True, p')" "pending p' [] (render E fmt 0 item)" "frame p p'"
proof -
  have "prints E [] (render E fmt 0 item) p (print_value E item p)" "poff p = 0"
    using print_value_ok [OF assms(1), of fmt 0] assms pb_ok_length [OF assms(2)] by (auto simp: value_printer_def)
  then show ?thesis using that by (auto simp: prints_def split: option.splits if_splits)
qed

definition start_buffer :: "byte list \<Rightarrow> nat \<Rightarrow> bool \<Rightarrow> bool \<Rightarrow> nat \<Rightarrow> printbuffer" where
  "start_buffer bs n na fmt k = \<lparr>buf = Some bs, plen = n, poff = 0, pdepth = 0, noalloc = na, pformat = fmt, alive = True, pnalloc = k\<rparr>"

lemma start_buffer_ok: "n \<le> length bs \<Longrightarrow> na \<or> has_realloc E \<or> bs \<noteq> [] \<Longrightarrow> pb_ok E (start_buffer bs n na fmt k) []"
  by (auto simp: pb_ok_def start_buffer_def)

lemma pending_block:
  assumes "pending p [] tx" "0 \<notin> set tx"
  obtains bs where "update_offset p = Some (p\<lparr>poff := length tx\<rparr>)" "buf p = Some bs" "alive p" "length tx < plen p" "plen p \<le> length bs"
    "take (length tx + 1) bs = tx @ [0]"
  using update_offset_ok [OF assms] assms(1) by (auto simp: pending_def split: option.splits)

lemma print_unfold:
  assumes "alloc_ok E k"
  shows "print E k item fmt =
    (case print_value E item (start_buffer (fresh_mem E 256) 0 False fmt (Suc k)) of
       None \<Rightarrow> None
     | Some (ok, p) \<Rightarrow>
         if \<not> ok then print_fail p
         else do {
           p \<leftarrow> update_offset p;
           bs \<leftarrow> buf p;
           if has_realloc E
           then if alloc_ok E (pnalloc p)
                then Some (Some (take (plen p) bs @ drop (length bs) (fresh_mem E (plen p))))
                else Some None
           else
             (case hooks_allocate E (pnalloc p) (poff p + 1) of
                None \<Rightarrow> print_fail p
              | Some printed \<Rightarrow>
                  if alive p \<and> min (plen p) (poff p + 1) \<le> length bs
                  then Some (Some ((memcpy_at 0 (take (min (plen p) (poff p + 1)) bs) printed)[poff p := 0]))
                  else None)
         })"
  using assms by (auto simp: print_def hooks_allocate_def start_buffer_def split: option.split)

lemma print_eq:
  assumes "printable E item"
  shows "\<exists>r. print E k item fmt = Some r \<and>
    (case r of
       None \<Rightarrow> \<not> (\<forall>k. alloc_ok E k) \<or> length (render E fmt 0 item) + 2 > INT_MAXn
     | Some block \<Rightarrow> take (length (render E fmt 0 item) + 1) block = render E fmt 0 item @ [0])"
proof (cases "alloc_ok E k")
  case False
  then show ?thesis by (auto simp: print_def hooks_allocate_def)
next
  case True
  let ?t = "render E fmt 0 item" and ?p = "start_buffer (fresh_mem E 256) 0 False fmt (Suc k)"
  have ok: "pb_ok E ?p []" by (rule start_buffer_ok) (simp_all add: fresh_mem_def)
  have fd: "pformat ?p = fmt" "pdepth ?p = 0" by (simp_all add: start_buffer_def)
  show ?thesis
  proof (cases rule: prints_result [OF assms ok fd])
    case (1 p')
    then show ?thesis
      by (auto simp: print_unfold [OF True] print_fail_def failed_def free_buffer_def room_def start_buffer_def split: option.split)
  next
    case (2 p')
    obtain bs where bs: "update_offset p' = Some (p'\<lparr>poff := length ?t\<rparr>)" "buf p' = Some bs" "alive p'" "length ?t < plen p'"
      "plen p' \<le> length bs" "take (length ?t + 1) bs = ?t @ [0]"
      using pending_block [OF 2(2) render_nonzero [OF assms]] by blast
    have "min (plen p') (length ?t + 1) = length ?t + 1" using bs(4) by simp
    then show ?thesis
      using 2(1) bs
      by (auto simp: print_unfold [OF True] hooks_allocate_def print_fail_def free_buffer_def memcpy_at_def fresh_mem_def
          split: option.split)
  qed
qed

text \<open>
  C13. \<^verbatim>\<open>print\<close>, behind \<^verbatim>\<open>cJSON_Print\<close> and \<^verbatim>\<open>cJSON_PrintUnformatted\<close>: for a printable tree, with or without
  \<^verbatim>\<open>realloc\<close>, no access leaves the buffers; the result is a block holding exactly the rendering and a
  terminator, and NULL only when an allocation fails or the text exceeds the size of an \<^verbatim>\<open>int\<close>.
\<close>

theorem print_correct:
  assumes "printable E item"
  shows "\<exists>r. print E k item fmt = Some r \<and>
    (case r of
       None \<Rightarrow> \<not> (\<forall>k. alloc_ok E k) \<or> length (render E fmt 0 item) + 2 > INT_MAXn
     | Some block \<Rightarrow> take (length (render E fmt 0 item) + 1) block = render E fmt 0 item @ [0])"
  using assms by (rule print_eq)

definition example_tree :: "int cJSON" where
  "example_tree = CJSON 64 None 0 0 None [CJSON 32 None 0 0 (Some [0x61, 0x0A])
     [CJSON 8 None (-7) (-7) None [], CJSON 2 None 1 0 None []], CJSON 16 (Some [0x01]) 0 0 (Some []) []]"

lemma example_printable: "printable int_env example_tree"
  by code_simp

theorem print_correct_witness:
  "\<exists>r. print int_env 0 example_tree True = Some r \<and>
    (case r of
       None \<Rightarrow> \<not> (\<forall>k. alloc_ok int_env k) \<or> length (render int_env True 0 example_tree) + 2 > INT_MAXn
     | Some block \<Rightarrow> take (length (render int_env True 0 example_tree) + 1) block = render int_env True 0 example_tree @ [0])"
  by (rule print_correct [OF example_printable])

text \<open>
  C14. \<^verbatim>\<open>cJSON_PrintPreallocated\<close>: printing into a caller's buffer of \<open>len\<close> bytes never accesses memory
  outside it; when it reports success the buffer holds exactly the rendering and a terminator, and
  it succeeds whenever the buffer is at least two bytes longer than the rendering.
\<close>

theorem print_preallocated_correct:
  assumes "printable E item" and "int (length bs) = len" and "len \<le> INT_MAX"
  shows "\<exists>ok b. cJSON_PrintPreallocated E k item (Some bs) len fmt = Some (ok, b) \<and>
    (ok \<longrightarrow> map_option length b = Some (length bs) \<and>
       map_option (take (length (render E fmt 0 item) + 1)) b = Some (render E fmt 0 item @ [0])) \<and>
    (length (render E fmt 0 item) + 2 \<le> length bs \<longrightarrow> ok)"
proof -
  let ?p = "start_buffer bs (length bs) True fmt k"
  have ok: "pb_ok E ?p []" by (rule start_buffer_ok) simp_all
  have fd: "pformat ?p = fmt" "pdepth ?p = 0" by (simp_all add: start_buffer_def)
  have len: "length bs \<le> INT_MAXn" using assms(2, 3) by (simp add: INT_MAX_def INT_MAXn_def)
  have eq: "cJSON_PrintPreallocated E k item (Some bs) len fmt =
    (case print_value E item ?p of None \<Rightarrow> None | Some (ok, p) \<Rightarrow> Some (ok, buf p))"
    using assms(2) by (auto simp: cJSON_PrintPreallocated_def start_buffer_def split: option.split bind_split)
  show ?thesis
  proof (cases rule: prints_result [OF assms(1) ok fd])
    case (1 p')
    then have "\<not> length (render E fmt 0 item) + 2 \<le> length bs" using len by (auto simp: room_def start_buffer_def)
    then show ?thesis using 1 by (auto simp: eq)
  next
    case (2 p')
    obtain bs' where "buf p' = Some bs'" "take (length (render E fmt 0 item) + 1) bs' = render E fmt 0 item @ [0]"
      using pending_block [OF 2(2) render_nonzero [OF assms(1)]] by blast
    then show ?thesis using 2 by (auto simp: eq frame_def start_buffer_def)
  qed
qed

theorem print_preallocated_correct_witness:
  "\<exists>ok b. cJSON_PrintPreallocated int_env 0 example_tree (Some (replicate 64 0)) 64 False = Some (ok, b) \<and>
    (ok \<longrightarrow> map_option length b = Some (length (replicate 64 (0 :: byte))) \<and>
       map_option (take (length (render int_env False 0 example_tree) + 1)) b = Some (render int_env False 0 example_tree @ [0])) \<and>
    (length (render int_env False 0 example_tree) + 2 \<le> length (replicate 64 (0 :: byte)) \<longrightarrow> ok)"
  by (rule print_preallocated_correct [OF example_printable]) (simp_all add: INT_MAX_def)

text \<open>
  C16. A raw item without a string makes the printer release its buffer twice: \<^verbatim>\<open>print_value\<close> frees the
  buffer without forgetting it, and \<^verbatim>\<open>print\<close> and \<^verbatim>\<open>cJSON_PrintBuffered\<close> free it again.
\<close>

theorem print_raw_null_double_free:
  assumes "type_of item AND 0xFF = cJSON_Raw" and "valuestring item = None" and "alloc_ok E k" and "0 \<le> prebuffer"
  shows "print E k item fmt = None \<and> cJSON_PrintBuffered E k item prebuffer fmt = None"
proof -
  have pv: "print_value E item p = Some (False, p\<lparr>alive := False\<rparr>)" if "alive p" "\<not> noalloc p" "buf p = Some bs" for p bs
    using assms(1, 2) that by (simp add: print_value.simps [of E item p] Let_def cJSON_types free_buffer_def)
  have "print E k item fmt = None"
    using pv [of "start_buffer (fresh_mem E 256) 0 False fmt (Suc k)" "fresh_mem E 256"]
    by (simp add: print_unfold [OF assms(3)] start_buffer_def print_fail_def free_buffer_def)
  moreover have "cJSON_PrintBuffered E k item prebuffer fmt = None"
    using pv assms(3, 4) by (simp add: cJSON_PrintBuffered_def hooks_allocate_def free_buffer_def)
  ultimately show ?thesis by blast
qed

theorem print_raw_null_double_free_witness:
  "print int_env 0 (CJSON 128 None 0 0 None []) False = None \<and>
   cJSON_PrintBuffered int_env 0 (CJSON 128 None 0 0 None []) 16 False = None"
  by (rule print_raw_null_double_free) (simp_all add: cJSON_types int_env_def)

text \<open>The buffer that \<^verbatim>\<open>cJSON_PrintBuffered\<close> starts with for the size 0: its first growth reads outside the empty block.\<close>

definition empty_buffer :: "bool \<Rightarrow> nat \<Rightarrow> printbuffer" where
  "empty_buffer fmt k = start_buffer [] 0 False fmt (Suc k)"

lemma ensure_empty:
  "\<not> has_realloc E \<Longrightarrow> \<forall>k. alloc_ok E k \<Longrightarrow> needed + 1 \<le> INT_MAXn \<Longrightarrow> ensure E (empty_buffer fmt k) needed = None"
  by (auto simp: ensure_def empty_buffer_def start_buffer_def regrow_def Let_def)

lemma print_value_empty:
  assumes E: "\<not> has_realloc E" "\<forall>k. alloc_ok E k" and item: "printable E item" and len: "length (render E fmt 0 item) + 2 \<le> INT_MAXn"
  shows "print_value E item (empty_buffer fmt k) = None"
proof (cases item)
  case (CJSON t vs vi vd nm ch)
  note first = ensure_empty [OF E, of _ fmt k]
  have fmt: "pformat (empty_buffer f k) = f" for f by (simp add: empty_buffer_def start_buffer_def)
  have pr: "printable E (CJSON t vs vi vd nm ch)" using item by (simp only: CJSON)
  show ?thesis
    using pr
  proof (cases rule: printable_cases)
    case num
    then obtain s where s: "number_text E vd = Some s" "length s \<le> 25" by (auto simp: number_fits_def split: option.splits)
    then show ?thesis using num first [of "length s"] by (simp add: CJSON print_value.simps Let_def cJSON_types print_number_def INT_MAXn_def)
  next
    case (raw s)
    then show ?thesis using len first [of "length (takeWhile (\<lambda>c. c \<noteq> 0) s) + 1"]
      by (simp add: CJSON print_value.simps render_unfold print_literal_def)
  next
    case arr
    then show ?thesis using first [of 1] by (simp add: CJSON print_value.simps Let_def cJSON_types print_array_def print_open_array_def INT_MAXn_def)
  next
    case obj
    have "ensure E (empty_buffer fmt k) 3 = None" "ensure E (empty_buffer fmt k) (Suc (Suc 0)) = None"
      by (rule first; simp add: INT_MAXn_def)+
    then show ?thesis using obj
      by (cases fmt) (simp_all add: CJSON print_value.simps Let_def cJSON_types print_object_def print_open_object_def fmt)
  next
    case str
    show ?thesis
    proof (cases vs)
      case None
      then show ?thesis using str first [of 3] by (simp add: CJSON print_value.simps Let_def cJSON_types print_string_ptr_def INT_MAXn_def)
    next
      case (Some bytes)
      let ?in = "takeWhile (\<lambda>c. c \<noteq> 0) bytes"
      have "length (render E fmt 0 item) = length ?in + sum_list (map escape_extra ?in) + 2"
        using str Some by (simp add: CJSON render_unfold render_string_def escape_length)
      then show ?thesis using str Some len first [of "length ?in + sum_list (map escape_extra ?in) + 3"]
        by (simp add: CJSON print_value.simps Let_def cJSON_types print_string_ptr_def)
    qed
  qed (use first [of 5] first [of 6] in \<open>simp_all add: CJSON print_value.simps Let_def cJSON_types print_literal_def INT_MAXn_def\<close>)
qed

text \<open>
  C15. For a printable tree \<^verbatim>\<open>cJSON_PrintBuffered\<close> with a positive size (or with \<^verbatim>\<open>realloc\<close> available) is safe and returns
  exactly the rendering, NULL only when an allocation fails or the text is too large. But with the
  size 0, which it accepts, and hooks without \<^verbatim>\<open>realloc\<close>, the first growth of the buffer copies
  one byte from the empty block, whatever the tree, unless an allocation fails or the text is too large.
\<close>

theorem print_buffered_correct:
  assumes "printable E item" and "0 \<le> prebuffer"
  shows "if 0 < prebuffer \<or> has_realloc E
    then \<exists>r. cJSON_PrintBuffered E k item prebuffer fmt = Some r \<and>
      (case r of
         None \<Rightarrow> \<not> (\<forall>k. alloc_ok E k) \<or> length (render E fmt 0 item) + 2 > INT_MAXn
       | Some block \<Rightarrow> take (length (render E fmt 0 item) + 1) block = render E fmt 0 item @ [0])
    else (\<forall>k. alloc_ok E k) \<and> length (render E fmt 0 item) + 2 \<le> INT_MAXn \<longrightarrow> cJSON_PrintBuffered E k item prebuffer fmt = None"
proof (cases "0 < prebuffer \<or> has_realloc E")
  case True
  let ?p = "start_buffer (fresh_mem E (nat prebuffer)) (nat prebuffer) False fmt (Suc k)"
  have ok: "pb_ok E ?p []" using True by (intro start_buffer_ok) (auto simp: fresh_mem_def)
  have fd: "pformat ?p = fmt" "pdepth ?p = 0" by (simp_all add: start_buffer_def)
  have eq: "cJSON_PrintBuffered E k item prebuffer fmt =
    (if alloc_ok E k
     then (case print_value E item ?p of None \<Rightarrow> None | Some (ok, p) \<Rightarrow>
       if \<not> ok then map_option (\<lambda>_. None) (free_buffer p) else Some (buf p))
     else Some None)"
    using assms(2) by (auto simp: cJSON_PrintBuffered_def hooks_allocate_def start_buffer_def split: option.split)
  show ?thesis
  proof (cases rule: prints_result [OF assms(1) ok fd])
    case (1 p')
    then show ?thesis using True
      by (auto simp: eq room_def start_buffer_def failed_def free_buffer_def split: option.split)
  next
    case (2 p')
    obtain bs' where "buf p' = Some bs'" "take (length (render E fmt 0 item) + 1) bs' = render E fmt 0 item @ [0]"
      using pending_block [OF 2(2) render_nonzero [OF assms(1)]] by blast
    then show ?thesis using 2 True by (auto simp: eq)
  qed
next
  case False
  have "cJSON_PrintBuffered E k item prebuffer fmt = None" if len: "(\<forall>k. alloc_ok E k) \<and> length (render E fmt 0 item) + 2 \<le> INT_MAXn"
  proof -
    have "prebuffer = 0" "\<not> has_realloc E" using False assms(2) by auto
    then show ?thesis using print_value_empty [of E item fmt k] assms(1) len
      by (simp add: cJSON_PrintBuffered_def hooks_allocate_def fresh_mem_def empty_buffer_def start_buffer_def)
  qed
  then show ?thesis using False by simp
qed

theorem print_buffered_correct_witness:
  "(\<exists>r. cJSON_PrintBuffered int_env 0 example_tree 5 True = Some r \<and>
      (case r of
         None \<Rightarrow> \<not> (\<forall>k. alloc_ok int_env k) \<or> length (render int_env True 0 example_tree) + 2 > INT_MAXn
       | Some block \<Rightarrow> take (length (render int_env True 0 example_tree) + 1) block = render int_env True 0 example_tree @ [0])) \<and>
   cJSON_PrintBuffered (int_env\<lparr>has_realloc := False\<rparr>) 0 (CJSON 2 None 0 0 None []) 0 True = None"
  using print_buffered_correct [OF example_printable, of 5 0 True]
    print_buffered_correct [of "int_env\<lparr>has_realloc := False\<rparr>" "CJSON 2 None 0 0 None []" 0 0 True]
  by (simp add: cJSON_types INT_MAXn_def int_env_def)

end
