(* ===== verification/CjsonRoundtrip.thy ===== *)
theory CjsonRoundtrip
  imports CjsonParse CjsonPrint
begin

text \<open>
  Printing and parsing are inverse: the parser reads the text the printer writes, formatted or not,
  back to the same tree. The statement is proved over \<open>render\<close>, the text the printer is shown to
  write. A parser \<open>reads\<close> a value if, wherever the value's text stands in the buffer and whatever
  delimiter follows, it fills the item with the value and stops at the end of the text.
\<close>

unbundle bit_operations_syntax

declare render.simps [simp del]

section \<open>Escaped strings\<close>

lemma control_escape:
  assumes "unat c < 0x80" and "length pre + 6 \<le> e"
  shows "utf16_literal_to_utf8 (pre @ [0x5C, 0x75] @ hex4 (unat c) @ post) (length pre) e = Some (6, [c])"
proof -
  have "parse_hex4 (pre @ [0x5C, 0x75] @ hex4 (unat c) @ post) (length pre + 2) = of_nat (unat c)"
    using parse_hex4_at [of "unat c" "pre @ [0x5C, 0x75]" post] assms(1) by simp
  moreover have "unat (of_nat (unat c) :: u32) = unat c" using assms(1) by (intro unat_of_nat_u32) simp
  ultimately have "utf16_literal (pre @ [0x5C, 0x75] @ hex4 (unat c) @ post) (length pre) e = Some (6, of_nat (unat c))"
    using assms unfolding utf16_literal_def by (simp only: Let_def word_le_nat_alt) simp
  then show ?thesis
    using assms \<open>unat (of_nat (unat c) :: u32) = unat c\<close>
    by (simp add: utf16_literal_to_utf8_def encode_codepoint_utf8 utf8_ref_def)
qed

lemma esc_byte_cases:
  obtains (plain) "esc_byte c = [c]" "c \<noteq> 0x22" "c \<noteq> 0x5C"
  | (short) x where "esc_byte c = [0x5C, x]" "x \<noteq> 0x75" "escape_char x = Some c"
  | (hex) "esc_byte c = [0x5C, 0x75] @ hex4 (unat c)" "unat c < 0x20"
proof (cases "c > 31 \<and> c \<noteq> 0x22 \<and> c \<noteq> 0x5C")
  case True
  then show ?thesis by (intro plain) (simp_all add: esc_byte_def)
next
  case False
  show ?thesis
  proof (cases "escape_short c")
    case None
    then have "c \<noteq> 0x22" "c \<noteq> 0x5C" by (auto simp: escape_short_def)
    then have "unat c < 0x20" using False by (auto simp: word_less_nat_alt not_less)
    then show ?thesis using False None by (intro hex) (simp_all add: esc_byte_def)
  next
    case (Some x)
    then have "x \<noteq> 0x75" "escape_char x = Some c"
      by (auto simp: escape_short_def escape_char_def split: if_splits)
    then show ?thesis using False Some by (intro short [of x]) (simp_all add: esc_byte_def)
  qed
qed

lemma hex_char_not: "d < 16 \<Longrightarrow> hex_char d \<noteq> 0x22 \<and> hex_char d \<noteq> 0x5C"
  using hex_digit_hex_char [of d] by (auto simp: hex_digit_def)

lemma hex4_not: "x \<in> set (hex4 n) \<Longrightarrow> x \<noteq> 0x22 \<and> x \<noteq> 0x5C"
  by (auto simp: hex4_def hex_char_not)

lemma scan_plain:
  "\<forall>x\<in>set xs. x \<noteq> 0x22 \<and> x \<noteq> 0x5C \<Longrightarrow> scan_string (pre @ xs @ post) (length pre) k = scan_string (pre @ xs @ post) (length pre + length xs) k"
proof (induction xs arbitrary: pre)
  case (Cons x xs)
  have "scan_string (pre @ (x # xs) @ post) (length pre) k = scan_string ((pre @ [x]) @ xs @ post) (length (pre @ [x])) k"
    using Cons.prems by (subst scan_string.simps) simp
  also have "\<dots> = scan_string ((pre @ [x]) @ xs @ post) (length (pre @ [x]) + length xs) k"
    using Cons.prems by (intro Cons.IH) simp
  finally show ?case by simp
qed simp

definition escaped :: "byte \<Rightarrow> bool" where
  "escaped c = (length (esc_byte c) \<noteq> 1)"

lemma scan_escaped:
  "scan_string (pre @ concat (map esc_byte s) @ 0x22 # post) (length pre) k =
     Some (length pre + length (concat (map esc_byte s)), k + length (filter escaped s))"
proof (induction s arbitrary: pre k)
  case Nil
  show ?case by (subst scan_string.simps) simp
next
  case (Cons c s)
  let ?rest = "concat (map esc_byte s) @ 0x22 # post"
  have IH: "scan_string ((pre @ esc_byte c) @ ?rest) (length (pre @ esc_byte c)) k' =
    Some (length pre + length (esc_byte c) + length (concat (map esc_byte s)), k' + length (filter escaped s))" for k'
    using Cons.IH [of "pre @ esc_byte c" k'] by simp
  show ?case
  proof (cases c rule: esc_byte_cases)
    case plain
    then have "scan_string (pre @ [c] @ ?rest) (length pre) k = scan_string (pre @ [c] @ ?rest) (length pre + 1) k"
      using scan_plain [of "[c]" pre ?rest k] by simp
    then show ?thesis using IH [of k] plain by (simp add: escaped_def [of c])
  next
    case (short x)
    then have "scan_string (pre @ [0x5C, x] @ ?rest) (length pre) k = scan_string (pre @ [0x5C, x] @ ?rest) (length pre + 2) (k + 1)"
      by (subst scan_string.simps) simp
    then show ?thesis using IH [of "k + 1"] short by (simp add: escaped_def [of c])
  next
    case hex
    have "scan_string (pre @ [0x5C, 0x75] @ hex4 (unat c) @ ?rest) (length pre) k =
        scan_string (pre @ [0x5C, 0x75] @ hex4 (unat c) @ ?rest) (length pre + 2) (k + 1)"
      by (subst scan_string.simps) simp
    also have "\<dots> = scan_string ((pre @ [0x5C, 0x75]) @ hex4 (unat c) @ ?rest) (length (pre @ [0x5C, 0x75]) + length (hex4 (unat c))) (k + 1)"
      using scan_plain [of "hex4 (unat c)" "pre @ [0x5C, 0x75]" ?rest "k + 1"] hex4_not by auto
    finally show ?thesis using IH [of "k + 1"] hex by (simp add: escaped_def [of c] ac_simps)
  qed
qed

lemma unescape_escaped:
  assumes "length out + length s \<le> cap" and "e = length pre + length (concat (map esc_byte s))"
  shows "unescape (pre @ concat (map esc_byte s) @ 0x22 # post) e cap (length pre) out = Some (True, e, out @ s)"
  using assms
proof (induction s arbitrary: pre out)
  case Nil
  then show ?case by (subst unescape.simps) simp
next
  case (Cons c s)
  let ?rest = "concat (map esc_byte s) @ 0x22 # post"
  let ?t = "pre @ esc_byte c @ ?rest"
  have IH: "unescape ?t e cap (length pre + length (esc_byte c)) (out @ [c]) = Some (True, e, out @ c # s)"
    using Cons.IH [of "out @ [c]" "pre @ esc_byte c"] Cons.prems by simp
  have em: "emit cap out [c] = Some (out @ [c])" using Cons.prems(1) by (simp add: emit_def)
  have rd: "rd ?t (length pre + i) = Some (esc_byte c ! i)" if "i < length (esc_byte c)" for i
    using that by (simp add: rd_def nth_append)
  have lt: "length pre + length (esc_byte c) \<le> e" using Cons.prems(2) by simp
  have "unescape ?t e cap (length pre) out = Some (True, e, out @ c # s)"
  proof (cases c rule: esc_byte_cases)
    case plain
    then show ?thesis using IH em rd [of 0] lt by (subst unescape.simps) simp
  next
    case (short x)
    then show ?thesis using IH em rd [of 0] rd [of 1] lt by (subst unescape.simps) simp
  next
    case hex
    then have "utf16_literal_to_utf8 ?t (length pre) e = Some (6, [c])"
      using control_escape [of c pre e ?rest] lt by simp
    then show ?thesis using IH em rd [of 0] rd [of 1] lt hex by (subst unescape.simps) simp
  qed
  then show ?case by simp
qed

section \<open>Reading values\<close>

definition all_alloc :: "'d env \<Rightarrow> bool" where
  "all_alloc E \<longleftrightarrow> (\<forall>k. alloc_ok E k)"

definition at :: "parse_buffer \<Rightarrow> byte list \<Rightarrow> byte list \<Rightarrow> bool" where
  "at b pre rest \<longleftrightarrow> content b = pre @ rest \<and> offset b = length pre"

definition moved :: "parse_buffer \<Rightarrow> nat \<Rightarrow> parse_buffer \<Rightarrow> bool" where
  "moved b n b' \<longleftrightarrow> content b' = content b \<and> offset b' = offset b + n \<and> depth b' = depth b"

lemma at_moved: "at b pre (t @ rest) \<Longrightarrow> moved b (length t) b' \<Longrightarrow> at b' (pre @ t) rest"
  by (simp add: at_def moved_def)

lemma moved_trans: "moved b m b' \<Longrightarrow> moved b' n b'' \<Longrightarrow> moved b (m + n) b''"
  by (simp add: moved_def)

lemma at_access: "at b pre (x # rest) \<Longrightarrow> can_access_at_index b 0 \<and> content b ! offset b = x \<and> buffer_at_offset b 0 = Some x"
  by (simp add: at_def can_access_at_index_def buffer_at_offset_def rd_def)

lemma skip_ws_at:
  "\<forall>w\<in>set ws. w \<le> 32 \<Longrightarrow> \<not> x \<le> 32 \<Longrightarrow> skip_ws (pre @ ws @ x # rest) (length pre) = length pre + length ws"
proof (induction ws arbitrary: pre)
  case Nil
  then show ?case by (subst skip_ws.simps) simp
next
  case (Cons w ws)
  have "skip_ws (pre @ (w # ws) @ x # rest) (length pre) = skip_ws ((pre @ [w]) @ ws @ x # rest) (length (pre @ [w]))"
    using Cons.prems by (subst skip_ws.simps) simp
  also have "\<dots> = length (pre @ [w]) + length ws" using Cons.prems by (intro Cons.IH) simp_all
  finally show ?case by simp
qed

lemma skip_at:
  assumes "at b pre (ws @ x # rest)" and "\<forall>w\<in>set ws. w \<le> 32" and "\<not> x \<le> 32"
  obtains b' where "buffer_skip_whitespace b = Some b'" "moved b (length ws) b'" "at b' (pre @ ws) (x # rest)"
proof
  show "buffer_skip_whitespace b = Some (b\<lparr>offset := offset b + length ws\<rparr>)"
    using assms skip_ws_at [OF assms(2,3), of pre rest] by (simp add: buffer_skip_whitespace_def at_def Let_def)
qed (use assms(1) in \<open>simp_all add: moved_def at_def\<close>)

lemma inc_at: "at b pre (x # rest) \<Longrightarrow> at (inc_offset b) (pre @ [x]) rest \<and> moved b 1 (inc_offset b)"
  by (simp add: at_def inc_offset_def moved_def)

lemma allocate_all: "all_alloc E \<Longrightarrow> \<exists>b'. allocate E b = (True, b') \<and> moved b 0 b'"
  by (simp add: allocate_def all_alloc_def moved_def)

lemma at_moved_0: "at b pre rest \<Longrightarrow> moved b 0 b' \<Longrightarrow> at b' pre rest"
  by (simp add: at_def moved_def)

definition with_name :: "byte list option \<Rightarrow> 'd cJSON \<Rightarrow> 'd cJSON" where
  "with_name nm item = (case item of CJSON t vs vi vd _ ch \<Rightarrow> CJSON t vs vi vd nm ch)"

text \<open>A parser reads a tree from its text, at nesting depths up to \<open>m\<close>.\<close>

definition reads :: "'d env \<Rightarrow> nat \<Rightarrow> 'd parser \<Rightarrow> 'd cJSON \<Rightarrow> byte list \<Rightarrow> bool" where
  "reads E m pv t tx \<longleftrightarrow>
     (\<forall>item b pre x rest. fresh E item \<and> name item = name t \<and> at b pre (tx @ x # rest) \<and> \<not> number_char x \<and> depth b \<le> m \<longrightarrow>
        (\<exists>b'. pv item b = Some (True, t, b') \<and> moved b (length tx) b'))"

lemma readsD:
  assumes "reads E m pv t tx" "fresh E item" "name item = name t" "at b pre (tx @ x # rest)" "\<not> number_char x" "depth b \<le> m"
  obtains b' where "pv item b = Some (True, t, b')" "moved b (length tx) b'" "at b' (pre @ tx) (x # rest)"
  using assms at_moved unfolding reads_def by metis

lemma parse_string_at:
  assumes "all_alloc E" and "at b pre (render_string (Some s) @ rest)" and "0 \<notin> set s"
  obtains b' where
    "parse_string E item b = Some (True, (case item of CJSON t vs vi vd nm ch \<Rightarrow> CJSON cJSON_String (Some s) vi vd nm ch), b')"
    "moved b (length (render_string (Some s))) b'"
proof -
  let ?esc = "concat (map esc_byte s)"
  have tw: "takeWhile (\<lambda>c. c \<noteq> 0) s = s" using assms(3) by (auto simp: takeWhile_eq_all_conv)
  have rs: "render_string (Some s) = 0x22 # ?esc @ [0x22]" by (simp only: render_string_def option.case tw)
  obtain b1 where al: "allocate E b = (True, b1)" and b1: "moved b 0 b1" using allocate_all [OF assms(1)] by blast
  have c: "content b = pre @ 0x22 # ?esc @ 0x22 # rest" "offset b = length pre" using assms(2) by (simp_all add: at_def rs)
  have c1: "content b1 = content b" "offset b1 = offset b" "depth b1 = depth b" using b1 by (simp_all add: moved_def)
  have sc: "scan_string (content b) (offset b + 1) 0 = Some (length pre + 1 + length ?esc, length (filter escaped s))"
    using scan_escaped [of "pre @ [0x22]" s rest 0] by (simp add: c)
  have len: "length ?esc = length s + sum_list (map escape_extra s)" by (rule escape_length)
  have "length (filter escaped s) \<le> sum_list (map escape_extra s)"
    by (induction s) (auto simp: escaped_def esc_byte_length)
  then have cap: "length s + 2 \<le> Suc (Suc (length ?esc)) - length (filter escaped s)" using len by simp
  have un: "unescape (content b) (length pre + 1 + length ?esc) (Suc (Suc (length ?esc) - length (filter escaped s))) (offset b + 1) [] =
    Some (True, length pre + 1 + length ?esc, s)"
    using unescape_escaped [of "[]" s "Suc (Suc (length ?esc) - length (filter escaped s))" "length pre + 1 + length ?esc" "pre @ [0x22]" rest] cap
    by (simp add: c)
  show ?thesis
    by (rule that [of "b1\<lparr>offset := length pre + 1 + length ?esc + 1\<rparr>"])
       (use al c c1 sc un cap in \<open>auto simp: parse_string_def Let_def buffer_at_offset_def rd_def emit_def moved_def rs nth_append\<close>)
qed

section \<open>Numbers and brackets\<close>

definition number_reads :: "'d env \<Rightarrow> 'd \<Rightarrow> bool" where
  "number_reads E d \<longleftrightarrow> number_fits E d \<and> render_number E d \<noteq> [] \<and> list_all number_char (render_number E d) \<and>
     (hd (render_number E d) = 0x2D \<or> 0x30 \<le> hd (render_number E d) \<and> hd (render_number E d) \<le> 0x39) \<and>
     strtod E (map (\<lambda>c. if c = 0x2E then decimal_point E else c) (render_number E d)) = (d, length (render_number E d))"

lemma copy_number_at:
  assumes "at b pre (tx @ x # rest)" and "list_all number_char tx" and "\<not> number_char x" and "length tx \<le> 62"
    and "i \<le> length tx" and "s = map (\<lambda>c. if c = 0x2E then dp else c) (take i tx)"
  shows "copy_number dp b i s = map (\<lambda>c. if c = 0x2E then dp else c) tx"
  using assms(5,6)
proof (induction "length tx - i" arbitrary: i s)
  case 0
  then have i: "i = length tx" by simp
  then have "content b ! (offset b + i) = x" using assms(1) by (simp add: at_def)
  then show ?case using assms(3) 0 i by (subst copy_number.simps) (simp add: Let_def)
next
  case (Suc n)
  then have lt: "i < length tx" by simp
  then have c: "content b ! (offset b + i) = tx ! i" "can_access_at_index b i"
    using assms(1) by (simp_all add: at_def nth_append can_access_at_index_def)
  have "copy_number dp b i s = copy_number dp b (Suc i) (s @ [if tx ! i = 0x2E then dp else tx ! i])"
    using lt c assms(2,4) by (subst copy_number.simps) (auto simp: Let_def list_all_length)
  also have "\<dots> = map (\<lambda>c. if c = 0x2E then dp else c) tx"
    using Suc lt by (intro Suc.hyps(1)) (simp_all add: take_Suc_conv_app_nth)
  finally show ?case .
qed

lemma parse_number_at:
  assumes "number_reads E d" and "at b pre (render_number E d @ x # rest)" and "\<not> number_char x"
  shows "parse_number E item b =
    (True, (case item of CJSON t vs vi vd nm ch \<Rightarrow> CJSON cJSON_Number vs (number_to_int E d) d nm ch),
     b\<lparr>offset := offset b + length (render_number E d)\<rparr>)"
proof -
  have "length (render_number E d) \<le> 62"
    using assms(1) by (auto simp: number_reads_def number_fits_def render_number_def split: option.splits)
  then have "copy_number (decimal_point E) b 0 [] = map (\<lambda>c. if c = 0x2E then decimal_point E else c) (render_number E d)"
    using assms by (intro copy_number_at) (auto simp: number_reads_def)
  then show ?thesis using assms(1) by (simp add: parse_number_def number_reads_def)
qed

lemma bracketed_at:
  assumes b: "at b pre (opn # W @ body @ close # rest)" and W: "\<forall>w\<in>set W. w \<le> 32" and close: "\<not> close \<le> 32"
    and empty: "body = [] \<Longrightarrow> ts = []" and first: "body \<noteq> [] \<Longrightarrow> \<not> hd body \<le> 32 \<and> hd body \<noteq> close"
    and elems: "\<And>b' pre' c. body \<noteq> [] \<Longrightarrow> at b' pre' (c # body @ close # rest) \<Longrightarrow> depth b' = depth b \<Longrightarrow> content b' = content b \<Longrightarrow>
      \<exists>b''. elems b' = Some (True, ts, b'') \<and> moved b' (Suc (length body)) b''"
  obtains b' where "bracketed t close elems item b = Some (True, set_children t ts item, b')" "content b' = content b"
    "offset b' = offset b + length W + length body + 2" "depth b' = depth b - 1"
proof (cases "body = []")
  case True
  obtain b1 where b1: "buffer_skip_whitespace (inc_offset b) = Some b1" "moved (inc_offset b) (length W) b1" "at b1 ((pre @ [opn]) @ W) (close # rest)"
    using skip_at [of "inc_offset b" "pre @ [opn]" W close rest] inc_at [OF b] True W close by auto
  have ok: "bracketed t close elems item b = Some (True, set_children t ts item, inc_offset (b1\<lparr>depth := depth b1 - 1\<rparr>))"
    using b1(1) at_access [OF b1(3)] empty True by (simp add: bracketed_def)
  show ?thesis
    by (rule that [OF ok]) (use b1(2) True in \<open>simp_all add: moved_def inc_offset_def\<close>)
next
  case False
  then obtain x body' where x: "body = x # body'" "\<not> x \<le> 32" "x \<noteq> close" using first by (cases body) auto
  obtain b1 where b1: "buffer_skip_whitespace (inc_offset b) = Some b1" "moved (inc_offset b) (length W) b1"
    "at b1 ((pre @ [opn]) @ W) (x # body' @ close # rest)"
    using skip_at [of "inc_offset b" "pre @ [opn]" W x "body' @ close # rest"] inc_at [OF b] W x by auto
  define P c where "P = pre @ butlast (opn # W)" and "c = last (opn # W)"
  have Pc: "(pre @ [opn]) @ W = P @ [c]" using append_butlast_last_id [of "opn # W"] by (simp add: P_def c_def)
  define b2 where "b2 = b1\<lparr>offset := offset b1 - 1\<rparr>"
  have dec: "dec_offset b1 = Some b2" using b1(3) by (simp add: dec_offset_def b2_def at_def)
  have b2: "at b2 P (c # body @ close # rest)" using b1(3) unfolding Pc by (simp add: at_def b2_def x(1))
  have m1: "content b1 = content b" "depth b1 = depth b" "offset b1 = Suc (offset b) + length W"
    using b1(2) by (simp_all add: moved_def inc_offset_def)
  obtain b3 where b3: "elems b2 = Some (True, ts, b3)" "moved b2 (Suc (length body)) b3"
    using elems [OF False b2] m1 by (auto simp: b2_def)
  have "at b3 (P @ c # body) (close # rest)" using at_moved [of b2 P "c # body" "close # rest" b3] b2 b3(2) by simp
  from at_access [OF this] have ok: "bracketed t close elems item b = Some (True, set_children t ts item, inc_offset (b3\<lparr>depth := depth b3 - 1\<rparr>))"
    using b1(1) at_access [OF b1(3)] x(3) dec b3(1) by (simp add: bracketed_def)
  show ?thesis
    by (rule that [OF ok]) (use b3(2) m1 in \<open>simp_all add: moved_def inc_offset_def b2_def\<close>)
qed

section \<open>Elements and members\<close>

definition starts :: "byte list \<Rightarrow> bool" where
  "starts tx \<longleftrightarrow> tx \<noteq> [] \<and> \<not> hd tx \<le> 32 \<and> hd tx \<noteq> 0x5D"

lemma delims: "\<not> number_char 0x2C" "\<not> number_char 0x5D" "\<not> number_char 0x7D" "\<not> number_char 0x0A" "\<not> number_char 0x09" "\<not> number_char 0"
  by (simp_all add: number_char_def)

lemma skip_start:
  assumes "at b pre (ws @ tx @ rest)" and "\<forall>w\<in>set ws. w \<le> 32" and "tx \<noteq> []" and "\<not> hd tx \<le> 32"
  obtains b' where "buffer_skip_whitespace b = Some b'" "moved b (length ws) b'" "at b' (pre @ ws) (tx @ rest)"
proof -
  from assms(3) obtain x xs where tx: "tx = x # xs" by (cases tx) auto
  have "at b pre (ws @ x # xs @ rest)" "\<not> x \<le> 32" using assms(1,4) by (simp_all add: tx)
  from skip_at [OF this(1) assms(2) this(2)] show ?thesis using that unfolding tx append_Cons by blast
qed

lemma parse_element_step:
  assumes "all_alloc E" and "reads E m pv t tx" and "name t = None" and "starts tx" and "\<forall>w\<in>set ws. w \<le> 32"
    and "at b pre (c # ws @ tx @ y # rest)" and "\<not> number_char y" and "\<not> y \<le> 32" and "depth b \<le> m"
  obtains b' where "parse_elements E pv (Suc k) head b =
      (if y = 0x2C then parse_elements E pv k (head @ [t]) b' else Some (True, head @ [t], b'))"
    "moved b (Suc (length ws) + length tx) b'" "at b' (pre @ c # ws @ tx) (y # rest)"
proof -
  obtain b1 where b1: "allocate E b = (True, b1)" "moved b 0 b1" using allocate_all [OF assms(1)] by blast
  have i: "at (inc_offset b1) (pre @ [c]) (ws @ tx @ y # rest)" "moved b1 1 (inc_offset b1)"
    using inc_at [OF at_moved_0 [OF assms(6) b1(2)]] by auto
  obtain b2 where b2: "buffer_skip_whitespace (inc_offset b1) = Some b2" "moved (inc_offset b1) (length ws) b2"
    "at b2 ((pre @ [c]) @ ws) (tx @ y # rest)"
    using skip_start [OF i(1) assms(5)] assms(4) by (auto simp: starts_def)
  have d: "depth b2 \<le> m" using assms(9) b1(2) i(2) b2(2) by (simp add: moved_def)
  obtain b3 where b3: "pv (New_Item E) b2 = Some (True, t, b3)" "moved b2 (length tx) b3" "at b3 (((pre @ [c]) @ ws) @ tx) (y # rest)"
    using readsD [OF assms(2) fresh_New_Item(1) _ b2(3) assms(7) d] assms(3) fresh_New_Item(2) by metis
  obtain b4 where b4: "buffer_skip_whitespace b3 = Some b4" "moved b3 0 b4" "at b4 (((pre @ [c]) @ ws) @ tx) (y # rest)"
    using skip_at [of b3 _ "[]" y rest] b3(3) assms(8) by auto
  show ?thesis
  proof (rule that [of b4])
    show "parse_elements E pv (Suc k) head b = (if y = 0x2C then parse_elements E pv k (head @ [t]) b4 else Some (True, head @ [t], b4))"
      using b1 b2(1) b3(1) b4(1) at_access [OF b4(3)] by (simp add: parse_elements.simps)
    show "moved b (Suc (length ws) + length tx) b4"
      using moved_trans [OF moved_trans [OF moved_trans [OF moved_trans [OF b1(2) i(2)] b2(2)] b3(2)] b4(2)] by simp
  qed (use b4(3) in simp)
qed

lemma parse_elements_at:
  assumes "all_alloc E" and "ts \<noteq> []" and "\<forall>t\<in>set ts. reads E m pv t (rn t) \<and> name t = None \<and> starts (rn t)"
    and "\<forall>w\<in>set ws. w \<le> 32" and "at b pre (c # ws @ join_elements fmt (map rn ts) @ 0x5D # rest)" and "depth b \<le> m" and "length ts \<le> k"
  shows "\<exists>b'. parse_elements E pv k head b = Some (True, head @ ts, b') \<and>
    moved b (Suc (length ws) + length (join_elements fmt (map rn ts))) b'"
  using assms(2-)
proof (induction ts arbitrary: b pre c ws head k)
  case (Cons t ts)
  obtain k' where k: "k = Suc k'" "length ts \<le> k'" using Cons.prems(6) by (cases k) auto
  have t: "reads E m pv t (rn t)" "name t = None" "starts (rn t)" using Cons.prems(2) by auto
  show ?case
  proof (cases "ts = []")
    case True
    then have "at b pre (c # ws @ rn t @ 0x5D # rest)" using Cons.prems(4) by simp
    then obtain b1 where "parse_elements E pv (Suc k') head b =
        (if (0x5D :: byte) = 0x2C then parse_elements E pv k' (head @ [t]) b1 else Some (True, head @ [t], b1))"
      "moved b (Suc (length ws) + length (rn t)) b1"
      by (rule parse_element_step [OF assms(1) t Cons.prems(3) _ delims(2) _ Cons.prems(5)]) simp
    then have "parse_elements E pv k head b = Some (True, head @ [t], b1)" "moved b (Suc (length ws) + length (rn t)) b1"
      unfolding k(1) by simp_all
    then show ?thesis using True by simp
  next
    case False
    then have j: "join_elements fmt (map rn (t # ts)) = rn t @ 0x2C # (if fmt then [0x20] else []) @ join_elements fmt (map rn ts)"
      by (cases ts) simp_all
    have "at b pre (c # ws @ rn t @ 0x2C # (if fmt then [0x20] else []) @ join_elements fmt (map rn ts) @ 0x5D # rest)"
      using Cons.prems(4) unfolding j by simp
    then obtain b1 where "parse_elements E pv (Suc k') head b =
        (if (0x2C :: byte) = 0x2C then parse_elements E pv k' (head @ [t]) b1 else Some (True, head @ [t], b1))"
      and b1: "moved b (Suc (length ws) + length (rn t)) b1"
      "at b1 (pre @ c # ws @ rn t) (0x2C # (if fmt then [0x20] else []) @ join_elements fmt (map rn ts) @ 0x5D # rest)"
      by (rule parse_element_step [OF assms(1) t Cons.prems(3) _ delims(1) _ Cons.prems(5)]) simp
    then have e1: "parse_elements E pv k head b = parse_elements E pv k' (head @ [t]) b1" unfolding k(1) by simp
    have "\<exists>b'. parse_elements E pv k' (head @ [t]) b1 = Some (True, (head @ [t]) @ ts, b') \<and>
      moved b1 (Suc (length (if fmt then [0x20 :: byte] else [])) + length (join_elements fmt (map rn ts))) b'"
      using False Cons.prems k(2) b1 by (intro Cons.IH) (auto simp: moved_def)
    then obtain b2 where b2: "parse_elements E pv k' (head @ [t]) b1 = Some (True, head @ t # ts, b2)"
      "moved b1 (Suc (length (if fmt then [0x20 :: byte] else [])) + length (join_elements fmt (map rn ts))) b2" by auto
    show ?thesis
      using e1 b2(1) moved_trans [OF b1(1) b2(2)] unfolding j by (auto simp: ac_simps)
  qed
qed simp

lemma render_string_start: "render_string (Some key) \<noteq> []" "\<not> hd (render_string (Some key)) \<le> 32"
  by (simp_all add: render_string_def)

lemma parse_member_step:
  assumes "all_alloc E" and "reads E m pv t tx" and "name t = Some key" and "0 \<notin> set key" and "starts tx"
    and ws: "\<forall>w\<in>set ws. w \<le> 32" "\<forall>w\<in>set cw. w \<le> 32" "\<forall>w\<in>set ew. w \<le> 32"
    and b: "at b pre (c # ws @ render_string (Some key) @ 0x3A # cw @ tx @ ew @ y # rest)"
    and "\<not> number_char (hd (ew @ [y]))" and "\<not> y \<le> 32" and "depth b \<le> m"
  obtains b' where "parse_members E pv (Suc k) head b =
      (if y = 0x2C then parse_members E pv k (head @ [t]) b' else Some (True, head @ [t], b'))"
    "moved b (Suc (length ws) + length (render_string (Some key)) + Suc (length cw) + length tx + length ew) b'"
    "at b' (pre @ c # ws @ render_string (Some key) @ 0x3A # cw @ tx @ ew) (y # rest)"
proof -
  let ?rs = "render_string (Some key)"
  obtain b1 where b1: "allocate E b = (True, b1)" "moved b 0 b1" using allocate_all [OF assms(1)] by blast
  have i: "at (inc_offset b1) (pre @ [c]) (ws @ ?rs @ 0x3A # cw @ tx @ ew @ y # rest)" "moved b1 1 (inc_offset b1)"
    using inc_at [OF at_moved_0 [OF b b1(2)]] by auto
  obtain b2 where b2: "buffer_skip_whitespace (inc_offset b1) = Some b2" "moved (inc_offset b1) (length ws) b2"
    "at b2 ((pre @ [c]) @ ws) (?rs @ 0x3A # cw @ tx @ ew @ y # rest)"
    using skip_start [OF i(1) ws(1) render_string_start] .
  obtain b3 where b3: "parse_string E (New_Item E) b2 = Some (True, CJSON cJSON_String (Some key) 0 (d_zero E) None [], b3)"
    "moved b2 (length ?rs) b3"
    using parse_string_at [OF assms(1) b2(3) assms(4), of "New_Item E"] by (auto simp: New_Item_def)
  obtain b4 where b4: "buffer_skip_whitespace b3 = Some b4" "moved b3 0 b4" "at b4 (((pre @ [c]) @ ws) @ ?rs) (0x3A # cw @ tx @ ew @ y # rest)"
    using skip_at [of b3 _ "[]" "0x3A"] at_moved [OF b2(3) b3(2)] by auto
  have i4: "at (inc_offset b4) ((((pre @ [c]) @ ws) @ ?rs) @ [0x3A]) (cw @ tx @ ew @ y # rest)" "moved b4 1 (inc_offset b4)"
    using inc_at [OF b4(3)] by auto
  obtain b5 where b5: "buffer_skip_whitespace (inc_offset b4) = Some b5" "moved (inc_offset b4) (length cw) b5"
    "at b5 (((((pre @ [c]) @ ws) @ ?rs) @ [0x3A]) @ cw) (tx @ ew @ y # rest)"
    using skip_start [OF i4(1) ws(2)] assms(5) by (auto simp: starts_def)
  have d: "depth b5 \<le> m" using assms(12) b1(2) i(2) b2(2) b3(2) b4(2) i4(2) b5(2) by (simp add: moved_def)
  let ?item = "CJSON cJSON_String None 0 (d_zero E) (Some key) []"
  have fr: "fresh E ?item" "name ?item = name t" using assms(3) by (simp_all add: fresh_def)
  obtain z zs where z: "ew @ y # rest = z # zs" "\<not> number_char z" using assms(10) by (cases ew) auto
  obtain b6 where b6: "pv ?item b5 = Some (True, t, b6)" "moved b5 (length tx) b6"
    "at b6 ((((((pre @ [c]) @ ws) @ ?rs) @ [0x3A]) @ cw) @ tx) (ew @ y # rest)"
    using readsD [OF assms(2) fr b5(3) [unfolded z(1)] z(2) d] z(1) by metis
  obtain b7 where b7: "buffer_skip_whitespace b6 = Some b7" "moved b6 (length ew) b7"
    "at b7 (((((((pre @ [c]) @ ws) @ ?rs) @ [0x3A]) @ cw) @ tx) @ ew) (y # rest)"
    using skip_at [OF b6(3) ws(3) assms(11)] by blast
  show ?thesis
  proof (rule that [of b7])
    show "parse_members E pv (Suc k) head b = (if y = 0x2C then parse_members E pv k (head @ [t]) b7 else Some (True, head @ [t], b7))"
      using b1 b2(1) b3(1) b4(1) at_access [OF b4(3)] b5(1) b6(1) b7(1) at_access [OF b7(3)]
      by (simp add: parse_members.simps string_to_name_def)
    show "moved b (Suc (length ws) + length ?rs + Suc (length cw) + length tx + length ew) b7"
      using b1(2) i(2) b2(2) b3(2) b4(2) i4(2) b5(2) b6(2) b7(2) by (simp add: moved_def)
  qed (use b7(3) in simp)
qed

definition member_body :: "bool \<Rightarrow> nat \<Rightarrow> byte list option \<Rightarrow> byte list \<Rightarrow> (byte list option \<times> byte list) list \<Rightarrow> byte list" where
  "member_body fmt d key tx ms = render_string key @ (if fmt then [0x3A, 0x09] else [0x3A]) @ tx
     @ (if ms \<noteq> [] then [0x2C] else []) @ (if fmt then [0x0A] else []) @ join_members fmt d ms"

definition nl :: "bool \<Rightarrow> byte list" where
  "nl fmt = (if fmt then [0x0A] else [])"

definition indent :: "bool \<Rightarrow> nat \<Rightarrow> byte list" where
  "indent fmt d = (if fmt then replicate d 0x09 else [])"

lemma ws_nl: "\<forall>w\<in>set (nl fmt). w \<le> 32" "\<forall>w\<in>set (indent fmt d). w \<le> 32"
  by (auto simp: nl_def indent_def)

lemma join_members_body: "join_members fmt d ((key, tx) # ms) = indent fmt d @ member_body fmt d key tx ms"
  by (simp add: member_body_def indent_def)

lemma parse_members_at:
  assumes "all_alloc E" and "\<forall>t\<in>set (t # ts). reads E m pv t (rn t) \<and> (\<exists>key. name t = Some key \<and> 0 \<notin> set key) \<and> starts (rn t)"
    and "\<forall>w\<in>set ws. w \<le> 32" and "\<forall>w\<in>set cws. w \<le> 32"
    and "at b pre (c # ws @ member_body fmt d (name t) (rn t) (map (\<lambda>t. (name t, rn t)) ts) @ cws @ 0x7D # rest)"
    and "depth b \<le> m" and "length ts < k" and "hd (cws @ [0x7D]) \<in> {0x7D, 0x09, 0x0A}"
  shows "\<exists>b'. parse_members E pv k head b = Some (True, head @ t # ts, b') \<and>
    moved b (Suc (length ws) + length (member_body fmt d (name t) (rn t) (map (\<lambda>t. (name t, rn t)) ts)) + length cws) b'"
  using assms(2-7)
proof (induction ts arbitrary: t b pre c ws head k)
  case Nil
  obtain k' where k: "k = Suc k'" using Nil.prems(6) by (cases k) auto
  obtain key where t: "reads E m pv t (rn t)" "name t = Some key" "0 \<notin> set key" "starts (rn t)" using Nil.prems(1) by auto
  have at: "at b pre (c # ws @ render_string (Some key) @ 0x3A # (if fmt then [0x09] else []) @ rn t @ (nl fmt @ cws) @ 0x7D # rest)"
    using Nil.prems(4) by (cases fmt) (simp_all add: member_body_def t(2) nl_def)
  have h: "\<not> number_char (hd ((nl fmt @ cws) @ [0x7D]))" using assms(8) by (cases fmt) (auto simp: nl_def delims)
  have w: "\<forall>w\<in>set (if fmt then [0x09] else []). w \<le> (32 :: byte)" "\<forall>w\<in>set (nl fmt @ cws). w \<le> 32" using Nil.prems(3) ws_nl(1) by auto
  obtain b1 where "parse_members E pv (Suc k') head b =
      (if (0x7D :: byte) = 0x2C then parse_members E pv k' (head @ [t]) b1 else Some (True, head @ [t], b1))"
    and b1: "moved b (Suc (length ws) + length (render_string (Some key)) + Suc (length (if fmt then [0x09 :: byte] else [])) + length (rn t) + length (nl fmt @ cws)) b1"
    by (rule parse_member_step [OF assms(1) t(1) t(2-4) Nil.prems(2) w at h _ Nil.prems(5)]) simp
  then have "parse_members E pv k head b = Some (True, head @ [t], b1)" by (simp add: k)
  moreover have "moved b (Suc (length ws) + length (member_body fmt d (name t) (rn t) (map (\<lambda>t. (name t, rn t)) [])) + length cws) b1"
    using b1 by (simp add: member_body_def t(2) nl_def ac_simps split: if_splits)
  ultimately show ?case by blast
next
  case (Cons t2 ts)
  obtain k' where k: "k = Suc k'" "length ts < k'" using Cons.prems(6) by (cases k) auto
  obtain key where t: "reads E m pv t (rn t)" "name t = Some key" "0 \<notin> set key" "starts (rn t)" using Cons.prems(1) by auto
  let ?mb = "member_body fmt d (name t2) (rn t2) (map (\<lambda>t. (name t, rn t)) ts)"
  have body: "member_body fmt d (name t) (rn t) (map (\<lambda>t. (name t, rn t)) (t2 # ts)) =
    render_string (Some key) @ 0x3A # (if fmt then [0x09] else []) @ rn t @ 0x2C # (nl fmt @ indent fmt d) @ ?mb"
    unfolding t(2) by (simp add: member_body_def [of _ _ "Some key" "rn t"] nl_def join_members_body del: join_members.simps(2))
  have at: "at b pre (c # ws @ render_string (Some key) @ 0x3A # (if fmt then [0x09] else []) @ rn t @ [] @ 0x2C # (nl fmt @ indent fmt d) @ ?mb @ cws @ 0x7D # rest)"
    using Cons.prems(4) unfolding body by simp
  have h: "\<not> number_char (hd ([] @ [0x2C]))" by (simp add: delims)
  have w: "\<forall>w\<in>set (if fmt then [0x09] else []). w \<le> (32 :: byte)" "\<forall>w\<in>set []. w \<le> (32 :: byte)" by auto
  obtain b1 where "parse_members E pv (Suc k') head b =
      (if (0x2C :: byte) = 0x2C then parse_members E pv k' (head @ [t]) b1 else Some (True, head @ [t], b1))"
    and b1: "moved b (Suc (length ws) + length (render_string (Some key)) + Suc (length (if fmt then [0x09 :: byte] else [])) + length (rn t) + length ([] :: byte list)) b1"
    "at b1 (pre @ c # ws @ render_string (Some key) @ 0x3A # (if fmt then [0x09] else []) @ rn t @ []) (0x2C # (nl fmt @ indent fmt d) @ ?mb @ cws @ 0x7D # rest)"
    by (rule parse_member_step [OF assms(1) t(1) t(2-4) Cons.prems(2) w at h _ Cons.prems(5)]) simp
  then have e1: "parse_members E pv k head b = parse_members E pv k' (head @ [t]) b1" by (simp add: k)
  have "\<exists>b'. parse_members E pv k' (head @ [t]) b1 = Some (True, (head @ [t]) @ t2 # ts, b') \<and>
    moved b1 (Suc (length (nl fmt @ indent fmt d)) + length ?mb + length cws) b'"
    using Cons.prems k(2) b1 ws_nl [of fmt] by (intro Cons.IH) (auto simp: moved_def)
  then obtain b2 where b2: "parse_members E pv k' (head @ [t]) b1 = Some (True, head @ t # t2 # ts, b2)"
    "moved b1 (Suc (length (nl fmt @ indent fmt d)) + length ?mb + length cws) b2" by auto
  show ?case unfolding body using e1 b2(1) moved_trans [OF b1(1) b2(2)] by (auto simp: ac_simps)
qed

section \<open>Trees\<close>

fun clean :: "'d env \<Rightarrow> 'd cJSON \<Rightarrow> bool" where
  "clean E (CJSON t vs vi vd nm ch) \<longleftrightarrow>
     (\<forall>s. vs = Some s \<longrightarrow> 0 \<notin> set s) \<and> (\<forall>s. nm = Some s \<longrightarrow> 0 \<notin> set s) \<and>
     (t = cJSON_Number \<longrightarrow> number_reads E vd) \<and> (\<forall>c\<in>set ch. clean E c)"

lemma clean_name: "clean E t \<Longrightarrow> name t = Some key \<Longrightarrow> 0 \<notin> set key"
  by (cases t) auto

lemma json_ok_cases:
  assumes "json_ok E k (CJSON t vs vi vd nm ch)"
  obtains (null) "t = cJSON_NULL" "vs = None" "vi = 0" "vd = d_zero E" "ch = []"
  | (false) "t = cJSON_False" "vs = None" "vi = 0" "vd = d_zero E" "ch = []"
  | (true) "t = cJSON_True" "vs = None" "vi = 1" "vd = d_zero E" "ch = []"
  | (num) "t = cJSON_Number" "vs = None" "vi = number_to_int E vd" "ch = []"
  | (str) s where "t = cJSON_String" "vs = Some s" "vi = 0" "vd = d_zero E" "ch = []"
  | (arr) "t = cJSON_Array" "vs = None" "vi = 0" "vd = d_zero E" "0 < k" "\<And>c. c \<in> set ch \<Longrightarrow> name c = None \<and> json_ok E (k - 1) c"
  | (obj) "t = cJSON_Object" "vs = None" "vi = 0" "vd = d_zero E" "0 < k" "\<And>c. c \<in> set ch \<Longrightarrow> name c \<noteq> None \<and> json_ok E (k - 1) c"
  using assms by auto

lemma number_first:
  assumes "number_reads E d"
  obtains y ys where "render_number E d = y # ys" "y = 0x2D \<or> 0x30 \<le> y \<and> y \<le> 0x39"
  using assms by (cases "render_number E d") (auto simp: number_reads_def)

lemma digit_bounds: "y = 0x2D \<or> 0x30 \<le> y \<and> y \<le> (0x39 :: byte) \<Longrightarrow> \<not> y \<le> 32 \<and> y \<notin> {0x5D, 0x6E, 0x66, 0x74, 0x22, 0x5B, 0x7B}"
  by (auto simp: word_le_nat_alt)

lemma render_starts:
  assumes "json_ok E k t" and "clean E t"
  shows "starts (render E fmt d t)"
proof (cases t)
  case (CJSON ty vs vi vd nm ch)
  have "starts (render E fmt d (CJSON ty vs vi vd nm ch))"
    using assms(1) [unfolded CJSON]
  proof (cases rule: json_ok_cases)
    case num
    then have "number_reads E vd" using assms(2) by (simp add: CJSON)
    then obtain y ys where "render_number E vd = y # ys" "y = 0x2D \<or> 0x30 \<le> y \<and> y \<le> 0x39" by (rule number_first)
    then show ?thesis using num digit_bounds [of y] by (simp add: render_unfold starts_def)
  qed (simp_all add: render_unfold starts_def render_string_def)
  then show ?thesis by (simp only: CJSON)
qed

lemma fresh_item: "fresh E item \<Longrightarrow> \<exists>ty. item = CJSON ty None 0 (d_zero E) (name item) []"
  by (cases item) (auto simp: fresh_def)

lemma strncmp_hit: "at b pre (lit @ rest) \<Longrightarrow> strncmp_at b lit \<and> can_read b (length lit)"
  by (simp add: at_def strncmp_at_def can_read_def)

lemma strncmp_miss: "at b pre (y # rest) \<Longrightarrow> y \<noteq> z \<Longrightarrow> \<not> strncmp_at b (z # zs)"
  by (simp add: at_def strncmp_at_def)

lemma reads_intro:
  assumes "\<And>ty b pre x rest. at b pre (tx @ x # rest) \<Longrightarrow> \<not> number_char x \<Longrightarrow> depth b \<le> m \<Longrightarrow>
    \<exists>b'. pv (CJSON ty None 0 (d_zero E) (name t) []) b = Some (True, t, b') \<and> moved b (length tx) b'"
  shows "reads E m pv t tx"
  unfolding reads_def using assms by (metis fresh_item)

lemma reads_array:
  assumes E: "all_alloc E" and m: "m < CJSON_NESTING_LIMIT"
    and ch: "\<forall>c\<in>set ch. reads E (Suc m) pv c (render E fmt (Suc d) c) \<and> name c = None \<and> starts (render E fmt (Suc d) c)"
    and b: "at b pre (render E fmt d (CJSON cJSON_Array None 0 z nm ch) @ x # rest)" and depth: "depth b \<le> m"
  shows "\<exists>b'. parse_array E pv (CJSON ty None 0 z nm []) b = Some (True, CJSON cJSON_Array None 0 z nm ch, b') \<and>
    moved b (length (render E fmt d (CJSON cJSON_Array None 0 z nm ch))) b'"
proof -
  let ?b = "b\<lparr>depth := Suc (depth b)\<rparr>"
  let ?body = "join_elements fmt (map (render E fmt (Suc d)) ch)"
  have r: "render E fmt d (CJSON cJSON_Array None 0 z nm ch) = 0x5B # ?body @ [0x5D]" by (simp add: render_unfold)
  have at: "at ?b pre (0x5B # [] @ ?body @ 0x5D # x # rest)" using b unfolding r by (simp add: at_def)
  have br: "parse_array E pv (CJSON ty None 0 z nm []) b =
    bracketed cJSON_Array 0x5D (\<lambda>b. parse_elements E pv (Suc (length (content b))) [] b) (CJSON ty None 0 z nm []) ?b"
    using at_access [OF at [unfolded append_Nil]] m depth at
    by (intro parse_array_bracketed) (simp_all add: at_def)
  have ne: "ch = [] \<longleftrightarrow> ?body = []"
    using ch by (cases ch; cases "tl ch") (auto simp: starts_def)
  have first: "?body \<noteq> [] \<Longrightarrow> \<not> hd ?body \<le> 32 \<and> hd ?body \<noteq> 0x5D"
    using ch by (cases ch; cases "tl ch") (auto simp: starts_def)
  have len: "length ch \<le> length ?body"
    using ch by (induction ch rule: induct_list012) (auto simp: starts_def Suc_le_eq)
  have el: "\<exists>b''. parse_elements E pv (Suc (length (content b'))) [] b' = Some (True, ch, b'') \<and> moved b' (Suc (length ?body)) b''"
    if "?body \<noteq> []" "at b' pre' (c # ?body @ 0x5D # x # rest)" "depth b' = depth ?b" "content b' = content ?b" for b' pre' c
    using parse_elements_at [OF E _ ch, of "[]" b' pre' c fmt "x # rest" "Suc (length (content b'))" "[]"] that ne depth len
    by (simp add: at_def)
  obtain b' where "bracketed cJSON_Array 0x5D (\<lambda>b. parse_elements E pv (Suc (length (content b))) [] b) (CJSON ty None 0 z nm []) ?b =
      Some (True, set_children cJSON_Array ch (CJSON ty None 0 z nm []), b')" "content b' = content ?b"
    "offset b' = offset ?b + length ([] :: byte list) + length ?body + 2" "depth b' = depth ?b - 1"
    by (rule bracketed_at [OF at _ _ _ first el]) (use ne in auto)
  then show ?thesis unfolding br r by (simp add: set_children_def moved_def)
qed

lemma reads_object:
  assumes E: "all_alloc E" and m: "m < CJSON_NESTING_LIMIT"
    and ch: "\<forall>c\<in>set ch. reads E (Suc m) pv c (render E fmt (Suc d) c) \<and> (\<exists>key. name c = Some key \<and> 0 \<notin> set key) \<and>
      starts (render E fmt (Suc d) c)"
    and b: "at b pre (render E fmt d (CJSON cJSON_Object None 0 z nm ch) @ x # rest)" and depth: "depth b \<le> m"
  shows "\<exists>b'. parse_object E pv (CJSON ty None 0 z nm []) b = Some (True, CJSON cJSON_Object None 0 z nm ch, b') \<and>
    moved b (length (render E fmt d (CJSON cJSON_Object None 0 z nm ch))) b'"
proof -
  let ?b = "b\<lparr>depth := Suc (depth b)\<rparr>"
  let ?kv = "\<lambda>c. (name c, render E fmt (Suc d) c)"
  define W where "W = nl fmt @ indent fmt (if ch = [] then d else Suc d)"
  define body where "body = (case ch of [] \<Rightarrow> [] | t # ts \<Rightarrow>
     member_body fmt (Suc d) (name t) (render E fmt (Suc d) t) (map ?kv ts) @ indent fmt d)"
  have r: "render E fmt d (CJSON cJSON_Object None 0 z nm ch) = 0x7B # W @ body @ [0x7D]"
    by (cases ch) (simp_all add: render_unfold W_def body_def nl_def indent_def member_body_def)
  have at: "at ?b pre (0x7B # W @ body @ 0x7D # x # rest)" using b unfolding r by (simp add: at_def)
  have br: "parse_object E pv (CJSON ty None 0 z nm []) b =
    bracketed cJSON_Object 0x7D (\<lambda>b. parse_members E pv (Suc (length (content b))) [] b) (CJSON ty None 0 z nm []) ?b"
    using at_access [OF at] m depth at by (intro parse_object_bracketed) (simp_all add: at_def)
  have ne: "body = [] \<longleftrightarrow> ch = []" by (cases ch) (simp_all add: body_def member_body_def render_string_def split: option.split)
  have first: "body \<noteq> [] \<Longrightarrow> \<not> hd body \<le> 32 \<and> hd body \<noteq> 0x7D"
    using ch by (cases ch) (auto simp: body_def member_body_def render_string_def)
  have len: "length ts \<le> length (join_members fmt (Suc d) (map ?kv ts))" for ts
    by (induction ts) auto
  have el: "\<exists>b''. parse_members E pv (Suc (length (content b'))) [] b' = Some (True, ch, b'') \<and> moved b' (Suc (length body)) b''"
    if nb: "body \<noteq> []" and b': "at b' pre' (c # body @ 0x7D # x # rest)" "depth b' = depth ?b" "content b' = content ?b" for b' pre' c
  proof -
    obtain t ts where c: "ch = t # ts" using nb ne by (cases ch) auto
    have h: "hd (indent fmt d @ [0x7D]) \<in> {0x7D, 0x09, 0x0A}" by (cases d) (simp_all add: indent_def)
    have "length ts \<le> length body" using len [of ts] by (simp add: body_def c member_body_def)
    then have k: "length ts < Suc (length (content b'))" using b'(1) by (simp add: at_def)
    have a: "at b' pre' (c # [] @ member_body fmt (Suc d) (name t) (render E fmt (Suc d) t) (map ?kv ts) @ indent fmt d @ 0x7D # x # rest)"
      using b'(1) by (simp add: body_def \<open>ch = t # ts\<close>)
    from parse_members_at [OF E ch [unfolded c] _ ws_nl(2) a _ k h, of "[]"] show ?thesis
      using depth b'(2) by (simp add: c body_def)
  qed
  obtain b' where "bracketed cJSON_Object 0x7D (\<lambda>b. parse_members E pv (Suc (length (content b))) [] b) (CJSON ty None 0 z nm []) ?b =
      Some (True, set_children cJSON_Object ch (CJSON ty None 0 z nm []), b')" "content b' = content ?b"
    "offset b' = offset ?b + length W + length body + 2" "depth b' = depth ?b - 1"
    by (rule bracketed_at [OF at _ _ _ first el]) (use ne ws_nl W_def in auto)
  then show ?thesis unfolding br r by (simp add: set_children_def moved_def)
qed

lemma reads_value:
  assumes "all_alloc E" and "json_ok E k t" and "clean E t" and "k < n" and "m + k \<le> CJSON_NESTING_LIMIT"
  shows "reads E m (parse_value E n) t (render E fmt d t)"
  using assms(2-)
proof (induction t arbitrary: k n m d)
  case (CJSON ty vs vi vd nm ch)
  obtain n' where n: "n = Suc n'" using CJSON.prems(3) by (cases n) auto
  have miss: "\<not> strncmp_at b (z # zs)" if "at b pre (y # rest)" "y \<noteq> z" for b pre y rest z zs
    using strncmp_miss that by blast
  note kids = CJSON.IH
  show ?case
    using CJSON.prems(1)
  proof (cases rule: json_ok_cases)
    case null
    have tx: "render E fmt d (CJSON ty vs vi vd nm ch) = [0x6E, 0x75, 0x6C, 0x6C]" using null by (simp add: render_unfold)
    show ?thesis
    proof (rule reads_intro)
      fix ty' b pre x rest
      assume "at b pre (render E fmt d (CJSON ty vs vi vd nm ch) @ x # rest)" "\<not> number_char x" "depth b \<le> m"
      then have a: "at b pre ([0x6E, 0x75, 0x6C, 0x6C] @ x # rest)" by (simp only: tx)
      have h: "strncmp_at b [0x6E, 0x75, 0x6C, 0x6C]" "can_read b 4"
        using strncmp_hit [OF a] by (simp_all add: eval_nat_numeral)
      show "\<exists>b'. parse_value E n (CJSON ty' None 0 (d_zero E) (name (CJSON ty vs vi vd nm ch)) []) b = Some (True, CJSON ty vs vi vd nm ch, b')
          \<and> moved b (length (render E fmt d (CJSON ty vs vi vd nm ch))) b'"
        unfolding tx using h miss [OF a [unfolded append_Cons]] null
        by (simp add: n parse_value.simps moved_def set_type_def)
    qed
  next
    case false
    have tx: "render E fmt d (CJSON ty vs vi vd nm ch) = [0x66, 0x61, 0x6C, 0x73, 0x65]" using false by (simp add: render_unfold)
    show ?thesis
    proof (rule reads_intro)
      fix ty' b pre x rest
      assume "at b pre (render E fmt d (CJSON ty vs vi vd nm ch) @ x # rest)" "\<not> number_char x" "depth b \<le> m"
      then have a: "at b pre ([0x66, 0x61, 0x6C, 0x73, 0x65] @ x # rest)" by (simp only: tx)
      have h: "strncmp_at b [0x66, 0x61, 0x6C, 0x73, 0x65]" "can_read b 5"
        using strncmp_hit [OF a] by (simp_all add: eval_nat_numeral)
      show "\<exists>b'. parse_value E n (CJSON ty' None 0 (d_zero E) (name (CJSON ty vs vi vd nm ch)) []) b = Some (True, CJSON ty vs vi vd nm ch, b')
          \<and> moved b (length (render E fmt d (CJSON ty vs vi vd nm ch))) b'"
        unfolding tx using h miss [OF a [unfolded append_Cons]] false
        by (simp add: n parse_value.simps moved_def set_type_def)
    qed
  next
    case true
    have tx: "render E fmt d (CJSON ty vs vi vd nm ch) = [0x74, 0x72, 0x75, 0x65]" using true by (simp add: render_unfold)
    show ?thesis
    proof (rule reads_intro)
      fix ty' b pre x rest
      assume "at b pre (render E fmt d (CJSON ty vs vi vd nm ch) @ x # rest)" "\<not> number_char x" "depth b \<le> m"
      then have a: "at b pre ([0x74, 0x72, 0x75, 0x65] @ x # rest)" by (simp only: tx)
      have h: "strncmp_at b [0x74, 0x72, 0x75, 0x65]" "can_read b 4"
        using strncmp_hit [OF a] by (simp_all add: eval_nat_numeral)
      show "\<exists>b'. parse_value E n (CJSON ty' None 0 (d_zero E) (name (CJSON ty vs vi vd nm ch)) []) b = Some (True, CJSON ty vs vi vd nm ch, b')
          \<and> moved b (length (render E fmt d (CJSON ty vs vi vd nm ch))) b'"
        unfolding tx using h miss [OF a [unfolded append_Cons]] true
        by (simp add: n parse_value.simps moved_def set_type_def set_valueint_def)
    qed
  next
    case num
    have nr: "number_reads E vd" using CJSON.prems(2) num by simp
    from number_first [OF nr] obtain y ys where y: "render_number E vd = y # ys" "y = 0x2D \<or> 0x30 \<le> y \<and> y \<le> 0x39" .
    have tx: "render E fmt d (CJSON ty vs vi vd nm ch) = render_number E vd" using num by (simp add: render_unfold)
    show ?thesis
    proof (rule reads_intro)
      fix ty' b pre x rest
      assume b: "at b pre (render E fmt d (CJSON ty vs vi vd nm ch) @ x # rest)" "\<not> number_char x" "depth b \<le> m"
      then have a: "at b pre (y # ys @ x # rest)" by (simp add: tx y)
      have "parse_value E n (CJSON ty' None 0 (d_zero E) nm []) b = Some (parse_number E (CJSON ty' None 0 (d_zero E) nm []) b)"
        using miss [OF a] at_access [OF a] digit_bounds [OF y(2)] y(2) by (simp add: n parse_value.simps)
      then show "\<exists>b'. parse_value E n (CJSON ty' None 0 (d_zero E) (name (CJSON ty vs vi vd nm ch)) []) b = Some (True, CJSON ty vs vi vd nm ch, b')
          \<and> moved b (length (render E fmt d (CJSON ty vs vi vd nm ch))) b'"
        unfolding tx using parse_number_at [OF nr b(1) [unfolded tx] b(2)] num by (simp add: moved_def)
    qed
  next
    case (str s)
    have tx: "render E fmt d (CJSON ty vs vi vd nm ch) = render_string (Some s)" using str by (simp add: render_unfold)
    show ?thesis
    proof (rule reads_intro)
      fix ty' b pre x rest
      assume b: "at b pre (render E fmt d (CJSON ty vs vi vd nm ch) @ x # rest)" "\<not> number_char x" "depth b \<le> m"
      obtain ys where a: "at b pre (0x22 # ys)" using b(1) by (simp add: tx render_string_def)
      have "parse_value E n (CJSON ty' None 0 (d_zero E) nm []) b = parse_string E (CJSON ty' None 0 (d_zero E) nm []) b"
        using miss [OF a] at_access [OF a] by (simp add: n parse_value.simps)
      moreover have "0 \<notin> set s" using CJSON.prems(2) str by simp
      ultimately show "\<exists>b'. parse_value E n (CJSON ty' None 0 (d_zero E) (name (CJSON ty vs vi vd nm ch)) []) b = Some (True, CJSON ty vs vi vd nm ch, b')
          \<and> moved b (length (render E fmt d (CJSON ty vs vi vd nm ch))) b'"
        unfolding tx using parse_string_at [OF assms(1) b(1) [unfolded tx], where item = "CJSON ty' None 0 (d_zero E) nm []"] str by auto
    qed
  next
    case arr
    have ch: "\<forall>c\<in>set ch. reads E (Suc m) (parse_value E n') c (render E fmt (Suc d) c) \<and> name c = None \<and> starts (render E fmt (Suc d) c)"
      using arr(5,6) CJSON.prems n by (auto intro!: kids render_starts)
    show ?thesis
    proof (rule reads_intro)
      fix ty' b pre x rest
      assume b: "at b pre (render E fmt d (CJSON ty vs vi vd nm ch) @ x # rest)" "\<not> number_char x" "depth b \<le> m"
      obtain ys where a: "at b pre (0x5B # ys)" using b(1) arr by (simp add: render_unfold)
      have "parse_value E n (CJSON ty' None 0 (d_zero E) nm []) b = parse_array E (parse_value E n') (CJSON ty' None 0 (d_zero E) nm []) b"
        using miss [OF a] at_access [OF a] by (simp add: n parse_value.simps)
      then show "\<exists>b'. parse_value E n (CJSON ty' None 0 (d_zero E) (name (CJSON ty vs vi vd nm ch)) []) b = Some (True, CJSON ty vs vi vd nm ch, b')
          \<and> moved b (length (render E fmt d (CJSON ty vs vi vd nm ch))) b'"
        using reads_array [OF assms(1) _ ch _ b(3), where nm = nm and ty = ty' and z = "d_zero E" and pre = pre and x = x and rest = rest] b arr CJSON.prems(4) by simp
    qed
  next
    case obj
    have ch: "\<forall>c\<in>set ch. reads E (Suc m) (parse_value E n') c (render E fmt (Suc d) c) \<and> (\<exists>key. name c = Some key \<and> 0 \<notin> set key) \<and>
        starts (render E fmt (Suc d) c)"
    proof -
      have "\<exists>key. name c = Some key \<and> 0 \<notin> set key" if "c \<in> set ch" for c
        using obj(6) [OF that] CJSON.prems(2) that clean_name [of E c] by auto
      then show ?thesis using obj(5,6) CJSON.prems n by (auto intro!: kids render_starts)
    qed
    show ?thesis
    proof (rule reads_intro)
      fix ty' b pre x rest
      assume b: "at b pre (render E fmt d (CJSON ty vs vi vd nm ch) @ x # rest)" "\<not> number_char x" "depth b \<le> m"
      obtain ys where a: "at b pre (0x7B # ys)" using b(1) obj by (cases fmt) (simp_all add: render_unfold)
      have "parse_value E n (CJSON ty' None 0 (d_zero E) nm []) b = parse_object E (parse_value E n') (CJSON ty' None 0 (d_zero E) nm []) b"
        using miss [OF a] at_access [OF a] by (simp add: n parse_value.simps)
      then show "\<exists>b'. parse_value E n (CJSON ty' None 0 (d_zero E) (name (CJSON ty vs vi vd nm ch)) []) b = Some (True, CJSON ty vs vi vd nm ch, b')
          \<and> moved b (length (render E fmt d (CJSON ty vs vi vd nm ch))) b'"
        using reads_object [OF assms(1) _ ch _ b(3), where nm = nm and ty = ty' and z = "d_zero E" and pre = pre and x = x and rest = rest] b obj CJSON.prems(4) by simp
    qed
  qed
qed

lemma parse_render:
  assumes "all_alloc E" and "json_ok E CJSON_NESTING_LIMIT t" and "name t = None" and "clean E t"
  shows "\<exists>r. cJSON_ParseWithOpts E k l (Some (render E fmt 0 t)) want_end rnt = Some r \<and> parsed r = Some t"
proof -
  let ?s = "render E fmt 0 t"
  define b0 where "b0 = \<lparr>content = ?s @ [0], offset = 0, depth = 0, nalloc = Suc k, live = l + 1\<rparr>"
  have st: "?s \<noteq> []" "\<not> hd ?s \<le> 32" using render_starts [OF assms(2,4)] by (simp_all add: starts_def)
  have "at b0 [] ([] @ ?s @ [0])" by (simp add: at_def b0_def)
  from skip_start [OF this _ st] obtain b1 where b1: "buffer_skip_whitespace b0 = Some b1" "moved b0 0 b1" "at b1 [] (?s @ 0 # [])" by auto
  have "depth b1 \<le> 0" using b1(2) by (simp add: moved_def b0_def)
  with readsD [OF reads_value [OF assms(1,2,4), of "Suc CJSON_NESTING_LIMIT" 0 fmt 0] fresh_New_Item(1) _ b1(3) delims(6)] assms(3)
  obtain b2 where b2: "parse_value E (Suc CJSON_NESTING_LIMIT) (New_Item E) b1 = Some (True, t, b2)" "at b2 ([] @ ?s) [0]"
    by (auto simp: fresh_New_Item)
  have "skip_ws (?s @ [0]) (length ?s) = Suc (length ?s)"
    by (subst skip_ws.simps, subst skip_ws.simps) simp
  then have b3: "buffer_skip_whitespace b2 = Some (b2\<lparr>offset := length ?s\<rparr>)" "content b2 ! length ?s = 0" "length ?s < length (content b2)"
    using b2(2) by (simp_all add: buffer_skip_whitespace_def at_def)
  have "alloc_ok E k" using assms(1) by (simp add: all_alloc_def)
  then show ?thesis
    using b1(1) b2(1) b3 by (simp add: cJSON_ParseWithOpts_def allocate_def b0_def [symmetric] Let_def)
qed

lemma clean_printable: "json_ok E k t \<Longrightarrow> clean E t \<Longrightarrow> printable E t"
proof (induction t arbitrary: k)
  case (CJSON ty vs vi vd nm ch)
  show ?case
    using CJSON.prems(1)
  proof (cases rule: json_ok_cases)
    case num
    then show ?thesis using CJSON.prems(2) by (simp add: cJSON_types number_reads_def)
  next
    case arr
    then show ?thesis using CJSON by (auto simp: cJSON_types)
  next
    case obj
    then show ?thesis using CJSON by (auto simp: cJSON_types)
  qed (simp_all add: cJSON_types)
qed

lemma takeWhile_zero: "0 \<notin> set xs \<Longrightarrow> takeWhile (\<lambda>c. c \<noteq> 0) (xs @ 0 # ys) = (xs :: byte list)"
  by (induction xs) auto

section \<open>Properties\<close>

text \<open>
  C17. Round trip: when memory suffices, printing a tree of the parser's type (its numbers being readable
  by \<^verbatim>\<open>strtod\<close> as \<^verbatim>\<open>sprintf\<close> wrote them, its strings without NUL bytes), formatted or not, and parsing the
  returned C string gives the same tree back, also when the parser insists on the terminator.
\<close>

theorem print_parse_roundtrip:
  assumes "all_alloc E" and "json_ok E CJSON_NESTING_LIMIT item" and "name item = None" and "clean E item"
    and "length (render E fmt 0 item) + 2 \<le> INT_MAXn"
  shows "\<exists>block r. print E k item fmt = Some (Some block) \<and>
    cJSON_ParseWithOpts E k' l (Some (takeWhile (\<lambda>c. c \<noteq> 0) block)) want_end rnt = Some r \<and> parsed r = Some item"
proof -
  have pr: "printable E item" using assms(2,4) by (rule clean_printable)
  obtain block where block: "print E k item fmt = Some (Some block)"
    "take (length (render E fmt 0 item) + 1) block = render E fmt 0 item @ [0]"
    using print_eq [OF pr, of k fmt] assms(1,5) by (auto simp: all_alloc_def split: option.splits)
  have "block = render E fmt 0 item @ 0 # drop (length (render E fmt 0 item) + 1) block"
    using append_take_drop_id [of "length (render E fmt 0 item) + 1" block] unfolding block(2) by simp
  then have "takeWhile (\<lambda>c. c \<noteq> 0) block = render E fmt 0 item"
    using takeWhile_zero [OF render_nonzero [OF pr]] by metis
  then show ?thesis using block(1) parse_render [OF assms(1-4)] by auto
qed

lemma example_clean: "json_ok int_env CJSON_NESTING_LIMIT example_tree" "name example_tree = None" "clean int_env example_tree" "all_alloc int_env"
    "length (render int_env True 0 example_tree) \<le> 100"
proof -
  have "number_reads int_env (- 7)" by code_simp
  then show "clean int_env example_tree" by (simp add: example_tree_def cJSON_types)
  show "json_ok int_env CJSON_NESTING_LIMIT example_tree"
    by (simp add: example_tree_def cJSON_types CJSON_NESTING_LIMIT_def int_env_def number_to_int_def INT_MAX_def INT_MIN_def)
  show "length (render int_env True 0 example_tree) \<le> 100" by code_simp
qed (simp_all add: example_tree_def all_alloc_def int_env_def)

theorem print_parse_roundtrip_witness:
  "\<exists>block r. print int_env 0 example_tree True = Some (Some block) \<and>
    cJSON_ParseWithOpts int_env 0 0 (Some (takeWhile (\<lambda>c. c \<noteq> 0) block)) False True = Some r \<and> parsed r = Some example_tree"
  by (rule print_parse_roundtrip [OF example_clean(4,1,2,3)]) (use example_clean(5) in \<open>simp add: INT_MAXn_def\<close>)

end
