(* ===== verification/CjsonMinify.thy ===== *)
theory CjsonMinify
  imports CjsonRoundtrip
begin

text \<open>
  \<^verbatim>\<open>cJSON_Minify\<close>, which removes whitespace and comments from a text in place. The buffer is the text with its
  terminator; \<open>into\<close> and \<open>json\<close> are the two pointers, as indices. Reading or writing outside the buffer
  is None. Every turn of a loop advances \<open>json\<close>, so the loops end at the end of the buffer at the latest.
\<close>

unbundle bit_operations_syntax

section \<open>The loops\<close>

type_synonym minify_state = "byte list \<times> nat \<times> nat"

definition copy_char :: "minify_state \<Rightarrow> minify_state option" where
  "copy_char = (\<lambda>(js, into, json).
     if json < length js \<and> into < length js then Some (js[into := js ! json], into + 1, json + 1) else None)"

lemma copy_char_json: "copy_char (js, into, json) = Some (js', into', json') \<Longrightarrow>
    json' = json + 1 \<and> json < length js \<and> length js' = length js"
  by (auto simp: copy_char_def split: if_splits)

function skip_line_comment :: "byte list \<Rightarrow> nat \<Rightarrow> nat option" where
  "skip_line_comment js json =
     (case rd js json of
        None \<Rightarrow> None
      | Some ch \<Rightarrow> if ch \<noteq> 0 \<and> ch \<noteq> 0x0A then skip_line_comment js (json + 1) else Some json)"
  by pat_completeness auto
termination by (relation "measure (\<lambda>(js, json). length js - json)") (auto simp: rd_def split: if_splits)

function skip_block_comment :: "byte list \<Rightarrow> nat \<Rightarrow> nat option" where
  "skip_block_comment js json =
     (case rd js json of
        None \<Rightarrow> None
      | Some ch \<Rightarrow>
          if ch = 0 then Some (json + 2)
          else if ch = 0x2A
          then (case rd js (json + 1) of
                  None \<Rightarrow> None
                | Some ch' \<Rightarrow> if ch' = 0x2F then Some (json + 2) else skip_block_comment js (json + 1))
          else skip_block_comment js (json + 1))"
  by pat_completeness auto
termination by (relation "measure (\<lambda>(js, json). length js - json)") (auto simp: rd_def split: if_splits)

function minify_string :: "minify_state \<Rightarrow> minify_state option" where
  "minify_string (js, into, json) =
     (case rd js json of
        None \<Rightarrow> None
      | Some ch \<Rightarrow>
          if ch \<noteq> 0 \<and> ch \<noteq> 0x22
          then (case (if ch = 0x5C then copy_char (js, into, json) else Some (js, into, json)) of
                  None \<Rightarrow> None
                | Some s \<Rightarrow> (case copy_char s of None \<Rightarrow> None | Some s \<Rightarrow> minify_string s))
          else Some (js, into, json))"
  by pat_completeness auto
termination
  by (relation "measure (\<lambda>(js, into, json). length js - json)")
     (auto simp: rd_def split: if_splits dest!: copy_char_json)

declare skip_line_comment.simps [simp del] skip_block_comment.simps [simp del] minify_string.simps [simp del]

lemma minify_string_json: "minify_string (js, into, json) = Some (js', into', json') \<Longrightarrow> json \<le> json' \<and> length js' = length js"
proof (induction "(js, into, json)" arbitrary: js into json rule: minify_string.induct)
  case (1 js into json)
  show ?case
  proof (cases "\<exists>ch. rd js json = Some ch \<and> ch \<noteq> 0 \<and> ch \<noteq> 0x22")
    case False
    then show ?thesis using "1.prems" by (simp add: minify_string.simps [of js into json] split: option.splits if_splits)
  next
    case True
    then obtain ch where ch: "rd js json = Some ch" "ch \<noteq> 0 \<and> ch \<noteq> 0x22" by blast
    then obtain s b2 i2 j2 where s: "(if ch = 0x5C then copy_char (js, into, json) else Some (js, into, json)) = Some s"
      "copy_char s = Some (b2, i2, j2)" "minify_string (b2, i2, j2) = Some (js', into', json')"
      using "1.prems" by (simp add: minify_string.simps [of js into json] split: option.splits) (metis prod_cases3)
    obtain b1 i1 j1 where b1: "s = (b1, i1, j1)" by (cases s)
    have "json \<le> j1 \<and> length b1 = length js" using s(1) b1 by (auto split: if_splits dest!: copy_char_json)
    moreover have "j2 = j1 + 1 \<and> length b2 = length b1" using s(2) b1 by (auto dest!: copy_char_json)
    moreover have "j2 \<le> json' \<and> length js' = length b2" using 1(1) [OF ch s] by simp
    ultimately show ?thesis by simp
  qed
qed

lemma skip_line_ge: "skip_line_comment js json = Some j \<Longrightarrow> json \<le> j"
proof (induction js json rule: skip_line_comment.induct)
  case (1 js json)
  show ?case
    using "1.prems" "1.IH" by (simp add: skip_line_comment.simps [of js json] split: option.splits if_splits)
qed

lemma skip_block_gt: "skip_block_comment js json = Some j \<Longrightarrow> json + 2 \<le> j"
proof (induction js json rule: skip_block_comment.induct)
  case (1 js json)
  show ?case
    using "1.prems" by (auto simp: skip_block_comment.simps [of js json] split: option.splits if_splits dest: "1.IH")
qed

lemma skip_line_gt: "skip_line_comment js json = Some j \<Longrightarrow> rd js json = Some 0x2F \<Longrightarrow> json < j"
  using skip_line_ge [of js "json + 1" j] by (simp add: skip_line_comment.simps [of js json])

function minify_loop :: "minify_state \<Rightarrow> minify_state option" where
  "minify_loop (js, into, json) =
     (case rd js json of
        None \<Rightarrow> None
      | Some ch \<Rightarrow>
          if ch = 0 then Some (js, into, json)
          else if ch = 0x20 then minify_loop (js, into, json + 1)
          else if ch = 0x09 then minify_loop (js, into, json + 1)
          else if ch = 0x0D then minify_loop (js, into, json + 1)
          else if ch = 0x0A then minify_loop (js, into, json + 1)
          else if ch = 0x2F \<and> rd js (json + 1) = None then None
          else if ch = 0x2F \<and> rd js (json + 1) = Some 0x2F
          then (case skip_line_comment js json of
                  None \<Rightarrow> None
                | Some json' \<Rightarrow> minify_loop (js, into, json'))
          else if ch = 0x2F \<and> rd js (json + 1) = Some 0x2A
          then (case skip_block_comment js json of
                  None \<Rightarrow> None
                | Some json' \<Rightarrow> minify_loop (js, into, json'))
          else if ch = 0x22
          then (case copy_char (js, into, json) of
                  None \<Rightarrow> None
                | Some s \<Rightarrow>
                    (case minify_string s of
                       None \<Rightarrow> None
                     | Some s \<Rightarrow> (case copy_char s of None \<Rightarrow> None | Some s \<Rightarrow> minify_loop s)))
          else (case copy_char (js, into, json) of None \<Rightarrow> None | Some s \<Rightarrow> minify_loop s))"
  by pat_completeness auto
termination
  by (relation "measure (\<lambda>(js, into, json). length js - json)")
     (auto simp: rd_def split_paired_all split: if_splits
       dest!: copy_char_json minify_string_json skip_line_gt skip_block_gt)

declare minify_loop.simps [simp del]

definition cJSON_Minify :: "byte list option \<Rightarrow> byte list option option" where
  "cJSON_Minify text =
     (case text of
        None \<Rightarrow> Some None
      | Some js \<Rightarrow>
          (case minify_loop (js, 0, 0) of
             None \<Rightarrow> None
           | Some (js, into, json) \<Rightarrow> if into < length js then Some (Some (js[into := 0])) else None))"

lemma minify_loop_length: "minify_loop (js, into, json) = Some s' \<Longrightarrow> length (fst s') = length js"
proof (induction "(js, into, json)" arbitrary: js into json rule: minify_loop.induct)
  case (1 js into json)
  note step = minify_loop.simps [of js into json]
  show ?case
  proof (cases "rd js json")
    case None
    then show ?thesis using "1.prems" step by simp
  next
    case (Some ch)
    consider "ch = 0" | "ch \<in> {0x20, 0x09, 0x0D, 0x0A}" | "ch = 0x2F" "rd js (json + 1) = None"
      | "ch = 0x2F" "rd js (json + 1) = Some 0x2F" | "ch = 0x2F" "rd js (json + 1) = Some 0x2A" | "ch = 0x22"
      | "ch \<notin> {0, 0x20, 0x09, 0x0D, 0x0A, 0x22}" "\<not> (ch = 0x2F \<and> rd js (json + 1) \<in> {None, Some 0x2F, Some 0x2A})"
      by auto
    then show ?thesis
    proof cases
      case 2
      then show ?thesis using "1.prems" Some 1(1-4) step by auto
    next
      case 4
      then show ?thesis using "1.prems" Some 1(5) step by (simp split: option.splits)
    next
      case 5
      then show ?thesis using "1.prems" Some 1(6) step by (simp split: option.splits)
    next
      case 6
      then obtain s1 s2 b3 i3 j3 where s: "copy_char (js, into, json) = Some s1" "minify_string s1 = Some s2" "copy_char s2 = Some (b3, i3, j3)"
        "minify_loop (b3, i3, j3) = Some s'"
        using "1.prems" Some step by (simp split: option.splits) (metis prod_cases3)
      then have "length b3 = length js"
        by (metis copy_char_json minify_string_json prod_cases3)
      then show ?thesis using 1(7) [OF Some _ _ _ _ _ _ _ _ _ s(1-3)] s(4) 6 by simp
    next
      case 7
      then have "minify_loop (js, into, json) = (case copy_char (js, into, json) of None \<Rightarrow> None | Some s \<Rightarrow> minify_loop s)"
        unfolding step Some by auto
      then obtain b i j where s: "copy_char (js, into, json) = Some (b, i, j)" "minify_loop (b, i, j) = Some s'"
        using "1.prems" by (auto split: option.splits)
      then show ?thesis using 1(8) [OF Some _ _ _ _ _ _ _ _ _ s(1)] copy_char_json [OF s(1)] 7 by auto
    qed (use "1.prems" Some step in auto)
  qed
qed

section \<open>The text between the pointers\<close>

definition minview :: "minify_state \<Rightarrow> byte list \<Rightarrow> byte list \<Rightarrow> bool" where
  "minview s out rest \<longleftrightarrow> (case s of (js, into, json) \<Rightarrow> \<exists>mid. js = out @ mid @ rest \<and> into = length out \<and> json = length out + length mid)"

lemma minview_rd: "minview (js, into, json) out (c # rest) \<Longrightarrow> rd js json = Some c"
  by (auto simp: minview_def rd_def nth_append)

lemma minview_rd1: "minview (js, into, json) out (c # c' # rest) \<Longrightarrow> rd js (json + 1) = Some c'"
  by (auto simp: minview_def rd_def nth_append)

lemma minview_skip: "minview (js, into, json) out (c # rest) \<Longrightarrow> minview (js, into, json + 1) out rest"
proof -
  assume "minview (js, into, json) out (c # rest)"
  then obtain mid where "js = out @ mid @ c # rest" "into = length out" "json = length out + length mid"
    by (auto simp: minview_def)
  then show "minview (js, into, json + 1) out rest" by (auto simp: minview_def intro!: exI [of _ "mid @ [c]"])
qed

lemma minview_copy:
  assumes "minview (js, into, json) out (c # rest)"
  obtains js' where "copy_char (js, into, json) = Some (js', into + 1, json + 1)" "minview (js', into + 1, json + 1) (out @ [c]) rest"
proof -
  obtain mid where mid: "js = out @ mid @ c # rest" "into = length out" "json = length out + length mid"
    using assms by (auto simp: minview_def)
  have c: "js ! json = c" "json < length js" using mid by simp_all
  have "minview (js[into := c], into + 1, json + 1) (out @ [c]) rest"
  proof (cases mid)
    case Nil
    then show ?thesis using mid by (simp add: minview_def)
  next
    case (Cons x xs)
    then show ?thesis using mid by (simp add: minview_def list_update_append)
  qed
  then show ?thesis using c mid by (intro that [of "js[into := c]"]) (simp_all add: copy_char_def)
qed

lemma minify_ws:
  "\<forall>w\<in>set ws. w \<in> {0x20, 0x09, 0x0D, 0x0A} \<Longrightarrow> minview (js, into, json) out (ws @ rest) \<Longrightarrow>
    minify_loop (js, into, json) = minify_loop (js, into, json + length ws) \<and> minview (js, into, json + length ws) out rest"
proof (induction ws arbitrary: json)
  case (Cons w ws)
  have m: "minview (js, into, json + 1) out (ws @ rest)" using minview_skip Cons.prems(2) by simp
  have "minify_loop (js, into, json) = minify_loop (js, into, json + 1)"
    using Cons.prems minview_rd [of js into json out w "ws @ rest"] by (auto simp: minify_loop.simps [of js into json])
  then show ?case using Cons.IH [OF _ m] Cons.prems(1) by simp
qed simp

text \<open>Reading the text \<open>tx\<close> writes \<open>res\<close>, in any position.\<close>

definition mini :: "byte list \<Rightarrow> byte list \<Rightarrow> bool" where
  "mini tx res \<longleftrightarrow> (\<forall>s out rest. minview s out (tx @ rest) \<longrightarrow> (\<exists>s'. minify_loop s = minify_loop s' \<and> minview s' (out @ res) rest))"

lemma mini_append: "mini t1 r1 \<Longrightarrow> mini t2 r2 \<Longrightarrow> mini (t1 @ t2) (r1 @ r2)"
  unfolding mini_def by (metis append_assoc)

lemma mini_Nil: "mini [] []"
  unfolding mini_def by auto

lemma mini_ws: "\<forall>w\<in>set ws. w \<in> {0x20, 0x09, 0x0D, 0x0A} \<Longrightarrow> mini ws []"
  unfolding mini_def by (metis append_Nil2 minify_ws prod_cases3)

lemma mini_char:
  assumes "c \<notin> {0, 0x20, 0x09, 0x0D, 0x0A, 0x2F, 0x22}"
  shows "mini [c] [c]"
  unfolding mini_def
proof (intro allI impI)
  fix s out rest
  assume "minview s out ([c] @ rest)"
  moreover obtain js into json where s: "s = (js, into, json)" by (cases s)
  ultimately have v: "minview (js, into, json) out (c # rest)" by simp
  obtain js' where "copy_char (js, into, json) = Some (js', into + 1, json + 1)" "minview (js', into + 1, json + 1) (out @ [c]) rest"
    by (rule minview_copy [OF v])
  then show "\<exists>s'. minify_loop s = minify_loop s' \<and> minview s' (out @ [c]) rest"
    using assms minview_rd [OF v] by (auto simp: s minify_loop.simps [of js into json])
qed

lemma mini_chars: "\<forall>c\<in>set cs. c \<notin> {0, 0x20, 0x09, 0x0D, 0x0A, 0x2F, 0x22} \<Longrightarrow> mini cs cs"
proof (induction cs)
  case (Cons c cs)
  then show ?case using mini_append [of "[c]" "[c]" cs cs] mini_char by simp
qed (rule mini_Nil)

section \<open>Strings\<close>

definition mstr :: "byte list \<Rightarrow> bool" where
  "mstr tx \<longleftrightarrow> (\<forall>s out rest. minview s out (tx @ rest) \<longrightarrow> (\<exists>s'. minify_string s = minify_string s' \<and> minview s' (out @ tx) rest))"

lemma mstr_append: "mstr t1 \<Longrightarrow> mstr t2 \<Longrightarrow> mstr (t1 @ t2)"
  unfolding mstr_def by (metis append_assoc)

lemma mstr_Nil: "mstr []"
  unfolding mstr_def by auto

lemma mstr_plain:
  assumes "c \<noteq> 0" "c \<noteq> 0x22" "c \<noteq> 0x5C"
  shows "mstr [c]"
  unfolding mstr_def
proof (intro allI impI)
  fix s out rest
  assume "minview s out ([c] @ rest)"
  moreover obtain js into json where s: "s = (js, into, json)" by (cases s)
  ultimately have v: "minview (js, into, json) out (c # rest)" by simp
  obtain js' where "copy_char (js, into, json) = Some (js', into + 1, json + 1)" "minview (js', into + 1, json + 1) (out @ [c]) rest"
    by (rule minview_copy [OF v])
  then show "\<exists>s'. minify_string s = minify_string s' \<and> minview s' (out @ [c]) rest"
    using assms minview_rd [OF v] by (auto simp: s minify_string.simps [of js into json])
qed

lemma mstr_escape: "mstr [0x5C, x]"
  unfolding mstr_def
proof (intro allI impI)
  fix s out rest
  assume "minview s out ([0x5C, x] @ rest)"
  moreover obtain js into json where s: "s = (js, into, json)" by (cases s)
  ultimately have v: "minview (js, into, json) out (0x5C # x # rest)" by simp
  obtain js1 where c1: "copy_char (js, into, json) = Some (js1, into + 1, json + 1)" "minview (js1, into + 1, json + 1) (out @ [0x5C]) (x # rest)"
    by (rule minview_copy [OF v])
  obtain js2 where "copy_char (js1, into + 1, json + 1) = Some (js2, into + 1 + 1, json + 1 + 1)"
    "minview (js2, into + 1 + 1, json + 1 + 1) ((out @ [0x5C]) @ [x]) rest"
    by (rule minview_copy [OF c1(2)])
  then show "\<exists>s'. minify_string s = minify_string s' \<and> minview s' (out @ [0x5C, x]) rest"
    using c1(1) minview_rd [OF v] by (auto simp: s minify_string.simps [of js into json])
qed

lemma mstr_chars: "\<forall>c\<in>set cs. c \<noteq> 0 \<and> c \<noteq> 0x22 \<and> c \<noteq> 0x5C \<Longrightarrow> mstr cs"
proof (induction cs)
  case (Cons c cs)
  then show ?case using mstr_append [of "[c]" cs] mstr_plain by simp
qed (rule mstr_Nil)

lemma hex4_nonzero: "0 \<notin> set (hex4 n)"
  by (auto simp: hex4_def) (metis hex_char_nonzero mod_less_divisor zero_less_numeral)+

lemma mstr_esc: "c \<noteq> 0 \<Longrightarrow> mstr (esc_byte c)"
proof (cases c rule: esc_byte_cases)
  case hex
  then show ?thesis
    using mstr_append [OF mstr_escape [of "0x75"] mstr_chars [of "hex4 (unat c)"]] hex4_not [of _ "unat c"] hex4_nonzero [of "unat c"] by force
qed (auto intro: mstr_plain mstr_escape)

lemma mstr_escs: "0 \<notin> set cs \<Longrightarrow> mstr (concat (map esc_byte cs))"
  by (induction cs) (simp_all add: mstr_Nil mstr_append mstr_esc)

lemma mini_string: "mstr tx \<Longrightarrow> mini (0x22 # tx @ [0x22]) (0x22 # tx @ [0x22])"
  unfolding mini_def
proof (intro allI impI)
  fix s out rest
  assume tx: "mstr tx" and "minview s out ((0x22 # tx @ [0x22]) @ rest)"
  moreover obtain js into json where s: "s = (js, into, json)" by (cases s)
  ultimately have v: "minview (js, into, json) out (0x22 # tx @ 0x22 # rest)" by simp
  obtain js1 where c1: "copy_char (js, into, json) = Some (js1, into + 1, json + 1)" "minview (js1, into + 1, json + 1) (out @ [0x22]) (tx @ 0x22 # rest)"
    by (rule minview_copy [OF v])
  then obtain a b c where s2: "minify_string (js1, into + 1, json + 1) = minify_string (a, b, c)" "minview (a, b, c) ((out @ [0x22]) @ tx) (0x22 # rest)"
    using tx unfolding mstr_def by (metis prod_cases3)
  have str: "minify_string (js1, into + 1, json + 1) = Some (a, b, c)"
    unfolding s2(1) using minview_rd [OF s2(2)] by (simp add: minify_string.simps [of a b c])
  obtain js3 where "copy_char (a, b, c) = Some (js3, b + 1, c + 1)" "minview (js3, b + 1, c + 1) (((out @ [0x22]) @ tx) @ [0x22]) rest"
    by (rule minview_copy [OF s2(2)])
  then show "\<exists>s'. minify_loop s = minify_loop s' \<and> minview s' (out @ 0x22 # tx @ [0x22]) rest"
    using c1(1) str minview_rd [OF v] by (auto simp: s minify_loop.simps [of js into json])
qed

lemma mini_render_string: "mini (render_string s) (render_string s)"
proof (cases s)
  case None
  then show ?thesis using mini_string [OF mstr_Nil] by (simp add: render_string_def)
next
  case (Some bytes)
  have "0 \<notin> set (takeWhile (\<lambda>c. c \<noteq> 0) bytes)" by (auto dest: set_takeWhileD)
  from mini_string [OF mstr_escs [OF this]] Some show ?thesis by (simp add: render_string_def)
qed

section \<open>Formatted text\<close>

lemma mini_elements: "list_all2 mini ts us \<Longrightarrow> mini (join_elements True ts) (join_elements False us)"
proof (induction ts us rule: list_all2_induct)
  case (Cons t ts u us)
  have "mini [0x2C, 0x20] [0x2C]" using mini_append [OF mini_chars [of "[0x2C]"] mini_ws [of "[0x20]"]] by simp
  then show ?case
    using Cons mini_append [of t u "[0x2C, 0x20] @ join_elements True ts" "[0x2C] @ join_elements False us"]
      mini_append [of "[0x2C, 0x20]" "[0x2C]" "join_elements True ts" "join_elements False us"]
    by (cases ts; cases us) auto
qed (simp add: mini_Nil)

lemma mini_members:
  "list_all2 (\<lambda>(k, t) (k', u). k = k' \<and> mini t u) ms ns \<Longrightarrow> mini (join_members True d ms) (join_members False e ns)"
proof (induction ms ns rule: list_all2_induct)
  case (Cons m ms n ns)
  obtain k t u where mn: "m = (k, t)" "n = (k, u)" "mini t u" using Cons by (cases m; cases n) auto
  have e: "ms = [] \<longleftrightarrow> ns = []" using Cons(2) by auto
  have ind: "mini (replicate d 0x09) []" by (rule mini_ws) simp
  have col: "mini [0x3A, 0x09] [0x3A]" using mini_append [OF mini_chars [of "[0x3A]"] mini_ws [of "[0x09]"]] by simp
  have com: "mini (if ms \<noteq> [] then [0x2C] else []) (if ns \<noteq> [] then [0x2C] else [])"
    using mini_chars [of "[0x2C]"] mini_Nil by (simp add: e)
  have new: "mini [0x0A] []" by (rule mini_ws) simp
  show ?case
    using mini_append [OF ind mini_append [OF mini_render_string [of k] mini_append [OF col mini_append [OF mn(3)
      mini_append [OF com mini_append [OF new Cons.IH]]]]]]
    by (simp add: mn)
qed (simp add: mini_Nil)

lemma number_char_plain: "number_char c \<Longrightarrow> c \<notin> {0, 0x20, 0x09, 0x0D, 0x0A, 0x2F, 0x22}"
  by (auto simp: number_char_def)

lemma mini_render:
  "json_ok E k t \<Longrightarrow> clean E t \<Longrightarrow> mini (render E True d t) (render E False e t)"
proof (induction t arbitrary: k d e)
  case (CJSON ty vs vi vd nm ch)
  show ?case
    using CJSON.prems(1)
  proof (cases rule: json_ok_cases)
    case num
    then have "mini (render_number E vd) (render_number E vd)"
      using CJSON.prems(2) number_char_plain by (intro mini_chars) (auto simp: number_reads_def list_all_iff)
    then show ?thesis using num by (simp add: render_unfold)
  next
    case (str s)
    then show ?thesis using mini_render_string by (simp add: render_unfold)
  next
    case arr
    have "mini (render E True (Suc d) c) (render E False (Suc e) c)" if "c \<in> set ch" for c
      using CJSON.IH [OF that, of "k - 1"] arr(6) [OF that] CJSON.prems(2) that by auto
    then have "list_all2 mini (map (render E True (Suc d)) ch) (map (render E False (Suc e)) ch)"
      by (auto simp: list_all2_conv_all_nth)
    from mini_append [OF mini_chars [of "[0x5B]"] mini_append [OF mini_elements [OF this] mini_chars [of "[0x5D]"]]] arr show ?thesis
      by (simp add: render_unfold)
  next
    case obj
    have "mini (render E True (Suc d) c) (render E False (Suc e) c)" if "c \<in> set ch" for c
      using CJSON.IH [OF that, of "k - 1"] obj(6) [OF that] CJSON.prems(2) that by auto
    then have l: "list_all2 (\<lambda>(k, t) (k', u). k = k' \<and> mini t u) (map (\<lambda>c. (name c, render E True (Suc d) c)) ch)
        (map (\<lambda>c. (name c, render E False (Suc e) c)) ch)"
      by (auto simp: list_all2_conv_all_nth)
    have op: "mini [0x7B, 0x0A] [0x7B]" using mini_append [OF mini_chars [of "[0x7B]"] mini_ws [of "[0x0A]"]] by simp
    have cl: "mini (replicate d 0x09 @ [0x7D]) [0x7D]"
      using mini_append [OF mini_ws [of "replicate d 0x09"] mini_chars [of "[0x7D]"]] by simp
    show ?thesis using mini_append [OF op mini_append [OF mini_members [OF l] cl]] obj by (simp add: render_unfold)
  qed (use mini_chars in \<open>simp_all add: render_unfold\<close>)
qed

section \<open>Any text\<close>

text \<open>
  What minifying a text without its terminator should give: \<open>close_comment\<close> is the rest of the text behind the first
  \<^verbatim>\<open>*/\<close>, \<open>close_string\<close> splits off the contents of a string literal and \<open>minified\<close> is the remaining text;
  None is a comment or a string that the text does not close. The star that opens a comment may also close it.
\<close>

fun close_comment :: "byte list \<Rightarrow> byte list option" where
  "close_comment (c # d # rest) = (if c = 0x2A \<and> d = 0x2F then Some rest else close_comment (d # rest))"
| "close_comment [c] = None"
| "close_comment [] = None"

fun close_string :: "byte list \<Rightarrow> (byte list \<times> byte list) option" where
  "close_string [] = None"
| "close_string (c # rest) =
     (if c = 0x22 then Some ([], rest)
      else if c = 0x5C then (case rest of [] \<Rightarrow> None | d # rest' \<Rightarrow> map_option (apfst (\<lambda>t. c # d # t)) (close_string rest'))
      else map_option (apfst (Cons c)) (close_string rest))"

lemma close_comment_length: "close_comment tx = Some q \<Longrightarrow> length q < length tx"
  by (induction tx rule: close_comment.induct) (auto split: if_splits)

lemma close_string_length: "close_string tx = Some (t, q) \<Longrightarrow> length q < length tx"
  by (induction tx arbitrary: t q rule: close_string.induct) (fastforce split: if_splits list.splits)+

function minified :: "byte list \<Rightarrow> byte list option" where
  "minified [] = Some []"
| "minified (c # rest) =
     (if c \<in> {0x20, 0x09, 0x0D, 0x0A} then minified rest
      else if c = 0x2F \<and> take 1 rest = [0x2F] then minified (dropWhile (\<lambda>c. c \<noteq> 0x0A) rest)
      else if c = 0x2F \<and> take 1 rest = [0x2A] then (case close_comment rest of None \<Rightarrow> None | Some q \<Rightarrow> minified q)
      else if c = 0x22 then (case close_string rest of None \<Rightarrow> None | Some (t, q) \<Rightarrow> map_option ((@) (0x22 # t @ [0x22])) (minified q))
      else map_option (Cons c) (minified rest))"
  by pat_completeness auto
termination
  by (relation "measure length") (auto dest: close_comment_length close_string_length intro: le_imp_less_Suc length_dropWhile_le)

declare minified.simps(2) [simp del]

lemma close_comment_set: "close_comment tx = Some q \<Longrightarrow> set q \<subseteq> set tx"
  by (induction tx rule: close_comment.induct) (auto split: if_splits)

lemma close_string_set: "close_string tx = Some (t, q) \<Longrightarrow> set t \<subseteq> set tx \<and> set q \<subseteq> set tx"
  by (induction tx arbitrary: t q rule: close_string.induct) (fastforce split: if_splits list.splits)+

lemma minified_set: "minified tx = Some res \<Longrightarrow> set res \<subseteq> set tx"
proof (induction tx arbitrary: res rule: minified.induct)
  case (2 c rest)
  then show ?case
    by (auto simp: minified.simps(2) [of c rest] split: if_splits option.splits
        dest: set_dropWhileD dest!: close_comment_set close_string_set) blast+
qed simp

lemma skip_line_view:
  "minview (js, into, json) out (tx @ [0]) \<Longrightarrow> 0 \<notin> set tx \<Longrightarrow>
    \<exists>j. skip_line_comment js json = Some j \<and> minview (js, into, j) out (dropWhile (\<lambda>c. c \<noteq> 0x0A) tx @ [0])"
proof (induction tx arbitrary: json)
  case Nil
  then show ?case using minview_rd by (auto simp: skip_line_comment.simps [of js json])
next
  case (Cons c tx)
  then have "minview (js, into, json) out (c # tx @ [0])" by simp
  from minview_rd [OF this] minview_skip [OF this] Cons show ?case by (auto simp: skip_line_comment.simps [of js json])
qed

lemma skip_block_view:
  "minview (js, into, json) out (tx @ [0]) \<Longrightarrow> 0 \<notin> set tx \<Longrightarrow>
    (case close_comment tx of
       None \<Rightarrow> skip_block_comment js json = Some (length js + 1)
     | Some q \<Rightarrow> \<exists>j. skip_block_comment js json = Some j \<and> minview (js, into, j) out (q @ [0]))"
proof (induction tx arbitrary: json rule: close_comment.induct)
  case (1 c d rest)
  then have v: "minview (js, into, json) out (c # d # rest @ [0])" by simp
  have v1: "minview (js, into, json + 1) out (d # rest @ [0])" and v2: "minview (js, into, json + 1 + 1) out (rest @ [0])"
    using minview_skip [OF v] minview_skip by blast+
  show ?case
  proof (cases "c = 0x2A \<and> d = 0x2F")
    case True
    then show ?thesis using minview_rd [OF v] minview_rd1 [OF v] v2 by (simp add: skip_block_comment.simps [of js json])
  next
    case False
    moreover have "c \<noteq> 0" using 1(3) by auto
    ultimately have "skip_block_comment js json = skip_block_comment js (json + 1)"
      using minview_rd [OF v] minview_rd1 [OF v] by (auto simp: skip_block_comment.simps [of js json])
    moreover have "minview (js, into, json + 1) out ((d # rest) @ [0])" "0 \<notin> set (d # rest)" using v1 1(3) by simp_all
    moreover have "close_comment (c # d # rest) = close_comment (d # rest)" using False by auto
    ultimately show ?thesis using 1(1) [OF False, of "json + 1"] by (simp del: close_comment.simps split: option.splits)
  qed
next
  case (2 c)
  then have v: "minview (js, into, json) out (c # 0 # [])" by simp
  then have "rd js (json + 1) = Some 0" "length js = json + 2" using minview_rd1 by (auto simp: minview_def)
  moreover have "c \<noteq> 0" using 2 by auto
  ultimately show ?case using minview_rd [OF v]
    by (simp add: skip_block_comment.simps [of js json] skip_block_comment.simps [of js "Suc json"])
next
  case 3
  then have "rd js json = Some 0" "length js = json + 1" using minview_rd by (auto simp: minview_def)
  then show ?case by (simp add: skip_block_comment.simps [of js json])
qed

lemma copy_end:
  assumes "minview (js, into, json) out [0]"
  obtains js' where "copy_char (js, into, json) = Some (js', into + 1, json + 1)" "rd js' (json + 1) = None"
proof -
  obtain js' where "copy_char (js, into, json) = Some (js', into + 1, json + 1)" "minview (js', into + 1, json + 1) (out @ [0]) []"
    using assms by (rule minview_copy)
  then show thesis by (intro that [of js']) (auto simp: minview_def rd_def)
qed

lemma string_copy:
  assumes "minview (js, into, json) out (c # rest)" and "c \<noteq> 0" "c \<noteq> 0x22" "c \<noteq> 0x5C"
  obtains s' where "minify_string (js, into, json) = minify_string s'" "minview s' (out @ [c]) rest"
  using mstr_plain [OF assms(2-4)] assms(1) unfolding mstr_def by (metis append_Cons append_Nil)

lemma string_view:
  "minview s out (tx @ [0]) \<Longrightarrow> 0 \<notin> set tx \<Longrightarrow>
    (case close_string tx of
       None \<Rightarrow> minify_string s = None \<or> (\<exists>s' out'. minify_string s = Some s' \<and> minview s' out' [0])
     | Some (t, q) \<Rightarrow> \<exists>s'. minify_string s = Some s' \<and> minview s' (out @ t) (0x22 # q @ [0]))"
proof (induction tx arbitrary: s out rule: close_string.induct)
  case 1
  obtain js into json where s: "s = (js, into, json)" by (cases s)
  then show ?case using 1 minview_rd [of js into json out 0 "[]"] by (auto simp: minify_string.simps [of js into json])
next
  case (2 c rest)
  obtain js into json where s: "s = (js, into, json)" by (cases s)
  have v: "minview (js, into, json) out (c # rest @ [0])" using 2(3) by (simp add: s)
  consider "c = 0x22" | "c = 0x5C" "rest = []" | d tx' where "c = 0x5C" "rest = d # tx'" | "c \<noteq> 0x22" "c \<noteq> 0x5C"
    by (cases rest) auto
  then show ?case
  proof cases
    case 1
    then show ?thesis using minview_rd [OF v] v by (auto simp: s minify_string.simps [of js into json])
  next
    case 2
    obtain js1 where c1: "copy_char (js, into, json) = Some (js1, into + 1, json + 1)" "minview (js1, into + 1, json + 1) (out @ [c]) [0]"
      using minview_copy [OF v] 2 by auto
    obtain js2 where "copy_char (js1, into + 1, json + 1) = Some (js2, into + 1 + 1, json + 1 + 1)" "rd js2 (json + 1 + 1) = None"
      by (rule copy_end [OF c1(2)])
    then have "minify_string s = None"
      using c1(1) 2 minview_rd [OF v]
      by (simp add: s minify_string.simps [of js into json] minify_string.simps [of js2 "Suc (Suc into)" "Suc (Suc json)"])
    then show ?thesis using 2 by simp
  next
    case 3
    have "minview s out ([0x5C, d] @ tx' @ [0])" using 2(3) 3 by simp
    then obtain s' where s': "minify_string s = minify_string s'" "minview s' (out @ [0x5C, d]) (tx' @ [0])"
      using mstr_escape [of d] unfolding mstr_def by blast
    then show ?thesis
      using 2(1) [OF _ _ 3(2), of s' "out @ [0x5C, d]"] 2(4) 3 by (auto split: option.splits)
  next
    case 4
    obtain s' where s': "minify_string s = minify_string s'" "minview s' (out @ [c]) (rest @ [0])"
      using string_copy [OF v] 4 2(4) by (auto simp: s)
    then show ?thesis
      using 2(2) [OF 4 s'(2)] 2(4) 4 by (auto split: option.splits)
  qed
qed

lemma minify_end: "rd js json = None \<Longrightarrow> minify_loop (js, into, json) = None"
  by (simp add: minify_loop.simps)

lemma hd_terminated: "x \<noteq> 0 \<Longrightarrow> hd (rest @ [0]) = x \<longleftrightarrow> take 1 rest = [x]"
  by (cases rest) auto

lemma minview_rd_next: "minview (js, into, json) out (c # rest @ [0]) \<Longrightarrow> rd js (json + 1) = Some (hd (rest @ [0]))"
  by (cases rest) (auto dest: minview_rd1)

definition minify_ends :: "minify_state \<Rightarrow> byte list \<Rightarrow> byte list option \<Rightarrow> bool" where
  "minify_ends s out r \<longleftrightarrow>
     (case r of None \<Rightarrow> minify_loop s = None | Some res \<Rightarrow> \<exists>s'. minify_loop s = Some s' \<and> minview s' (out @ res) [0])"

lemma minify_ends_step:
  "minify_loop s = minify_loop s' \<Longrightarrow> minify_ends s' (out @ pre) r \<Longrightarrow> minify_ends s out (map_option ((@) pre) r)"
  by (cases r) (simp_all add: minify_ends_def)

lemma minify_ends_skip: "minify_loop s = minify_loop s' \<Longrightarrow> minify_ends s' out r \<Longrightarrow> minify_ends s out r"
  by (cases r) (simp_all add: minify_ends_def)

lemma loop_line:
  assumes "minview s out (0x2F # rest @ [0])" and "0 \<notin> set rest" and "take 1 rest = [0x2F]"
  obtains s' where "minify_loop s = minify_loop s'" "minview s' out (dropWhile (\<lambda>c. c \<noteq> 0x0A) rest @ [0])"
proof -
  obtain js into json where s: "s = (js, into, json)" by (cases s)
  note v = assms(1) [unfolded s]
  have h: "hd (rest @ [0]) = 0x2F" using assms(3) by (cases rest) auto
  obtain j where j: "skip_line_comment js json = Some j" "minview (js, into, j) out (dropWhile (\<lambda>c. c \<noteq> 0x0A) rest @ [0])"
    using skip_line_view [of js into json out "0x2F # rest"] v assms(2) by auto
  then have "minify_loop s = minify_loop (js, into, j)"
    using minview_rd [OF v] minview_rd_next [OF v] h by (simp add: s minify_loop.simps [of js into json])
  then show thesis using j(2) by (rule that)
qed

lemma loop_block:
  assumes "minview s out (0x2F # rest @ [0])" and "0 \<notin> set rest" and "take 1 rest = [0x2A]"
  shows "case close_comment rest of
      None \<Rightarrow> minify_loop s = None
    | Some q \<Rightarrow> \<exists>s'. minify_loop s = minify_loop s' \<and> minview s' out (q @ [0])"
proof -
  obtain js into json where s: "s = (js, into, json)" by (cases s)
  note v = assms(1) [unfolded s]
  have h: "hd (rest @ [0]) = 0x2A" using assms(3) by (cases rest) auto
  have cc: "close_comment (0x2F # rest) = close_comment rest" using assms(3) by (cases rest) auto
  have sk: "case close_comment rest of
      None \<Rightarrow> skip_block_comment js json = Some (length js + 1)
    | Some q \<Rightarrow> \<exists>j. skip_block_comment js json = Some j \<and> minview (js, into, j) out (q @ [0])"
    using skip_block_view [of js into json out "0x2F # rest"] v assms(2) by (simp add: cc)
  have loop: "minify_loop s = (case skip_block_comment js json of None \<Rightarrow> None | Some j \<Rightarrow> minify_loop (js, into, j))"
    using minview_rd [OF v] minview_rd_next [OF v] h by (simp add: s minify_loop.simps [of js into json])
  show ?thesis
    using sk loop minify_end [of js "length js + 1" into] by (auto simp: rd_def split: option.splits)
qed

lemma loop_string:
  assumes "minview s out (0x22 # rest @ [0])" and "0 \<notin> set rest"
  shows "case close_string rest of
      None \<Rightarrow> minify_loop s = None
    | Some (t, q) \<Rightarrow> \<exists>s'. minify_loop s = minify_loop s' \<and> minview s' (out @ 0x22 # t @ [0x22]) (q @ [0])"
proof -
  obtain js into json where s: "s = (js, into, json)" by (cases s)
  note v = assms(1) [unfolded s]
  obtain js1 where c1: "copy_char (js, into, json) = Some (js1, into + 1, json + 1)" "minview (js1, into + 1, json + 1) (out @ [0x22]) (rest @ [0])"
    using v by (rule minview_copy)
  let ?str = "minify_string (js1, into + 1, json + 1)"
  have loop: "minify_loop s = (case ?str of None \<Rightarrow> None | Some s \<Rightarrow> (case copy_char s of None \<Rightarrow> None | Some s \<Rightarrow> minify_loop s))"
    using minview_rd [OF v] c1(1) by (simp add: s minify_loop.simps [of js into json])
  note sv = string_view [OF c1(2) assms(2)]
  show ?thesis
  proof (cases "close_string rest")
    case None
    have "minify_loop s = None"
    proof (cases ?str)
      case (Some s2)
      then obtain a b d out' where s2: "s2 = (a, b, d)" "minview (a, b, d) out' [0]" using sv None by (cases s2) auto
      obtain js3 where "copy_char s2 = Some (js3, b + 1, d + 1)" "rd js3 (d + 1) = None" using copy_end [OF s2(2)] s2(1) by blast
      then show ?thesis using loop Some minify_end by simp
    qed (simp add: loop)
    then show ?thesis by (simp add: None)
  next
    case (Some tq)
    obtain t q where tq: "tq = (t, q)" by (cases tq)
    obtain a b d where s2: "?str = Some (a, b, d)" "minview (a, b, d) ((out @ [0x22]) @ t) (0x22 # q @ [0])"
      using sv by (auto simp: Some tq)
    obtain js3 where s3: "copy_char (a, b, d) = Some (js3, b + 1, d + 1)" "minview (js3, b + 1, d + 1) (((out @ [0x22]) @ t) @ [0x22]) (q @ [0])"
      using s2(2) by (rule minview_copy)
    have "minify_loop s = minify_loop (js3, b + 1, d + 1)" using loop s2(1) s3(1) by simp
    then show ?thesis using s3(2) by (auto simp: Some tq)
  qed
qed

lemma loop_plain:
  assumes "minview s out (c # rest @ [0])" and "c \<notin> {0, 0x20, 0x09, 0x0D, 0x0A, 0x22}"
    and "\<not> (c = 0x2F \<and> take 1 rest = [0x2F])" "\<not> (c = 0x2F \<and> take 1 rest = [0x2A])"
  obtains s' where "minify_loop s = minify_loop s'" "minview s' (out @ [c]) (rest @ [0])"
proof -
  obtain js into json where s: "s = (js, into, json)" by (cases s)
  note v = assms(1) [unfolded s]
  obtain js1 where c1: "copy_char (js, into, json) = Some (js1, into + 1, json + 1)" "minview (js1, into + 1, json + 1) (out @ [c]) (rest @ [0])"
    using v by (rule minview_copy)
  have h: "\<not> (c = 0x2F \<and> hd (rest @ [0]) \<in> {0x2F, 0x2A})" using assms(3,4) by (auto simp: hd_terminated)
  have "minify_loop s = minify_loop (js1, into + 1, json + 1)"
    using assms(2) h minview_rd [OF v] minview_rd_next [OF v] c1(1) by (auto simp: s minify_loop.simps [of js into json])
  then show thesis using c1(2) by (rule that)
qed

lemma minified_view: "minview s out (tx @ [0]) \<Longrightarrow> 0 \<notin> set tx \<Longrightarrow> minify_ends s out (minified tx)"
proof (induction tx arbitrary: s out rule: minified.induct)
  case 1
  obtain js into json where s: "s = (js, into, json)" by (cases s)
  then show ?case using 1 minview_rd [of js into json out 0 "[]"] by (auto simp: minify_ends_def minify_loop.simps [of js into json])
next
  case (2 c rest)
  obtain js into json where s: "s = (js, into, json)" by (cases s)
  have v: "minview s out (c # rest @ [0])" and n: "c \<noteq> 0" "0 \<notin> set rest" using 2(6,7) by auto
  note mini = minified.simps(2) [of c rest]
  consider (ws) "c \<in> {0x20, 0x09, 0x0D, 0x0A}" | (line) "c = 0x2F" "take 1 rest = [0x2F]" | (block) "c = 0x2F" "take 1 rest = [0x2A]"
    | (str) "c = 0x22" | (plain) "c \<notin> {0x20, 0x09, 0x0D, 0x0A}" "\<not> (c = 0x2F \<and> take 1 rest = [0x2F])" "\<not> (c = 0x2F \<and> take 1 rest = [0x2A])" "c \<noteq> 0x22"
    by blast
  then show ?case
  proof cases
    case ws
    have "minify_loop s = minify_loop (js, into, json + 1)" using ws minview_rd [OF v [unfolded s]] by (auto simp: s minify_loop.simps [of js into json])
    moreover have "minified (c # rest) = minified rest" using ws by (simp add: mini)
    ultimately show ?thesis using 2(1) [OF ws minview_skip [OF v [unfolded s]] n(2)] minify_ends_skip by metis
  next
    case line
    have "minified (c # rest) = minified (dropWhile (\<lambda>c. c \<noteq> 0x0A) rest)" unfolding mini using line by simp
    moreover have "0 \<notin> set (dropWhile (\<lambda>c. c \<noteq> 0x0A) rest)" using n(2) set_dropWhileD by fast
    moreover have "c \<notin> {0x20, 0x09, 0x0D, 0x0A}" using line by simp
    ultimately show ?thesis using 2(2) line loop_line [OF v [unfolded line(1)] n(2) line(2)] minify_ends_skip by metis
  next
    case block
    have c: "c \<notin> {0x20, 0x09, 0x0D, 0x0A}" "\<not> (c = 0x2F \<and> take 1 rest = [0x2F])" using block by simp_all
    have m: "minified (c # rest) = (case close_comment rest of None \<Rightarrow> None | Some q \<Rightarrow> minified q)" unfolding mini using block by simp
    note l = loop_block [OF v [unfolded block(1)] n(2) block(2)]
    show ?thesis
    proof (cases "close_comment rest")
      case None
      then show ?thesis using l by (simp add: m minify_ends_def)
    next
      case (Some q)
      then obtain s' where s': "minify_loop s = minify_loop s'" "minview s' out (q @ [0])" using l by auto
      have "0 \<notin> set q" using close_comment_set [OF Some] n(2) by blast
      then have "minify_ends s' out (minified q)" using 2(3) [OF c conjI [OF block] Some s'(2)] by simp
      then show ?thesis using minify_ends_skip [OF s'(1)] by (simp add: m Some)
    qed
  next
    case str
    have c: "c \<notin> {0x20, 0x09, 0x0D, 0x0A}" "\<not> (c = 0x2F \<and> take 1 rest = [0x2F])" "\<not> (c = 0x2F \<and> take 1 rest = [0x2A])" using str by simp_all
    note l = loop_string [OF v [unfolded str] n(2)]
    show ?thesis
    proof (cases "close_string rest")
      case None
      then have "minified (c # rest) = None" unfolding mini using str by simp
      then show ?thesis using l None by (simp add: minify_ends_def)
    next
      case (Some tq)
      obtain t q where tq: "tq = (t, q)" by (cases tq)
      obtain s' where s': "minify_loop s = minify_loop s'" "minview s' (out @ 0x22 # t @ [0x22]) (q @ [0])" using l by (auto simp: Some tq)
      have "0 \<notin> set q" using close_string_set [of rest t q] Some n(2) by (auto simp: tq)
      then have "minify_ends s' (out @ 0x22 # t @ [0x22]) (minified q)" using 2(4) [OF c str Some tq [symmetric] s'(2)] by simp
      moreover have "minified (c # rest) = map_option ((@) (0x22 # t @ [0x22])) (minified q)" unfolding mini using Some str by (simp add: tq)
      ultimately show ?thesis using minify_ends_step [OF s'(1)] by metis
    qed
  next
    case plain
    have "c \<notin> {0, 0x20, 0x09, 0x0D, 0x0A, 0x22}" using plain(1,4) n(1) by simp
    from v this plain(2,3) obtain s' where s': "minify_loop s = minify_loop s'" "minview s' (out @ [c]) (rest @ [0])"
      by (rule loop_plain)
    have "(@) [c] = Cons c" by auto
    then have "minified (c # rest) = map_option ((@) [c]) (minified rest)" unfolding mini using plain by auto
    then show ?thesis using minify_ends_step [OF s'(1) 2(5) [OF plain s'(2) n(2)]] by simp
  qed
qed

lemma minview_init: "minview (js, 0, 0) [] js"
  by (simp add: minview_def)

section \<open>Properties\<close>

text \<open>
  C18. Minifying the formatted text of a tree, in place, stays within the buffer and leaves exactly
  the text that \<^verbatim>\<open>cJSON_PrintUnformatted\<close> prints for the tree: whitespace inside strings is kept,
  all other whitespace goes.
\<close>

theorem minify_formatted:
  assumes "json_ok E k t" and "clean E t"
  shows "\<exists>js. cJSON_Minify (Some (render E True 0 t @ 0 # tail)) = Some (Some js) \<and>
    length js = length (render E True 0 t @ 0 # tail) \<and> takeWhile (\<lambda>c. c \<noteq> 0) js = render E False 0 t"
proof -
  let ?s = "render E True 0 t @ 0 # tail"
  obtain js into json where s: "minify_loop (?s, 0, 0) = minify_loop (js, into, json)" "minview (js, into, json) (render E False 0 t) (0 # tail)"
    using mini_render [OF assms, of 0 0] minview_init [of ?s] unfolding mini_def by (metis append_Nil prod_cases3)
  obtain mid where mid: "js = render E False 0 t @ mid @ 0 # tail" "into = length (render E False 0 t)"
    using s(2) by (auto simp: minview_def)
  have "minify_loop (?s, 0, 0) = Some (js, into, json)"
    using minview_rd [OF s(2)] by (simp add: s(1) minify_loop.simps [of js into json])
  moreover have "length js = length ?s"
    using minify_loop_length [OF calculation] by simp
  moreover have "\<exists>ys. js[into := 0] = render E False 0 t @ 0 # ys"
    by (cases mid) (simp_all add: mid)
  ultimately show ?thesis
    using takeWhile_zero [OF render_nonzero [OF clean_printable [OF assms]]] mid by (auto simp: cJSON_Minify_def)
qed

theorem minify_formatted_witness:
  "\<exists>js. cJSON_Minify (Some (render int_env True 0 example_tree @ 0 # [])) = Some (Some js) \<and>
    length js = length (render int_env True 0 example_tree @ 0 # []) \<and> takeWhile (\<lambda>c. c \<noteq> 0) js = render int_env False 0 example_tree"
  by (rule minify_formatted [OF example_clean(1,3)])

text \<open>
  C19. What \<^verbatim>\<open>cJSON_Minify\<close> does to any text: when every comment and every string is closed, it stays in its
  buffer and leaves the text without whitespace outside strings and without comments (a line comment ends at the end of the text, too);
  when a block comment or a string is not closed, it always reads behind the terminator.
\<close>

theorem minify_text:
  assumes "0 \<notin> set tx"
  shows "case minified tx of
      None \<Rightarrow> cJSON_Minify (Some (tx @ [0])) = None
    | Some res \<Rightarrow> \<exists>js. cJSON_Minify (Some (tx @ [0])) = Some (Some js) \<and> length js = length tx + 1 \<and> takeWhile (\<lambda>c. c \<noteq> 0) js = res"
proof -
  note m = minified_view [OF minview_init [of "tx @ [0]"] assms, unfolded minify_ends_def]
  show ?thesis
  proof (cases "minified tx")
    case None
    then show ?thesis using m by (simp add: cJSON_Minify_def)
  next
    case (Some res)
    then obtain js into json where s: "minify_loop (tx @ [0], 0, 0) = Some (js, into, json)" "minview (js, into, json) res [0]"
      using m by auto
    then obtain mid where mid: "js = res @ mid @ [0]" "into = length res" by (auto simp: minview_def)
    have "\<exists>ys. js[into := 0] = res @ 0 # ys" by (cases mid) (simp_all add: mid)
    moreover have "0 \<notin> set res" using minified_set [OF Some] assms by auto
    ultimately show ?thesis
      using s(1) mid minify_loop_length [OF s(1)] by (auto simp: Some cJSON_Minify_def takeWhile_zero)
  qed
qed

theorem minify_text_witness:
  "(\<exists>js. cJSON_Minify (Some ([0x2F, 0x2A, 0x2F, 0x20, 0x22, 0x20, 0x22, 0x2F, 0x2F, 0x20] @ [0])) = Some (Some js) \<and>
      length js = length [0x2F, 0x2A, 0x2F, 0x20, 0x22, 0x20, 0x22, 0x2F, 0x2F, 0x20 :: byte] + 1 \<and> takeWhile (\<lambda>c. c \<noteq> 0) js = [0x22, 0x20, 0x22]) \<and>
   cJSON_Minify (Some ([0x31, 0x2F, 0x2A, 0x22, 0x2A] @ [0])) = None \<and> cJSON_Minify (Some ([0x22, 0x5C, 0x22] @ [0])) = None"
  using minify_text [of "[0x2F, 0x2A, 0x2F, 0x20, 0x22, 0x20, 0x22, 0x2F, 0x2F, 0x20]"] minify_text [of "[0x31, 0x2F, 0x2A, 0x22, 0x2A]"]
    minify_text [of "[0x22, 0x5C, 0x22]"]
  by (simp add: minified.simps)

end
