(* ===== verification/Links.thy ===== *)
theory Links
  imports Prelude
begin

text \<open>
  Doubly linked chains of nodes in memory, for the components that keep their data in such chains: a node extends the record
  \<open>links\<close>. \<open>seg h pv p xs e\<close>: following \<^verbatim>\<open>next\<close> from \<open>p\<close> visits exactly the nodes \<open>xs\<close> and arrives at \<open>e\<close>,
  each node's \<^verbatim>\<open>prev\<close> being the node before it (\<open>pv\<close> for the first).
\<close>

type_synonym addr = nat

record links =
  next_p :: "addr option"
  prev_p :: "addr option"

fun seg :: "(addr \<Rightarrow> 'a links_scheme option) \<Rightarrow> addr option \<Rightarrow> addr option \<Rightarrow> addr list \<Rightarrow> addr option \<Rightarrow> bool" where
  "seg h pv p [] e \<longleftrightarrow> p = e"
| "seg h pv p (x # xs) e \<longleftrightarrow> p = Some x \<and> (\<exists>n. h x = Some n \<and> prev_p n = pv \<and> seg h (Some x) (next_p n) xs e)"

definition lastp :: "addr option \<Rightarrow> addr list \<Rightarrow> addr option" where
  "lastp pv xs = (if xs = [] then pv else Some (last xs))"

lemma lastp_simps [simp]: "lastp pv [] = pv" "lastp pv (x # xs) = lastp (Some x) xs" "lastp pv (xs @ [x]) = Some x"
  by (simp_all add: lastp_def)

lemma seg_append: "seg h pv p (xs @ ys) e \<longleftrightarrow> (\<exists>q. seg h pv p xs q \<and> seg h (lastp pv xs) q ys e)"
  by (induction xs arbitrary: pv p) auto

lemma seg_upd [simp]: "y \<notin> set xs \<Longrightarrow> seg (h(y := v)) pv p xs e = seg h pv p xs e"
  by (induction xs arbitrary: pv p) auto

lemma seg_dom: "seg h pv p xs e \<Longrightarrow> x \<in> set xs \<Longrightarrow> h x \<noteq> None"
  by (induction xs arbitrary: pv p) auto

lemma seg_first: "seg h pv p xs None \<Longrightarrow> p = (case xs of [] \<Rightarrow> None | x # _ \<Rightarrow> Some x)"
  by (cases xs) auto

text \<open>Redirecting the end of a segment, or the \<^verbatim>\<open>prev\<close> of its first node.\<close>

lemma seg_redirect:
  "seg h pv p (us @ [z]) e \<Longrightarrow> distinct (us @ [z]) \<Longrightarrow> h z = Some nz \<Longrightarrow> seg (h(z \<mapsto> nz\<lparr>next_p := e'\<rparr>)) pv p (us @ [z]) e'"
  by (auto simp: seg_append)

lemma seg_reprev:
  "seg h pv p (z # vs) e \<Longrightarrow> distinct (z # vs) \<Longrightarrow> h z = Some nz \<Longrightarrow> seg (h(z \<mapsto> nz\<lparr>prev_p := pv'\<rparr>)) pv' p (z # vs) e"
  by auto

lemma seg_cong: "\<forall>x\<in>set xs. h x = h' x \<Longrightarrow> seg h pv p xs e = seg h' pv p xs e"
  by (induction xs arbitrary: pv p) auto

lemma seg_distinct_end: "seg h pv p xs None \<Longrightarrow> distinct xs"
proof -
  have det: "seg h pv p xs None \<Longrightarrow> seg h qv p ys None \<Longrightarrow> xs = ys" for pv qv p xs ys
    by (induction xs arbitrary: pv qv p ys) (case_tac ys; auto)+
  show "seg h pv p xs None \<Longrightarrow> distinct xs"
  proof (induction xs arbitrary: pv p)
    case (Cons x xs)
    then obtain n where n: "h x = Some n" "seg h (Some x) (next_p n) xs None" by auto
    have "x \<notin> set xs"
    proof
      assume "x \<in> set xs"
      then obtain us vs where xs: "xs = us @ x # vs" by (auto simp: in_set_conv_decomp)
      then have "seg h (Some x) (next_p n) vs None" using n by (auto simp: seg_append)
      from det [OF n(2) this] xs show False by (metis append_Cons append_assoc length_append length_Cons not_add_less2 lessI add_lessD1 less_add_Suc2)
    qed
    then show ?case using Cons.IH [OF n(2)] by simp
  qed simp
qed

text \<open>Pushing a new first node, and unlinking a node.\<close>

lemma seg_push:
  assumes "seg h None p xs None" and "a \<notin> set xs" and "next_p n = p" and "prev_p n = None"
  shows "p = None \<Longrightarrow> seg (h(a \<mapsto> n)) None (Some a) (a # xs) None"
    and "p = Some x \<Longrightarrow> h x = Some nx \<Longrightarrow> seg (h(a \<mapsto> n, x \<mapsto> nx\<lparr>prev_p := Some a\<rparr>)) None (Some a) (a # xs) None"
proof -
  show "p = None \<Longrightarrow> seg (h(a \<mapsto> n)) None (Some a) (a # xs) None" using assms by (cases xs) auto
  assume x: "p = Some x" "h x = Some nx"
  then obtain ys where xs: "xs = x # ys" using assms(1) by (cases xs) auto
  have "seg (h(x \<mapsto> nx\<lparr>prev_p := Some a\<rparr>)) (Some a) p xs None"
    using seg_reprev [of h None p x ys None nx "Some a"] assms(1) xs x(2) seg_distinct_end [OF assms(1)] by simp
  moreover have "a \<noteq> x" using assms(2) xs by simp
  ultimately show "seg (h(a \<mapsto> n, x \<mapsto> nx\<lparr>prev_p := Some a\<rparr>)) None (Some a) (a # xs) None"
    using assms(2-4) seg_upd [of a xs "h(x \<mapsto> nx\<lparr>prev_p := Some a\<rparr>)"] by (simp add: fun_upd_twist)
qed

lemma seg_unlink:
  assumes s: "seg h None p (us @ z # vs) None" and z: "h z = Some nz"
    and h: "\<And>x. x \<in> set us \<Longrightarrow> x \<noteq> last us \<Longrightarrow> h' x = h x"
      "us \<noteq> [] \<Longrightarrow> \<exists>y. h (last us) = Some y \<and> h' (last us) = Some (y\<lparr>next_p := next_p nz\<rparr>)"
      "\<And>x. x \<in> set vs \<Longrightarrow> x \<noteq> hd vs \<Longrightarrow> h' x = h x"
      "vs \<noteq> [] \<Longrightarrow> \<exists>y. h (hd vs) = Some y \<and> h' (hd vs) = Some (y\<lparr>prev_p := prev_p nz\<rparr>)"
  shows "seg h' None (if us = [] then next_p nz else p) (us @ vs) None" "prev_p nz = lastp None us"
    "next_p nz = (case vs of [] \<Rightarrow> None | v # _ \<Rightarrow> Some v)"
proof -
  have d: "distinct (us @ z # vs)" by (rule seg_distinct_end [OF s])
  have us: "seg h None p us (Some z)" and pz: "prev_p nz = lastp None us" and vs: "seg h (Some z) (next_p nz) vs None"
    using s z by (auto simp: seg_append)
  show "prev_p nz = lastp None us" by (rule pz)
  show "next_p nz = (case vs of [] \<Rightarrow> None | v # _ \<Rightarrow> Some v)" by (rule seg_first [OF vs])
  have us': "seg h' None (if us = [] then next_p nz else p) us (next_p nz)"
  proof (cases us rule: rev_cases)
    case (snoc ws y)
    then obtain ny where y: "h y = Some ny" "h' y = Some (ny\<lparr>next_p := next_p nz\<rparr>)" using h(2) by auto
    have "h x = h' x" if "x \<in> set ws" for x
    proof -
      have "x \<noteq> last us" using d snoc that by auto
      then show ?thesis using h(1) that snoc by simp
    qed
    then have "seg h' None p ws (Some y)" using us snoc seg_cong [of ws h h'] by (auto simp: seg_append)
    then show ?thesis using us y snoc by (auto simp: seg_append)
  qed simp
  have vs': "seg h' (lastp None us) (next_p nz) vs None"
  proof (cases vs)
    case (Cons v ws)
    then obtain nv where v: "h v = Some nv" "h' v = Some (nv\<lparr>prev_p := prev_p nz\<rparr>)" using h(4) by auto
    have "h x = h' x" if "x \<in> set ws" for x
    proof -
      have "x \<noteq> hd vs" using d Cons that by auto
      then show ?thesis using h(3) that Cons by simp
    qed
    then have "seg h' (Some v) (next_p nv) ws None" using vs Cons v(1) seg_cong [of ws h h'] by auto
    then show ?thesis using vs v pz Cons by auto
  qed (use vs in simp)
  show "seg h' None (if us = [] then next_p nz else p) (us @ vs) None" using us' vs' seg_append by blast
qed

end
