(* ===== verification/CjsonHeap.thy ===== *)
theory CjsonHeap
  imports CjsonItem Links
begin

text \<open>
  The items of cJSON as the code links them (\<^verbatim>\<open>cjson/example/cJSON.c\<close>, from \<^verbatim>\<open>cJSON_GetArraySize\<close> on): nodes in memory
  with \<^verbatim>\<open>next\<close>, \<^verbatim>\<open>prev\<close> and \<^verbatim>\<open>child\<close> pointers, owned or borrowed strings, an allocator that may refuse.

  An address that is not allocated cannot be read, written or freed: the operations are then None, so
  that a result is a proof that no NULL or freed pointer was followed and no block freed twice. \<open>strs\<close> are the
  strings on the heap, \<open>statics\<close> those outside it, which can be read and not freed. Addresses are
  not reused: the allocator answers \<open>brk\<close> and steps it; which requests it grants is the environment's choice.
  Loops over pointers are partial functions: None also stands for a loop that does not end.
\<close>

unbundle bit_operations_syntax

section \<open>Memory\<close>

record 'd node = links +
  child_p :: "addr option"
  ntype :: u32
  valuestring_p :: "addr option"
  valueint_n :: int
  valuedouble_n :: 'd
  string_p :: "addr option"

record 'd mem =
  nodes :: "addr \<Rightarrow> 'd node option"
  strs :: "addr \<Rightarrow> byte list option"
  statics :: "addr \<Rightarrow> byte list option"
  brk :: addr
  requests :: nat

definition node_at :: "'d mem \<Rightarrow> addr option \<Rightarrow> 'd node option" where
  "node_at m p = (case p of None \<Rightarrow> None | Some a \<Rightarrow> nodes m a)"

definition set_node :: "('d node \<Rightarrow> 'd node) \<Rightarrow> addr option \<Rightarrow> 'd mem \<Rightarrow> 'd mem option" where
  "set_node f p m =
     (case p of
        None \<Rightarrow> None
      | Some a \<Rightarrow> do { n \<leftarrow> nodes m a; Some (m\<lparr>nodes := (nodes m)(a \<mapsto> f n)\<rparr>) })"

definition string_at :: "'d mem \<Rightarrow> addr \<Rightarrow> byte list option" where
  "string_at m a = (case strs m a of None \<Rightarrow> statics m a | Some s \<Rightarrow> Some s)"

definition free_node :: "addr option \<Rightarrow> 'd mem \<Rightarrow> 'd mem option" where
  "free_node p m =
     (case p of
        None \<Rightarrow> Some m
      | Some a \<Rightarrow> do { n \<leftarrow> nodes m a; Some (m\<lparr>nodes := (nodes m)(a := None)\<rparr>) })"

definition free_str :: "addr option \<Rightarrow> 'd mem \<Rightarrow> 'd mem option" where
  "free_str p m =
     (case p of
        None \<Rightarrow> Some m
      | Some a \<Rightarrow> do { s \<leftarrow> strs m a; Some (m\<lparr>strs := (strs m)(a := None)\<rparr>) })"

definition zero_node :: "'d env \<Rightarrow> 'd node" where
  "zero_node E = \<lparr>next_p = None, prev_p = None, child_p = None, ntype = 0, valuestring_p = None,
     valueint_n = 0, valuedouble_n = d_zero E, string_p = None\<rparr>"

definition cJSON_New_Item :: "'d env \<Rightarrow> 'd mem \<Rightarrow> addr option \<times> 'd mem" where
  "cJSON_New_Item E m =
     (if alloc_ok E (requests m)
      then (Some (brk m), m\<lparr>nodes := (nodes m)(brk m \<mapsto> zero_node E), brk := Suc (brk m), requests := Suc (requests m)\<rparr>)
      else (None, m\<lparr>requests := Suc (requests m)\<rparr>))"

definition cJSON_strdup :: "'d env \<Rightarrow> addr option \<Rightarrow> 'd mem \<Rightarrow> (addr option \<times> 'd mem) option" where
  "cJSON_strdup E p m =
     (case p of
        None \<Rightarrow> Some (None, m)
      | Some a \<Rightarrow> do {
          s \<leftarrow> string_at m a;
          Some (if alloc_ok E (requests m)
                then (Some (brk m), m\<lparr>strs := (strs m)(brk m \<mapsto> s), brk := Suc (brk m), requests := Suc (requests m)\<rparr>)
                else (None, m\<lparr>requests := Suc (requests m)\<rparr>)) })"

section \<open>Deleting\<close>

partial_function (option) cJSON_Delete :: "addr option \<Rightarrow> 'd mem \<Rightarrow> 'd mem option" where
  "cJSON_Delete item m =
     (case item of
        None \<Rightarrow> Some m
      | Some _ \<Rightarrow> do {
          n \<leftarrow> node_at m item;
          m \<leftarrow> (if ntype n AND cJSON_IsReference = 0 \<and> child_p n \<noteq> None then cJSON_Delete (child_p n) m else Some m);
          n \<leftarrow> node_at m item;
          m \<leftarrow> (if ntype n AND cJSON_IsReference = 0 \<and> valuestring_p n \<noteq> None then free_str (valuestring_p n) m else Some m);
          m \<leftarrow> (if ntype n AND cJSON_StringIsConst = 0 \<and> string_p n \<noteq> None then free_str (string_p n) m else Some m);
          m \<leftarrow> free_node item m;
          cJSON_Delete (next_p n) m })"

section \<open>Arrays\<close>

partial_function (option) count_children :: "'d mem \<Rightarrow> addr option \<Rightarrow> 64 word \<Rightarrow> 64 word option" where
  "count_children m elem count =
     (case elem of
        None \<Rightarrow> Some count
      | Some _ \<Rightarrow> do { n \<leftarrow> node_at m elem; count_children m (next_p n) (count + 1) })"

definition cJSON_GetArraySize :: "'d mem \<Rightarrow> addr option \<Rightarrow> int option" where
  "cJSON_GetArraySize m array =
     (case array of
        None \<Rightarrow> Some 0
      | Some _ \<Rightarrow> do {
          n \<leftarrow> node_at m array;
          count \<leftarrow> count_children m (child_p n) 0;
          Some (sint (ucast count :: 32 word)) })"

fun walk :: "'d mem \<Rightarrow> addr option \<Rightarrow> nat \<Rightarrow> addr option option" where
  "walk m current_child 0 = Some current_child"
| "walk m None (Suc index) = Some None"
| "walk m (Some c) (Suc index) = do { n \<leftarrow> nodes m c; walk m (next_p n) index }"

definition get_array_item :: "'d mem \<Rightarrow> addr option \<Rightarrow> nat \<Rightarrow> addr option option" where
  "get_array_item m array index =
     (case array of None \<Rightarrow> Some None | Some _ \<Rightarrow> do { n \<leftarrow> node_at m array; walk m (child_p n) index })"

definition cJSON_GetArrayItem :: "'d mem \<Rightarrow> addr option \<Rightarrow> int \<Rightarrow> addr option option" where
  "cJSON_GetArrayItem m array index = (if index < 0 then Some None else get_array_item m array (nat index))"

definition suffix_object :: "addr option \<Rightarrow> addr option \<Rightarrow> 'd mem \<Rightarrow> 'd mem option" where
  "suffix_object prev item m = do {
     m \<leftarrow> set_node (next_p_update (\<lambda>_. item)) prev m;
     set_node (prev_p_update (\<lambda>_. prev)) item m }"

partial_function (option) last_child :: "'d mem \<Rightarrow> addr option \<Rightarrow> addr option option" where
  "last_child m elem = do {
     n \<leftarrow> node_at m elem;
     (if next_p n \<noteq> None then last_child m (next_p n) else Some elem) }"

definition cJSON_AddItemToArray :: "addr option \<Rightarrow> addr option \<Rightarrow> 'd mem \<Rightarrow> 'd mem option" where
  "cJSON_AddItemToArray array item m =
     (if item = None \<or> array = None then Some m
      else do {
        n \<leftarrow> node_at m array;
        (if child_p n = None then set_node (child_p_update (\<lambda>_. item)) array m
         else do { elem \<leftarrow> last_child m (child_p n); suffix_object elem item m }) })"

definition cJSON_InsertItemInArray :: "addr option \<Rightarrow> int \<Rightarrow> addr option \<Rightarrow> 'd mem \<Rightarrow> 'd mem option" where
  "cJSON_InsertItemInArray array which newitem m =
     (if which < 0 then Some m
      else do {
        after_inserted \<leftarrow> get_array_item m array (nat which);
        (if after_inserted = None then cJSON_AddItemToArray array newitem m
         else do {
           m \<leftarrow> set_node (next_p_update (\<lambda>_. after_inserted)) newitem m;
           n \<leftarrow> node_at m after_inserted;
           m \<leftarrow> set_node (prev_p_update (\<lambda>_. prev_p n)) newitem m;
           m \<leftarrow> set_node (prev_p_update (\<lambda>_. newitem)) after_inserted m;
           p \<leftarrow> node_at m array;
           (if after_inserted = child_p p then set_node (child_p_update (\<lambda>_. newitem)) array m
            else do { n \<leftarrow> node_at m newitem; set_node (next_p_update (\<lambda>_. newitem)) (prev_p n) m }) }) })"

definition cJSON_DetachItemViaPointer :: "addr option \<Rightarrow> addr option \<Rightarrow> 'd mem \<Rightarrow> (addr option \<times> 'd mem) option" where
  "cJSON_DetachItemViaPointer parent item m =
     (if parent = None \<or> item = None then Some (None, m)
      else do {
        n \<leftarrow> node_at m item;
        m \<leftarrow> (if prev_p n \<noteq> None then set_node (next_p_update (\<lambda>_. next_p n)) (prev_p n) m else Some m);
        n \<leftarrow> node_at m item;
        m \<leftarrow> (if next_p n \<noteq> None then set_node (prev_p_update (\<lambda>_. prev_p n)) (next_p n) m else Some m);
        p \<leftarrow> node_at m parent;
        n \<leftarrow> node_at m item;
        m \<leftarrow> (if item = child_p p then set_node (child_p_update (\<lambda>_. next_p n)) parent m else Some m);
        m \<leftarrow> set_node (prev_p_update (\<lambda>_. None)) item m;
        m \<leftarrow> set_node (next_p_update (\<lambda>_. None)) item m;
        Some (item, m) })"

definition cJSON_DetachItemFromArray :: "addr option \<Rightarrow> int \<Rightarrow> 'd mem \<Rightarrow> (addr option \<times> 'd mem) option" where
  "cJSON_DetachItemFromArray array which m =
     (if which < 0 then Some (None, m)
      else do { item \<leftarrow> get_array_item m array (nat which); cJSON_DetachItemViaPointer array item m })"

definition cJSON_DeleteItemFromArray :: "addr option \<Rightarrow> int \<Rightarrow> 'd mem \<Rightarrow> 'd mem option" where
  "cJSON_DeleteItemFromArray array which m = do {
     (item, m) \<leftarrow> cJSON_DetachItemFromArray array which m;
     cJSON_Delete item m }"

definition cJSON_ReplaceItemViaPointer :: "addr option \<Rightarrow> addr option \<Rightarrow> addr option \<Rightarrow> 'd mem \<Rightarrow> (bool \<times> 'd mem) option" where
  "cJSON_ReplaceItemViaPointer parent item replacement m =
     (if parent = None \<or> replacement = None \<or> item = None then Some (False, m)
      else if replacement = item then Some (True, m)
      else do {
        n \<leftarrow> node_at m item;
        m \<leftarrow> set_node (next_p_update (\<lambda>_. next_p n)) replacement m;
        m \<leftarrow> set_node (prev_p_update (\<lambda>_. prev_p n)) replacement m;
        r \<leftarrow> node_at m replacement;
        m \<leftarrow> (if next_p r \<noteq> None then set_node (prev_p_update (\<lambda>_. replacement)) (next_p r) m else Some m);
        r \<leftarrow> node_at m replacement;
        m \<leftarrow> (if prev_p r \<noteq> None then set_node (next_p_update (\<lambda>_. replacement)) (prev_p r) m else Some m);
        p \<leftarrow> node_at m parent;
        m \<leftarrow> (if child_p p = item then set_node (child_p_update (\<lambda>_. replacement)) parent m else Some m);
        m \<leftarrow> set_node (next_p_update (\<lambda>_. None)) item m;
        m \<leftarrow> set_node (prev_p_update (\<lambda>_. None)) item m;
        m \<leftarrow> cJSON_Delete item m;
        Some (True, m) })"

definition cJSON_ReplaceItemInArray :: "addr option \<Rightarrow> int \<Rightarrow> addr option \<Rightarrow> 'd mem \<Rightarrow> 'd mem option" where
  "cJSON_ReplaceItemInArray array which newitem m =
     (if which < 0 then Some m
      else do {
        item \<leftarrow> get_array_item m array (nat which);
        (b, m) \<leftarrow> cJSON_ReplaceItemViaPointer array item newitem m;
        Some m })"

section \<open>Objects\<close>

definition tolower :: "byte \<Rightarrow> byte" where
  "tolower c = (if 0x41 \<le> c \<and> c \<le> 0x5A then c + 0x20 else c)"

fun case_loop :: "byte list \<Rightarrow> byte list \<Rightarrow> int" where
  "case_loop string1 string2 =
     (let c1 = (case string1 of [] \<Rightarrow> 0 | c # _ \<Rightarrow> c); c2 = (case string2 of [] \<Rightarrow> 0 | c # _ \<Rightarrow> c)
      in if tolower c1 = tolower c2
         then (if string1 = [] \<or> c1 = 0 then 0 else case_loop (tl string1) (tl string2))
         else uint (tolower c1) - uint (tolower c2))"

declare case_loop.simps [simp del]

definition case_insensitive_strcmp :: "'d mem \<Rightarrow> addr option \<Rightarrow> addr option \<Rightarrow> int option" where
  "case_insensitive_strcmp m string1 string2 =
     (if string1 = None \<or> string2 = None then Some 1
      else if string1 = string2 then Some 0
      else do {
        a1 \<leftarrow> string1; s1 \<leftarrow> string_at m a1;
        a2 \<leftarrow> string2; s2 \<leftarrow> string_at m a2;
        Some (case_loop s1 s2) })"

definition strcmp_differs :: "'d mem \<Rightarrow> addr option \<Rightarrow> addr option \<Rightarrow> bool option" where
  "strcmp_differs m string1 string2 = do {
     a1 \<leftarrow> string1; s1 \<leftarrow> string_at m a1;
     a2 \<leftarrow> string2; s2 \<leftarrow> string_at m a2;
     Some (s1 \<noteq> s2) }"

partial_function (option) find_member :: "'d mem \<Rightarrow> addr option \<Rightarrow> bool \<Rightarrow> addr option \<Rightarrow> addr option option" where
  "find_member m key case_sensitive current_element =
     (case current_element of
        None \<Rightarrow> Some None
      | Some _ \<Rightarrow> do {
          n \<leftarrow> node_at m current_element;
          differs \<leftarrow> (if case_sensitive then strcmp_differs m key (string_p n)
                      else map_option (\<lambda>r. r \<noteq> 0) (case_insensitive_strcmp m key (string_p n)));
          (if differs then find_member m key case_sensitive (next_p n) else Some current_element) })"

definition get_object_item :: "'d mem \<Rightarrow> addr option \<Rightarrow> addr option \<Rightarrow> bool \<Rightarrow> addr option option" where
  "get_object_item m object key case_sensitive =
     (if object = None \<or> key = None then Some None
      else do { n \<leftarrow> node_at m object; find_member m key case_sensitive (child_p n) })"

definition cJSON_GetObjectItem :: "'d mem \<Rightarrow> addr option \<Rightarrow> addr option \<Rightarrow> addr option option" where
  "cJSON_GetObjectItem m object string = get_object_item m object string False"

definition cJSON_GetObjectItemCaseSensitive :: "'d mem \<Rightarrow> addr option \<Rightarrow> addr option \<Rightarrow> addr option option" where
  "cJSON_GetObjectItemCaseSensitive m object string = get_object_item m object string True"

definition cJSON_HasObjectItem :: "'d mem \<Rightarrow> addr option \<Rightarrow> addr option \<Rightarrow> bool option" where
  "cJSON_HasObjectItem m object string = map_option (\<lambda>p. p \<noteq> None) (cJSON_GetObjectItem m object string)"

definition create_reference :: "'d env \<Rightarrow> addr option \<Rightarrow> 'd mem \<Rightarrow> (addr option \<times> 'd mem) option" where
  "create_reference E item m =
     (if item = None then Some (None, m)
      else (let (reference, m) = cJSON_New_Item E m
            in if reference = None then Some (None, m)
               else do {
                 n \<leftarrow> node_at m item;
                 m \<leftarrow> set_node (\<lambda>_. n) reference m;
                 m \<leftarrow> set_node (string_p_update (\<lambda>_. None)) reference m;
                 m \<leftarrow> set_node (ntype_update (\<lambda>t. t OR cJSON_IsReference)) reference m;
                 m \<leftarrow> set_node (\<lambda>r. r\<lparr>next_p := None, prev_p := None\<rparr>) reference m;
                 Some (reference, m) }))"

definition cJSON_AddItemToObjectCS :: "addr option \<Rightarrow> addr option \<Rightarrow> addr option \<Rightarrow> 'd mem \<Rightarrow> 'd mem option" where
  "cJSON_AddItemToObjectCS object string item m =
     (if item = None \<or> string = None then Some m
      else do {
        n \<leftarrow> node_at m item;
        m \<leftarrow> (if ntype n AND cJSON_StringIsConst = 0 \<and> string_p n \<noteq> None then free_str (string_p n) m else Some m);
        m \<leftarrow> set_node (string_p_update (\<lambda>_. string)) item m;
        m \<leftarrow> set_node (ntype_update (\<lambda>t. t OR cJSON_StringIsConst)) item m;
        cJSON_AddItemToArray object item m })"

definition cJSON_AddItemToObject :: "'d env \<Rightarrow> addr option \<Rightarrow> addr option \<Rightarrow> addr option \<Rightarrow> 'd mem \<Rightarrow> 'd mem option" where
  "cJSON_AddItemToObject E object string item m =
     (if item = None then Some m
      else do {
        (copy, m) \<leftarrow> cJSON_strdup E string m;
        m \<leftarrow> cJSON_AddItemToObjectCS object copy item m;
        set_node (ntype_update (\<lambda>t. t AND NOT cJSON_StringIsConst)) item m })"

definition cJSON_AddItemReferenceToArray :: "'d env \<Rightarrow> addr option \<Rightarrow> addr option \<Rightarrow> 'd mem \<Rightarrow> 'd mem option" where
  "cJSON_AddItemReferenceToArray E array item m =
     (if array = None then Some m
      else do { (reference, m) \<leftarrow> create_reference E item m; cJSON_AddItemToArray array reference m })"

definition cJSON_AddItemReferenceToObject :: "'d env \<Rightarrow> addr option \<Rightarrow> addr option \<Rightarrow> addr option \<Rightarrow> 'd mem \<Rightarrow> 'd mem option" where
  "cJSON_AddItemReferenceToObject E object string item m =
     (if object = None \<or> string = None then Some m
      else do { (reference, m) \<leftarrow> create_reference E item m; cJSON_AddItemToObject E object string reference m })"

definition cJSON_DetachItemFromObject :: "addr option \<Rightarrow> addr option \<Rightarrow> 'd mem \<Rightarrow> (addr option \<times> 'd mem) option" where
  "cJSON_DetachItemFromObject object string m = do {
     to_detach \<leftarrow> cJSON_GetObjectItem m object string;
     cJSON_DetachItemViaPointer object to_detach m }"

definition cJSON_DetachItemFromObjectCaseSensitive :: "addr option \<Rightarrow> addr option \<Rightarrow> 'd mem \<Rightarrow> (addr option \<times> 'd mem) option" where
  "cJSON_DetachItemFromObjectCaseSensitive object string m = do {
     to_detach \<leftarrow> cJSON_GetObjectItemCaseSensitive m object string;
     cJSON_DetachItemViaPointer object to_detach m }"

definition cJSON_DeleteItemFromObject :: "addr option \<Rightarrow> addr option \<Rightarrow> 'd mem \<Rightarrow> 'd mem option" where
  "cJSON_DeleteItemFromObject object string m = do {
     (item, m) \<leftarrow> cJSON_DetachItemFromObject object string m;
     cJSON_Delete item m }"

definition cJSON_DeleteItemFromObjectCaseSensitive :: "addr option \<Rightarrow> addr option \<Rightarrow> 'd mem \<Rightarrow> 'd mem option" where
  "cJSON_DeleteItemFromObjectCaseSensitive object string m = do {
     (item, m) \<leftarrow> cJSON_DetachItemFromObjectCaseSensitive object string m;
     cJSON_Delete item m }"

definition replace_item_in_object ::
    "'d env \<Rightarrow> addr option \<Rightarrow> addr option \<Rightarrow> addr option \<Rightarrow> bool \<Rightarrow> 'd mem \<Rightarrow> (bool \<times> 'd mem) option" where
  "replace_item_in_object E object string replacement case_sensitive m =
     (if replacement = None \<or> string = None then Some (False, m)
      else do {
        r \<leftarrow> node_at m replacement;
        m \<leftarrow> (if ntype r AND cJSON_StringIsConst = 0 \<and> string_p r \<noteq> None then free_str (string_p r) m else Some m);
        (copy, m) \<leftarrow> cJSON_strdup E string m;
        m \<leftarrow> set_node (string_p_update (\<lambda>_. copy)) replacement m;
        m \<leftarrow> set_node (ntype_update (\<lambda>t. t AND NOT cJSON_StringIsConst)) replacement m;
        item \<leftarrow> get_object_item m object string case_sensitive;
        (b, m) \<leftarrow> cJSON_ReplaceItemViaPointer object item replacement m;
        Some (True, m) })"

definition cJSON_ReplaceItemInObject :: "'d env \<Rightarrow> addr option \<Rightarrow> addr option \<Rightarrow> addr option \<Rightarrow> 'd mem \<Rightarrow> 'd mem option" where
  "cJSON_ReplaceItemInObject E object string newitem m =
     map_option snd (replace_item_in_object E object string newitem False m)"

definition cJSON_ReplaceItemInObjectCaseSensitive ::
    "'d env \<Rightarrow> addr option \<Rightarrow> addr option \<Rightarrow> addr option \<Rightarrow> 'd mem \<Rightarrow> 'd mem option" where
  "cJSON_ReplaceItemInObjectCaseSensitive E object string newitem m =
     map_option snd (replace_item_in_object E object string newitem True m)"

section \<open>Creating\<close>

definition create_typed :: "'d env \<Rightarrow> ('d node \<Rightarrow> 'd node) \<Rightarrow> 'd mem \<Rightarrow> addr option \<times> 'd mem" where
  "create_typed E f m =
     (case cJSON_New_Item E m of
        (None, m) \<Rightarrow> (None, m)
      | (Some a, m) \<Rightarrow> (Some a, m\<lparr>nodes := (nodes m)(a := map_option f (nodes m a))\<rparr>))"

definition cJSON_CreateNull :: "'d env \<Rightarrow> 'd mem \<Rightarrow> addr option \<times> 'd mem" where
  "cJSON_CreateNull E = create_typed E (ntype_update (\<lambda>_. cJSON_NULL))"

definition cJSON_CreateTrue :: "'d env \<Rightarrow> 'd mem \<Rightarrow> addr option \<times> 'd mem" where
  "cJSON_CreateTrue E = create_typed E (ntype_update (\<lambda>_. cJSON_True))"

definition cJSON_CreateFalse :: "'d env \<Rightarrow> 'd mem \<Rightarrow> addr option \<times> 'd mem" where
  "cJSON_CreateFalse E = create_typed E (ntype_update (\<lambda>_. cJSON_False))"

definition cJSON_CreateBool :: "'d env \<Rightarrow> bool \<Rightarrow> 'd mem \<Rightarrow> addr option \<times> 'd mem" where
  "cJSON_CreateBool E b = create_typed E (ntype_update (\<lambda>_. if b then cJSON_True else cJSON_False))"

definition cJSON_CreateNumber :: "'d env \<Rightarrow> 'd \<Rightarrow> 'd mem \<Rightarrow> addr option \<times> 'd mem" where
  "cJSON_CreateNumber E num =
     create_typed E (\<lambda>n. n\<lparr>ntype := cJSON_Number, valuedouble_n := num, valueint_n := number_to_int E num\<rparr>)"

definition cJSON_CreateArray :: "'d env \<Rightarrow> 'd mem \<Rightarrow> addr option \<times> 'd mem" where
  "cJSON_CreateArray E = create_typed E (ntype_update (\<lambda>_. cJSON_Array))"

definition cJSON_CreateObject :: "'d env \<Rightarrow> 'd mem \<Rightarrow> addr option \<times> 'd mem" where
  "cJSON_CreateObject E = create_typed E (ntype_update (\<lambda>_. cJSON_Object))"

definition create_text :: "'d env \<Rightarrow> u32 \<Rightarrow> addr option \<Rightarrow> 'd mem \<Rightarrow> (addr option \<times> 'd mem) option" where
  "create_text E ty string m =
     (case create_typed E (ntype_update (\<lambda>_. ty)) m of
        (None, m) \<Rightarrow> Some (None, m)
      | (Some a, m) \<Rightarrow> do {
          (copy, m) \<leftarrow> cJSON_strdup E string m;
          m \<leftarrow> set_node (valuestring_p_update (\<lambda>_. copy)) (Some a) m;
          (if copy = None then do { m \<leftarrow> cJSON_Delete (Some a) m; Some (None, m) } else Some (Some a, m)) })"

definition cJSON_CreateString :: "'d env \<Rightarrow> addr option \<Rightarrow> 'd mem \<Rightarrow> (addr option \<times> 'd mem) option" where
  "cJSON_CreateString E = create_text E cJSON_String"

definition cJSON_CreateRaw :: "'d env \<Rightarrow> addr option \<Rightarrow> 'd mem \<Rightarrow> (addr option \<times> 'd mem) option" where
  "cJSON_CreateRaw E = create_text E cJSON_Raw"

text \<open>
  The four array constructors differ in the element's constructor \<open>create\<close> only; \<open>first\<close> is the test \<^verbatim>\<open>!i\<close>.
\<close>

fun create_elements ::
    "('v \<Rightarrow> 'd mem \<Rightarrow> (addr option \<times> 'd mem) option) \<Rightarrow> addr \<Rightarrow> addr option \<Rightarrow> bool \<Rightarrow> 'v list \<Rightarrow> 'd mem
      \<Rightarrow> (addr option \<times> 'd mem) option" where
  "create_elements create a p first [] m = Some (Some a, m)"
| "create_elements create a p first (v # vs) m = do {
     (n, m) \<leftarrow> create v m;
     (if n = None then do { m \<leftarrow> cJSON_Delete (Some a) m; Some (None, m) }
      else do {
        m \<leftarrow> (if first then set_node (child_p_update (\<lambda>_. n)) (Some a) m else suffix_object p n m);
        create_elements create a n False vs m }) }"

definition create_array ::
    "'d env \<Rightarrow> ('v \<Rightarrow> 'd mem \<Rightarrow> (addr option \<times> 'd mem) option) \<Rightarrow> 'v list option \<Rightarrow> int \<Rightarrow> 'd mem
      \<Rightarrow> (addr option \<times> 'd mem) option" where
  "create_array E create values count m =
     (case values of
        None \<Rightarrow> Some (None, m)
      | Some vs \<Rightarrow>
          if count < 0 then Some (None, m)
          else (case cJSON_CreateArray E m of
                  (None, m) \<Rightarrow> Some (None, m)
                | (Some a, m) \<Rightarrow>
                    if nat count \<le> length vs then create_elements create a None True (take (nat count) vs) m else None))"

definition cJSON_CreateIntArray :: "'d env \<Rightarrow> (int \<Rightarrow> 'd) \<Rightarrow> int list option \<Rightarrow> int \<Rightarrow> 'd mem \<Rightarrow> (addr option \<times> 'd mem) option" where
  "cJSON_CreateIntArray E to_double = create_array E (\<lambda>v m. Some (cJSON_CreateNumber E (to_double v) m))"

definition cJSON_CreateFloatArray :: "'d env \<Rightarrow> ('f \<Rightarrow> 'd) \<Rightarrow> 'f list option \<Rightarrow> int \<Rightarrow> 'd mem \<Rightarrow> (addr option \<times> 'd mem) option" where
  "cJSON_CreateFloatArray E to_double = create_array E (\<lambda>v m. Some (cJSON_CreateNumber E (to_double v) m))"

definition cJSON_CreateDoubleArray :: "'d env \<Rightarrow> 'd list option \<Rightarrow> int \<Rightarrow> 'd mem \<Rightarrow> (addr option \<times> 'd mem) option" where
  "cJSON_CreateDoubleArray E = create_array E (\<lambda>v m. Some (cJSON_CreateNumber E v m))"

definition cJSON_CreateStringArray :: "'d env \<Rightarrow> addr option list option \<Rightarrow> int \<Rightarrow> 'd mem \<Rightarrow> (addr option \<times> 'd mem) option" where
  "cJSON_CreateStringArray E = create_array E (cJSON_CreateString E)"

section \<open>Duplicating\<close>

text \<open>
  The recursion and the loop over the children, with fuel: one unit per call and per turn of the loop.
\<close>

function cJSON_Duplicate :: "'d env \<Rightarrow> nat \<Rightarrow> addr option \<Rightarrow> bool \<Rightarrow> 'd mem \<Rightarrow> (addr option \<times> 'd mem) option"
  and dup_children :: "'d env \<Rightarrow> nat \<Rightarrow> addr option \<Rightarrow> addr option \<Rightarrow> addr option \<Rightarrow> 'd mem \<Rightarrow> (addr option \<times> 'd mem) option"
  where
  "cJSON_Duplicate E 0 item recurse m = None"
| "cJSON_Duplicate E (Suc fuel) item recurse m =
     (if item = None then Some (None, m)
      else case cJSON_New_Item E m of
        (None, m) \<Rightarrow> Some (None, m)
      | (newitem, m) \<Rightarrow> do {
          i \<leftarrow> node_at m item;
          m \<leftarrow> set_node (\<lambda>n. n\<lparr>ntype := ntype i AND NOT cJSON_IsReference, valueint_n := valueint_n i, valuedouble_n := valuedouble_n i\<rparr>) newitem m;
          (copy, m) \<leftarrow> cJSON_strdup E (valuestring_p i) m;
          m \<leftarrow> set_node (valuestring_p_update (\<lambda>_. copy)) newitem m;
          (if valuestring_p i \<noteq> None \<and> copy = None then do { m \<leftarrow> cJSON_Delete newitem m; Some (None, m) }
           else do {
             (key, m) \<leftarrow> (if ntype i AND cJSON_StringIsConst \<noteq> 0 then Some (string_p i, m) else cJSON_strdup E (string_p i) m);
             m \<leftarrow> set_node (string_p_update (\<lambda>_. key)) newitem m;
             (if string_p i \<noteq> None \<and> key = None then do { m \<leftarrow> cJSON_Delete newitem m; Some (None, m) }
              else if \<not> recurse then Some (newitem, m)
              else dup_children E fuel (child_p i) None newitem m) }) })"
| "dup_children E 0 elem next newitem m = None"
| "dup_children E (Suc fuel) elem next newitem m =
     (if elem = None then Some (newitem, m)
      else do {
        (newchild, m) \<leftarrow> cJSON_Duplicate E fuel elem True m;
        (if newchild = None then do { m \<leftarrow> cJSON_Delete newitem m; Some (None, m) }
         else do {
           m \<leftarrow> (if next \<noteq> None
                then do { m \<leftarrow> set_node (next_p_update (\<lambda>_. newchild)) next m; set_node (prev_p_update (\<lambda>_. next)) newchild m }
                else set_node (child_p_update (\<lambda>_. newchild)) newitem m);
           c \<leftarrow> node_at m elem;
           dup_children E fuel (next_p c) newchild newitem m }) })"
  by pat_completeness auto
termination
  by (relation "measure (case_sum (\<lambda>(E, fuel, item, recurse, m). fuel) (\<lambda>(E, fuel, elem, next, newitem, m). fuel))") simp_all

declare cJSON_Duplicate.simps [simp del] dup_children.simps [simp del]

end
