(* ===== verification/CjsonArray.thy ===== *)
theory CjsonArray
  imports CjsonHeap
begin

text \<open>
  The pointer operations on arrays and objects as operations on lists: the children of an item form a chain
  of nodes (\<open>seg\<close>) that starts at its \<^verbatim>\<open>child\<close> pointer.
\<close>

section \<open>Children\<close>

definition child_list :: "'d mem \<Rightarrow> addr \<Rightarrow> addr list \<Rightarrow> bool" where
  "child_list m a xs \<longleftrightarrow> (\<exists>n. nodes m a = Some n \<and> seg (nodes m) None (child_p n) xs None) \<and> distinct xs \<and> a \<notin> set xs"

definition detached :: "'d mem \<Rightarrow> addr \<Rightarrow> bool" where
  "detached m i \<longleftrightarrow> (\<exists>n. nodes m i = Some n \<and> next_p n = None \<and> prev_p n = None)"

definition node_values :: "'d node \<Rightarrow> u32 \<times> addr option \<times> int \<times> 'd \<times> addr option" where
  "node_values n = (ntype n, valuestring_p n, valueint_n n, valuedouble_n n, string_p n)"

text \<open>Only links change: those of the nodes \<open>S\<close>, and the \<^verbatim>\<open>child\<close> pointer of \<open>a\<close>.\<close>

definition relinked :: "addr \<Rightarrow> addr set \<Rightarrow> 'd mem \<Rightarrow> 'd mem \<Rightarrow> bool" where
  "relinked a S m m' \<longleftrightarrow> (\<exists>h. m' = m\<lparr>nodes := h\<rparr> \<and> (\<forall>b. map_option node_values (h b) = map_option node_values (nodes m b)) \<and>
     (\<forall>b. b \<noteq> a \<longrightarrow> map_option child_p (h b) = map_option child_p (nodes m b)) \<and> (\<forall>b. b \<notin> insert a S \<longrightarrow> h b = nodes m b))"

section \<open>The loops\<close>

lemma count_children_seg: "seg (nodes m) pv p xs None \<Longrightarrow> count_children m p c = Some (c + of_nat (length xs))"
proof (induction xs arbitrary: pv p c)
  case Nil
  then show ?case by (simp add: count_children.simps [of m None])
next
  case (Cons x xs)
  then show ?case by (auto simp: count_children.simps [of m "Some x"] node_at_def algebra_simps)
qed

lemma walk_seg: "seg (nodes m) pv p xs None \<Longrightarrow> walk m p i = Some (if i < length xs then Some (xs ! i) else None)"
proof (induction xs arbitrary: pv p i)
  case Nil
  then show ?case by (cases i) simp_all
next
  case (Cons x xs)
  then show ?case by (cases i) auto
qed

lemma last_child_seg: "seg (nodes m) pv p (us @ [z]) None \<Longrightarrow> last_child m p = Some (Some z)"
proof (induction us arbitrary: pv p)
  case Nil
  then show ?case by (auto simp: last_child.simps [of m "Some z"] node_at_def)
next
  case (Cons u us)
  then obtain n where n: "p = Some u" "nodes m u = Some n" "seg (nodes m) (Some u) (next_p n) (us @ [z]) None" by auto
  then have "next_p n \<noteq> None" by (cases us) auto
  then show ?case using n Cons.IH by (auto simp: last_child.simps [of m "Some u"] node_at_def)
qed

lemma get_array_item_at: "child_list m a xs \<Longrightarrow> get_array_item m (Some a) i = Some (if i < length xs then Some (xs ! i) else None)"
  using walk_seg by (fastforce simp: child_list_def get_array_item_def node_at_def)

section \<open>Adding\<close>

lemma add_item:
  assumes "child_list m a xs" and "detached m i" and "i \<notin> set xs" and "i \<noteq> a"
  obtains m' where "cJSON_AddItemToArray (Some a) (Some i) m = Some m'" "child_list m' a (xs @ [i])" "relinked a (insert i (set xs)) m m'"
proof (cases xs rule: rev_cases)
  case Nil
  then show ?thesis
    using assms
    by (intro that [of "m\<lparr>nodes := (nodes m)(a \<mapsto> (the (nodes m a))\<lparr>child_p := Some i\<rparr>)\<rparr>"])
       (auto simp: cJSON_AddItemToArray_def child_list_def detached_def node_at_def set_node_def relinked_def node_values_def)
next
  case (snoc us z)
  obtain n where n: "nodes m a = Some n" "seg (nodes m) None (child_p n) (us @ [z]) None" "distinct (us @ [z])" "a \<notin> set (us @ [z])"
    using assms(1) snoc by (auto simp: child_list_def)
  obtain ni where ni: "nodes m i = Some ni" "next_p ni = None" "prev_p ni = None" using assms(2) by (auto simp: detached_def)
  obtain nz where nz: "nodes m z = Some nz" using seg_dom [OF n(2), of z] by auto
  have iz: "i \<noteq> z" "i \<notin> set us" using assms(3) snoc by auto
  let ?h = "(nodes m)(z \<mapsto> nz\<lparr>next_p := Some i\<rparr>, i \<mapsto> ni\<lparr>prev_p := Some z\<rparr>)"
  have "\<exists>y. child_p n = Some y" using n(2) by (cases us) auto
  then have op: "cJSON_AddItemToArray (Some a) (Some i) m = Some (m\<lparr>nodes := ?h\<rparr>)"
    using n nz ni iz last_child_seg [OF n(2)] by (auto simp: cJSON_AddItemToArray_def node_at_def set_node_def suffix_object_def)
  have "seg ?h None (child_p n) (us @ [z]) (Some i)"
    using seg_redirect [OF n(2,3) nz, of "Some i"] iz by simp
  then have "seg ?h None (child_p n) ((us @ [z]) @ [i]) None"
    unfolding seg_append [of _ _ _ "us @ [z]" "[i]"] using ni by auto
  then have "child_list (m\<lparr>nodes := ?h\<rparr>) a (xs @ [i])"
    using n assms(3,4) iz snoc by (auto simp: child_list_def)
  moreover have "relinked a (insert i (set xs)) m (m\<lparr>nodes := ?h\<rparr>)"
    using nz ni snoc by (auto simp: relinked_def node_values_def)
  ultimately show ?thesis using that [OF op] by blast
qed

section \<open>Inserting\<close>

lemma insert_item:
  assumes "child_list m a (us @ z # vs)" and "detached m i" and "i \<notin> set (us @ z # vs)" and "i \<noteq> a"
  obtains m' where "cJSON_InsertItemInArray (Some a) (int (length us)) (Some i) m = Some m'"
    "child_list m' a (us @ i # z # vs)" "relinked a (insert i (set (us @ z # vs))) m m'"
proof -
  obtain n where n: "nodes m a = Some n" "seg (nodes m) None (child_p n) (us @ z # vs) None" "distinct (us @ z # vs)" "a \<notin> set (us @ z # vs)"
    using assms(1) by (auto simp: child_list_def)
  obtain ni where ni: "nodes m i = Some ni" "next_p ni = None" "prev_p ni = None" using assms(2) by (auto simp: detached_def)
  obtain nz where nz: "nodes m z = Some nz" "prev_p nz = lastp None us" and us: "seg (nodes m) None (child_p n) us (Some z)"
    and vs: "seg (nodes m) (Some z) (next_p nz) vs None"
    using n(2) by (auto simp: seg_append)
  have i: "i \<noteq> z" "i \<notin> set us" "i \<notin> set vs" using assms(3) by auto
  have get: "get_array_item m (Some a) (length us) = Some (Some z)" using get_array_item_at [OF assms(1)] by (simp add: nth_append)
  let ?g = "(nodes m)(i \<mapsto> ni\<lparr>next_p := Some z, prev_p := lastp None us\<rparr>, z \<mapsto> nz\<lparr>prev_p := Some i\<rparr>)"
  show ?thesis
  proof (cases us rule: rev_cases)
    case Nil
    let ?h = "?g(a \<mapsto> n\<lparr>child_p := Some i\<rparr>)"
    have "cJSON_InsertItemInArray (Some a) (int (length us)) (Some i) m = Some (m\<lparr>nodes := ?h\<rparr>)"
      using n nz ni i get us assms(4) Nil by (auto simp: cJSON_InsertItemInArray_def node_at_def set_node_def)
    moreover have "child_list (m\<lparr>nodes := ?h\<rparr>) a (us @ i # z # vs)"
      using n nz ni i us vs assms(4) Nil by (auto simp: child_list_def)
    moreover have "relinked a (insert i (set (us @ z # vs))) m (m\<lparr>nodes := ?h\<rparr>)"
      using n nz ni by (auto simp: relinked_def node_values_def)
    ultimately show ?thesis using that by blast
  next
    case (snoc ws y)
    obtain ny where ny: "nodes m y = Some ny" using seg_dom [OF us, of y] snoc by auto
    have y: "y \<noteq> z" "y \<noteq> i" "y \<noteq> a" "y \<notin> set vs" "y \<notin> set ws" "z \<notin> set ws" "i \<notin> set ws" using n(3,4) i snoc by auto
    let ?h = "?g(y \<mapsto> ny\<lparr>next_p := Some i\<rparr>)"
    have "child_p n \<noteq> Some z" using us n(3) snoc by (cases ws) auto
    then have "cJSON_InsertItemInArray (Some a) (int (length us)) (Some i) m = Some (m\<lparr>nodes := ?h\<rparr>)"
      using n nz ni i get us assms(4) y ny unfolding cJSON_InsertItemInArray_def nat_int by (auto simp: snoc node_at_def set_node_def)
    moreover have "seg ?h None (child_p n) (us @ i # z # vs) None"
    proof -
      have "seg ?h None (child_p n) us (Some i)"
        using us snoc y n(3) ny by (auto simp: seg_append fun_upd_twist [of i y] fun_upd_twist [of z y])
      moreover have "seg ?h (lastp None us) (Some i) (i # z # vs) None"
        using vs i y n(3) by auto
      ultimately show ?thesis unfolding seg_append by blast
    qed
    then have "child_list (m\<lparr>nodes := ?h\<rparr>) a (us @ i # z # vs)"
      using n i y assms(4) by (auto simp: child_list_def)
    moreover have "relinked a (insert i (set (us @ z # vs))) m (m\<lparr>nodes := ?h\<rparr>)"
      using n nz ni ny snoc y by (auto simp: relinked_def node_values_def)
    ultimately show ?thesis using that by blast
  qed
qed

section \<open>Detaching\<close>

lemma detach_pointer:
  assumes "child_list m a (us @ z # vs)"
  obtains m' where "cJSON_DetachItemViaPointer (Some a) (Some z) m = Some (Some z, m')"
    "child_list m' a (us @ vs)" "detached m' z" "relinked a (set (us @ z # vs)) m m'"
proof -
  obtain n where n: "nodes m a = Some n" "seg (nodes m) None (child_p n) (us @ z # vs) None" "distinct (us @ z # vs)" "a \<notin> set (us @ z # vs)"
    using assms by (auto simp: child_list_def)
  obtain nz where nz: "nodes m z = Some nz" "prev_p nz = lastp None us" and us: "seg (nodes m) None (child_p n) us (Some z)"
    and vs: "seg (nodes m) (Some z) (next_p nz) vs None"
    using n(2) by (auto simp: seg_append)
  have zs: "z \<noteq> a" "z \<notin> set us" "z \<notin> set vs" using n(3,4) by auto
  note defs = cJSON_DetachItemViaPointer_def node_at_def set_node_def
  show ?thesis
  proof (cases us rule: rev_cases)
    case Nil
    then have p: "child_p n = Some z" using us by simp
    show ?thesis
    proof (cases vs)
      case Nil
      let ?h = "(nodes m)(a \<mapsto> n\<lparr>child_p := next_p nz\<rparr>, z \<mapsto> nz\<lparr>prev_p := None, next_p := None\<rparr>)"
      have "cJSON_DetachItemViaPointer (Some a) (Some z) m = Some (Some z, m\<lparr>nodes := ?h\<rparr>)"
        using n nz zs p vs \<open>us = []\<close> Nil by (simp add: defs)
      moreover have "child_list (m\<lparr>nodes := ?h\<rparr>) a (us @ vs)" using vs zs \<open>us = []\<close> Nil by (auto simp: child_list_def)
      ultimately show ?thesis using n nz by (intro that) (auto simp: relinked_def node_values_def detached_def)
    next
      case (Cons v vt)
      then obtain nv where nv: "nodes m v = Some nv" "next_p nz = Some v" using vs by auto
      let ?h = "(nodes m)(v \<mapsto> nv\<lparr>prev_p := None\<rparr>, a \<mapsto> n\<lparr>child_p := next_p nz\<rparr>, z \<mapsto> nz\<lparr>prev_p := None, next_p := None\<rparr>)"
      have d: "v \<noteq> a" "v \<noteq> z" "v \<notin> set vt" "a \<notin> set vt" using n(3,4) Cons by auto
      have "cJSON_DetachItemViaPointer (Some a) (Some z) m = Some (Some z, m\<lparr>nodes := ?h\<rparr>)"
        using n nz zs p nv d \<open>us = []\<close> by (simp add: defs fun_upd_twist)
      moreover have "child_list (m\<lparr>nodes := ?h\<rparr>) a (us @ vs)" using vs zs nv d n(3) \<open>us = []\<close> Cons by (auto simp: child_list_def)
      ultimately show ?thesis using n nz nv Cons by (intro that) (auto simp: relinked_def node_values_def detached_def)
    qed
  next
    case (snoc ws y)
    then obtain ny where ny: "nodes m y = Some ny" "next_p ny = Some z" "prev_p nz = Some y" using us nz by (auto simp: seg_append)
    have p: "child_p n \<noteq> Some z" using us n(3) snoc by (cases ws) auto
    have dy: "y \<noteq> a" "y \<noteq> z" "y \<notin> set ws" "a \<notin> set ws" "y \<notin> set vs" using n(3,4) snoc by auto
    show ?thesis
    proof (cases vs)
      case Nil
      let ?h = "(nodes m)(y \<mapsto> ny\<lparr>next_p := None\<rparr>, z \<mapsto> nz\<lparr>prev_p := None, next_p := None\<rparr>)"
      have "cJSON_DetachItemViaPointer (Some a) (Some z) m = Some (Some z, m\<lparr>nodes := ?h\<rparr>)"
        using n nz zs p vs ny dy Nil by (auto simp: defs)
      moreover have "child_list (m\<lparr>nodes := ?h\<rparr>) a (us @ vs)"
        using us zs ny dy n snoc Nil by (auto simp: child_list_def seg_append)
      ultimately show ?thesis using n nz ny snoc by (intro that) (auto simp: relinked_def node_values_def detached_def)
    next
      case (Cons v vt)
      then obtain nv where nv: "nodes m v = Some nv" "next_p nz = Some v" using vs by auto
      let ?h = "(nodes m)(y \<mapsto> ny\<lparr>next_p := Some v\<rparr>, v \<mapsto> nv\<lparr>prev_p := Some y\<rparr>, z \<mapsto> nz\<lparr>prev_p := None, next_p := None\<rparr>)"
      have d: "v \<noteq> a" "v \<noteq> z" "v \<noteq> y" "v \<notin> set vt" "v \<notin> set ws" using n(3,4) snoc Cons by auto
      have "cJSON_DetachItemViaPointer (Some a) (Some z) m = Some (Some z, m\<lparr>nodes := ?h\<rparr>)"
        using n nz zs p ny dy nv d by (auto simp: defs)
      moreover have "child_list (m\<lparr>nodes := ?h\<rparr>) a (us @ vs)"
        using us vs zs ny nv dy d n snoc Cons by (auto simp: child_list_def seg_append)
      ultimately show ?thesis using n nz ny nv snoc Cons by (intro that) (auto simp: relinked_def node_values_def detached_def)
    qed
  qed
qed

lemma relinkedD: "relinked a S m m' \<Longrightarrow> b \<notin> insert a S \<Longrightarrow> nodes m' b = nodes m b"
  by (auto simp: relinked_def)

lemma relinked_strs: "relinked a S m m' \<Longrightarrow> strs m' = strs m \<and> statics m' = statics m"
  by (auto simp: relinked_def)

lemma relinked_values: "relinked a S m m' \<Longrightarrow> map_option node_values (nodes m' b) = map_option node_values (nodes m b)"
  by (auto simp: relinked_def)

lemma relinked_detached: "relinked a S m m' \<Longrightarrow> b \<notin> insert a S \<Longrightarrow> detached m' b = detached m b"
  by (simp add: detached_def relinkedD)

lemma insert_item_at:
  assumes "child_list m a xs" and "detached m i" and "i \<notin> set xs" and "i \<noteq> a"
  shows "\<exists>m'. cJSON_InsertItemInArray (Some a) (int w) (Some i) m = Some m' \<and> child_list m' a (take w xs @ i # drop w xs) \<and>
    relinked a (insert i (set xs)) m m'"
proof (cases "w < length xs")
  case True
  then have xs: "xs = take w xs @ xs ! w # drop (Suc w) xs" "length (take w xs) = w" by (simp_all add: id_take_nth_drop)
  obtain m' where "cJSON_InsertItemInArray (Some a) (int (length (take w xs))) (Some i) m = Some m'"
    "child_list m' a (take w xs @ i # xs ! w # drop (Suc w) xs)" "relinked a (insert i (set (take w xs @ xs ! w # drop (Suc w) xs))) m m'"
    by (rule insert_item [of m a "take w xs" "xs ! w" "drop (Suc w) xs" i]) (use assms xs(1) in simp_all)
  then show ?thesis using xs True by (metis Cons_nth_drop_Suc)
next
  case False
  obtain m' where "cJSON_AddItemToArray (Some a) (Some i) m = Some m'" "child_list m' a (xs @ [i])" "relinked a (insert i (set xs)) m m'"
    using add_item [OF assms] by blast
  then show ?thesis
    using False get_array_item_at [OF assms(1), of w] by (simp add: cJSON_InsertItemInArray_def)
qed

lemma detach_item_at:
  assumes "child_list m a xs" and "w < length xs"
  shows "\<exists>m'. cJSON_DetachItemFromArray (Some a) (int w) m = Some (Some (xs ! w), m') \<and> child_list m' a (take w xs @ drop (Suc w) xs) \<and>
    detached m' (xs ! w) \<and> relinked a (set xs) m m'"
proof -
  have xs: "xs = take w xs @ xs ! w # drop (Suc w) xs" using assms(2) by (simp add: id_take_nth_drop)
  obtain m' where "cJSON_DetachItemViaPointer (Some a) (Some (xs ! w)) m = Some (Some (xs ! w), m')"
    "child_list m' a (take w xs @ drop (Suc w) xs)" "detached m' (xs ! w)" "relinked a (set (take w xs @ xs ! w # drop (Suc w) xs)) m m'"
    by (rule detach_pointer [of m a "take w xs" "xs ! w" "drop (Suc w) xs"]) (use assms xs in simp)
  then show ?thesis using xs assms get_array_item_at [OF assms(1), of w] by (simp add: cJSON_DetachItemFromArray_def)
qed

section \<open>Sequences of items, as an interface\<close>

text \<open>
  What a user of the array operations may rely on: \<open>elems m a xs\<close>, the items of \<open>a\<close> in order, and
  \<open>loose m i\<close>, an item that is in no array.
\<close>

locale item_sequence =
  fixes elems :: "'m \<Rightarrow> addr \<Rightarrow> addr list \<Rightarrow> bool"
    and loose :: "'m \<Rightarrow> addr \<Rightarrow> bool"
    and add :: "addr \<Rightarrow> addr \<Rightarrow> 'm \<Rightarrow> 'm option"
    and insert_at :: "addr \<Rightarrow> nat \<Rightarrow> addr \<Rightarrow> 'm \<Rightarrow> 'm option"
    and take_out :: "addr \<Rightarrow> nat \<Rightarrow> 'm \<Rightarrow> (addr option \<times> 'm) option"
  assumes add_law: "elems m a xs \<Longrightarrow> loose m i \<Longrightarrow> i \<notin> set xs \<Longrightarrow> i \<noteq> a \<Longrightarrow>
      \<exists>m'. add a i m = Some m' \<and> elems m' a (xs @ [i]) \<and> (\<forall>j. j \<notin> set (a # i # xs) \<longrightarrow> loose m j \<longrightarrow> loose m' j)"
    and insert_law: "elems m a xs \<Longrightarrow> loose m i \<Longrightarrow> i \<notin> set xs \<Longrightarrow> i \<noteq> a \<Longrightarrow>
      \<exists>m'. insert_at a w i m = Some m' \<and> elems m' a (take w xs @ i # drop w xs)"
    and take_law: "elems m a xs \<Longrightarrow> w < length xs \<Longrightarrow>
      \<exists>m'. take_out a w m = Some (Some (xs ! w), m') \<and> elems m' a (take w xs @ drop (Suc w) xs) \<and> loose m' (xs ! w)"
begin

fun add_all :: "addr \<Rightarrow> addr list \<Rightarrow> 'm \<Rightarrow> 'm option" where
  "add_all a [] m = Some m"
| "add_all a (i # is) m = (case add a i m of None \<Rightarrow> None | Some m \<Rightarrow> add_all a is m)"

fun take_all :: "addr \<Rightarrow> nat \<Rightarrow> 'm \<Rightarrow> (addr option list \<times> 'm) option" where
  "take_all a 0 m = Some ([], m)"
| "take_all a (Suc n) m =
     (case take_out a 0 m of None \<Rightarrow> None | Some (i, m) \<Rightarrow> map_option (map_prod (Cons i) id) (take_all a n m))"

lemma add_all_elems:
  "elems m a xs \<Longrightarrow> \<forall>i\<in>set is. loose m i \<and> i \<noteq> a \<and> i \<notin> set xs \<Longrightarrow> distinct is \<Longrightarrow> \<exists>m'. add_all a is m = Some m' \<and> elems m' a (xs @ is)"
proof (induction "is" arbitrary: m xs)
  case (Cons i "is")
  then obtain m1 where m1: "add a i m = Some m1" "elems m1 a (xs @ [i])" "\<forall>j. j \<notin> set (a # i # xs) \<longrightarrow> loose m j \<longrightarrow> loose m1 j"
    using add_law [of m a xs i] by auto
  then have "\<forall>j\<in>set is. loose m1 j \<and> j \<noteq> a \<and> j \<notin> set (xs @ [i])" using Cons.prems by auto
  then show ?case using Cons.IH [OF m1(2)] Cons.prems m1(1) by simp
qed simp

lemma take_all_elems: "elems m a (xs @ ys) \<Longrightarrow> \<exists>m'. take_all a (length xs) m = Some (map Some xs, m') \<and> elems m' a ys"
proof (induction xs arbitrary: m)
  case (Cons x xs)
  then obtain m1 where "take_out a 0 m = Some (Some x, m1)" "elems m1 a (xs @ ys)"
    using take_law [OF Cons.prems, of 0] by auto
  then show ?case using Cons.IH by fastforce
qed simp

lemma fifo:
  assumes "elems m a []" and "\<forall>i\<in>set is. loose m i \<and> i \<noteq> a" and "distinct is"
  shows "\<exists>m1 m2. add_all a is m = Some m1 \<and> elems m1 a is \<and> take_all a (length is) m1 = Some (map Some is, m2) \<and> elems m2 a []"
  using add_all_elems [OF assms(1), of "is"] assms take_all_elems [of _ a "is" "[]"] by fastforce

lemma insert_take:
  assumes "elems m a xs" and "loose m i" and "i \<notin> set xs" and "i \<noteq> a" and "w \<le> length xs"
  shows "\<exists>m1 m2. insert_at a w i m = Some m1 \<and> take_out a w m1 = Some (Some i, m2) \<and> elems m2 a xs \<and> loose m2 i"
proof -
  obtain m1 where m1: "insert_at a w i m = Some m1" "elems m1 a (take w xs @ i # drop w xs)" using insert_law assms by blast
  then show ?thesis using take_law [OF m1(2), of w] assms(5) by (auto simp: nth_append)
qed

end

interpretation arr: item_sequence child_list detached "\<lambda>a i. cJSON_AddItemToArray (Some a) (Some i)"
  "\<lambda>a w i. cJSON_InsertItemInArray (Some a) (int w) (Some i)" "\<lambda>a w. cJSON_DetachItemFromArray (Some a) (int w)"
proof
  show "\<exists>m'. cJSON_AddItemToArray (Some a) (Some i) m = Some m' \<and> child_list m' a (xs @ [i]) \<and>
      (\<forall>j. j \<notin> set (a # i # xs) \<longrightarrow> detached m j \<longrightarrow> detached m' j)"
    if "child_list m a xs" "detached m i" "i \<notin> set xs" "i \<noteq> a" for m :: "'a mem" and a xs i
    using add_item [OF that] relinked_detached by (metis insertE list.simps(15))
  show "\<exists>m'. cJSON_InsertItemInArray (Some a) (int w) (Some i) m = Some m' \<and> child_list m' a (take w xs @ i # drop w xs)"
    if "child_list m a xs" "detached m i" "i \<notin> set xs" "i \<noteq> a" for m :: "'a mem" and a xs i w
    using insert_item_at [OF that] by blast
  show "\<exists>m'. cJSON_DetachItemFromArray (Some a) (int w) m = Some (Some (xs ! w), m') \<and>
      child_list m' a (take w xs @ drop (Suc w) xs) \<and> detached m' (xs ! w)"
    if "child_list m a xs" "w < length xs" for m :: "'a mem" and a xs w
    using detach_item_at [OF that] by blast
qed

section \<open>Members of objects\<close>

definition member_key :: "'d mem \<Rightarrow> addr \<Rightarrow> byte list option" where
  "member_key m x = do { n \<leftarrow> nodes m x; p \<leftarrow> string_p n; string_at m p }"

text \<open>Every key that is not NULL can be read, and holds no NUL byte.\<close>

definition keys_ok :: "'d mem \<Rightarrow> addr list \<Rightarrow> bool" where
  "keys_ok m xs \<longleftrightarrow> (\<forall>x\<in>set xs. \<forall>n p. nodes m x = Some n \<longrightarrow> string_p n = Some p \<longrightarrow> (\<exists>s. string_at m p = Some s \<and> 0 \<notin> set s))"

lemma tolower_zero: "tolower c = 0 \<longleftrightarrow> c = 0"
proof
  assume "tolower c = 0"
  then show "c = 0"
  proof (cases "0x41 \<le> c \<and> c \<le> 0x5A")
    case True
    then have "unat (c + 0x20) = unat c + 32" by (simp add: unat_word_ariths word_le_nat_alt)
    then show ?thesis using \<open>tolower c = 0\<close> True by (simp add: tolower_def)
  qed (simp add: tolower_def)
qed (simp add: tolower_def)

lemma case_loop_Nil: "case_loop [] s2 = 0 \<longleftrightarrow> s2 = [] \<or> hd s2 = 0"
  using tolower_zero [of 0] tolower_zero [of "hd s2"] by (cases s2) (auto simp: case_loop.simps [of "[]"] Let_def unsigned_eq_0_iff)

lemma case_loop_Cons: "c \<noteq> 0 \<Longrightarrow> case_loop (c # cs) s2 = 0 \<longleftrightarrow> s2 \<noteq> [] \<and> tolower c = tolower (hd s2) \<and> case_loop cs (tl s2) = 0"
  using tolower_zero [of 0] tolower_zero [of c] by (cases s2) (auto simp: case_loop.simps [of "c # cs"] Let_def unsigned_eq_0_iff simp flip: word_eq_iff_unsigned)

lemma case_loop_zero: "0 \<notin> set s1 \<Longrightarrow> 0 \<notin> set s2 \<Longrightarrow> case_loop s1 s2 = 0 \<longleftrightarrow> map tolower s1 = map tolower s2"
proof (induction s1 arbitrary: s2)
  case Nil
  then show ?case by (cases s2) (auto simp: case_loop_Nil)
next
  case (Cons c cs)
  then show ?case by (cases s2) (auto simp: case_loop_Cons)
qed

lemma find_member_sensitive:
  assumes "string_at m k = Some key"
  shows "seg (nodes m) pv p xs None \<Longrightarrow> keys_ok m xs \<Longrightarrow>
    find_member m (Some k) True p =
      (if \<forall>x\<in>set (takeWhile (\<lambda>x. member_key m x \<noteq> Some key) xs). member_key m x \<noteq> None
       then Some (find (\<lambda>x. member_key m x = Some key) xs) else None)"
proof (induction xs arbitrary: pv p)
  case Nil
  then show ?case by (simp add: find_member.simps [of m _ _ None])
next
  case (Cons x xs)
  then obtain n where n: "p = Some x" "nodes m x = Some n" "seg (nodes m) (Some x) (next_p n) xs None" by auto
  have ok: "keys_ok m xs" using Cons.prems(2) by (auto simp: keys_ok_def)
  have "string_p n = None \<or> (\<exists>q s. string_p n = Some q \<and> string_at m q = Some s)"
    using Cons.prems(2) n(2) by (fastforce simp: keys_ok_def)
  then show ?case
    using n assms Cons.IH [OF n(3) ok]
    by (auto simp: find_member.simps [of m _ _ "Some x"] node_at_def strcmp_differs_def member_key_def)
qed

lemma find_member_insensitive:
  assumes "string_at m k = Some key" and "0 \<notin> set key"
  shows "seg (nodes m) pv p xs None \<Longrightarrow> keys_ok m xs \<Longrightarrow>
    find_member m (Some k) False p = Some (find (\<lambda>x. map_option (map tolower) (member_key m x) = Some (map tolower key)) xs)"
proof (induction xs arbitrary: pv p)
  case Nil
  then show ?case by (simp add: find_member.simps [of m _ _ None])
next
  case (Cons x xs)
  then obtain n where n: "p = Some x" "nodes m x = Some n" "seg (nodes m) (Some x) (next_p n) xs None" by auto
  have ok: "keys_ok m xs" using Cons.prems(2) by (auto simp: keys_ok_def)
  consider "string_p n = None" | q s where "string_p n = Some q" "string_at m q = Some s" "0 \<notin> set s"
    using Cons.prems(2) n(2) by (fastforce simp: keys_ok_def)
  then show ?case
  proof cases
    case 1
    then show ?thesis
      using n Cons.IH [OF n(3) ok] by (auto simp: find_member.simps [of m _ _ "Some x"] node_at_def case_insensitive_strcmp_def member_key_def)
  next
    case 2
    then show ?thesis
      using n assms Cons.IH [OF n(3) ok] case_loop_zero [OF assms(2) 2(3)]
      by (auto simp: find_member.simps [of m _ _ "Some x"] node_at_def case_insensitive_strcmp_def member_key_def)
  qed
qed

lemma find_Some_index: "find P xs = Some x \<Longrightarrow> x \<in> set xs"
  by (induction xs) (auto split: if_splits)

lemma find_append_one: "find P (xs @ [i]) = (case find P xs of Some x \<Rightarrow> Some x | None \<Rightarrow> if P i then Some i else None)"
  by (induction xs) auto

text \<open>Setting the key of an item that is in no array.\<close>

lemma add_to_object:
  assumes xs: "child_list m a xs" and i: "nodes m i = Some ni" "next_p ni = None" "prev_p ni = None" "i \<notin> set xs" "i \<noteq> a"
    and old: "ntype ni AND cJSON_StringIsConst = 0 \<Longrightarrow> string_p ni \<noteq> None \<Longrightarrow>
      string_p ni = Some q \<and> strs m q \<noteq> None \<and> (\<forall>x\<in>set xs. \<forall>n. nodes m x = Some n \<longrightarrow> string_p n \<noteq> Some q)"
    and fresh: "string_at m (brk m) = None" and k: "string_at m k = Some key" and E: "alloc_ok E (requests m)"
    and keys: "\<forall>x\<in>set xs. member_key m x \<noteq> None"
  obtains m' where "cJSON_AddItemToObject E (Some a) (Some k) (Some i) m = Some m'" "child_list m' a (xs @ [i])" "member_key m' i = Some key"
    "\<forall>x\<in>set xs. member_key m' x = member_key m x"
proof -
  define m1 where "m1 = m\<lparr>strs := (strs m)(brk m \<mapsto> key), brk := Suc (brk m), requests := Suc (requests m)\<rparr>"
  define owned where "owned \<longleftrightarrow> ntype ni AND cJSON_StringIsConst = 0 \<and> string_p ni \<noteq> None"
  define m2 where "m2 = (if owned then m1\<lparr>strs := (strs m1)(q := None)\<rparr> else m1)"
  define m3 where "m3 = m2\<lparr>nodes := (nodes m2)(i \<mapsto> ntype_update (\<lambda>t. t OR cJSON_StringIsConst) (ni\<lparr>string_p := Some (brk m)\<rparr>))\<rparr>"
  have qold: "string_p ni = Some q" "\<exists>s. strs m q = Some s" "\<forall>x\<in>set xs. \<forall>n. nodes m x = Some n \<longrightarrow> string_p n \<noteq> Some q" if owned
    using old that by (simp_all add: owned_def)
  have q: "q \<noteq> brk m" if owned using qold(2) [OF that] fresh by (auto simp: string_at_def)
  have m12: "nodes m1 = nodes m" "nodes m2 = nodes m" "statics m2 = statics m" by (simp_all add: m1_def m2_def)
  have free: "(if ntype ni AND cJSON_StringIsConst = 0 \<and> string_p ni \<noteq> None then free_str (string_p ni) m1 else Some m1) = Some m2"
  proof (cases owned)
    case True
    then show ?thesis using qold [OF True] q [OF True] by (auto simp: m1_def m2_def owned_def free_str_def)
  next
    case False
    then show ?thesis using owned_def m2_def by auto
  qed
  have nd3: "nodes m3 = (nodes m)(i \<mapsto> ntype_update (\<lambda>t. t OR cJSON_StringIsConst) (ni\<lparr>string_p := Some (brk m)\<rparr>))" by (simp add: m3_def m12)
  have "child_list m3 a xs" "detached m3 i" using xs i by (auto simp: child_list_def detached_def nd3)
  then obtain m4 where m4: "cJSON_AddItemToArray (Some a) (Some i) m3 = Some m4" "child_list m4 a (xs @ [i])" "relinked a (insert i (set xs)) m3 m4"
    using add_item [OF _ _ i(4,5)] by blast
  note val4 = relinked_values [OF m4(3)]
  obtain n4 where n4: "nodes m4 i = Some n4" "string_p n4 = Some (brk m)"
    using val4 [of i] by (auto simp: nd3 node_values_def)
  define m5 where "m5 = m4\<lparr>nodes := (nodes m4)(i \<mapsto> ntype_update (\<lambda>t. t AND NOT cJSON_StringIsConst) n4)\<rparr>"
  have "cJSON_AddItemToObject E (Some a) (Some k) (Some i) m = Some m5"
    using k E free m4(1) n4(1) i(1)
    by (simp add: cJSON_AddItemToObject_def cJSON_AddItemToObjectCS_def cJSON_strdup_def m1_def [symmetric] node_at_def set_node_def m12 m5_def m3_def)
  moreover have "child_list m5 a (xs @ [i])"
  proof -
    have seg_type: "seg (h(i \<mapsto> ntype_update f n)) pv p ys e = seg h pv p ys e" if "h i = Some n" for h :: "addr \<Rightarrow> 'a node option" and pv p ys e n f
      using that by (induction ys arbitrary: pv p) auto
    show ?thesis
      using m4(2) seg_type [where h = "nodes m4", OF n4(1)] i(5) by (auto simp: child_list_def m5_def)
  qed
  moreover have strs5: "strs m5 = strs m2" "statics m5 = statics m" using relinked_strs [OF m4(3)] by (simp_all add: m5_def m3_def m12)
  have key: "strs m2 (brk m) = Some key" using q by (auto simp: m2_def m1_def)
  then have "member_key m5 i = Some key"
    using n4(2) strs5 by (simp add: member_key_def string_at_def m5_def)
  moreover have "member_key m5 x = member_key m x" if x: "x \<in> set xs" for x
  proof -
    have "x \<noteq> i" using x i(4) by auto
    then have "map_option node_values (nodes m5 x) = map_option node_values (nodes m x)"
      using val4 [of x] by (simp add: m5_def nd3)
    moreover obtain n p s where n: "nodes m x = Some n" "string_p n = Some p" "string_at m p = Some s"
      using keys x by (auto simp: member_key_def bind_eq_Some_conv)
    moreover have "string_at m2 p = Some s"
    proof -
      have "p \<noteq> brk m" using n(3) fresh by auto
      moreover have "p \<noteq> q" if owned using qold(3) [OF that] x n by auto
      ultimately show ?thesis using n(3) by (auto simp: string_at_def m2_def m1_def split: option.splits)
    qed
    moreover have "string_at m5 p = string_at m2 p" for p using strs5 m12(3) by (simp add: string_at_def split: option.splits)
    ultimately show ?thesis by (auto simp: member_key_def node_values_def)
  qed
  ultimately show ?thesis using that by blast
qed

section \<open>Properties\<close>

text \<open>
  C20. The array operations refine the operations on lists. With \<open>xs\<close> the items of an array, in order, and \<open>i\<close> an item that
  is in no array, adding appends it, inserting at \<open>w\<close> puts it before the item with that index
  (at the end when there is none), detaching at \<open>w\<close> removes and returns the item there (NULL when there is
  none), the size is the length, read as an \<^verbatim>\<open>int\<close>. They follow no dangling pointer, and change nothing but links.
\<close>

theorem array_ops_refine:
  assumes "child_list m a xs" and "detached m i" and "i \<notin> set xs" and "i \<noteq> a"
  shows "(\<exists>m'. cJSON_AddItemToArray (Some a) (Some i) m = Some m' \<and> child_list m' a (xs @ [i]) \<and> relinked a (insert i (set xs)) m m') \<and>
    (\<exists>m'. cJSON_InsertItemInArray (Some a) (int w) (Some i) m = Some m' \<and> child_list m' a (take w xs @ i # drop w xs) \<and>
       relinked a (insert i (set xs)) m m') \<and>
    (if w < length xs
     then \<exists>m'. cJSON_DetachItemFromArray (Some a) (int w) m = Some (Some (xs ! w), m') \<and>
       child_list m' a (take w xs @ drop (Suc w) xs) \<and> detached m' (xs ! w) \<and> relinked a (set xs) m m'
     else cJSON_DetachItemFromArray (Some a) (int w) m = Some (None, m)) \<and>
    cJSON_GetArrayItem m (Some a) (int w) = Some (if w < length xs then Some (xs ! w) else None) \<and>
    cJSON_GetArraySize m (Some a) = Some (sint (of_nat (length xs) :: 32 word))"
proof (intro conjI)
  show "\<exists>m'. cJSON_AddItemToArray (Some a) (Some i) m = Some m' \<and> child_list m' a (xs @ [i]) \<and> relinked a (insert i (set xs)) m m'"
    using add_item [OF assms] by blast
  show "\<exists>m'. cJSON_InsertItemInArray (Some a) (int w) (Some i) m = Some m' \<and> child_list m' a (take w xs @ i # drop w xs) \<and>
      relinked a (insert i (set xs)) m m'"
    by (rule insert_item_at [OF assms])
  show "if w < length xs
     then \<exists>m'. cJSON_DetachItemFromArray (Some a) (int w) m = Some (Some (xs ! w), m') \<and>
       child_list m' a (take w xs @ drop (Suc w) xs) \<and> detached m' (xs ! w) \<and> relinked a (set xs) m m'
     else cJSON_DetachItemFromArray (Some a) (int w) m = Some (None, m)"
  proof (cases "w < length xs")
    case False
    then show ?thesis
      using get_array_item_at [OF assms(1), of w] by (simp add: cJSON_DetachItemFromArray_def cJSON_DetachItemViaPointer_def)
  qed (use detach_item_at [OF assms(1)] in simp)
  show "cJSON_GetArrayItem m (Some a) (int w) = Some (if w < length xs then Some (xs ! w) else None)"
    using get_array_item_at [OF assms(1), of w] by (simp add: cJSON_GetArrayItem_def)
  obtain n where n: "nodes m a = Some n" "seg (nodes m) None (child_p n) xs None" using assms(1) by (auto simp: child_list_def)
  have "ucast (of_nat (length xs) :: 64 word) = (of_nat (length xs) :: 32 word)"
    by (rule bit_word_eqI) (simp add: bit_simps)
  then show "cJSON_GetArraySize m (Some a) = Some (sint (of_nat (length xs) :: 32 word))"
    using n count_children_seg [OF n(2), of 0] by (simp add: cJSON_GetArraySize_def node_at_def)
qed

definition leaf :: "addr option \<Rightarrow> addr option \<Rightarrow> u32 \<Rightarrow> addr option \<Rightarrow> int node" where
  "leaf nx pv ty s = \<lparr>next_p = nx, prev_p = pv, child_p = None, ntype = ty, valuestring_p = None, valueint_n = 0, valuedouble_n = 0, string_p = s\<rparr>"

text \<open>An object (1) with the members 2 and 3, keys "a" and "b", and an item 4 outside it.\<close>

definition example_mem :: "int mem" where
  "example_mem = \<lparr>nodes = [1 \<mapsto> (leaf None None cJSON_Object None)\<lparr>child_p := Some 2\<rparr>, 2 \<mapsto> leaf (Some 3) None cJSON_True (Some 10),
       3 \<mapsto> leaf None (Some 2) cJSON_NULL (Some 11), 4 \<mapsto> leaf None None cJSON_False None],
     strs = [10 \<mapsto> [0x61], 11 \<mapsto> [0x62]], statics = [12 \<mapsto> [0x42]], brk = 20, requests = 0\<rparr>"

lemma example_mem_ok: "child_list example_mem 1 [2, 3]" "detached example_mem 4"
  by (simp_all add: example_mem_def child_list_def detached_def leaf_def)

theorem array_ops_refine_witness:
  "(\<exists>m'. cJSON_AddItemToArray (Some 1) (Some 4) example_mem = Some m' \<and> child_list m' 1 ([2, 3] @ [4]) \<and> relinked 1 (insert 4 (set [2, 3])) example_mem m') \<and>
    (\<exists>m'. cJSON_InsertItemInArray (Some 1) (int 1) (Some 4) example_mem = Some m' \<and> child_list m' 1 (take 1 [2, 3] @ 4 # drop 1 [2, 3]) \<and>
       relinked 1 (insert 4 (set [2, 3])) example_mem m') \<and>
    (if 1 < length [2, 3 :: addr]
     then \<exists>m'. cJSON_DetachItemFromArray (Some 1) (int 1) example_mem = Some (Some ([2, 3] ! 1), m') \<and>
       child_list m' 1 (take 1 [2, 3] @ drop (Suc 1) [2, 3]) \<and> detached m' ([2, 3] ! 1) \<and> relinked 1 (set [2, 3]) example_mem m'
     else cJSON_DetachItemFromArray (Some 1) (int 1) example_mem = Some (None, example_mem)) \<and>
    cJSON_GetArrayItem example_mem (Some 1) (int 1) = Some (if 1 < length [2, 3 :: addr] then Some ([2, 3] ! 1) else None) \<and>
    cJSON_GetArraySize example_mem (Some 1) = Some (sint (of_nat (length [2, 3 :: addr]) :: 32 word))"
  by (rule array_ops_refine [OF example_mem_ok]) simp_all

text \<open>
  Adding items to an empty array one by one and detaching as many times the first one gives
  them back in the order in which they were added, and leaves the array empty.
\<close>

theorem array_fifo:
  assumes "child_list m a []" and "\<forall>i\<in>set is. detached m i \<and> i \<noteq> a" and "distinct is"
  shows "\<exists>m1 m2. arr.add_all a is m = Some m1 \<and> child_list m1 a is \<and>
    arr.take_all a (length is) m1 = Some (map Some is, m2) \<and> child_list m2 a []"
  by (rule arr.fifo [OF assms])

theorem array_fifo_witness:
  "\<exists>m1 m2. arr.add_all 4 [1] example_mem = Some m1 \<and> child_list m1 4 [1] \<and>
    arr.take_all 4 (length [1 :: addr]) m1 = Some (map Some [1], m2) \<and> child_list m2 4 []"
  by (rule array_fifo) (simp_all add: example_mem_def child_list_def detached_def leaf_def)

text \<open>
  C25. Looking up a member returns the first one whose key is equal, up to the case of ASCII letters or exactly. A member
  without a key is skipped by the first lookup; the second one passes its NULL pointer to \<^verbatim>\<open>strcmp\<close>.
\<close>

theorem object_lookup:
  assumes "child_list m a xs" and "keys_ok m xs" and "string_at m k = Some key" and "0 \<notin> set key"
  shows "cJSON_GetObjectItem m (Some a) (Some k) =
      Some (find (\<lambda>x. map_option (map tolower) (member_key m x) = Some (map tolower key)) xs) \<and>
    cJSON_GetObjectItemCaseSensitive m (Some a) (Some k) =
      (if \<forall>x\<in>set (takeWhile (\<lambda>x. member_key m x \<noteq> Some key) xs). member_key m x \<noteq> None
       then Some (find (\<lambda>x. member_key m x = Some key) xs) else None)"
proof -
  obtain n where n: "nodes m a = Some n" "seg (nodes m) None (child_p n) xs None" using assms(1) by (auto simp: child_list_def)
  show ?thesis
    using find_member_insensitive [OF assms(3,4) n(2) assms(2)] find_member_sensitive [OF assms(3) n(2) assms(2)] n(1)
    by (simp add: cJSON_GetObjectItem_def cJSON_GetObjectItemCaseSensitive_def get_object_item_def node_at_def)
qed

theorem object_lookup_witness:
  "cJSON_GetObjectItem example_mem (Some 1) (Some 12) =
      Some (find (\<lambda>x. map_option (map tolower) (member_key example_mem x) = Some (map tolower [0x42])) [2, 3]) \<and>
    cJSON_GetObjectItemCaseSensitive example_mem (Some 1) (Some 12) =
      (if \<forall>x\<in>set (takeWhile (\<lambda>x. member_key example_mem x \<noteq> Some [0x42]) [2, 3]). member_key example_mem x \<noteq> None
       then Some (find (\<lambda>x. member_key example_mem x = Some [0x42]) [2, 3]) else None)"
  by (rule object_lookup [OF example_mem_ok(1)]) (simp_all add: example_mem_def keys_ok_def string_at_def leaf_def)

text \<open>
  C24. Adding an item to an object under a key, when the copy of the key can be allocated, appends it
  with that key; looking the key up then finds the item, unless an earlier member has the
  same key. When the copy cannot be allocated nothing is added, and the caller is not told.
\<close>

theorem object_add_lookup:
  assumes "child_list m a xs" and "nodes m i = Some ni" and "next_p ni = None" and "prev_p ni = None" and "i \<notin> set xs" and "i \<noteq> a"
    and "string_p ni = None" and "string_at m (brk m) = None" and "string_at m k = Some key" and "0 \<notin> set key"
    and "keys_ok m xs" and "\<forall>x\<in>set xs. member_key m x \<noteq> None"
  shows "\<exists>m'. cJSON_AddItemToObject E (Some a) (Some k) (Some i) m = Some m' \<and>
    (if alloc_ok E (requests m)
     then child_list m' a (xs @ [i]) \<and> (\<forall>k'. string_at m' k' = Some key \<longrightarrow>
       cJSON_GetObjectItemCaseSensitive m' (Some a) (Some k') =
         Some (Some (case find (\<lambda>x. member_key m x = Some key) xs of None \<Rightarrow> i | Some x \<Rightarrow> x)))
     else child_list m' a xs \<and> detached m' i)"
proof (cases "alloc_ok E (requests m)")
  case True
  obtain m' where m': "cJSON_AddItemToObject E (Some a) (Some k) (Some i) m = Some m'" "child_list m' a (xs @ [i])" "member_key m' i = Some key"
    "\<forall>x\<in>set xs. member_key m' x = member_key m x"
    by (rule add_to_object [OF assms(1-6), of 0 k key E]) (use assms(7-) True in simp_all)
  obtain n where n: "nodes m' a = Some n" "seg (nodes m') None (child_p n) (xs @ [i]) None" using m'(2) by (auto simp: child_list_def)
  have keys: "\<forall>x\<in>set (xs @ [i]). \<exists>s. member_key m' x = Some s \<and> 0 \<notin> set s"
  proof
    fix x
    assume "x \<in> set (xs @ [i])"
    then consider "x = i" | "x \<in> set xs" by auto
    then show "\<exists>s. member_key m' x = Some s \<and> 0 \<notin> set s"
    proof cases
      case 2
      then obtain s where "member_key m x = Some s" using assms(12) by auto
      moreover have "0 \<notin> set s" using calculation assms(11) 2 by (fastforce simp: member_key_def keys_ok_def bind_eq_Some_conv)
      ultimately show ?thesis using m'(4) 2 by auto
    qed (use m'(3) assms(10) in auto)
  qed
  then have "keys_ok m' (xs @ [i])" by (fastforce simp: keys_ok_def member_key_def)
  then have "string_at m' k' = Some key \<Longrightarrow> cJSON_GetObjectItemCaseSensitive m' (Some a) (Some k') =
      Some (find (\<lambda>x. member_key m' x = Some key) (xs @ [i]))" for k'
    using find_member_sensitive [OF _ n(2), of k' key] n(1) keys set_takeWhileD
    by (fastforce simp: cJSON_GetObjectItemCaseSensitive_def get_object_item_def node_at_def)
  moreover have "find (\<lambda>x. member_key m' x = Some key) xs = find (\<lambda>x. member_key m x = Some key) xs"
    using m'(4) by (intro find_cong) simp_all
  ultimately show ?thesis using m' True by (simp add: find_append_one split: option.splits)
next
  case False
  have "seg ((nodes m)(i \<mapsto> n)) pv p xs e = seg (nodes m) pv p xs e" for n pv p e using assms(5) by simp
  then show ?thesis
    using False assms
    by (auto simp: cJSON_AddItemToObject_def cJSON_AddItemToObjectCS_def cJSON_strdup_def set_node_def child_list_def detached_def)
qed

theorem object_add_lookup_witness:
  "\<exists>m'. cJSON_AddItemToObject int_env (Some 1) (Some 12) (Some 4) example_mem = Some m' \<and>
    (if alloc_ok int_env (requests example_mem)
     then child_list m' 1 ([2, 3] @ [4]) \<and> (\<forall>k'. string_at m' k' = Some [0x42] \<longrightarrow>
       cJSON_GetObjectItemCaseSensitive m' (Some 1) (Some k') =
         Some (Some (case find (\<lambda>x. member_key example_mem x = Some [0x42]) [2, 3] of None \<Rightarrow> 4 | Some x \<Rightarrow> x)))
     else child_list m' 1 [2, 3] \<and> detached m' 4)"
  by (rule object_add_lookup [OF example_mem_ok(1), where ni = "leaf None None cJSON_False None"])
     (simp_all add: example_mem_def keys_ok_def string_at_def leaf_def member_key_def)

end
