(* ===== verification/CjsonTree.thy ===== *)
theory CjsonTree
  imports CjsonArray CjsonParse
begin

text \<open>
  Items with everything below them: \<open>'d ltree\<close> is a tree whose nodes carry their addresses, \<open>linked\<close> says that
  the memory holds it, and \<open>abs_tree\<close> forgets the addresses. On this ground: \<^verbatim>\<open>cJSON_Delete\<close> frees exactly what the tree
  owns, and \<^verbatim>\<open>cJSON_Duplicate\<close> makes a copy that shares nothing it could free.
\<close>

unbundle bit_operations_syntax

section \<open>Trees in memory\<close>

datatype 'd ltree = LNode (loc: addr) (lty: u32) (lvs: "(addr \<times> byte list) option") (lvi: int) (lvd: 'd)
  (lnm: "(addr \<times> byte list) option") (lkids: "'d ltree list")

definition firstp :: "'d ltree list \<Rightarrow> addr option \<Rightarrow> addr option" where
  "firstp ts nx = (case ts of [] \<Rightarrow> nx | t # _ \<Rightarrow> Some (loc t))"

lemma firstp_simps [simp]: "firstp [] nx = nx" "firstp (t # ts) nx = Some (loc t)"
  by (simp_all add: firstp_def)

definition root_node :: "addr option \<Rightarrow> addr option \<Rightarrow> 'd ltree \<Rightarrow> 'd node" where
  "root_node pv nx t = \<lparr>next_p = nx, prev_p = pv, child_p = firstp (lkids t) None, ntype = lty t,
     valuestring_p = map_option fst (lvs t), valueint_n = lvi t, valuedouble_n = lvd t, string_p = map_option fst (lnm t)\<rparr>"

definition is_ref :: "u32 \<Rightarrow> bool" where "is_ref ty \<longleftrightarrow> ty AND cJSON_IsReference \<noteq> 0"
definition is_const :: "u32 \<Rightarrow> bool" where "is_const ty \<longleftrightarrow> ty AND cJSON_StringIsConst \<noteq> 0"

text \<open>With \<open>thru\<close>, also what hangs below references (which belongs to another item) is there.\<close>

fun linked :: "bool \<Rightarrow> (addr \<Rightarrow> 'd node option) \<Rightarrow> addr option \<Rightarrow> addr option \<Rightarrow> 'd ltree \<Rightarrow> bool"
  and linked_list :: "bool \<Rightarrow> (addr \<Rightarrow> 'd node option) \<Rightarrow> addr option \<Rightarrow> addr option \<Rightarrow> 'd ltree list \<Rightarrow> bool" where
  "linked thru h pv nx (LNode a ty vs vi vd nm ts) \<longleftrightarrow>
     h a = Some (root_node pv nx (LNode a ty vs vi vd nm ts)) \<and> (thru \<or> \<not> is_ref ty \<longrightarrow> linked_list thru h None None ts)"
| "linked_list thru h pv nx [] \<longleftrightarrow> True"
| "linked_list thru h pv nx (t # ts) \<longleftrightarrow> linked thru h pv (firstp ts nx) t \<and> linked_list thru h (Some (loc t)) nx ts"

fun foot :: "bool \<Rightarrow> 'd ltree \<Rightarrow> addr list" where
  "foot thru (LNode a ty vs vi vd nm ts) = a # (if thru \<or> \<not> is_ref ty then concat (map (foot thru) ts) else [])"

definition ptrs :: "(addr \<times> byte list) option \<Rightarrow> addr list" where
  "ptrs v = (case v of None \<Rightarrow> [] | Some (p, s) \<Rightarrow> [p])"

lemma ptrs_simps [simp]: "ptrs None = []" "ptrs (Some (p, s)) = [p]" "distinct (ptrs v)"
  by (simp_all add: ptrs_def split: option.split)

fun own_strs :: "'d ltree \<Rightarrow> addr list" where
  "own_strs (LNode a ty vs vi vd nm ts) =
     (if is_ref ty then [] else ptrs vs @ concat (map own_strs ts)) @
     (if is_const ty then [] else ptrs nm)"

fun texts :: "'d ltree \<Rightarrow> (addr \<times> byte list) list" where
  "texts (LNode a ty vs vi vd nm ts) =
     (case vs of None \<Rightarrow> [] | Some v \<Rightarrow> [v]) @ (case nm of None \<Rightarrow> [] | Some v \<Rightarrow> [v]) @ concat (map texts ts)"

definition texts_ok :: "'d mem \<Rightarrow> 'd ltree \<Rightarrow> bool" where
  "texts_ok m t \<longleftrightarrow> (\<forall>(p, s)\<in>set (texts t). string_at m p = Some s)"

fun abs_tree :: "'d ltree \<Rightarrow> 'd cJSON" where
  "abs_tree (LNode a ty vs vi vd nm ts) = CJSON ty (map_option snd vs) vi vd (map_option snd nm) (map abs_tree ts)"

abbreviation "feet thru ts \<equiv> concat (map (foot thru) ts)"
abbreviation "owns ts \<equiv> concat (map own_strs ts)"

lemma root_node_simps [simp]:
  "next_p (root_node pv nx t) = nx" "prev_p (root_node pv nx t) = pv" "child_p (root_node pv nx t) = firstp (lkids t) None"
  "ntype (root_node pv nx t) = lty t" "valuestring_p (root_node pv nx t) = map_option fst (lvs t)"
  "string_p (root_node pv nx t) = map_option fst (lnm t)" "valueint_n (root_node pv nx t) = lvi t" "valuedouble_n (root_node pv nx t) = lvd t"
  by (simp_all add: root_node_def)

lemma linked_root: "linked thru h pv nx t \<Longrightarrow> h (loc t) = Some (root_node pv nx t)"
  by (cases t) simp

lemma foot_root [simp]: "loc t \<in> set (foot thru t)"
  by (cases t) simp

lemma linked_cong:
  "(\<forall>x\<in>set (foot thru t). h x = h' x) \<Longrightarrow> linked thru h pv nx t = linked thru h' pv nx t"
  "(\<forall>x\<in>set (feet thru ts). h x = h' x) \<Longrightarrow> linked_list thru h pv nx ts = linked_list thru h' pv nx ts"
  by (induction thru h pv nx t and thru h pv nx ts rule: linked_linked_list.induct) auto

lemma linked_dom:
  "linked thru h pv nx t \<Longrightarrow> set (foot thru t) \<subseteq> dom h"
  "linked_list thru h pv nx ts \<Longrightarrow> set (feet thru ts) \<subseteq> dom h"
proof (induction thru h pv nx t and thru h pv nx ts rule: linked_linked_list.induct)
  case (1 thru h pv nx a ty vs vi vd nm ts)
  then show ?case by (cases "thru \<or> \<not> is_ref ty") (simp_all add: domIff)
qed auto

lemma linked_thru:
  "linked thru h pv nx t \<Longrightarrow> linked False h pv nx t"
  "linked_list thru h pv nx ts \<Longrightarrow> linked_list False h pv nx ts"
  by (induction thru h pv nx t and thru h pv nx ts rule: linked_linked_list.induct) auto

lemma linked_append:
  "linked_list thru h pv nx (ts @ us) \<longleftrightarrow> linked_list thru h pv (firstp us nx) ts \<and> linked_list thru h (lastp pv (map loc ts)) nx us"
  by (induction ts arbitrary: pv) (auto simp: firstp_def split: list.splits)

lemma owned_blocks: "length (foot False t) + length (own_strs t) = cJSON_Delete_blocks (abs_tree t)"
proof (induction t)
  case (LNode a ty vs vi vd nm ts)
  have "length (feet False ts) + length (owns ts) = sum_list (map (\<lambda>k. length (foot False k) + length (own_strs k)) ts)"
    by (simp add: length_concat comp_def sum_list_addf)
  also have "\<dots> = sum_list (map (\<lambda>k. cJSON_Delete_blocks (abs_tree k)) ts)" using LNode by (simp cong: map_cong)
  finally show ?case by (auto simp: is_ref_def is_const_def comp_def ptrs_def split: option.splits)
qed

section \<open>Deleting frees exactly what a tree owns\<close>

definition erase :: "addr set \<Rightarrow> addr set \<Rightarrow> 'd mem \<Rightarrow> 'd mem" where
  "erase A S m = m\<lparr>nodes := nodes m |` (- A), strs := strs m |` (- S)\<rparr>"

lemma erase_erase: "erase A S (erase B T m) = erase (A \<union> B) (S \<union> T) m"
  by (simp add: erase_def Int_commute)

lemma restrict_UNIV [simp]: "m |` UNIV = m"
  by (simp add: restrict_map_def)

lemma free_str_erase: "p \<in> dom (strs m) \<Longrightarrow> free_str (Some p) m = Some (erase {} {p} m)"
  by (auto simp: free_str_def erase_def restrict_complement_singleton_eq)

lemma free_node_erase: "nodes m a = Some n \<Longrightarrow> free_node (Some a) m = Some (erase {a} {} m)"
  by (simp add: free_node_def erase_def restrict_complement_singleton_eq)

lemma erase_empty [simp]: "erase {} {} m = m"
  by (simp add: erase_def)

lemma erase_sel: "nodes (erase A S m) x = (if x \<in> A then None else nodes m x)" "strs (erase A S m) x = (if x \<in> S then None else strs m x)"
  by (simp_all add: erase_def restrict_map_def)

lemma free_ptr: "set (ptrs v) \<subseteq> dom (strs m) - S \<Longrightarrow> free_str (map_option fst v) (erase A S m) = Some (erase A (set (ptrs v) \<union> S) m)"
proof (cases v)
  case None
  then show ?thesis by (simp add: free_str_def)
next
  case (Some w)
  then obtain p s where w: "v = Some (p, s)" by (cases w) simp
  assume "set (ptrs v) \<subseteq> dom (strs m) - S"
  then have "p \<in> dom (strs (erase A S m))" using w by (auto simp: erase_sel)
  then show ?thesis using free_str_erase [of p "erase A S m"] w by (simp add: erase_erase)
qed

lemma Delete_list:
  "linked_list False (nodes m) pv None ts \<Longrightarrow> distinct (feet False ts) \<Longrightarrow> distinct (owns ts) \<Longrightarrow> set (owns ts) \<subseteq> dom (strs m) \<Longrightarrow>
    cJSON_Delete (firstp ts None) m = Some (erase (set (feet False ts)) (set (owns ts)) m)"
proof (induction "size_list size ts" arbitrary: ts pv m rule: less_induct)
  case less
  show ?case
  proof (cases ts)
    case Nil
    then show ?thesis by (simp add: cJSON_Delete.simps [of None])
  next
    case (Cons t us)
    obtain a ty vs vi vd nm ks where t: "t = LNode a ty vs vi vd nm ks" by (cases t)
    have sz: "size_list size ks < size_list size ts" "size_list size us < size_list size ts" using Cons t by simp_all
    have na: "nodes m a = Some (root_node pv (firstp us None) t)" using less.prems(1) Cons t by simp
    define K where "K = (if is_ref ty then {} else set (feet False ks))"
    define KS where "KS = (if is_ref ty then {} else set (owns ks))"
    define V where "V = (if is_ref ty then {} else set (ptrs vs))"
    define N where "N = (if is_const ty then {} else set (ptrs nm))"
    have d: "a \<notin> K" "a \<notin> set (feet False us)" "K \<inter> set (feet False us) = {}" "distinct (feet False us)"
      "\<not> is_ref ty \<Longrightarrow> distinct (feet False ks)"
      using less.prems(2) Cons t by (auto simp: K_def)
    have ds: "V \<inter> KS = {}" "N \<inter> KS = {}" "V \<inter> N = {}" "(V \<union> KS \<union> N) \<inter> set (owns us) = {}" "distinct (owns us)"
      "\<not> is_ref ty \<Longrightarrow> distinct (owns ks)"
      using less.prems(3) unfolding Cons t V_def N_def KS_def by (cases "is_ref ty"; cases "is_const ty"; auto)+
    have sub: "V \<union> KS \<union> N \<union> set (owns us) \<subseteq> dom (strs m)"
      using less.prems(4) Cons t by (auto simp: V_def N_def KS_def split: if_splits)
    let ?m1 = "erase K KS m"
    have kids: "(if lty t AND cJSON_IsReference = 0 \<and> firstp ks None \<noteq> None then cJSON_Delete (firstp ks None) m else Some m) = Some ?m1"
    proof (cases "is_ref ty")
      case False
      then have "linked_list False (nodes m) None None ks" using less.prems(1) Cons t by simp
      then have "cJSON_Delete (firstp ks None) m = Some ?m1"
        using less.hyps [OF sz(1), of m None] False d(5) ds(6) sub by (simp add: K_def KS_def)
      then show ?thesis using False t by (cases ks) (auto simp: K_def KS_def is_ref_def)
    qed (simp add: K_def KS_def t is_ref_def)
    have na1: "nodes ?m1 a = Some (root_node pv (firstp us None) t)" using na d(1) by (simp add: erase_sel)
    have vals: "(if lty t AND cJSON_IsReference = 0 \<and> map_option fst vs \<noteq> None then free_str (map_option fst vs) ?m1 else Some ?m1) = Some (erase K (V \<union> KS) m)"
    proof (cases "is_ref ty")
      case False
      then have V: "V = set (ptrs vs)" by (simp add: V_def)
      have "set (ptrs vs) \<subseteq> dom (strs m) - KS" using ds(1) sub V by auto
      from free_ptr [OF this, of K] False show ?thesis by (cases vs) (auto simp: V t is_ref_def)
    qed (simp add: V_def t is_ref_def)
    have name: "(if lty t AND cJSON_StringIsConst = 0 \<and> map_option fst nm \<noteq> None then free_str (map_option fst nm) (erase K (V \<union> KS) m)
        else Some (erase K (V \<union> KS) m)) = Some (erase K (V \<union> KS \<union> N) m)"
    proof (cases "is_const ty")
      case False
      then have N: "N = set (ptrs nm)" by (simp add: N_def)
      have "set (ptrs nm) \<subseteq> dom (strs m) - (V \<union> KS)" using ds(2,3) sub N by auto
      from free_ptr [OF this, of K] False show ?thesis by (cases nm) (auto simp: N t is_const_def Un_ac)
    qed (simp add: N_def t is_const_def)
    let ?m4 = "erase (insert a K) (V \<union> KS \<union> N) m"
    have "free_node (Some a) (erase K (V \<union> KS \<union> N) m) = Some ?m4"
      using free_node_erase [of "erase K (V \<union> KS \<union> N) m" a] na d(1) by (simp add: erase_sel erase_erase)
    moreover have "cJSON_Delete (firstp us None) ?m4 = Some (erase (set (feet False us)) (set (owns us)) ?m4)"
    proof (rule less.hyps [OF sz(2), of ?m4 "Some a"])
      have "linked_list False (nodes m) (Some a) None us" using less.prems(1) Cons t by simp
      moreover have "\<forall>x\<in>set (feet False us). nodes m x = nodes ?m4 x" using d(2,3) by (auto simp: erase_sel)
      ultimately show "linked_list False (nodes ?m4) (Some a) None us" using linked_cong(2) by blast
      have "dom (strs ?m4) = dom (strs m) - (V \<union> KS \<union> N)" by (auto simp: erase_sel split: if_splits)
      then show "set (owns us) \<subseteq> dom (strs ?m4)" using ds(4) sub by blast
    qed (rule d(4) ds(5))+
    moreover have "erase (set (feet False us)) (set (owns us)) ?m4 = erase (set (feet False ts)) (set (owns ts)) m"
      unfolding erase_erase by (rule arg_cong3 [of _ _ _ _ _ _ erase]) (auto simp: Cons t K_def KS_def V_def N_def)
    moreover have "cJSON_Delete (Some a) m = free_node (Some a) (erase K (V \<union> KS \<union> N) m) \<bind> cJSON_Delete (firstp us None)"
      using kids vals name na na1
      by (simp add: cJSON_Delete.simps [of "Some a"] t node_at_def del: not_None_eq option.map_disc_iff split_paired_Ex split_paired_All split del: if_split cong: if_cong)
    ultimately show ?thesis by (simp add: Cons t)
  qed
qed

lemma Delete_tree:
  assumes "linked False (nodes m) pv None t" and "distinct (foot False t)" and "distinct (own_strs t)" and "set (own_strs t) \<subseteq> dom (strs m)"
  shows "cJSON_Delete (Some (loc t)) m = Some (erase (set (foot False t)) (set (own_strs t)) m)"
  using Delete_list [of m pv "[t]"] assms by simp

section \<open>Properties\<close>

text \<open>
  C22. Deleting an item that is in no list frees each node and string that it owns exactly once, those of its children
  included, follows no freed pointer, and touches nothing else: what hangs below references and
  constant keys stays. The number of blocks freed is that of the tree (\<open>cJSON_Delete_blocks\<close>, by which the
  parser's allocations are counted).
\<close>

theorem delete_exact:
  assumes "linked False (nodes m) pv None t" and "distinct (foot False t)" and "distinct (own_strs t)" and "set (own_strs t) \<subseteq> dom (strs m)"
  shows "\<exists>m'. cJSON_Delete (Some (loc t)) m = Some m' \<and>
    nodes m' = nodes m |` (- set (foot False t)) \<and> strs m' = strs m |` (- set (own_strs t)) \<and>
    statics m' = statics m \<and> brk m' = brk m \<and> requests m' = requests m \<and>
    set (foot False t) \<subseteq> dom (nodes m) \<and> length (foot False t) + length (own_strs t) = cJSON_Delete_blocks (abs_tree t)"
  using Delete_tree [OF assms] linked_dom(1) [OF assms(1)] owned_blocks [of t] by (simp add: erase_def)

text \<open>The object 1 of \<open>example_mem\<close>, with its members.\<close>

definition example_ltree :: "int ltree" where
  "example_ltree = LNode 1 cJSON_Object None 0 0 None
     [LNode 2 cJSON_True None 0 0 (Some (10, [0x61])) [], LNode 3 cJSON_NULL None 0 0 (Some (11, [0x62])) []]"

lemma example_ltree_ok: "linked thru (nodes example_mem) None None example_ltree"
  by (simp add: example_ltree_def example_mem_def leaf_def root_node_def)

theorem delete_exact_witness:
  "\<exists>m'. cJSON_Delete (Some (loc example_ltree)) example_mem = Some m' \<and>
    nodes m' = nodes example_mem |` (- set (foot False example_ltree)) \<and> strs m' = strs example_mem |` (- set (own_strs example_ltree)) \<and>
    statics m' = statics example_mem \<and> brk m' = brk example_mem \<and> requests m' = requests example_mem \<and>
    set (foot False example_ltree) \<subseteq> dom (nodes example_mem) \<and>
    length (foot False example_ltree) + length (own_strs example_ltree) = cJSON_Delete_blocks (abs_tree example_ltree)"
  by (rule delete_exact [OF example_ltree_ok])
     (simp_all add: example_ltree_def example_mem_def is_ref_def is_const_def cJSON_types)

end
