(* ===== verification/CjsonDuplicate.thy ===== *)
theory CjsonDuplicate
  imports CjsonTree
begin

text \<open>
  \<^verbatim>\<open>cJSON_Duplicate\<close>: what it returns is a copy that owns everything below it (references become real items),
  made of fresh blocks only, except for constant keys, which are shared. When an allocation fails
  on the way, everything allocated so far is freed again.
\<close>

unbundle bit_operations_syntax

section \<open>Copies\<close>

fun dup_tree :: "'d cJSON \<Rightarrow> 'd cJSON" where
  "dup_tree (CJSON ty vs vi vd nm ch) = CJSON (ty AND NOT cJSON_IsReference) vs vi vd nm (map dup_tree ch)"

definition dup_item :: "bool \<Rightarrow> 'd cJSON \<Rightarrow> 'd cJSON" where
  "dup_item recurse t = (if recurse then dup_tree t
     else case t of CJSON ty vs vi vd nm ch \<Rightarrow> CJSON (ty AND NOT cJSON_IsReference) vs vi vd nm [])"

definition mem_ok :: "'d mem \<Rightarrow> bool" where
  "mem_ok m \<longleftrightarrow> (\<forall>a. brk m \<le> a \<longrightarrow> nodes m a = None \<and> strs m a = None \<and> statics m a = None)"

definition same_mem :: "'d mem \<Rightarrow> 'd mem \<Rightarrow> bool" where
  "same_mem m m' \<longleftrightarrow> nodes m' = nodes m \<and> strs m' = strs m \<and> statics m' = statics m"

fun no_refs :: "'d ltree \<Rightarrow> bool" where
  "no_refs (LNode a ty vs vi vd nm ts) \<longleftrightarrow> \<not> is_ref ty \<and> (\<forall>t\<in>set ts. no_refs t)"

text \<open>\<open>m\<close> is \<open>m0\<close> with the tree \<open>t\<close> added in fresh blocks.\<close>

definition copy_of :: "'d mem \<Rightarrow> 'd mem \<Rightarrow> 'd ltree \<Rightarrow> bool" where
  "copy_of m0 m t \<longleftrightarrow> linked False (nodes m) None None t \<and> texts_ok m t \<and> no_refs t \<and>
     distinct (foot False t) \<and> distinct (own_strs t) \<and> set (own_strs t) \<subseteq> dom (strs m) \<and>
     set (foot False t) \<union> set (own_strs t) \<subseteq> {brk m0..<brk m} \<and>
     nodes m0 = nodes m |` (- set (foot False t)) \<and> strs m0 = strs m |` (- set (own_strs t)) \<and>
     statics m = statics m0 \<and> mem_ok m \<and> brk m0 \<le> brk m"

definition dup_result :: "'d env \<Rightarrow> 'd mem \<Rightarrow> 'd mem \<Rightarrow> 'd cJSON \<Rightarrow> addr option \<Rightarrow> bool" where
  "dup_result E m0 m T r \<longleftrightarrow> (case r of
     None \<Rightarrow> same_mem m0 m \<and> brk m0 \<le> brk m \<and> (\<exists>k. \<not> alloc_ok E k)
   | Some a \<Rightarrow> \<exists>t. loc t = a \<and> abs_tree t = T \<and> copy_of m0 m t)"

lemma string_at_upd [simp]:
  "string_at (m\<lparr>nodes := h\<rparr>) p = string_at m p" "string_at (m\<lparr>requests := r\<rparr>) p = string_at m p" "string_at (m\<lparr>brk := b\<rparr>) p = string_at m p"
  by (simp_all add: string_at_def split: option.split)

lemma copy_ofD:
  assumes "copy_of m0 m t"
  shows "linked False (nodes m) None None t" "texts_ok m t" "no_refs t" "distinct (foot False t)" "distinct (own_strs t)"
    "set (own_strs t) \<subseteq> dom (strs m)" "set (foot False t) \<subseteq> {brk m0..<brk m}" "set (own_strs t) \<subseteq> {brk m0..<brk m}"
    "nodes m0 = nodes m |` (- set (foot False t))" "strs m0 = strs m |` (- set (own_strs t))" "statics m = statics m0" "mem_ok m"
    "brk m0 \<le> brk m"
  using assms by (simp_all add: copy_of_def)

lemma copy_old:
  assumes "copy_of m0 m t" and "a < brk m0"
  shows "nodes m a = nodes m0 a" "strs m a = strs m0 a" "string_at m a = string_at m0 a"
proof -
  have "a \<notin> set (foot False t)" "a \<notin> set (own_strs t)" using copy_ofD(7,8) [OF assms(1)] assms(2) by auto
  then show "nodes m a = nodes m0 a" "strs m a = strs m0 a" using copy_ofD(9,10) [OF assms(1)] by simp_all
  then show "string_at m a = string_at m0 a" using copy_ofD(11) [OF assms(1)] by (simp add: string_at_def split: option.splits)
qed

lemma copy_delete:
  assumes "copy_of m0 m t"
  shows "\<exists>m'. cJSON_Delete (Some (loc t)) m = Some m' \<and> same_mem m0 m' \<and> brk m' = brk m"
  using Delete_tree [OF copy_ofD(1,4,5,6) [OF assms]] copy_ofD(9-11) [OF assms] by (auto simp: erase_def same_mem_def)

lemma mem_ok_string: "mem_ok m \<Longrightarrow> string_at m p = Some s \<Longrightarrow> p < brk m"
  by (auto simp: mem_ok_def string_at_def not_le [symmetric])

lemma mem_ok_node: "mem_ok m \<Longrightarrow> nodes m p = Some n \<Longrightarrow> p < brk m"
  by (auto simp: mem_ok_def not_le [symmetric])

section \<open>Building the copy\<close>

lemma copy_new:
  assumes "mem_ok m" and "alloc_ok E (requests m)"
  shows "\<exists>m'. cJSON_New_Item E m = (Some (brk m), m') \<and> copy_of m m' (LNode (brk m) 0 None 0 (d_zero E) None [])"
  using assms
  by (auto simp: cJSON_New_Item_def copy_of_def root_node_def zero_node_def texts_ok_def is_ref_def is_const_def mem_ok_def restrict_map_def fun_eq_iff)

text \<open>Changing the root of a copy, and adding the strings \<open>N\<close> to what it owns.\<close>

lemma copy_update:
  assumes c: "copy_of m0 m t" and t': "loc t' = loc t" "lkids t' = lkids t" "\<not> is_ref (lty t')"
    and nd: "nodes m' = (nodes m)(loc t \<mapsto> root_node None None t')"
    and st: "\<And>x. x \<notin> N \<Longrightarrow> strs m' x = strs m x" "N \<subseteq> dom (strs m')" "statics m' = statics m" "brk m \<le> brk m'" "N \<subseteq> {brk m..<brk m'}"
    and own: "set (own_strs t') = set (own_strs t) \<union> N" "distinct (own_strs t')"
    and tx: "\<And>p s. (p, s) \<in> set (texts t') \<Longrightarrow> (p, s) \<in> set (texts t) \<or> string_at m' p = Some s"
  shows "copy_of m0 m' t'"
proof -
  note D = copy_ofD [OF c]
  obtain a ty vs vi vd nm ts where t: "t = LNode a ty vs vi vd nm ts" by (cases t)
  obtain ty' vs' vi' vd' nm' where t'e: "t' = LNode a ty' vs' vi' vd' nm' ts" using t' t by (cases t') auto
  have r: "\<not> is_ref ty" "\<not> is_ref ty'" using D(3) t t'(3) t'e by auto
  have foot: "foot False t' = foot False t" "a \<notin> set (feet False ts)" "a \<in> set (foot False t)" using r D(4) t t'e by auto
  have eq: "nodes m' x = nodes m x" if "x \<noteq> a" for x using nd t that by simp
  have "\<forall>x\<in>set (feet False ts). nodes m x = nodes m' x" using foot(2) eq by metis
  then have "linked_list False (nodes m') None None ts"
    using D(1) r linked_cong(2) [of False ts "nodes m" "nodes m'"] t by auto
  then have lk: "linked False (nodes m') None None t'" using nd t t'e by simp
  have nN: "x \<notin> N" if "x < brk m" for x using st(5) that by auto
  have str: "string_at m' p = Some s" if "string_at m p = Some s" for p s
    using that mem_ok_string [OF D(12) that] nN st(1,3) by (simp add: string_at_def split: option.splits)
  show ?thesis
    unfolding copy_of_def foot
  proof (intro conjI)
    have "string_at m' p = Some s" if "(p, s) \<in> set (texts t')" for p s
      using tx [OF that] str [of p s] D(2) by (auto simp: texts_ok_def)
    then show "texts_ok m' t'" by (auto simp: texts_ok_def)
    show "no_refs t'" using D(3) r t t'e by simp
    show "set (own_strs t') \<subseteq> dom (strs m')"
    proof -
      have "x \<in> dom (strs m')" if "x \<in> set (own_strs t)" for x
        using that D(6,8) nN st(1) by (metis atLeastLessThan_iff domIff subsetD)
      then show ?thesis using own(1) st(2) by auto
    qed
    have "brk m0 \<le> brk m'" using D(13) st(4) by simp
    then show "set (foot False t) \<union> set (own_strs t') \<subseteq> {brk m0..<brk m'}"
      using D(7,8,13) st(4,5) own(1) by fastforce
    show "nodes m0 = nodes m' |` (- set (foot False t))"
    proof
      fix x
      show "nodes m0 x = (nodes m' |` (- set (foot False t))) x"
        using D(9) foot(3) eq [of x] by (cases "x = a"; cases "x \<in> set (foot False t)") auto
    qed
    show "strs m0 = strs m' |` (- set (own_strs t'))"
    proof
      fix x
      show "strs m0 x = (strs m' |` (- set (own_strs t'))) x"
      proof (cases "x \<in> N")
        case True
        then have "strs m x = None" using st(5) D(12) by (auto simp: mem_ok_def)
        then show ?thesis using True D(10) own(1) by (simp add: restrict_map_def)
      next
        case False
        then show ?thesis using D(10) own(1) st(1) by (simp add: restrict_map_def)
      qed
    qed
    show "mem_ok m'"
      unfolding mem_ok_def
    proof (intro allI impI)
      fix x
      assume x: "brk m' \<le> x"
      then have "x \<noteq> a" "x \<notin> N" "brk m \<le> x" using D(7) foot(3) st(4,5) by (auto dest: subsetD)
      then show "nodes m' x = None \<and> strs m' x = None \<and> statics m' x = None" using D(12) eq st(1,3) by (simp add: mem_ok_def)
    qed
    show "statics m' = statics m0" "brk m0 \<le> brk m'" using D(11,13) st(3,4) by simp_all
  qed (use lk D(4) own(2) in simp_all)
qed

lemma copy_root:
  assumes c: "copy_of m0 m t" and t': "loc t' = loc t" "lkids t' = lkids t" "\<not> is_ref (lty t')"
    and "f (root_node None None t) = root_node None None t'"
    and "own_strs t' = own_strs t" and "set (texts t') \<subseteq> set (texts t) \<union> {(p, s). string_at m p = Some s}"
  shows "\<exists>m'. set_node f (Some (loc t)) m = Some m' \<and> copy_of m0 m' t' \<and> requests m' = requests m \<and> brk m' = brk m"
proof -
  let ?m = "m\<lparr>nodes := (nodes m)(loc t \<mapsto> root_node None None t')\<rparr>"
  have "copy_of m0 ?m t'"
    by (rule copy_update [OF c t', where N = "{}"]) (use assms(6,7) copy_ofD(5) [OF c] in auto)
  then show ?thesis using assms(5) linked_root [OF copy_ofD(1) [OF c]] by (auto simp: set_node_def)
qed

text \<open>Copying a string into the root: \<open>f\<close> stores the new pointer.\<close>

lemma copy_string:
  assumes c: "copy_of m0 m t" and s: "string_at m p = Some s"
    and t': "loc t' = loc t" "lkids t' = lkids t" "\<not> is_ref (lty t')"
    and f: "f (root_node None None t) = root_node None None t'"
    and own: "set (own_strs t') = insert (brk m) (set (own_strs t))" "distinct (own_strs t')"
    and tx: "set (texts t') \<subseteq> insert (brk m, s) (set (texts t))"
  shows "(\<exists>m1 m2. alloc_ok E (requests m) \<and> cJSON_strdup E (Some p) m = Some (Some (brk m), m1) \<and> set_node f (Some (loc t)) m1 = Some m2 \<and> copy_of m0 m2 t') \<or>
    (\<exists>m1. \<not> alloc_ok E (requests m) \<and> cJSON_strdup E (Some p) m = Some (None, m1) \<and> copy_of m0 m1 t \<and> nodes m1 = nodes m)"
proof (cases "alloc_ok E (requests m)")
  case True
  let ?m1 = "m\<lparr>strs := (strs m)(brk m \<mapsto> s), brk := Suc (brk m), requests := Suc (requests m)\<rparr>"
  let ?m2 = "?m1\<lparr>nodes := (nodes m)(loc t \<mapsto> root_node None None t')\<rparr>"
  have "copy_of m0 ?m2 t'"
    by (rule copy_update [OF c t', where N = "{brk m}"]) (use own tx in \<open>auto simp: string_at_def\<close>)
  then show ?thesis using True s f linked_root [OF copy_ofD(1) [OF c]] by (auto simp: cJSON_strdup_def set_node_def)
next
  case False
  have "copy_of m0 (m\<lparr>requests := Suc (requests m)\<rparr>) t"
    using c unfolding copy_of_def texts_ok_def mem_ok_def by auto
  then show ?thesis using False s by (simp add: cJSON_strdup_def)
qed

lemma stage_value:
  assumes c: "copy_of m0 m (LNode a ty None vi vd None [])" and s: "\<forall>(p, s)\<in>set_option vs. string_at m p = Some s"
  shows "\<exists>copy m1 m2. cJSON_strdup E (map_option fst vs) m = Some (copy, m1) \<and> set_node (valuestring_p_update (\<lambda>_. copy)) (Some a) m1 = Some m2 \<and>
    (if vs \<noteq> None \<and> copy = None then copy_of m0 m2 (LNode a ty None vi vd None []) \<and> (\<exists>k. \<not> alloc_ok E k)
     else \<exists>vs'. map_option snd vs' = map_option snd vs \<and> copy_of m0 m2 (LNode a ty vs' vi vd None []))"
proof -
  have r: "\<not> is_ref ty" using copy_ofD(3) [OF c] by simp
  have keep: "\<exists>m2. set_node (valuestring_p_update (\<lambda>_. None)) (Some a) m1 = Some m2 \<and> copy_of m0 m2 (LNode a ty None vi vd None [])"
    if "copy_of m0 m1 (LNode a ty None vi vd None [])" for m1
    using copy_root [OF that, of "LNode a ty None vi vd None []" "valuestring_p_update (\<lambda>_. None)"] r by (auto simp: root_node_def)
  show ?thesis
  proof (cases vs)
    case None
    then show ?thesis using keep [OF c] c by (auto simp: cJSON_strdup_def)
  next
    case (Some w)
    then obtain p st where w: "vs = Some (p, st)" "string_at m p = Some st" using s by (cases w) auto
    let ?t' = "LNode a ty (Some (brk m, st)) vi vd None []"
    have "(\<exists>m1 m2. alloc_ok E (requests m) \<and> cJSON_strdup E (Some p) m = Some (Some (brk m), m1) \<and>
          set_node (valuestring_p_update (\<lambda>_. Some (brk m))) (Some a) m1 = Some m2 \<and> copy_of m0 m2 ?t') \<or>
        (\<exists>m1. \<not> alloc_ok E (requests m) \<and> cJSON_strdup E (Some p) m = Some (None, m1) \<and> copy_of m0 m1 (LNode a ty None vi vd None []) \<and> nodes m1 = nodes m)"
      using copy_string [OF c w(2), of ?t' "valuestring_p_update (\<lambda>_. Some (brk m))" E] r by (auto simp: root_node_def)
    then show ?thesis using w(1) keep by fastforce
  qed
qed

lemma stage_key:
  assumes c: "copy_of m0 m (LNode a ty vs vi vd None [])" and s: "\<forall>(p, s)\<in>set_option nm. string_at m p = Some s"
  shows "\<exists>key m1 m2. (if is_const ty then Some (map_option fst nm, m) else cJSON_strdup E (map_option fst nm) m) = Some (key, m1) \<and>
    set_node (string_p_update (\<lambda>_. key)) (Some a) m1 = Some m2 \<and>
    (if nm \<noteq> None \<and> key = None then copy_of m0 m2 (LNode a ty vs vi vd None []) \<and> (\<exists>k. \<not> alloc_ok E k)
     else \<exists>nm'. map_option snd nm' = map_option snd nm \<and> copy_of m0 m2 (LNode a ty vs vi vd nm' []))"
proof -
  have r: "\<not> is_ref ty" using copy_ofD(3) [OF c] by simp
  have keep: "\<exists>m2. set_node (string_p_update (\<lambda>_. None)) (Some a) m1 = Some m2 \<and> copy_of m0 m2 (LNode a ty vs vi vd None [])"
    if "copy_of m0 m1 (LNode a ty vs vi vd None [])" for m1
    using copy_root [OF that, of "LNode a ty vs vi vd None []" "string_p_update (\<lambda>_. None)"] r by (auto simp: root_node_def)
  show ?thesis
  proof (cases nm)
    case None
    then show ?thesis using keep [OF c] c by (auto simp: cJSON_strdup_def)
  next
    case (Some w)
    then obtain p st where w: "nm = Some (p, st)" "string_at m p = Some st" using s by (cases w) auto
    show ?thesis
    proof (cases "is_const ty")
      case True
      have "\<exists>m2. set_node (string_p_update (\<lambda>_. Some p)) (Some a) m = Some m2 \<and> copy_of m0 m2 (LNode a ty vs vi vd nm [])"
        using copy_root [OF c, of "LNode a ty vs vi vd nm []" "string_p_update (\<lambda>_. Some p)"] r True w by (auto simp: root_node_def)
      then show ?thesis using w(1) True by auto
    next
      case False
      let ?t' = "LNode a ty vs vi vd (Some (brk m, st)) []"
      have fresh: "brk m \<notin> set (ptrs vs)" using copy_ofD(8) [OF c] r by auto
      have "(\<exists>m1 m2. alloc_ok E (requests m) \<and> cJSON_strdup E (Some p) m = Some (Some (brk m), m1) \<and>
            set_node (string_p_update (\<lambda>_. Some (brk m))) (Some a) m1 = Some m2 \<and> copy_of m0 m2 ?t') \<or>
          (\<exists>m1. \<not> alloc_ok E (requests m) \<and> cJSON_strdup E (Some p) m = Some (None, m1) \<and> copy_of m0 m1 (LNode a ty vs vi vd None []) \<and> nodes m1 = nodes m)"
        using copy_string [OF c w(2), of ?t' "string_p_update (\<lambda>_. Some (brk m))" E] r False fresh by (auto simp: root_node_def)
      then show ?thesis using w(1) keep False by fastforce
    qed
  qed
qed

section \<open>Linking a copied child\<close>

lemma linked_relink:
  "linked thru h pv nx t \<Longrightarrow> distinct (foot thru t) \<Longrightarrow> linked thru (h(loc t \<mapsto> root_node pv' nx' t)) pv' nx' t"
proof (cases t)
  case (LNode a ty vs vi vd nm ts)
  assume l: "linked thru h pv nx t" and d: "distinct (foot thru t)"
  show ?thesis
  proof (cases "thru \<or> \<not> is_ref ty")
    case True
    then have "\<forall>x\<in>set (feet thru ts). h x = (h(a \<mapsto> root_node pv' nx' t)) x" using d LNode by auto
    moreover have "linked_list thru h None None ts" using l True LNode by simp
    ultimately have "linked_list thru (h(a \<mapsto> root_node pv' nx' t)) None None ts" using linked_cong(2) by blast
    then show ?thesis by (simp add: LNode)
  qed (simp add: LNode)
qed

lemma copy_link:
  assumes p: "copy_of m0 m (LNode a ty vs vi vd nm ds)" and u: "copy_of m m1 u"
  defines "link \<equiv> (if lastp None (map loc ds) \<noteq> None
      then do { m \<leftarrow> set_node (next_p_update (\<lambda>_. Some (loc u))) (lastp None (map loc ds)) m1;
                set_node (prev_p_update (\<lambda>_. lastp None (map loc ds))) (Some (loc u)) m }
      else set_node (child_p_update (\<lambda>_. Some (loc u))) (Some a) m1)"
  shows "\<exists>m2. link = Some m2 \<and> copy_of m0 m2 (LNode a ty vs vi vd nm (ds @ [u]))"
proof -
  let ?t = "LNode a ty vs vi vd nm ds" and ?t' = "LNode a ty vs vi vd nm (ds @ [u])"
  note P = copy_ofD [OF p] and U = copy_ofD [OF u]
  have r: "\<not> is_ref ty" using P(3) by simp
  have disj: "set (foot False ?t) \<inter> set (foot False u) = {}" "set (own_strs ?t) \<inter> set (own_strs u) = {}"
    using P(7,8) U(7,8) by fastforce+
  have old: "nodes m1 x = nodes m x" if "x \<in> set (foot False ?t)" for x using copy_old(1) [OF u] P(7) that by auto
  have "\<forall>x\<in>set (foot False ?t). nodes m x = nodes m1 x" using old by simp
  from linked_cong(1) [OF this] P(1) have l1: "linked False (nodes m1) None None ?t" by blast
  have dn: "linked_list False (nodes m1) None None ds" "nodes m1 a = Some (root_node None None ?t)" using l1 r by simp_all
  have d: "a \<notin> set (feet False ds)" "distinct (feet False ds)" using P(4) r by simp_all
  have au: "a \<notin> set (foot False u)" using disj(1) by auto
  have "\<exists>h. link = Some (m1\<lparr>nodes := h\<rparr>) \<and> linked False h None None ?t' \<and> (\<forall>x. x \<notin> set (foot False ?t) \<union> set (foot False u) \<longrightarrow> h x = nodes m1 x)"
  proof (cases ds rule: rev_cases)
    case Nil
    let ?h = "(nodes m1)(a \<mapsto> root_node None None ?t')"
    have "\<forall>x\<in>set (foot False u). nodes m1 x = ?h x" using au by auto
    from linked_cong(1) [OF this] U(1) have "linked False ?h None None u" by blast
    then have "linked False ?h None None ?t'" using Nil by simp
    moreover have "link = Some (m1\<lparr>nodes := ?h\<rparr>)" using dn(2) Nil by (simp add: link_def set_node_def root_node_def)
    ultimately show ?thesis by (intro exI [of _ ?h]) auto
  next
    case (snoc es e)
    let ?pv = "lastp None (map loc es)"
    let ?g = "(nodes m1)(loc e \<mapsto> root_node ?pv (Some (loc u)) e)"
    let ?h = "?g(loc u \<mapsto> root_node (Some (loc e)) None u)"
    have le: "linked_list False (nodes m1) None (Some (loc e)) es" "linked False (nodes m1) ?pv None e"
      using dn(1) by (simp_all add: snoc linked_append)
    have fe: "loc e \<notin> set (feet False es)" "set (feet False es) \<inter> set (foot False u) = {}" "set (foot False e) \<inter> set (foot False u) = {}"
      "distinct (foot False e)" "a \<noteq> loc e" "a \<noteq> loc u"
      using d disj(1) r au snoc foot_root [of e False] foot_root [of u False] by (auto simp del: foot_root)
    have "\<forall>x\<in>set (feet False es). nodes m1 x = ?h x" using fe(1,2) foot_root [of u False] by (auto simp del: foot_root)
    from linked_cong(2) [OF this] le(1) have k1: "linked_list False ?h None (Some (loc e)) es" by blast
    have "linked False ?g ?pv (Some (loc u)) e" by (rule linked_relink [OF le(2) fe(4)])
    moreover have "\<forall>x\<in>set (foot False e). ?g x = ?h x" using fe(3) foot_root [of u False] by (auto simp del: foot_root)
    ultimately have k2: "linked False ?h ?pv (Some (loc u)) e" using linked_cong(1) by blast
    have "\<forall>x\<in>set (foot False u). nodes m1 x = ?g x" using fe(3) foot_root [of e False] by (auto simp del: foot_root)
    then have "linked False ?g None None u" using U(1) linked_cong(1) by blast
    from linked_relink [OF this U(4)] have k3: "linked False ?h (Some (loc e)) None u" .
    have "linked_list False ?h None None (ds @ [u])" using k1 k2 k3 by (simp add: snoc linked_append)
    moreover have "?h a = Some (root_node None None ?t')" using dn(2) fe(5,6) snoc by (cases es) (simp_all add: root_node_def)
    ultimately have "linked False ?h None None ?t'" by simp
    moreover have "link = Some (m1\<lparr>nodes := ?h\<rparr>)"
      using linked_root [OF le(2)] linked_root [OF U(1)] fe(3) foot_root [of e False] foot_root [of u False] snoc
      by (auto simp: link_def set_node_def root_node_def simp del: foot_root)
    moreover have "loc e \<in> set (foot False ?t)" "loc u \<in> set (foot False u)" using r snoc by simp_all
    ultimately show ?thesis by (intro exI [of _ ?h]) auto
  qed
  then obtain h where h: "link = Some (m1\<lparr>nodes := h\<rparr>)" "linked False h None None ?t'"
    "\<And>x. x \<notin> set (foot False ?t) \<union> set (foot False u) \<Longrightarrow> h x = nodes m1 x" by blast
  have foot: "foot False ?t' = foot False ?t @ foot False u" using r by simp
  have own: "set (own_strs ?t') = set (own_strs ?t) \<union> set (own_strs u)" "distinct (own_strs ?t')"
    using r P(5) U(5) disj(2) by auto
  have "copy_of m0 (m1\<lparr>nodes := h\<rparr>) ?t'"
    unfolding copy_of_def foot own(1)
  proof (intro conjI)
    have t1: "string_at m1 x = Some s" if "(x, s) \<in> set (texts ?t)" for x s
    proof -
      have "string_at m x = Some s" using that P(2) unfolding texts_ok_def by blast
      then show ?thesis using mem_ok_string [OF P(12)] copy_old(3) [OF u, of x] by simp
    qed
    have "set (texts ?t') = set (texts ?t) \<union> set (texts u)" by auto
    then have "string_at m1 x = Some s" if "(x, s) \<in> set (texts ?t')" for x s
      using that t1 U(2) unfolding texts_ok_def by blast
    then show "texts_ok (m1\<lparr>nodes := h\<rparr>) ?t'" unfolding texts_ok_def string_at_upd by blast
    show "no_refs ?t'" using P(3) U(3) by auto
    show "distinct (foot False ?t @ foot False u)" unfolding distinct_append using P(4) U(4) disj(1) by blast
    have "x \<in> dom (strs m1)" if x: "x \<in> set (own_strs ?t)" for x
    proof -
      have "x \<in> dom (strs m)" "x < brk m" using subsetD [OF P(6) x] subsetD [OF P(8) x] by auto
      then show ?thesis using copy_old(2) [OF u] by (simp add: domIff)
    qed
    then show "set (own_strs ?t) \<union> set (own_strs u) \<subseteq> dom (strs (m1\<lparr>nodes := h\<rparr>))"
      using U(6) by (simp add: subset_iff del: own_strs.simps)
    show "set (foot False ?t @ foot False u) \<union> (set (own_strs ?t) \<union> set (own_strs u)) \<subseteq> {brk m0..<brk (m1\<lparr>nodes := h\<rparr>)}"
    proof -
      have "{brk m0..<brk m} \<subseteq> {brk m0..<brk m1}" "{brk m..<brk m1} \<subseteq> {brk m0..<brk m1}" using P(13) U(13) by auto
      then have "set (foot False ?t) \<subseteq> {brk m0..<brk m1}" "set (own_strs ?t) \<subseteq> {brk m0..<brk m1}"
        "set (foot False u) \<subseteq> {brk m0..<brk m1}" "set (own_strs u) \<subseteq> {brk m0..<brk m1}"
        using P(7,8) U(7,8) by (meson order_trans)+
      then show ?thesis by (simp del: foot.simps own_strs.simps)
    qed
    show "nodes m0 = nodes (m1\<lparr>nodes := h\<rparr>) |` (- set (foot False ?t @ foot False u))"
    proof
      fix x
      show "nodes m0 x = (nodes (m1\<lparr>nodes := h\<rparr>) |` (- set (foot False ?t @ foot False u))) x"
        using fun_cong [OF P(9), of x] fun_cong [OF U(9), of x] h(3) [of x]
        by (cases "x \<in> set (foot False ?t)"; cases "x \<in> set (foot False u)") (simp_all del: foot.simps)
    qed
    show "strs m0 = strs (m1\<lparr>nodes := h\<rparr>) |` (- (set (own_strs ?t) \<union> set (own_strs u)))"
      using P(10) U(10) by (simp add: Int_commute del: own_strs.simps)
    have "nodes (m1\<lparr>nodes := h\<rparr>) x = None" if "brk m1 \<le> x" for x
    proof -
      have "x \<notin> set (foot False ?t) \<union> set (foot False u)"
      proof
        assume "x \<in> set (foot False ?t) \<union> set (foot False u)"
        then have "x < brk m \<or> x < brk m1" using U(7) P(7) by (metis Un_iff atLeastLessThan_iff subsetD)
        then show False using that U(13) by simp
      qed
      then show ?thesis using h(3) U(12) that by (simp add: mem_ok_def)
    qed
    then show "mem_ok (m1\<lparr>nodes := h\<rparr>)" using U(12) by (simp add: mem_ok_def)
  qed (use h(2) own(2) P(11,13) U(11,13) in simp_all)
  then show ?thesis using h(1) by blast
qed

lemma copy_same:
  assumes c: "copy_of m0 m t" and s: "same_mem m m1" and "brk m \<le> brk m1"
  shows "copy_of m0 m1 t"
proof (rule copy_update [OF c, where N = "{}"])
  have "no_refs t" by (rule copy_ofD(3) [OF c])
  then show "\<not> is_ref (lty t)" by (cases t) simp
  show "nodes m1 = (nodes m)(loc t \<mapsto> root_node None None t)"
    using s linked_root [OF copy_ofD(1) [OF c]] by (simp add: same_mem_def fun_upd_idem)
qed (use s assms(3) copy_ofD(5) [OF c] in \<open>simp_all add: same_mem_def\<close>)

section \<open>The recursion\<close>

text \<open>Enough fuel for a tree, and for the loop over a list of siblings.\<close>

fun need :: "'d ltree \<Rightarrow> nat" where
  "need (LNode a ty vs vi vd nm ts) = Suc (Suc (sum_list (map (\<lambda>t. Suc (need t)) ts)))"

definition needs :: "'d ltree list \<Rightarrow> nat" where
  "needs ts = Suc (sum_list (map (\<lambda>t. Suc (need t)) ts))"

definition add_children :: "'d cJSON \<Rightarrow> 'd cJSON list \<Rightarrow> 'd cJSON" where
  "add_children T cs = (case T of CJSON ty vs vi vd nm ch \<Rightarrow> CJSON ty vs vi vd nm (ch @ cs))"

definition duplicates :: "'d env \<Rightarrow> nat \<Rightarrow> bool" where
  "duplicates E fuel \<longleftrightarrow> (\<forall>t pv nx m recurse. need t \<le> fuel \<longrightarrow> mem_ok m \<longrightarrow> linked True (nodes m) pv nx t \<longrightarrow> texts_ok m t \<longrightarrow>
     (\<exists>r m'. cJSON_Duplicate E fuel (Some (loc t)) recurse m = Some (r, m') \<and> dup_result E m m' (dup_item recurse (abs_tree t)) r))"

definition duplicates_list :: "'d env \<Rightarrow> nat \<Rightarrow> bool" where
  "duplicates_list E fuel \<longleftrightarrow> (\<forall>ts pv m0 m c. needs ts \<le> fuel \<longrightarrow> mem_ok m0 \<longrightarrow> copy_of m0 m c \<longrightarrow>
     linked_list True (nodes m0) pv None ts \<longrightarrow> (\<forall>t\<in>set ts. texts_ok m0 t) \<longrightarrow>
     (\<exists>r m'. dup_children E fuel (firstp ts None) (lastp None (map loc (lkids c))) (Some (loc c)) m = Some (r, m') \<and>
        dup_result E m0 m' (add_children (abs_tree c) (map (\<lambda>t. dup_tree (abs_tree t)) ts)) r))"

lemma bits_ref: "\<not> is_ref (ty AND NOT cJSON_IsReference)"
  by (simp add: is_ref_def and.assoc)

lemma no_ptrs [simp]: "(if b then [] else ptrs None) = []"
  by simp

lemma need_pos [simp]: "need t \<noteq> 0"
  by (cases t) simp

lemma source_kept:
  assumes c: "copy_of m0 m c" and m0: "mem_ok m0"
  shows "linked_list True (nodes m0) pv nx ts \<Longrightarrow> linked_list True (nodes m) pv nx ts"
    and "linked True (nodes m0) pv nx t \<Longrightarrow> linked True (nodes m) pv nx t"
    and "texts_ok m0 t \<Longrightarrow> texts_ok m t"
proof -
  have old: "nodes m0 x = nodes m x" if "x \<in> dom (nodes m0)" for x
    using that mem_ok_node [OF m0] copy_old(1) [OF c] by auto
  show "linked_list True (nodes m) pv nx ts" if l: "linked_list True (nodes m0) pv nx ts"
  proof -
    have "\<forall>x\<in>set (feet True ts). nodes m0 x = nodes m x" using linked_dom(2) [OF l] old by blast
    from linked_cong(2) [OF this] l show ?thesis by blast
  qed
  show "linked True (nodes m) pv nx t" if l: "linked True (nodes m0) pv nx t"
  proof -
    have "\<forall>x\<in>set (foot True t). nodes m0 x = nodes m x" using linked_dom(1) [OF l] old by blast
    from linked_cong(1) [OF this] l show ?thesis by blast
  qed
  have "string_at m p = Some s" if "string_at m0 p = Some s" for p s
    using that mem_ok_string [OF m0 that] copy_old(3) [OF c] by simp
  then show "texts_ok m t" if "texts_ok m0 t" using that unfolding texts_ok_def by blast
qed

lemma duplicates_list_step:
  assumes "duplicates E fuel" and "duplicates_list E fuel"
  shows "duplicates_list E (Suc fuel)"
  unfolding duplicates_list_def
proof (intro allI impI)
  fix ts :: "'a ltree list" and pv m0 m c
  assume n: "needs ts \<le> Suc fuel" and m0: "mem_ok m0" and c: "copy_of m0 m c" and l: "linked_list True (nodes m0) pv None ts"
    and x: "\<forall>t\<in>set ts. texts_ok m0 t"
  let ?goal = "\<lambda>ts c m. \<exists>r m'. dup_children E (Suc fuel) (firstp ts None) (lastp None (map loc (lkids c))) (Some (loc c)) m = Some (r, m') \<and>
      dup_result E m0 m' (add_children (abs_tree c) (map (\<lambda>t. dup_tree (abs_tree t)) ts)) r"
  show "?goal ts c m"
  proof (cases ts)
    case Nil
    have "add_children (abs_tree c) [] = abs_tree c" by (cases c) (simp add: add_children_def)
    then show ?thesis using Nil c by (auto simp: dup_children.simps dup_result_def)
  next
    case (Cons t us)
    obtain a ty vs vi vd nm ds where ce: "c = LNode a ty vs vi vd nm ds" by (cases c)
    have lt: "linked True (nodes m0) pv (firstp us None) t" and lu: "linked_list True (nodes m0) (Some (loc t)) None us" using l Cons by simp_all
    have nt: "need t \<le> fuel" "needs us \<le> fuel" using n Cons by (simp_all add: needs_def)
    have "linked True (nodes m) pv (firstp us None) t" "texts_ok m t" using source_kept(2,3) [OF c m0] lt x Cons by auto
    then obtain r m1 where d: "cJSON_Duplicate E fuel (Some (loc t)) True m = Some (r, m1)" "dup_result E m m1 (dup_tree (abs_tree t)) r"
      using assms(1) nt(1) copy_ofD(12) [OF c] unfolding duplicates_def dup_item_def by fastforce
    show ?thesis
    proof (cases r)
      case None
      then have "copy_of m0 m1 c" "\<exists>k. \<not> alloc_ok E k" using copy_same [OF c] d(2) by (auto simp: dup_result_def)
      then obtain m2 where "cJSON_Delete (Some (loc c)) m1 = Some m2" "same_mem m0 m2" "brk m2 = brk m1" "brk m0 \<le> brk m1"
        using copy_delete copy_ofD(13) by blast
      then show ?thesis
        using d(1) None Cons \<open>\<exists>k. \<not> alloc_ok E k\<close> by (simp add: dup_children.simps dup_result_def)
    next
      case (Some b)
      then obtain u where u: "loc u = b" "abs_tree u = dup_tree (abs_tree t)" "copy_of m m1 u" using d(2) by (auto simp: dup_result_def)
      let ?c = "LNode a ty vs vi vd nm (ds @ [u])"
      obtain m2 where m2: "(if lastp None (map loc ds) \<noteq> None
          then do { m \<leftarrow> set_node (next_p_update (\<lambda>_. Some (loc u))) (lastp None (map loc ds)) m1;
                    set_node (prev_p_update (\<lambda>_. lastp None (map loc ds))) (Some (loc u)) m }
          else set_node (child_p_update (\<lambda>_. Some (loc u))) (Some a) m1) = Some m2" "copy_of m0 m2 ?c"
        using copy_link [OF c [unfolded ce] u(3)] by blast
      have nt2: "nodes m2 (loc t) = Some (root_node pv (firstp us None) t)"
        using linked_root [OF source_kept(2) [OF m2(2) m0 lt]] .
      obtain r' m' where ih: "dup_children E fuel (firstp us None) (Some b) (Some a) m2 = Some (r', m')"
        "dup_result E m0 m' (add_children (abs_tree ?c) (map (\<lambda>t. dup_tree (abs_tree t)) us)) r'"
        using assms(2) nt(2) m0 m2(2) lu x Cons u(1) unfolding duplicates_list_def by fastforce
      have "dup_children E (Suc fuel) (firstp ts None) (lastp None (map loc ds)) (Some a) m = Some (r', m')"
        using d(1) Some m2(1) u(1) nt2 ih(1) Cons by (simp add: dup_children.simps node_at_def del: not_None_eq split del: if_split cong: if_cong)
      then show ?thesis using ih(2) u(2) Cons ce by (simp add: add_children_def)
    qed
  qed
qed

lemma duplicates_step:
  assumes "duplicates_list E fuel"
  shows "duplicates E (Suc fuel)"
  unfolding duplicates_def
proof (intro allI impI)
  fix t :: "'a ltree" and pv nx m recurse
  assume n: "need t \<le> Suc fuel" and m: "mem_ok m" and l: "linked True (nodes m) pv nx t" and x: "texts_ok m t"
  obtain a ty vs vi vd nm ts where t: "t = LNode a ty vs vi vd nm ts" by (cases t)
  let ?r = "\<lambda>x. \<exists>r m'. x = Some (r, m') \<and> dup_result E m m' (dup_item recurse (abs_tree t)) r"
  let ?ty = "ty AND NOT cJSON_IsReference"
  show "?r (cJSON_Duplicate E (Suc fuel) (Some (loc t)) recurse m)"
  proof (cases "alloc_ok E (requests m)")
    case False
    then show ?thesis
      by (auto simp: cJSON_Duplicate.simps cJSON_New_Item_def dup_result_def same_mem_def)
  next
    case True
    obtain m1 where m1: "cJSON_New_Item E m = (Some (brk m), m1)" "copy_of m m1 (LNode (brk m) 0 None 0 (d_zero E) None [])"
      using copy_new [OF m True] by blast
    have na: "node_at m1 (Some a) = Some (root_node pv nx t)"
      using linked_root [OF source_kept(2) [OF m1(2) m l]] t by (simp add: node_at_def)
    have "\<exists>m2. set_node (\<lambda>n. n\<lparr>ntype := ?ty, valueint_n := vi, valuedouble_n := vd\<rparr>) (Some (brk m)) m1 = Some m2 \<and>
        copy_of m m2 (LNode (brk m) ?ty None vi vd None [])"
      using copy_root [OF m1(2), of "LNode (brk m) ?ty None vi vd None []" "\<lambda>n. n\<lparr>ntype := ?ty, valueint_n := vi, valuedouble_n := vd\<rparr>"] bits_ref
      by (auto simp: root_node_def is_ref_def)
    then obtain m2 where m2: "set_node (\<lambda>n. n\<lparr>ntype := ?ty, valueint_n := vi, valuedouble_n := vd\<rparr>) (Some (brk m)) m1 = Some m2"
      "copy_of m m2 (LNode (brk m) ?ty None vi vd None [])" by blast
    have tx: "string_at m' p = Some s" if "copy_of m m' c" "(p, s) \<in> set_option vs \<union> set_option nm" for m' c p s
    proof -
      have "(p, s) \<in> set (texts t)" using that(2) t by (auto split: option.split)
      then show ?thesis using source_kept(3) [OF that(1) m x] unfolding texts_ok_def by blast
    qed
    have "\<forall>(p, s)\<in>set_option vs. string_at m2 p = Some s" using tx [OF m2(2)] by blast
    from stage_value [OF m2(2) this, of E] obtain copy m3 m4 where m4: "cJSON_strdup E (map_option fst vs) m2 = Some (copy, m3)"
      "set_node (valuestring_p_update (\<lambda>_. copy)) (Some (brk m)) m3 = Some m4"
      "if vs \<noteq> None \<and> copy = None then copy_of m m4 (LNode (brk m) ?ty None vi vd None []) \<and> (\<exists>k. \<not> alloc_ok E k)
       else \<exists>vs'. map_option snd vs' = map_option snd vs \<and> copy_of m m4 (LNode (brk m) ?ty vs' vi vd None [])" by blast
    have fail: "\<exists>m''. cJSON_Delete (Some (brk m)) m' = Some m'' \<and> dup_result E m m'' T None"
      if "copy_of m m' (LNode (brk m) ty' vs' vi' vd' nm' [])" "\<exists>k. \<not> alloc_ok E k" for m' ty' vs' vi' vd' nm' T
      using copy_delete [OF that(1)] copy_ofD(13) [OF that(1)] that(2) by (auto simp: dup_result_def)
    note run = cJSON_Duplicate.simps m1(1) na t m2(1) m4(1,2)
    show ?thesis
    proof (cases "vs \<noteq> None \<and> copy = None")
      case True
      then obtain m5 where "cJSON_Delete (Some (brk m)) m4 = Some m5" "dup_result E m m5 (dup_item recurse (abs_tree t)) None"
        using if_P [OF True] m4(3) fail [of m4 ?ty None vi vd None] by metis
      moreover have "copy = None" using True by simp
      ultimately show ?thesis using True m4(1,2) by (simp add: cJSON_Duplicate.simps m1(1) na t m2(1) del: not_None_eq)
    next
      case False
      then obtain vs' where vs': "map_option snd vs' = map_option snd vs" "copy_of m m4 (LNode (brk m) ?ty vs' vi vd None [])"
        using m4(3) by (auto simp: if_not_P)
      have same: "is_const ?ty = is_const ty" unfolding is_const_def by (simp add: and.assoc) (simp add: cJSON_types)
      have "\<forall>(p, s)\<in>set_option nm. string_at m4 p = Some s" using tx [OF vs'(2)] by blast
      from stage_key [OF vs'(2) this, of E] obtain key m5 m6 where m6:
        "(if is_const ty then Some (map_option fst nm, m4) else cJSON_strdup E (map_option fst nm) m4) = Some (key, m5)"
        "set_node (string_p_update (\<lambda>_. key)) (Some (brk m)) m5 = Some m6"
        "if nm \<noteq> None \<and> key = None then copy_of m m6 (LNode (brk m) ?ty vs' vi vd None []) \<and> (\<exists>k. \<not> alloc_ok E k)
         else \<exists>nm'. map_option snd nm' = map_option snd nm \<and> copy_of m m6 (LNode (brk m) ?ty vs' vi vd nm' [])"
        unfolding same by blast
      have run6: "cJSON_Duplicate E (Suc fuel) (Some (loc t)) recurse m =
        (if nm \<noteq> None \<and> key = None then do { m \<leftarrow> cJSON_Delete (Some (brk m)) m6; Some (None, m) }
         else if \<not> recurse then Some (Some (brk m), m6) else dup_children E fuel (firstp ts None) None (Some (brk m)) m6)"
      proof -
        have no: "(vs \<noteq> None \<and> copy = None) = False" using False by blast
        show ?thesis
          using m6(1,2) unfolding is_const_def by (simp add: run no del: not_None_eq split del: if_split cong: if_cong)
      qed
      show ?thesis
      proof (cases "nm \<noteq> None \<and> key = None")
        case True
        then obtain m7 where "cJSON_Delete (Some (brk m)) m6 = Some m7" "dup_result E m m7 (dup_item recurse (abs_tree t)) None"
          using if_P [OF True] m6(3) fail [of m6 ?ty vs' vi vd None] by metis
        then show ?thesis using True by (simp add: run6 del: not_None_eq)
      next
        case nokey: False
        then obtain nm' where nm': "map_option snd nm' = map_option snd nm" "copy_of m m6 (LNode (brk m) ?ty vs' vi vd nm' [])"
          using m6(3) by (auto simp: if_not_P)
        let ?c = "LNode (brk m) ?ty vs' vi vd nm' []"
        show ?thesis
        proof (cases recurse)
          case False
          have "dup_result E m m6 (dup_item recurse (abs_tree t)) (Some (brk m))"
            using nm' vs'(1) False t by (auto simp: dup_result_def dup_item_def intro!: exI [of _ ?c])
          moreover have "cJSON_Duplicate E (Suc fuel) (Some (loc t)) recurse m = Some (Some (brk m), m6)"
            unfolding run6 if_not_P [OF nokey] using False by simp
          ultimately show ?thesis by blast
        next
          case True
          have "linked_list True (nodes m) None None ts" "\<forall>u\<in>set ts. texts_ok m u" "needs ts \<le> fuel"
            using l x n t by (auto simp: texts_ok_def needs_def)
          then obtain r m' where "dup_children E fuel (firstp ts None) None (Some (brk m)) m6 = Some (r, m')"
            "dup_result E m m' (add_children (abs_tree ?c) (map (\<lambda>t. dup_tree (abs_tree t)) ts)) r"
            using assms m nm'(2) unfolding duplicates_list_def by fastforce
          moreover have "add_children (abs_tree ?c) (map (\<lambda>t. dup_tree (abs_tree t)) ts) = dup_item recurse (abs_tree t)"
            using True nm'(1) vs'(1) t by (simp add: dup_item_def add_children_def)
          moreover have "cJSON_Duplicate E (Suc fuel) (Some (loc t)) recurse m = dup_children E fuel (firstp ts None) None (Some (brk m)) m6"
            unfolding run6 if_not_P [OF nokey] using True by simp
          ultimately show ?thesis by metis
        qed
      qed
    qed
  qed
qed

lemma duplicates_all: "duplicates E fuel \<and> duplicates_list E fuel"
proof (induction fuel)
  case 0
  show ?case by (simp add: duplicates_def duplicates_list_def needs_def)
next
  case (Suc fuel)
  then show ?case using duplicates_step duplicates_list_step by blast
qed

lemma duplicate_tree:
  assumes "mem_ok m" and "linked True (nodes m) pv nx t" and "texts_ok m t" and "need t \<le> fuel"
  shows "\<exists>r m'. cJSON_Duplicate E fuel (Some (loc t)) recurse m = Some (r, m') \<and> dup_result E m m' (dup_item recurse (abs_tree t)) r"
  using duplicates_all [of E fuel] assms unfolding duplicates_def by blast

section \<open>Properties\<close>

text \<open>
  C21. Duplicating an item, with or without its children, either returns NULL, because an allocation failed,
  with the memory as it was; or it returns a copy of the tree in blocks that were not allocated before, where references
  have become items of their own, and deleting the copy leaves the memory as it was. The original is untouched,
  nothing is leaked, and no fuel beyond the size of the tree is needed: the code returns.
\<close>

theorem duplicate_correct:
  assumes "mem_ok m" and "linked True (nodes m) pv nx t" and "texts_ok m t" and "need t \<le> fuel"
  shows "\<exists>r m'. cJSON_Duplicate E fuel (Some (loc t)) recurse m = Some (r, m') \<and>
    (case r of
       None \<Rightarrow> same_mem m m' \<and> (\<exists>k. \<not> alloc_ok E k)
     | Some a \<Rightarrow> (\<exists>t'. loc t' = a \<and> abs_tree t' = dup_item recurse (abs_tree t) \<and> copy_of m m' t') \<and>
         (\<exists>m''. cJSON_Delete (Some a) m' = Some m'' \<and> same_mem m m''))"
  using duplicate_tree [OF assms, of E recurse] copy_delete by (fastforce simp: dup_result_def split: option.splits)

lemma example_mem_dup: "mem_ok example_mem" "texts_ok example_mem example_ltree" "need example_ltree \<le> 8"
  by (auto simp: mem_ok_def texts_ok_def string_at_def example_mem_def example_ltree_def)

theorem duplicate_correct_witness:
  "\<exists>r m'. cJSON_Duplicate int_env 8 (Some (loc example_ltree)) True example_mem = Some (r, m') \<and>
    (case r of
       None \<Rightarrow> same_mem example_mem m' \<and> (\<exists>k. \<not> alloc_ok int_env k)
     | Some a \<Rightarrow> (\<exists>t'. loc t' = a \<and> abs_tree t' = dup_item True (abs_tree example_ltree) \<and> copy_of example_mem m' t') \<and>
         (\<exists>m''. cJSON_Delete (Some a) m' = Some m'' \<and> same_mem example_mem m''))"
  by (rule duplicate_correct [OF example_mem_dup(1) example_ltree_ok example_mem_dup(2,3)])

end
