(* ===== verification/CjsonCompare.thy ===== *)
theory CjsonCompare
  imports CjsonDuplicate
begin

text \<open>
  The tests of an item's type, and \<^verbatim>\<open>cJSON_Compare\<close> on items in memory, with fuel for the recursion and the
  loops. Two items whose trees have the same content compare equal, provided numbers equal themselves,
  strings are not NULL, and no object holds a key twice or has a member without one.
\<close>

unbundle bit_operations_syntax

section \<open>Types\<close>

definition has_type :: "u32 \<Rightarrow> 'd mem \<Rightarrow> addr option \<Rightarrow> bool option" where
  "has_type ty m item = (case item of None \<Rightarrow> Some False | Some _ \<Rightarrow> do { n \<leftarrow> node_at m item; Some (ntype n AND 0xFF = ty) })"

definition cJSON_IsInvalid :: "'d mem \<Rightarrow> addr option \<Rightarrow> bool option" where "cJSON_IsInvalid = has_type cJSON_Invalid"
definition cJSON_IsFalse :: "'d mem \<Rightarrow> addr option \<Rightarrow> bool option" where "cJSON_IsFalse = has_type cJSON_False"
definition cJSON_IsTrue :: "'d mem \<Rightarrow> addr option \<Rightarrow> bool option" where "cJSON_IsTrue = has_type cJSON_True"
definition cJSON_IsNull :: "'d mem \<Rightarrow> addr option \<Rightarrow> bool option" where "cJSON_IsNull = has_type cJSON_NULL"
definition cJSON_IsNumber :: "'d mem \<Rightarrow> addr option \<Rightarrow> bool option" where "cJSON_IsNumber = has_type cJSON_Number"
definition cJSON_IsString :: "'d mem \<Rightarrow> addr option \<Rightarrow> bool option" where "cJSON_IsString = has_type cJSON_String"
definition cJSON_IsArray :: "'d mem \<Rightarrow> addr option \<Rightarrow> bool option" where "cJSON_IsArray = has_type cJSON_Array"
definition cJSON_IsObject :: "'d mem \<Rightarrow> addr option \<Rightarrow> bool option" where "cJSON_IsObject = has_type cJSON_Object"
definition cJSON_IsRaw :: "'d mem \<Rightarrow> addr option \<Rightarrow> bool option" where "cJSON_IsRaw = has_type cJSON_Raw"

definition cJSON_IsBool :: "'d mem \<Rightarrow> addr option \<Rightarrow> bool option" where
  "cJSON_IsBool m item =
     (case item of
        None \<Rightarrow> Some False
      | Some _ \<Rightarrow> do { n \<leftarrow> node_at m item; Some (ntype n AND (cJSON_True OR cJSON_False) \<noteq> 0) })"

definition valid_types :: "u32 list" where
  "valid_types = [cJSON_False, cJSON_True, cJSON_NULL, cJSON_Number, cJSON_String, cJSON_Raw, cJSON_Array, cJSON_Object]"

section \<open>Comparing\<close>

function cJSON_Compare :: "'d env \<Rightarrow> nat \<Rightarrow> 'd mem \<Rightarrow> addr option \<Rightarrow> addr option \<Rightarrow> bool \<Rightarrow> bool option"
  and compare_elements :: "'d env \<Rightarrow> nat \<Rightarrow> 'd mem \<Rightarrow> addr option \<Rightarrow> addr option \<Rightarrow> bool \<Rightarrow> bool option"
  and compare_members :: "'d env \<Rightarrow> nat \<Rightarrow> 'd mem \<Rightarrow> addr option \<Rightarrow> addr option \<Rightarrow> bool \<Rightarrow> bool option" where
  "cJSON_Compare E 0 m a b case_sensitive = None"
| "cJSON_Compare E (Suc fuel) m a b case_sensitive =
     (if a = None \<or> b = None then Some False
      else do {
        x \<leftarrow> node_at m a;
        y \<leftarrow> node_at m b;
        invalid \<leftarrow> cJSON_IsInvalid m a;
        (if ntype x AND 0xFF \<noteq> ntype y AND 0xFF \<or> invalid then Some False
         else if ntype x AND 0xFF \<notin> set valid_types then Some False
         else if a = b then Some True
         else if ntype x AND 0xFF \<in> {cJSON_False, cJSON_True, cJSON_NULL} then Some True
         else if ntype x AND 0xFF = cJSON_Number then Some (d_eq E (valuedouble_n x) (valuedouble_n y))
         else if ntype x AND 0xFF \<in> {cJSON_String, cJSON_Raw}
         then (if valuestring_p x = None \<or> valuestring_p y = None then Some False
               else map_option Not (strcmp_differs m (valuestring_p x) (valuestring_p y)))
         else if ntype x AND 0xFF = cJSON_Array then compare_elements E fuel m (child_p x) (child_p y) case_sensitive
         else do {
           r \<leftarrow> compare_members E fuel m (child_p x) b case_sensitive;
           (if \<not> r then Some False else compare_members E fuel m (child_p y) a case_sensitive) }) })"
| "compare_elements E 0 m a_element b_element case_sensitive = None"
| "compare_elements E (Suc fuel) m a_element b_element case_sensitive =
     (if a_element \<noteq> None \<and> b_element \<noteq> None
      then do {
        r \<leftarrow> cJSON_Compare E fuel m a_element b_element case_sensitive;
        (if \<not> r then Some False
         else do {
           x \<leftarrow> node_at m a_element;
           y \<leftarrow> node_at m b_element;
           compare_elements E fuel m (next_p x) (next_p y) case_sensitive }) }
      else Some (a_element = b_element))"
| "compare_members E 0 m element other case_sensitive = None"
| "compare_members E (Suc fuel) m element other case_sensitive =
     (case element of
        None \<Rightarrow> Some True
      | Some _ \<Rightarrow> do {
          x \<leftarrow> node_at m element;
          found \<leftarrow> get_object_item m other (string_p x) case_sensitive;
          (if found = None then Some False
           else do {
             r \<leftarrow> cJSON_Compare E fuel m element found case_sensitive;
             (if \<not> r then Some False else compare_members E fuel m (next_p x) other case_sensitive) }) })"
  by pat_completeness auto
termination
  by (relation "measure (case_sum (\<lambda>(E, fuel, m, a, b, cs). fuel)
      (case_sum (\<lambda>(E, fuel, m, a, b, cs). fuel) (\<lambda>(E, fuel, m, a, b, cs). fuel)))") simp_all

declare cJSON_Compare.simps [simp del] compare_elements.simps [simp del] compare_members.simps [simp del]

section \<open>Items with the same content\<close>

fun core :: "'d cJSON \<Rightarrow> 'd cJSON" where
  "core (CJSON ty vs vi vd nm ch) = CJSON (ty AND 0xFF) vs 0 vd nm (map core ch)"

definition same_key :: "bool \<Rightarrow> byte list option \<Rightarrow> byte list option" where
  "same_key case_sensitive key = (if case_sensitive then key else map_option (map tolower) key)"

fun comparable :: "'d env \<Rightarrow> bool \<Rightarrow> 'd cJSON \<Rightarrow> bool" where
  "comparable E cs (CJSON ty vs vi vd nm ch) \<longleftrightarrow>
     ty AND 0xFF \<in> set valid_types \<and>
     (ty AND 0xFF = cJSON_Number \<longrightarrow> d_eq E vd vd) \<and>
     (ty AND 0xFF \<in> {cJSON_String, cJSON_Raw} \<longrightarrow> vs \<noteq> None) \<and>
     (ty AND 0xFF \<in> {cJSON_Array, cJSON_Object} \<longrightarrow> (\<forall>c\<in>set ch. comparable E cs c)) \<and>
     (ty AND 0xFF = cJSON_Object \<longrightarrow> (\<forall>c\<in>set ch. \<exists>key. name c = Some key \<and> 0 \<notin> set key) \<and> distinct (map (\<lambda>c. same_key cs (name c)) ch))"

lemma core_sel [simp]:
  "type_of (core T) = type_of T AND 0xFF" "valuestring (core T) = valuestring T" "valuedouble (core T) = valuedouble T"
  "name (core T) = name T" "child (core T) = map core (child T)"
  by (cases T; simp)+

lemma comparable_core: "comparable E cs (core T) = comparable E cs T"
proof (induction T)
  case (CJSON ty vs vi vd nm ch)
  have "(ty AND 0xFF) AND 0xFF = ty AND 0xFF" by (simp add: and.assoc)
  then show ?case using CJSON by (simp add: comp_def)
qed

lemma abs_tree_sel [simp]:
  "type_of (abs_tree t) = lty t" "valuestring (abs_tree t) = map_option snd (lvs t)" "valuedouble (abs_tree t) = lvd t"
  "name (abs_tree t) = map_option snd (lnm t)" "child (abs_tree t) = map abs_tree (lkids t)"
  by (cases t; simp)+

definition alike :: "'d ltree \<Rightarrow> 'd ltree \<Rightarrow> bool" where
  "alike t u \<longleftrightarrow> core (abs_tree t) = core (abs_tree u)"

definition in_mem :: "'d mem \<Rightarrow> 'd ltree \<Rightarrow> bool" where
  "in_mem m t \<longleftrightarrow> texts_ok m t \<and> (\<exists>pv nx. linked True (nodes m) pv nx t)"

definition in_mem_list :: "'d mem \<Rightarrow> addr option \<Rightarrow> 'd ltree list \<Rightarrow> bool" where
  "in_mem_list m pv ts \<longleftrightarrow> linked_list True (nodes m) pv None ts \<and> (\<forall>t\<in>set ts. texts_ok m t)"

lemma alike_sym: "alike t u \<Longrightarrow> alike u t"
  by (simp add: alike_def)

lemma alikeD:
  assumes "alike t u"
  shows "lty u AND 0xFF = lty t AND 0xFF" "map_option snd (lvs u) = map_option snd (lvs t)" "lvd u = lvd t"
    "map_option snd (lnm u) = map_option snd (lnm t)" "list_all2 alike (lkids t) (lkids u)"
proof -
  have e: "core (abs_tree t) = core (abs_tree u)" using assms by (simp add: alike_def)
  show "lty u AND 0xFF = lty t AND 0xFF" using arg_cong [OF e, of type_of] by simp
  show "map_option snd (lvs u) = map_option snd (lvs t)" using arg_cong [OF e, of valuestring] by simp
  show "lvd u = lvd t" using arg_cong [OF e, of valuedouble] by simp
  show "map_option snd (lnm u) = map_option snd (lnm t)" using arg_cong [OF e, of name] by simp
  have "map (core \<circ> abs_tree) (lkids t) = map (core \<circ> abs_tree) (lkids u)" using arg_cong [OF e, of child] by simp
  then show "list_all2 alike (lkids t) (lkids u)"
    by (simp add: alike_def list_all2_conv_all_nth list_eq_iff_nth_eq)
qed

lemma alike_comparable: "alike t u \<Longrightarrow> comparable E cs (abs_tree t) = comparable E cs (abs_tree u)"
  unfolding alike_def by (metis comparable_core)

lemma need_alike: "alike t u \<Longrightarrow> need t = need u"
proof (induction t arbitrary: u)
  case (LNode a ty vs vi vd nm ts)
  obtain a' ty' vs' vi' vd' nm' us where u: "u = LNode a' ty' vs' vi' vd' nm' us" by (cases u)
  have l: "list_all2 alike ts us" using alikeD(5) [OF LNode.prems] u by simp
  have "map (\<lambda>t. Suc (need t)) ts = map (\<lambda>t. Suc (need t)) us"
    using l LNode.IH by (intro nth_equalityI) (auto simp: list_all2_conv_all_nth)
  then show ?case by (simp add: u)
qed

lemma in_mem_root:
  assumes "in_mem m t"
  shows "\<exists>pv nx. nodes m (loc t) = Some (root_node pv nx t)" "in_mem_list m None (lkids t)"
    "\<And>v. v \<in> {lvs t, lnm t} \<Longrightarrow> v = Some (p, s) \<Longrightarrow> string_at m p = Some s"
  using assms by (cases t; auto simp: in_mem_def in_mem_list_def texts_ok_def)+

lemma in_mem_list_Cons: "in_mem_list m pv (t # ts) \<Longrightarrow> in_mem m t \<and> in_mem_list m (Some (loc t)) ts \<and> nodes m (loc t) = Some (root_node pv (firstp ts None) t)"
  using linked_root by (auto simp: in_mem_list_def in_mem_def) 

lemma in_mem_list_mem: "in_mem_list m pv ts \<Longrightarrow> t \<in> set ts \<Longrightarrow> in_mem m t"
  by (induction ts arbitrary: pv) (auto dest!: in_mem_list_Cons)

lemma in_mem_list_seg: "in_mem_list m pv ts \<Longrightarrow> seg (nodes m) pv (firstp ts None) (map loc ts) None"
  by (induction ts arbitrary: pv) (auto dest!: in_mem_list_Cons)

lemma in_mem_key: "in_mem m t \<Longrightarrow> member_key m (loc t) = map_option snd (lnm t)"
  using in_mem_root(1) [of m t] in_mem_root(3) [of m t, where v = "lnm t"] by (cases "lnm t") (auto simp: member_key_def)

lemma find_at: "i < length xs \<Longrightarrow> P (xs ! i) \<Longrightarrow> (\<And>j. j < i \<Longrightarrow> \<not> P (xs ! j)) \<Longrightarrow> find P xs = Some (xs ! i)"
  by (simp add: find_Some_iff) blast

text \<open>Looking up the key of a child of an object finds that child.\<close>

lemma find_own_key:
  assumes u: "in_mem m u" and c: "\<forall>k\<in>set (lkids u). \<exists>key. map_option snd (lnm k) = Some key \<and> 0 \<notin> set key"
    and d: "distinct (map (\<lambda>k. same_key cs (map_option snd (lnm k))) (lkids u))" and i: "i < length (lkids u)"
    and p: "string_at m p = Some key" "map_option snd (lnm (lkids u ! i)) = Some key"
  shows "get_object_item m (Some (loc u)) (Some p) cs = Some (Some (loc (lkids u ! i)))"
proof -
  obtain pv nx where n: "nodes m (loc u) = Some (root_node pv nx u)" using in_mem_root(1) [OF u] by blast
  note kids = in_mem_root(2) [OF u]
  have sg: "seg (nodes m) None (firstp (lkids u) None) (map loc (lkids u)) None" by (rule in_mem_list_seg [OF kids])
  have keyat: "member_key m (map loc (lkids u) ! j) = map_option snd (lnm (lkids u ! j))" if "j < length (lkids u)" for j
    using in_mem_key [OF in_mem_list_mem [OF kids]] that by simp
  have ok: "keys_ok m (map loc (lkids u))"
    unfolding keys_ok_def
  proof (intro ballI allI impI)
    fix x nd q
    assume x: "x \<in> set (map loc (lkids u))" "nodes m x = Some nd" "string_p nd = Some q"
    then obtain k where k: "k \<in> set (lkids u)" "x = loc k" by auto
    have im: "in_mem m k" by (rule in_mem_list_mem [OF kids k(1)])
    obtain s where s: "lnm k = Some (q, s)" using in_mem_root(1) [OF im] x k by auto
    then have "string_at m q = Some s" using in_mem_root(3) [OF im, where v = "lnm k"] by simp
    then show "\<exists>s. string_at m q = Some s \<and> 0 \<notin> set s" using c k(1) s by auto
  qed
  have key0: "0 \<notin> set key" using c i p(2) by (metis nth_mem option.inject)
  have other: "same_key cs (map_option snd (lnm (lkids u ! j))) \<noteq> same_key cs (Some key)" if "j < i" for j
    using nth_eq_iff_index_eq [OF d, of j i] i that unfolding p(2) [symmetric] by simp
  have "find_member m (Some p) cs (firstp (lkids u) None) = Some (Some (loc (lkids u ! i)))"
  proof (cases cs)
    case True
    have "find (\<lambda>x. member_key m x = Some key) (map loc (lkids u)) = Some (map loc (lkids u) ! i)"
      using i p(2) other keyat True by (intro find_at) (auto simp: same_key_def)
    moreover have "\<forall>x\<in>set (map loc (lkids u)). member_key m x \<noteq> None"
      using in_mem_key in_mem_list_mem [OF kids] c by fastforce
    moreover have "\<forall>x\<in>set (takeWhile (\<lambda>x. member_key m x \<noteq> Some key) (map loc (lkids u))). member_key m x \<noteq> None"
      using calculation(2) by (blast dest: set_takeWhileD)
    ultimately show ?thesis
      using find_member_sensitive [OF p(1) sg ok] True i by simp
  next
    case False
    have "find (\<lambda>x. map_option (map tolower) (member_key m x) = Some (map tolower key)) (map loc (lkids u)) = Some (map loc (lkids u) ! i)"
      using i p(2) other keyat False by (intro find_at) (auto simp: same_key_def)
    then show ?thesis using find_member_insensitive [OF p(1) key0 sg ok] False i by simp
  qed
  then show ?thesis using n by (simp add: get_object_item_def node_at_def)
qed

section \<open>The recursion\<close>

definition compares :: "'d env \<Rightarrow> bool \<Rightarrow> 'd mem \<Rightarrow> nat \<Rightarrow> bool" where
  "compares E cs m fuel \<longleftrightarrow> (\<forall>t u. need t \<le> fuel \<longrightarrow> in_mem m t \<longrightarrow> in_mem m u \<longrightarrow> alike t u \<longrightarrow> comparable E cs (abs_tree t) \<longrightarrow>
     cJSON_Compare E fuel m (Some (loc t)) (Some (loc u)) cs = Some True)"

definition compares_elements :: "'d env \<Rightarrow> bool \<Rightarrow> 'd mem \<Rightarrow> nat \<Rightarrow> bool" where
  "compares_elements E cs m fuel \<longleftrightarrow> (\<forall>ts us pv pv'. needs ts \<le> fuel \<longrightarrow> in_mem_list m pv ts \<longrightarrow> in_mem_list m pv' us \<longrightarrow> list_all2 alike ts us \<longrightarrow>
     (\<forall>t\<in>set ts. comparable E cs (abs_tree t)) \<longrightarrow> compare_elements E fuel m (firstp ts None) (firstp us None) cs = Some True)"

definition compares_members :: "'d env \<Rightarrow> bool \<Rightarrow> 'd mem \<Rightarrow> nat \<Rightarrow> bool" where
  "compares_members E cs m fuel \<longleftrightarrow> (\<forall>ts us pv u. needs ts \<le> fuel \<longrightarrow> in_mem_list m pv ts \<longrightarrow> in_mem m u \<longrightarrow> list_all2 alike (us @ ts) (lkids u) \<longrightarrow>
     (\<forall>t\<in>set ts. comparable E cs (abs_tree t)) \<longrightarrow>
     (\<forall>k\<in>set (lkids u). \<exists>key. map_option snd (lnm k) = Some key \<and> 0 \<notin> set key) \<longrightarrow>
     distinct (map (\<lambda>k. same_key cs (map_option snd (lnm k))) (lkids u)) \<longrightarrow>
     compare_members E fuel m (firstp ts None) (Some (loc u)) cs = Some True)"

lemma compares_elements_step:
  assumes "compares E cs m fuel" and "compares_elements E cs m fuel"
  shows "compares_elements E cs m (Suc fuel)"
  unfolding compares_elements_def
proof (intro allI impI)
  fix ts us pv pv'
  assume n: "needs ts \<le> Suc fuel" and l: "in_mem_list m pv ts" "in_mem_list m pv' us" and al: "list_all2 alike ts us"
    and c: "\<forall>t\<in>set ts. comparable E cs (abs_tree t)"
  show "compare_elements E (Suc fuel) m (firstp ts None) (firstp us None) cs = Some True"
  proof (cases ts)
    case Nil
    then show ?thesis using al by (simp add: compare_elements.simps)
  next
    case (Cons t ts')
    then obtain u us' where us: "us = u # us'" "alike t u" "list_all2 alike ts' us'" using al by (cases us) auto
    note tl = in_mem_list_Cons [OF l(1) [unfolded Cons]] and ul = in_mem_list_Cons [OF l(2) [unfolded us(1)]]
    have "cJSON_Compare E fuel m (Some (loc t)) (Some (loc u)) cs = Some True"
      using assms(1) n tl ul us(2) c Cons unfolding compares_def by (simp add: needs_def)
    moreover have "compare_elements E fuel m (firstp ts' None) (firstp us' None) cs = Some True"
    proof -
      have "needs ts' \<le> fuel" "\<forall>t\<in>set ts'. comparable E cs (abs_tree t)" using n c Cons by (simp_all add: needs_def)
      then show ?thesis using assms(2) tl ul us(3) unfolding compares_elements_def by blast
    qed
    ultimately show ?thesis using tl ul by (simp add: compare_elements.simps Cons us(1) node_at_def)
  qed
qed

lemma compares_members_step:
  assumes "compares E cs m fuel" and "compares_members E cs m fuel"
  shows "compares_members E cs m (Suc fuel)"
  unfolding compares_members_def
proof (intro allI impI)
  fix ts us pv u
  assume n: "needs ts \<le> Suc fuel" and l: "in_mem_list m pv ts" and u: "in_mem m u" and al: "list_all2 alike (us @ ts) (lkids u)"
    and c: "\<forall>t\<in>set ts. comparable E cs (abs_tree t)"
    and keys: "\<forall>k\<in>set (lkids u). \<exists>key. map_option snd (lnm k) = Some key \<and> 0 \<notin> set key"
      "distinct (map (\<lambda>k. same_key cs (map_option snd (lnm k))) (lkids u))"
  show "compare_members E (Suc fuel) m (firstp ts None) (Some (loc u)) cs = Some True"
  proof (cases ts)
    case Nil
    then show ?thesis by (simp add: compare_members.simps)
  next
    case (Cons t ts')
    let ?k = "lkids u ! length us"
    have i: "length us < length (lkids u)" "alike t ?k"
      using al Cons by (auto simp: list_all2_conv_all_nth nth_append dest!: spec [of _ "length us"])
    note tl = in_mem_list_Cons [OF l [unfolded Cons]]
    obtain key where key: "map_option snd (lnm ?k) = Some key" using keys(1) i(1) by (meson nth_mem)
    then obtain p where p: "lnm t = Some (p, key)" using alikeD(4) [OF i(2)] by (cases "lnm t") auto
    have "string_at m p = Some key" using in_mem_root(3) [of m t, where v = "lnm t"] tl p by simp
    then have found: "get_object_item m (Some (loc u)) (Some p) cs = Some (Some (loc ?k))"
      using find_own_key [OF u keys i(1) _ key] by blast
    have "in_mem m ?k" using in_mem_list_mem [OF in_mem_root(2) [OF u]] i(1) by simp
    then have "cJSON_Compare E fuel m (Some (loc t)) (Some (loc ?k)) cs = Some True"
      using assms(1) n tl i(2) c Cons unfolding compares_def by (simp add: needs_def)
    moreover have "compare_members E fuel m (firstp ts' None) (Some (loc u)) cs = Some True"
    proof -
      have "list_all2 alike ((us @ [t]) @ ts') (lkids u)" "needs ts' \<le> fuel" using al n Cons by (simp_all add: needs_def)
      then show ?thesis using assms(2) tl u c keys Cons unfolding compares_members_def by (meson list.set_intros(2))
    qed
    ultimately show ?thesis using tl p found by (simp add: compare_members.simps Cons node_at_def)
  qed
qed

lemma compares_step:
  assumes "compares_elements E cs m fuel" and "compares_members E cs m fuel"
  shows "compares E cs m (Suc fuel)"
  unfolding compares_def
proof (intro allI impI)
  fix t u
  assume n: "need t \<le> Suc fuel" and t: "in_mem m t" and u: "in_mem m u" and al: "alike t u" and c: "comparable E cs (abs_tree t)"
  note A = alikeD [OF al]
  obtain pv nx pv' nx' where r: "nodes m (loc t) = Some (root_node pv nx t)" "nodes m (loc u) = Some (root_node pv' nx' u)"
    using in_mem_root(1) [OF t] in_mem_root(1) [OF u] by blast
  obtain a ty vs vi vd nm ts where te: "t = LNode a ty vs vi vd nm ts" by (cases t)
  let ?k = "lty t AND 0xFF"
  have valid: "?k \<in> set valid_types" using c te by simp
  have nz: "?k \<noteq> cJSON_Invalid" using valid by (auto simp: valid_types_def cJSON_types)
  have nts: "needs (lkids t) \<le> fuel" "needs (lkids u) \<le> fuel"
  proof -
    have "need x = Suc (needs (lkids x))" for x :: "'a ltree" by (cases x) (simp add: needs_def)
    then show "needs (lkids t) \<le> fuel" "needs (lkids u) \<le> fuel" using n need_alike [OF al] by auto
  qed
  have kt: "in_mem_list m None (lkids t)" and ku: "in_mem_list m None (lkids u)" using in_mem_root(2) t u by blast+
  have step: "cJSON_Compare E (Suc fuel) m (Some (loc t)) (Some (loc u)) cs =
     (if loc t = loc u then Some True
      else if ?k \<in> {cJSON_False, cJSON_True, cJSON_NULL} then Some True
      else if ?k = cJSON_Number then Some (d_eq E (lvd t) (lvd u))
      else if ?k \<in> {cJSON_String, cJSON_Raw}
      then (if lvs t = None \<or> lvs u = None then Some False else map_option Not (strcmp_differs m (map_option fst (lvs t)) (map_option fst (lvs u))))
      else if ?k = cJSON_Array then compare_elements E fuel m (firstp (lkids t) None) (firstp (lkids u) None) cs
      else do {
        r \<leftarrow> compare_members E fuel m (firstp (lkids t) None) (Some (loc u)) cs;
        (if \<not> r then Some False else compare_members E fuel m (firstp (lkids u) None) (Some (loc t)) cs) })"
    using r nz valid A(1)
    by (simp add: cJSON_Compare.simps node_at_def cJSON_IsInvalid_def has_type_def del: not_None_eq split del: if_split cong: if_cong)
  consider "?k \<in> {cJSON_False, cJSON_True, cJSON_NULL}" | "?k = cJSON_Number" | "?k \<in> {cJSON_String, cJSON_Raw}" | "?k = cJSON_Array" | "?k = cJSON_Object"
    using valid by (auto simp: valid_types_def)
  then show "cJSON_Compare E (Suc fuel) m (Some (loc t)) (Some (loc u)) cs = Some True"
  proof cases
    case 1
    then show ?thesis unfolding step by simp
  next
    case 2
    have "d_eq E (lvd t) (lvd u)" using 2 c te A(3) by simp
    then show ?thesis unfolding step using 2 by (simp add: cJSON_types)
  next
    case 3
    then obtain p q s where v: "lvs t = Some (p, s)" "lvs u = Some (q, s)"
      using c te A(2) by (cases "lvs u") auto
    have "string_at m p = Some s" "string_at m q = Some s"
      using in_mem_root(3) [OF t, where v = "lvs t"] in_mem_root(3) [OF u, where v = "lvs u"] v by auto
    then show ?thesis unfolding step using 3 v by (auto simp: cJSON_types strcmp_differs_def)
  next
    case 4
    have "\<forall>x\<in>set (lkids t). comparable E cs (abs_tree x)" using 4 c te by simp
    then have "compare_elements E fuel m (firstp (lkids t) None) (firstp (lkids u) None) cs = Some True"
      using assms(1) nts(1) kt ku A(5) unfolding compares_elements_def by blast
    then show ?thesis unfolding step using 4 by (simp add: cJSON_types)
  next
    case 5
    have cu: "comparable E cs (abs_tree u)" using c alike_comparable [OF al] by simp
    have ct: "\<forall>x\<in>set (lkids t). comparable E cs (abs_tree x)" "\<forall>k\<in>set (lkids t). \<exists>key. map_option snd (lnm k) = Some key \<and> 0 \<notin> set key"
      "distinct (map (\<lambda>k. same_key cs (map_option snd (lnm k))) (lkids t))"
      using 5 c te by (simp_all add: comp_def)
    have k': "lty u AND 0xFF = cJSON_Object" using 5 A(1) by simp
    have cu': "\<forall>x\<in>set (lkids u). comparable E cs (abs_tree x)" "\<forall>k\<in>set (lkids u). \<exists>key. map_option snd (lnm k) = Some key \<and> 0 \<notin> set key"
      "distinct (map (\<lambda>k. same_key cs (map_option snd (lnm k))) (lkids u))"
      using k' cu by (cases u; simp add: comp_def)+
    have "compare_members E fuel m (firstp (lkids t) None) (Some (loc u)) cs = Some True"
      using assms(2) nts(1) kt u A(5) ct(1) cu'(2,3) append_Nil unfolding compares_members_def by metis
    moreover have "compare_members E fuel m (firstp (lkids u) None) (Some (loc t)) cs = Some True"
      using assms(2) nts(2) ku t alikeD(5) [OF alike_sym [OF al]] cu'(1) ct(2,3) append_Nil unfolding compares_members_def by metis
    ultimately show ?thesis unfolding step using 5 by (simp add: cJSON_types)
  qed
qed

lemma compares_all: "compares E cs m fuel \<and> compares_elements E cs m fuel \<and> compares_members E cs m fuel"
proof (induction fuel)
  case 0
  show ?case by (simp add: compares_def compares_elements_def compares_members_def needs_def)
next
  case (Suc fuel)
  then show ?case using compares_step compares_elements_step compares_members_step by blast
qed

lemma core_dup: "core (dup_tree T) = core T"
proof (induction T)
  case (CJSON ty vs vi vd nm ch)
  have "(ty AND NOT cJSON_IsReference) AND 0xFF = ty AND 0xFF" by (simp add: and.assoc) (simp add: cJSON_types)
  then show ?case using CJSON by simp
qed

lemma no_refs_linked:
  "linked thru h pv nx t \<Longrightarrow> no_refs t \<Longrightarrow> linked True h pv nx t"
  "linked_list thru h pv nx ts \<Longrightarrow> \<forall>t\<in>set ts. no_refs t \<Longrightarrow> linked_list True h pv nx ts"
  by (induction thru h pv nx t and thru h pv nx ts rule: linked_linked_list.induct) auto

section \<open>Properties\<close>

text \<open>
  C23. A recursive duplicate compares equal to its original, case sensitively or not, if numbers are equal to themselves (no NaN),
  strings are there, and the keys within each object differ. With two equal keys in an object the code would compare
  the second member with the first one found. The comparison returns within the same fuel as the duplication.
\<close>

theorem duplicate_compares_equal:
  assumes "mem_ok m" and "linked True (nodes m) pv nx t" and "texts_ok m t" and "need t \<le> fuel"
    and "comparable E case_sensitive (abs_tree t)" and "cJSON_Duplicate E fuel (Some (loc t)) True m = Some (Some a, m')"
  shows "cJSON_Compare E fuel m' (Some (loc t)) (Some a) case_sensitive = Some True \<and>
    cJSON_Compare E fuel m' (Some a) (Some (loc t)) case_sensitive = Some True"
proof -
  obtain u where u: "loc u = a" "abs_tree u = dup_tree (abs_tree t)" "copy_of m m' u"
    using duplicate_tree [OF assms(1-4), of E True] assms(6) by (auto simp: dup_result_def dup_item_def)
  have im: "in_mem m' t" "in_mem m' u"
    using source_kept(2,3) [OF u(3) assms(1)] assms(2,3) copy_ofD(1-3) [OF u(3)] no_refs_linked(1) unfolding in_mem_def by blast+
  have al: "alike t u" by (simp add: alike_def u(2) core_dup)
  have c: "comparable E case_sensitive (abs_tree u)" using alike_comparable [OF al] assms(5) by simp
  have n: "need u \<le> fuel" using need_alike [OF al] assms(4) by simp
  have "compares E case_sensitive m' fuel" using compares_all by blast
  then show ?thesis
    using im al alike_sym [OF al] assms(4,5) c n u(1) unfolding compares_def by blast
qed

definition example_copy :: "(addr option \<times> int mem) option" where
  "example_copy = cJSON_Duplicate int_env 8 (Some (loc example_ltree)) True example_mem"

lemma example_copy_some: "\<exists>a m'. example_copy = Some (Some a, m')"
proof -
  obtain r m' where r: "example_copy = Some (r, m')" "dup_result int_env example_mem m' (dup_item True (abs_tree example_ltree)) r"
    using duplicate_tree [OF example_mem_dup(1) example_ltree_ok example_mem_dup(2,3), of int_env True] unfolding example_copy_def by blast
  moreover have "alloc_ok int_env k" for k by (simp add: int_env_def)
  ultimately have "r \<noteq> None" by (cases r) (auto simp: dup_result_def)
  then show ?thesis using r(1) by blast
qed

theorem duplicate_compares_equal_witness:
  "cJSON_Compare int_env 8 (snd (the example_copy)) (Some (loc example_ltree)) (fst (the example_copy)) False = Some True \<and>
    cJSON_Compare int_env 8 (snd (the example_copy)) (fst (the example_copy)) (Some (loc example_ltree)) False = Some True"
proof -
  obtain a m' where c: "example_copy = Some (Some a, m')" using example_copy_some by blast
  have "comparable int_env False (abs_tree example_ltree)"
    by (simp add: example_ltree_def valid_types_def cJSON_types same_key_def tolower_def)
  from duplicate_compares_equal [OF example_mem_dup(1) example_ltree_ok example_mem_dup(2,3) this c [unfolded example_copy_def]]
  show ?thesis by (simp add: c)
qed

end
