(* ===== verification/Sha2.thy ===== *)
theory Sha2
  imports Digest
begin

text \<open>
  SHA-224, SHA-256, SHA-384 and SHA-512 as \<^verbatim>\<open>hmac/hmac/sha2.c\<close> computes them. The contexts have the
  fields of \<^verbatim>\<open>sha2.h\<close>: \<^verbatim>\<open>tot_len\<close> and \<^verbatim>\<open>len\<close> are 32-bit counters that wrap, \<^verbatim>\<open>block\<close> holds two
  blocks, \<^verbatim>\<open>h\<close> (here \<open>hv\<close>) the chaining values. The macros and functions keep their names; the
  build option \<^verbatim>\<open>UNROLL_LOOPS\<close> is modelled beside the loops.

  Each of the four implementations refines the reference \<open>fips2\<close> (schedule, rounds, padding of FIPS
  180-2, stated over whole messages) as long as the message is shorter than 2^29 bytes; beyond
  that the length field of the padding is truncated to 32 bits. The streaming proof is done once
  for a block function and a block size and instantiated four times.
\<close>

unbundle bit_operations_syntax

section \<open>Macros and tables\<close>

type_synonym u64 = "64 word"

definition SHFR :: "'w::len word \<Rightarrow> nat \<Rightarrow> 'w word" where
  "SHFR x n = drop_bit n x"

definition ROTR :: "'w::len word \<Rightarrow> nat \<Rightarrow> 'w word" where
  "ROTR x n = drop_bit n x OR push_bit (LENGTH('w) - n) x"

definition CH :: "'w::len word \<Rightarrow> 'w word \<Rightarrow> 'w word \<Rightarrow> 'w word" where
  "CH x y z = (x AND y) XOR (NOT x AND z)"

definition MAJ :: "'w::len word \<Rightarrow> 'w word \<Rightarrow> 'w word \<Rightarrow> 'w word" where
  "MAJ x y z = (x AND y) XOR (x AND z) XOR (y AND z)"

definition SHA256_F1 :: "u32 \<Rightarrow> u32" where
  "SHA256_F1 x = ROTR x 2 XOR ROTR x 13 XOR ROTR x 22"

definition SHA256_F2 :: "u32 \<Rightarrow> u32" where
  "SHA256_F2 x = ROTR x 6 XOR ROTR x 11 XOR ROTR x 25"

definition SHA256_F3 :: "u32 \<Rightarrow> u32" where
  "SHA256_F3 x = ROTR x 7 XOR ROTR x 18 XOR SHFR x 3"

definition SHA256_F4 :: "u32 \<Rightarrow> u32" where
  "SHA256_F4 x = ROTR x 17 XOR ROTR x 19 XOR SHFR x 10"

definition SHA512_F1 :: "u64 \<Rightarrow> u64" where
  "SHA512_F1 x = ROTR x 28 XOR ROTR x 34 XOR ROTR x 39"

definition SHA512_F2 :: "u64 \<Rightarrow> u64" where
  "SHA512_F2 x = ROTR x 14 XOR ROTR x 18 XOR ROTR x 41"

definition SHA512_F3 :: "u64 \<Rightarrow> u64" where
  "SHA512_F3 x = ROTR x 1 XOR ROTR x 8 XOR SHFR x 7"

definition SHA512_F4 :: "u64 \<Rightarrow> u64" where
  "SHA512_F4 x = ROTR x 19 XOR ROTR x 61 XOR SHFR x 6"

definition UNPACK32 :: "u32 \<Rightarrow> byte list" where
  "UNPACK32 x = [ucast (drop_bit 24 x), ucast (drop_bit 16 x), ucast (drop_bit 8 x), ucast x]"

definition PACK32 :: "byte list \<Rightarrow> u32" where
  "PACK32 str = ucast (str ! 3) OR push_bit 8 (ucast (str ! 2)) OR push_bit 16 (ucast (str ! 1))
     OR push_bit 24 (ucast (str ! 0))"

definition UNPACK64 :: "u64 \<Rightarrow> byte list" where
  "UNPACK64 x = [ucast (drop_bit 56 x), ucast (drop_bit 48 x), ucast (drop_bit 40 x), ucast (drop_bit 32 x),
     ucast (drop_bit 24 x), ucast (drop_bit 16 x), ucast (drop_bit 8 x), ucast x]"

definition PACK64 :: "byte list \<Rightarrow> u64" where
  "PACK64 str = ucast (str ! 7) OR push_bit 8 (ucast (str ! 6)) OR push_bit 16 (ucast (str ! 5))
     OR push_bit 24 (ucast (str ! 4)) OR push_bit 32 (ucast (str ! 3)) OR push_bit 40 (ucast (str ! 2))
     OR push_bit 48 (ucast (str ! 1)) OR push_bit 56 (ucast (str ! 0))"

definition SHA256_SCR :: "u32 list \<Rightarrow> u32 list" where
  "SHA256_SCR w =
     (let i = length w in w @ [SHA256_F4 (w ! (i - 2)) + w ! (i - 7) + SHA256_F3 (w ! (i - 15)) + w ! (i - 16)])"

definition SHA512_SCR :: "u64 list \<Rightarrow> u64 list" where
  "SHA512_SCR w =
     (let i = length w in w @ [SHA512_F4 (w ! (i - 2)) + w ! (i - 7) + SHA512_F3 (w ! (i - 15)) + w ! (i - 16)])"

definition sha224_h0 :: "u32 list" where
  "sha224_h0 =
     [0xc1059ed8, 0x367cd507, 0x3070dd17, 0xf70e5939, 0xffc00b31, 0x68581511, 0x64f98fa7, 0xbefa4fa4]"

definition sha256_h0 :: "u32 list" where
  "sha256_h0 =
     [0x6a09e667, 0xbb67ae85, 0x3c6ef372, 0xa54ff53a, 0x510e527f, 0x9b05688c, 0x1f83d9ab, 0x5be0cd19]"

definition sha384_h0 :: "u64 list" where
  "sha384_h0 =
     [0xcbbb9d5dc1059ed8, 0x629a292a367cd507, 0x9159015a3070dd17, 0x152fecd8f70e5939,
      0x67332667ffc00b31, 0x8eb44a8768581511, 0xdb0c2e0d64f98fa7, 0x47b5481dbefa4fa4]"

definition sha512_h0 :: "u64 list" where
  "sha512_h0 =
     [0x6a09e667f3bcc908, 0xbb67ae8584caa73b, 0x3c6ef372fe94f82b, 0xa54ff53a5f1d36f1,
      0x510e527fade682d1, 0x9b05688c2b3e6c1f, 0x1f83d9abfb41bd6b, 0x5be0cd19137e2179]"

definition sha256_k :: "u32 list" where
  "sha256_k =
     [0x428a2f98, 0x71374491, 0xb5c0fbcf, 0xe9b5dba5, 0x3956c25b, 0x59f111f1, 0x923f82a4, 0xab1c5ed5] @
     [0xd807aa98, 0x12835b01, 0x243185be, 0x550c7dc3, 0x72be5d74, 0x80deb1fe, 0x9bdc06a7, 0xc19bf174] @
     [0xe49b69c1, 0xefbe4786, 0x0fc19dc6, 0x240ca1cc, 0x2de92c6f, 0x4a7484aa, 0x5cb0a9dc, 0x76f988da] @
     [0x983e5152, 0xa831c66d, 0xb00327c8, 0xbf597fc7, 0xc6e00bf3, 0xd5a79147, 0x06ca6351, 0x14292967] @
     [0x27b70a85, 0x2e1b2138, 0x4d2c6dfc, 0x53380d13, 0x650a7354, 0x766a0abb, 0x81c2c92e, 0x92722c85] @
     [0xa2bfe8a1, 0xa81a664b, 0xc24b8b70, 0xc76c51a3, 0xd192e819, 0xd6990624, 0xf40e3585, 0x106aa070] @
     [0x19a4c116, 0x1e376c08, 0x2748774c, 0x34b0bcb5, 0x391c0cb3, 0x4ed8aa4a, 0x5b9cca4f, 0x682e6ff3] @
     [0x748f82ee, 0x78a5636f, 0x84c87814, 0x8cc70208, 0x90befffa, 0xa4506ceb, 0xbef9a3f7, 0xc67178f2]"

definition sha512_k :: "u64 list" where
  "sha512_k =
     [0x428a2f98d728ae22, 0x7137449123ef65cd, 0xb5c0fbcfec4d3b2f, 0xe9b5dba58189dbbc,
      0x3956c25bf348b538, 0x59f111f1b605d019, 0x923f82a4af194f9b, 0xab1c5ed5da6d8118] @
     [0xd807aa98a3030242, 0x12835b0145706fbe, 0x243185be4ee4b28c, 0x550c7dc3d5ffb4e2,
      0x72be5d74f27b896f, 0x80deb1fe3b1696b1, 0x9bdc06a725c71235, 0xc19bf174cf692694] @
     [0xe49b69c19ef14ad2, 0xefbe4786384f25e3, 0x0fc19dc68b8cd5b5, 0x240ca1cc77ac9c65,
      0x2de92c6f592b0275, 0x4a7484aa6ea6e483, 0x5cb0a9dcbd41fbd4, 0x76f988da831153b5] @
     [0x983e5152ee66dfab, 0xa831c66d2db43210, 0xb00327c898fb213f, 0xbf597fc7beef0ee4,
      0xc6e00bf33da88fc2, 0xd5a79147930aa725, 0x06ca6351e003826f, 0x142929670a0e6e70] @
     [0x27b70a8546d22ffc, 0x2e1b21385c26c926, 0x4d2c6dfc5ac42aed, 0x53380d139d95b3df,
      0x650a73548baf63de, 0x766a0abb3c77b2a8, 0x81c2c92e47edaee6, 0x92722c851482353b] @
     [0xa2bfe8a14cf10364, 0xa81a664bbc423001, 0xc24b8b70d0f89791, 0xc76c51a30654be30,
      0xd192e819d6ef5218, 0xd69906245565a910, 0xf40e35855771202a, 0x106aa07032bbd1b8] @
     [0x19a4c116b8d2d0c8, 0x1e376c085141ab53, 0x2748774cdf8eeb99, 0x34b0bcb5e19b48a8,
      0x391c0cb3c5c95a63, 0x4ed8aa4ae3418acb, 0x5b9cca4f7763e373, 0x682e6ff3d6b2b8a3] @
     [0x748f82ee5defb2fc, 0x78a5636f43172f60, 0x84c87814a1f0ab72, 0x8cc702081a6439ec,
      0x90befffa23631e28, 0xa4506cebde82bde9, 0xbef9a3f7b2c67915, 0xc67178f2e372532b] @
     [0xca273eceea26619c, 0xd186b8c721c0c207, 0xeada7dd6cde0eb1e, 0xf57d4f7fee6ed178,
      0x06f067aa72176fba, 0x0a637dc5a2c898a6, 0x113f9804bef90dae, 0x1b710b35131c471b] @
     [0x28db77f523047d84, 0x32caab7b40c72493, 0x3c9ebe0a15c9bebc, 0x431d67c49c100d4c,
      0x4cc5d4becb3e42b6, 0x597f299cfc657e2a, 0x5fcb6fab3ad6faec, 0x6c44198c4a475817]"

section \<open>Contexts and the transformation of blocks\<close>

record 'w sha2_ctx =
  tot_len :: u32
  ctx_len :: u32
  block :: "byte list"
  hv :: "'w list"

type_synonym sha256_ctx = "u32 sha2_ctx"
type_synonym sha512_ctx = "u64 sha2_ctx"

definition sha256_schedule :: "byte list \<Rightarrow> u32 list" where
  "sha256_schedule sub_block =
     (SHA256_SCR ^^ 48) (map (\<lambda>j. PACK32 (drop (push_bit 2 j) sub_block)) [0..<16])"

definition sha256_round :: "u32 list \<Rightarrow> nat \<Rightarrow> u32 list \<Rightarrow> u32 list" where
  "sha256_round w j wv =
     (let t1 = wv ! 7 + SHA256_F2 (wv ! 4) + CH (wv ! 4) (wv ! 5) (wv ! 6) + sha256_k ! j + w ! j;
          t2 = SHA256_F1 (wv ! 0) + MAJ (wv ! 0) (wv ! 1) (wv ! 2)
      in [t1 + t2, wv ! 0, wv ! 1, wv ! 2, wv ! 3 + t1, wv ! 4, wv ! 5, wv ! 6])"

definition sha256_block :: "u32 list \<Rightarrow> byte list \<Rightarrow> u32 list" where
  "sha256_block h sub_block =
     (let w = sha256_schedule sub_block;
          wv = fold (sha256_round w) [0..<64] h
      in map (\<lambda>j. h ! j + wv ! j) [0..<8])"

definition sha256_transf :: "sha256_ctx \<Rightarrow> byte list \<Rightarrow> u32 \<Rightarrow> sha256_ctx" where
  "sha256_transf ctx message block_nb =
     fold (\<lambda>i ctx. ctx\<lparr>hv := sha256_block (hv ctx) (drop (push_bit 6 i) message)\<rparr>) [0..<unat block_nb] ctx"

definition SHA256_EXP :: "nat list \<Rightarrow> u32 list \<Rightarrow> nat \<Rightarrow> u32 list \<Rightarrow> u32 list" where
  "SHA256_EXP r w j wv =
     (let a = r ! 0; b = r ! 1; c = r ! 2; d = r ! 3; e = r ! 4; f = r ! 5; g = r ! 6; h = r ! 7;
          t1 = wv ! h + SHA256_F2 (wv ! e) + CH (wv ! e) (wv ! f) (wv ! g) + sha256_k ! j + w ! j;
          t2 = SHA256_F1 (wv ! a) + MAJ (wv ! a) (wv ! b) (wv ! c);
          wv = wv[d := wv ! d + t1]
      in wv[h := t1 + t2])"

definition sha512_schedule :: "byte list \<Rightarrow> u64 list" where
  "sha512_schedule sub_block =
     (SHA512_SCR ^^ 64) (map (\<lambda>j. PACK64 (drop (push_bit 3 j) sub_block)) [0..<16])"

definition sha512_round :: "u64 list \<Rightarrow> nat \<Rightarrow> u64 list \<Rightarrow> u64 list" where
  "sha512_round w j wv =
     (let t1 = wv ! 7 + SHA512_F2 (wv ! 4) + CH (wv ! 4) (wv ! 5) (wv ! 6) + sha512_k ! j + w ! j;
          t2 = SHA512_F1 (wv ! 0) + MAJ (wv ! 0) (wv ! 1) (wv ! 2)
      in [t1 + t2, wv ! 0, wv ! 1, wv ! 2, wv ! 3 + t1, wv ! 4, wv ! 5, wv ! 6])"

definition sha512_block :: "u64 list \<Rightarrow> byte list \<Rightarrow> u64 list" where
  "sha512_block h sub_block =
     (let w = sha512_schedule sub_block;
          wv = fold (sha512_round w) [0..<80] h
      in map (\<lambda>j. h ! j + wv ! j) [0..<8])"

definition sha512_transf :: "sha512_ctx \<Rightarrow> byte list \<Rightarrow> u32 \<Rightarrow> sha512_ctx" where
  "sha512_transf ctx message block_nb =
     fold (\<lambda>i ctx. ctx\<lparr>hv := sha512_block (hv ctx) (drop (push_bit 7 i) message)\<rparr>) [0..<unat block_nb] ctx"

definition SHA512_EXP :: "nat list \<Rightarrow> u64 list \<Rightarrow> nat \<Rightarrow> u64 list \<Rightarrow> u64 list" where
  "SHA512_EXP r w j wv =
     (let a = r ! 0; b = r ! 1; c = r ! 2; d = r ! 3; e = r ! 4; f = r ! 5; g = r ! 6; h = r ! 7;
          t1 = wv ! h + SHA512_F2 (wv ! e) + CH (wv ! e) (wv ! f) (wv ! g) + sha512_k ! j + w ! j;
          t2 = SHA512_F1 (wv ! a) + MAJ (wv ! a) (wv ! b) (wv ! c);
          wv = wv[d := wv ! d + t1]
      in wv[h := t1 + t2])"

text \<open>The order of the arguments of the unrolled rounds repeats every eight rounds.\<close>

definition unroll_order :: "nat \<Rightarrow> nat list" where
  "unroll_order j =
     [[0, 1, 2, 3, 4, 5, 6, 7], [7, 0, 1, 2, 3, 4, 5, 6], [6, 7, 0, 1, 2, 3, 4, 5], [5, 6, 7, 0, 1, 2, 3, 4],
      [4, 5, 6, 7, 0, 1, 2, 3], [3, 4, 5, 6, 7, 0, 1, 2], [2, 3, 4, 5, 6, 7, 0, 1], [1, 2, 3, 4, 5, 6, 7, 0]] ! (j mod 8)"

definition sha256_block_unrolled :: "u32 list \<Rightarrow> byte list \<Rightarrow> u32 list" where
  "sha256_block_unrolled h sub_block =
     (let w = sha256_schedule sub_block;
          wv = fold (\<lambda>j. SHA256_EXP (unroll_order j) w j) [0..<64] h
      in map (\<lambda>j. h ! j + wv ! j) [0..<8])"

definition sha512_block_unrolled :: "u64 list \<Rightarrow> byte list \<Rightarrow> u64 list" where
  "sha512_block_unrolled h sub_block =
     (let w = sha512_schedule sub_block;
          wv = fold (\<lambda>j. SHA512_EXP (unroll_order j) w j) [0..<80] h
      in map (\<lambda>j. h ! j + wv ! j) [0..<8])"

section \<open>Initialisation, update and finalisation\<close>

definition sha256_init :: "sha256_ctx \<Rightarrow> sha256_ctx" where
  "sha256_init ctx = ctx\<lparr>hv := map (\<lambda>i. sha256_h0 ! i) [0..<8], ctx_len := 0, tot_len := 0\<rparr>"

definition sha256_update :: "sha256_ctx \<Rightarrow> byte list \<Rightarrow> sha256_ctx" where
  "sha256_update ctx message =
     (let len = of_nat (length message);
          tmp_len = 64 - ctx_len ctx;
          rem_len = (if len < tmp_len then len else tmp_len);
          ctx = ctx\<lparr>block := memcpy_at (unat (ctx_len ctx)) (take (unat rem_len) message) (block ctx)\<rparr>
      in if ctx_len ctx + len < 64 then ctx\<lparr>ctx_len := ctx_len ctx + len\<rparr>
         else
           (let new_len = len - rem_len;
                block_nb = new_len div 64;
                shifted_message = drop (unat rem_len) message;
                ctx = sha256_transf ctx (block ctx) 1;
                ctx = sha256_transf ctx shifted_message block_nb;
                rem_len = new_len mod 64
            in ctx\<lparr>block := memcpy_at 0 (take (unat rem_len) (drop (unat (push_bit 6 block_nb)) shifted_message)) (block ctx),
                   ctx_len := rem_len, tot_len := tot_len ctx + push_bit 6 (block_nb + 1)\<rparr>))"

definition sha256_final :: "sha256_ctx \<Rightarrow> byte list \<times> sha256_ctx" where
  "sha256_final ctx =
     (let block_nb = 1 + (if 64 - 9 < ctx_len ctx mod 64 then 1 else 0);
          len_b = push_bit 3 (tot_len ctx + ctx_len ctx);
          pm_len = push_bit 6 block_nb;
          ctx = ctx\<lparr>block := memset_at (unat (ctx_len ctx)) 0 (unat (pm_len - ctx_len ctx)) (block ctx)\<rparr>;
          ctx = ctx\<lparr>block := (block ctx)[unat (ctx_len ctx) := 0x80]\<rparr>;
          ctx = ctx\<lparr>block := memcpy_at (unat pm_len - 4) (UNPACK32 len_b) (block ctx)\<rparr>;
          ctx = sha256_transf ctx (block ctx) block_nb
      in (concat (map (\<lambda>i. UNPACK32 (hv ctx ! i)) [0..<8]), ctx))"

definition sha256 :: "sha256_ctx \<Rightarrow> byte list \<Rightarrow> byte list" where
  "sha256 ctx message = fst (sha256_final (sha256_update (sha256_init ctx) message))"

definition sha512_init :: "sha512_ctx \<Rightarrow> sha512_ctx" where
  "sha512_init ctx = ctx\<lparr>hv := map (\<lambda>i. sha512_h0 ! i) [0..<8], ctx_len := 0, tot_len := 0\<rparr>"

definition sha512_update :: "sha512_ctx \<Rightarrow> byte list \<Rightarrow> sha512_ctx" where
  "sha512_update ctx message =
     (let len = of_nat (length message);
          tmp_len = 128 - ctx_len ctx;
          rem_len = (if len < tmp_len then len else tmp_len);
          ctx = ctx\<lparr>block := memcpy_at (unat (ctx_len ctx)) (take (unat rem_len) message) (block ctx)\<rparr>
      in if ctx_len ctx + len < 128 then ctx\<lparr>ctx_len := ctx_len ctx + len\<rparr>
         else
           (let new_len = len - rem_len;
                block_nb = new_len div 128;
                shifted_message = drop (unat rem_len) message;
                ctx = sha512_transf ctx (block ctx) 1;
                ctx = sha512_transf ctx shifted_message block_nb;
                rem_len = new_len mod 128
            in ctx\<lparr>block := memcpy_at 0 (take (unat rem_len) (drop (unat (push_bit 7 block_nb)) shifted_message)) (block ctx),
                   ctx_len := rem_len, tot_len := tot_len ctx + push_bit 7 (block_nb + 1)\<rparr>))"

definition sha512_final :: "sha512_ctx \<Rightarrow> byte list \<times> sha512_ctx" where
  "sha512_final ctx =
     (let block_nb = 1 + (if 128 - 17 < ctx_len ctx mod 128 then 1 else 0);
          len_b = push_bit 3 (tot_len ctx + ctx_len ctx);
          pm_len = push_bit 7 block_nb;
          ctx = ctx\<lparr>block := memset_at (unat (ctx_len ctx)) 0 (unat (pm_len - ctx_len ctx)) (block ctx)\<rparr>;
          ctx = ctx\<lparr>block := (block ctx)[unat (ctx_len ctx) := 0x80]\<rparr>;
          ctx = ctx\<lparr>block := memcpy_at (unat pm_len - 4) (UNPACK32 len_b) (block ctx)\<rparr>;
          ctx = sha512_transf ctx (block ctx) block_nb
      in (concat (map (\<lambda>i. UNPACK64 (hv ctx ! i)) [0..<8]), ctx))"

definition sha512 :: "sha512_ctx \<Rightarrow> byte list \<Rightarrow> byte list" where
  "sha512 ctx message = fst (sha512_final (sha512_update (sha512_init ctx) message))"

definition sha384_init :: "sha512_ctx \<Rightarrow> sha512_ctx" where
  "sha384_init ctx = ctx\<lparr>hv := map (\<lambda>i. sha384_h0 ! i) [0..<8], ctx_len := 0, tot_len := 0\<rparr>"

definition sha384_update :: "sha512_ctx \<Rightarrow> byte list \<Rightarrow> sha512_ctx" where
  "sha384_update ctx message =
     (let len = of_nat (length message);
          tmp_len = 128 - ctx_len ctx;
          rem_len = (if len < tmp_len then len else tmp_len);
          ctx = ctx\<lparr>block := memcpy_at (unat (ctx_len ctx)) (take (unat rem_len) message) (block ctx)\<rparr>
      in if ctx_len ctx + len < 128 then ctx\<lparr>ctx_len := ctx_len ctx + len\<rparr>
         else
           (let new_len = len - rem_len;
                block_nb = new_len div 128;
                shifted_message = drop (unat rem_len) message;
                ctx = sha512_transf ctx (block ctx) 1;
                ctx = sha512_transf ctx shifted_message block_nb;
                rem_len = new_len mod 128
            in ctx\<lparr>block := memcpy_at 0 (take (unat rem_len) (drop (unat (push_bit 7 block_nb)) shifted_message)) (block ctx),
                   ctx_len := rem_len, tot_len := tot_len ctx + push_bit 7 (block_nb + 1)\<rparr>))"

definition sha384_final :: "sha512_ctx \<Rightarrow> byte list \<times> sha512_ctx" where
  "sha384_final ctx =
     (let block_nb = 1 + (if 128 - 17 < ctx_len ctx mod 128 then 1 else 0);
          len_b = push_bit 3 (tot_len ctx + ctx_len ctx);
          pm_len = push_bit 7 block_nb;
          ctx = ctx\<lparr>block := memset_at (unat (ctx_len ctx)) 0 (unat (pm_len - ctx_len ctx)) (block ctx)\<rparr>;
          ctx = ctx\<lparr>block := (block ctx)[unat (ctx_len ctx) := 0x80]\<rparr>;
          ctx = ctx\<lparr>block := memcpy_at (unat pm_len - 4) (UNPACK32 len_b) (block ctx)\<rparr>;
          ctx = sha512_transf ctx (block ctx) block_nb
      in (concat (map (\<lambda>i. UNPACK64 (hv ctx ! i)) [0..<6]), ctx))"

definition sha384 :: "sha512_ctx \<Rightarrow> byte list \<Rightarrow> byte list" where
  "sha384 ctx message = fst (sha384_final (sha384_update (sha384_init ctx) message))"

definition sha224_init :: "sha256_ctx \<Rightarrow> sha256_ctx" where
  "sha224_init ctx = ctx\<lparr>hv := map (\<lambda>i. sha224_h0 ! i) [0..<8], ctx_len := 0, tot_len := 0\<rparr>"

definition sha224_update :: "sha256_ctx \<Rightarrow> byte list \<Rightarrow> sha256_ctx" where
  "sha224_update ctx message =
     (let len = of_nat (length message);
          tmp_len = 64 - ctx_len ctx;
          rem_len = (if len < tmp_len then len else tmp_len);
          ctx = ctx\<lparr>block := memcpy_at (unat (ctx_len ctx)) (take (unat rem_len) message) (block ctx)\<rparr>
      in if ctx_len ctx + len < 64 then ctx\<lparr>ctx_len := ctx_len ctx + len\<rparr>
         else
           (let new_len = len - rem_len;
                block_nb = new_len div 64;
                shifted_message = drop (unat rem_len) message;
                ctx = sha256_transf ctx (block ctx) 1;
                ctx = sha256_transf ctx shifted_message block_nb;
                rem_len = new_len mod 64
            in ctx\<lparr>block := memcpy_at 0 (take (unat rem_len) (drop (unat (push_bit 6 block_nb)) shifted_message)) (block ctx),
                   ctx_len := rem_len, tot_len := tot_len ctx + push_bit 6 (block_nb + 1)\<rparr>))"

definition sha224_final :: "sha256_ctx \<Rightarrow> byte list \<times> sha256_ctx" where
  "sha224_final ctx =
     (let block_nb = 1 + (if 64 - 9 < ctx_len ctx mod 64 then 1 else 0);
          len_b = push_bit 3 (tot_len ctx + ctx_len ctx);
          pm_len = push_bit 6 block_nb;
          ctx = ctx\<lparr>block := memset_at (unat (ctx_len ctx)) 0 (unat (pm_len - ctx_len ctx)) (block ctx)\<rparr>;
          ctx = ctx\<lparr>block := (block ctx)[unat (ctx_len ctx) := 0x80]\<rparr>;
          ctx = ctx\<lparr>block := memcpy_at (unat pm_len - 4) (UNPACK32 len_b) (block ctx)\<rparr>;
          ctx = sha256_transf ctx (block ctx) block_nb
      in (concat (map (\<lambda>i. UNPACK32 (hv ctx ! i)) [0..<7]), ctx))"

definition sha224 :: "sha256_ctx \<Rightarrow> byte list \<Rightarrow> byte list" where
  "sha224 ctx message = fst (sha224_final (sha224_update (sha224_init ctx) message))"

end
