(* ===== verification/Sha2Tables.thy ===== *)
theory Sha2Tables
  imports Sha2
begin

text \<open>
  The tables of \<^verbatim>\<open>sha2.c\<close> against their definition in FIPS 180-2: the round constants are the first bits
  of the fractional parts of the cube roots of the first primes, the initial values those of
  square roots.
\<close>

unbundle bit_operations_syntax

section \<open>The constants\<close>

function no_divisor :: "int \<Rightarrow> int \<Rightarrow> bool" where
  "no_divisor d n = (if n < d * d \<or> d \<le> 0 then True else if n mod d = 0 then False else no_divisor (d + 1) n)"
  by pat_completeness auto
termination
proof (relation "measure (\<lambda>(d, n). nat (n + 1 - d))")
  fix d n :: int
  assume c: "\<not> (n < d * d \<or> d \<le> 0)"
  from c have "d * 1 \<le> d * d" by (intro mult_left_mono) simp_all
  with c have "d \<le> n" by linarith
  then show "((d + 1, n), d, n) \<in> measure (\<lambda>(d, n). nat (n + 1 - d))" by simp
qed simp

declare no_divisor.simps [simp del]

definition is_prime :: "int \<Rightarrow> bool" where
  "is_prime p = (2 \<le> p \<and> no_divisor 2 p)"

definition primes_upto :: "int \<Rightarrow> int list" where
  "primes_upto n = filter is_prime [2..n]"

definition frac_root :: "nat \<Rightarrow> nat \<Rightarrow> int \<Rightarrow> int \<Rightarrow> bool" where
  "frac_root e w p k \<longleftrightarrow> 0 \<le> k \<and> k < 2 ^ w \<and>
     (\<exists>a\<ge>0. (a * 2 ^ w + k) ^ e \<le> p * 2 ^ (w * e) \<and> p * 2 ^ (w * e) < (a * 2 ^ w + k + 1) ^ e)"

definition frac_check :: "nat \<Rightarrow> nat \<Rightarrow> int list \<Rightarrow> int list \<Rightarrow> int list \<Rightarrow> bool" where
  "frac_check e w as ps ks = list_all (\<lambda>(a, p, k). let x = a * 2 ^ w + k; P = p * 2 ^ (w * e) in
     0 \<le> a \<and> 0 \<le> k \<and> k < 2 ^ w \<and> x ^ e \<le> P \<and> P < (x + 1) ^ e) (zip as (zip ps ks))"

lemma frac_check_root:
  "frac_check e w as ps ks \<Longrightarrow> length as = length ps \<Longrightarrow> length ps = length ks \<Longrightarrow> list_all2 (frac_root e w) ps ks"
  unfolding frac_check_def frac_root_def list_all2_conv_all_nth list_all_length Let_def
  by (auto simp: nth_zip)

lemma no_divisor_iff: "2 \<le> d \<Longrightarrow> no_divisor d n \<longleftrightarrow> (\<forall>k. d \<le> k \<and> k * k \<le> n \<longrightarrow> \<not> k dvd n)"
proof (induction d n rule: no_divisor.induct)
  case (1 d n)
  show ?case
  proof (cases "n < d * d")
    case True
    have "\<not> k * k \<le> n" if "d \<le> k" for k
      using mult_mono [OF that that] True 1(2) that by linarith
    then show ?thesis using True by (auto simp: no_divisor.simps [of d n])
  next
    case False
    then have "no_divisor d n \<longleftrightarrow> \<not> d dvd n \<and> (\<forall>k. d + 1 \<le> k \<and> k * k \<le> n \<longrightarrow> \<not> k dvd n)"
      using 1 by (simp add: no_divisor.simps [of d n] dvd_eq_mod_eq_0)
    moreover have "d \<le> k \<longleftrightarrow> k = d \<or> d + 1 \<le> k" for k by linarith
    ultimately show ?thesis using False by auto
  qed
qed

lemma is_prime_iff: "is_prime p \<longleftrightarrow> 2 \<le> p \<and> (\<forall>d. 2 \<le> d \<and> d < p \<longrightarrow> \<not> d dvd p)"
proof (cases "2 \<le> p")
  case True
  have "\<exists>k\<ge>2. k * k \<le> p \<and> k dvd p" if "2 \<le> d" "d < p" "d dvd p" for d
  proof (cases "d * d \<le> p")
    case False
    from that(3) obtain q where q: "p = d * q" ..
    have "q < d" using mult_left_mono [of d q d] that(1) False q by linarith
    moreover have "1 < q" using mult_left_mono [of q 1 d] that(1,2) q by linarith
    ultimately have "q * q \<le> p" unfolding q by (intro mult_right_mono) linarith+
    then show ?thesis using \<open>1 < q\<close> q by (intro exI [of _ q]) simp
  qed (use that in blast)
  moreover have "k < p" if "2 \<le> k" "k * k \<le> p" for k
  proof -
    have "k * 2 \<le> k * k" using that(1) by (intro mult_left_mono) simp_all
    then show ?thesis using that by linarith
  qed
  ultimately have "(\<exists>k\<ge>2. k * k \<le> p \<and> k dvd p) \<longleftrightarrow> (\<exists>d. 2 \<le> d \<and> d < p \<and> d dvd p)" by blast
  moreover have "no_divisor 2 p \<longleftrightarrow> \<not> (\<exists>k\<ge>2. k * k \<le> p \<and> k dvd p)" by (auto simp: no_divisor_iff)
  ultimately show ?thesis using True by (auto simp: is_prime_def)
qed (simp add: is_prime_def)

lemma primes: "primes_upto 409 = [2, 3, 5, 7, 11, 13, 17, 19, 23, 29, 31, 37, 41, 43, 47, 53, 59, 61, 67, 71, 73, 79, 83, 89, 97, 101, 103, 107,
  109, 113, 127, 131, 137, 139, 149, 151, 157, 163, 167, 173, 179, 181, 191, 193, 197, 199, 211, 223, 227, 229, 233, 239, 241, 251,
  257, 263, 269, 271, 277, 281, 283, 293, 307, 311, 313, 317, 331, 337, 347, 349, 353, 359, 367, 373, 379, 383, 389, 397, 401, 409]"
  by code_simp

lemma k256: "list_all2 (frac_root 3 32) (take 64 (primes_upto 409)) (map uint sha256_k)"
  unfolding primes
proof (rule frac_check_root)
  show "frac_check 3 32 [1, 1, 1, 1, 2, 2, 2, 2, 2, 3, 3, 3, 3, 3, 3, 3, 3, 3, 4, 4, 4, 4, 4, 4, 4, 4, 4, 4, 4, 4, 5, 5, 5, 5, 5, 5, 5, 5, 5, 5, 5, 5, 5, 5, 5, 5, 5, 6, 6, 6, 6, 6, 6, 6, 6, 6, 6, 6, 6, 6, 6, 6, 6, 6] (take 64 ([2, 3, 5, 7, 11, 13, 17, 19, 23, 29, 31, 37, 41, 43, 47, 53, 59, 61, 67, 71, 73, 79, 83, 89, 97, 101, 103, 107, 109, 113, 127, 131, 137, 139, 149, 151, 157, 163, 167, 173, 179, 181, 191, 193, 197, 199, 211, 223, 227, 229, 233, 239, 241, 251, 257, 263, 269, 271, 277, 281, 283, 293, 307, 311, 313, 317, 331, 337, 347, 349, 353, 359, 367, 373, 379, 383, 389, 397, 401, 409])) (map uint sha256_k)"
    by code_simp
qed (simp_all add: sha256_k_def)

lemma k512: "list_all2 (frac_root 3 64) (primes_upto 409) (map uint sha512_k)"
  unfolding primes
proof (rule frac_check_root)
  show "frac_check 3 64 [1, 1, 1, 1, 2, 2, 2, 2, 2, 3, 3, 3, 3, 3, 3, 3, 3, 3, 4, 4, 4, 4, 4, 4, 4, 4, 4, 4, 4, 4, 5, 5, 5, 5, 5, 5, 5, 5, 5, 5, 5, 5, 5, 5, 5, 5, 5, 6, 6, 6, 6, 6, 6, 6, 6, 6, 6, 6, 6, 6, 6, 6, 6, 6, 6, 6, 6, 6, 7, 7, 7, 7, 7, 7, 7, 7, 7, 7, 7, 7] ([2, 3, 5, 7, 11, 13, 17, 19, 23, 29, 31, 37, 41, 43, 47, 53, 59, 61, 67, 71, 73, 79, 83, 89, 97, 101, 103, 107, 109, 113, 127, 131, 137, 139, 149, 151, 157, 163, 167, 173, 179, 181, 191, 193, 197, 199, 211, 223, 227, 229, 233, 239, 241, 251, 257, 263, 269, 271, 277, 281, 283, 293, 307, 311, 313, 317, 331, 337, 347, 349, 353, 359, 367, 373, 379, 383, 389, 397, 401, 409]) (map uint sha512_k)"
    by code_simp
qed (simp_all add: sha512_k_def)

lemma h256: "list_all2 (frac_root 2 32) (take 8 (primes_upto 409)) (map uint sha256_h0)"
  unfolding primes
proof (rule frac_check_root)
  show "frac_check 2 32 [1, 1, 2, 2, 3, 3, 4, 4] (take 8 ([2, 3, 5, 7, 11, 13, 17, 19, 23, 29, 31, 37, 41, 43, 47, 53, 59, 61, 67, 71, 73, 79, 83, 89, 97, 101, 103, 107, 109, 113, 127, 131, 137, 139, 149, 151, 157, 163, 167, 173, 179, 181, 191, 193, 197, 199, 211, 223, 227, 229, 233, 239, 241, 251, 257, 263, 269, 271, 277, 281, 283, 293, 307, 311, 313, 317, 331, 337, 347, 349, 353, 359, 367, 373, 379, 383, 389, 397, 401, 409])) (map uint sha256_h0)"
    by code_simp
qed (simp_all add: sha256_h0_def)

lemma h512: "list_all2 (frac_root 2 64) (take 8 (primes_upto 409)) (map uint sha512_h0)"
  unfolding primes
proof (rule frac_check_root)
  show "frac_check 2 64 [1, 1, 2, 2, 3, 3, 4, 4] (take 8 ([2, 3, 5, 7, 11, 13, 17, 19, 23, 29, 31, 37, 41, 43, 47, 53, 59, 61, 67, 71, 73, 79, 83, 89, 97, 101, 103, 107, 109, 113, 127, 131, 137, 139, 149, 151, 157, 163, 167, 173, 179, 181, 191, 193, 197, 199, 211, 223, 227, 229, 233, 239, 241, 251, 257, 263, 269, 271, 277, 281, 283, 293, 307, 311, 313, 317, 331, 337, 347, 349, 353, 359, 367, 373, 379, 383, 389, 397, 401, 409])) (map uint sha512_h0)"
    by code_simp
qed (simp_all add: sha512_h0_def)

lemma h384: "list_all2 (frac_root 2 64) (take 8 (drop 8 (primes_upto 409))) (map uint sha384_h0)"
  unfolding primes
proof (rule frac_check_root)
  show "frac_check 2 64 [4, 5, 5, 6, 6, 6, 6, 7] (take 8 (drop 8 ([2, 3, 5, 7, 11, 13, 17, 19, 23, 29, 31, 37, 41, 43, 47, 53, 59, 61, 67, 71, 73, 79, 83, 89, 97, 101, 103, 107, 109, 113, 127, 131, 137, 139, 149, 151, 157, 163, 167, 173, 179, 181, 191, 193, 197, 199, 211, 223, 227, 229, 233, 239, 241, 251, 257, 263, 269, 271, 277, 281, 283, 293, 307, 311, 313, 317, 331, 337, 347, 349, 353, 359, 367, 373, 379, 383, 389, 397, 401, 409]))) (map uint sha384_h0)"
    by code_simp
qed (simp_all add: sha384_h0_def)

lemma h224: "sha224_h0 = map ucast sha384_h0"
  by code_simp

text \<open>
  C29. The round constants of SHA-256 (SHA-512) are the first 32 (64) bits of the fractional parts of the
  cube roots of the first 64 (80) primes; the initial values of SHA-256 and SHA-512 those of the
  square roots of the first eight primes, those of SHA-384 of the ninth to sixteenth primes, and those
  of SHA-224 the second 32 bits of the latter.
\<close>

theorem sha2_constants:
  "list_all2 (frac_root 3 32) (take 64 (primes_upto 409)) (map uint sha256_k) \<and>
   list_all2 (frac_root 3 64) (primes_upto 409) (map uint sha512_k) \<and>
   list_all2 (frac_root 2 32) (take 8 (primes_upto 409)) (map uint sha256_h0) \<and>
   list_all2 (frac_root 2 64) (take 8 (primes_upto 409)) (map uint sha512_h0) \<and>
   list_all2 (frac_root 2 64) (take 8 (drop 8 (primes_upto 409))) (map uint sha384_h0) \<and>
   sha224_h0 = map ucast sha384_h0 \<and>
   primes_upto 409 = filter (\<lambda>p. 2 \<le> p \<and> \<not> (\<exists>d. 2 \<le> d \<and> d < p \<and> d dvd p)) [2..409]"
proof -
  have "is_prime = (\<lambda>p. 2 \<le> p \<and> \<not> (\<exists>d. 2 \<le> d \<and> d < p \<and> d dvd p))"
    by (auto simp: is_prime_iff)
  then have "primes_upto 409 = filter (\<lambda>p. 2 \<le> p \<and> \<not> (\<exists>d. 2 \<le> d \<and> d < p \<and> d dvd p)) [2..409]"
    by (simp only: primes_upto_def)
  then show ?thesis by (intro conjI k256 k512 h256 h512 h384 h224)
qed

end
