(* ===== verification/BlockStream.thy ===== *)
theory BlockStream
  imports Sha2
begin

text \<open>
  Cutting a message into blocks, the padding, and the streaming of blocks through a transformation.
  The locale \<open>block_transform\<close> is what \<^verbatim>\<open>update\<close> and \<^verbatim>\<open>final\<close> need of the function that absorbs whole
  blocks; under it \<open>md_inv\<close>, which says that a context has absorbed a message, is preserved by
  an update with any chunk, and finalisation absorbs the padded rest. \<open>md_update\<close> and \<open>md_final\<close> are the
  bodies the four SHA-2 implementations share.
\<close>

unbundle bit_operations_syntax

section \<open>Blocks of a message\<close>

function blocks :: "nat \<Rightarrow> byte list \<Rightarrow> byte list list" where
  "blocks B m = (if B = 0 \<or> length m < B then [] else take B m # blocks B (drop B m))"
  by pat_completeness auto
termination by (relation "measure (\<lambda>(B, m). length m)") auto

declare blocks.simps [simp del]

definition tail_of :: "nat \<Rightarrow> byte list \<Rightarrow> byte list" where
  "tail_of B m = drop (B * (length m div B)) m"

lemma blocks_small [simp]: "length m < B \<Longrightarrow> blocks B m = []"
  by (simp add: blocks.simps [of B m])

lemma blocks_cons: "0 < B \<Longrightarrow> length b = B \<Longrightarrow> blocks B (b @ m) = b # blocks B m"
  by (simp add: blocks.simps [of B "b @ m"])

lemma blocks_append: "0 < B \<Longrightarrow> B dvd length a \<Longrightarrow> blocks B (a @ m) = blocks B a @ blocks B m"
proof (induction B a rule: blocks.induct)
  case (1 B m1)
  show ?case
  proof (cases "m1 = []")
    case False
    with 1(2,3) have len: "B \<le> length m1" by (auto dest: dvd_imp_le)
    with 1(3) have "B dvd length (drop B m1)" by (simp add: dvd_diff_nat)
    with 1 len have "blocks B (drop B m1 @ m) = blocks B (drop B m1) @ blocks B m" by simp
    then show ?thesis using len 1(2) by (simp add: blocks.simps [of B "m1 @ m"] blocks.simps [of B m1])
  qed (use 1 in simp)
qed

lemma blocks_take_Suc:
  assumes "0 < B" and "B * Suc k \<le> length m"
  shows "blocks B (take (B * Suc k) m) = blocks B (take (B * k) m) @ [take B (drop (B * k) m)]"
proof -
  have "take (B * Suc k) m = take (B * k) m @ take B (drop (B * k) m)"
    by (simp add: take_add [symmetric] add.commute)
  moreover have "B dvd length (take (B * k) m)" using assms by (simp add: min_absorb2)
  moreover have "blocks B (take B (drop (B * k) m) @ []) = [take B (drop (B * k) m)]"
    using assms by (subst blocks_cons) simp_all
  ultimately show ?thesis using assms(1) by (simp add: blocks_append)
qed

lemma length_tail_of [simp]: "length (tail_of B m) = length m mod B"
  by (simp add: tail_of_def minus_mult_div_eq_mod)

lemma whole_tail: "take (B * (length m div B)) m @ tail_of B m = m"
  by (simp add: tail_of_def)

lemma length_whole: "length (take (B * (length m div B)) m) = B * (length m div B)"
  by (simp add: min_absorb2)

lemma blocks_whole: "0 < B \<Longrightarrow> blocks B (take (B * (length m div B)) m) = blocks B m"
  using blocks_append [of B "take (B * (length m div B)) m" "tail_of B m"]
  unfolding whole_tail length_whole by simp

lemma tail_append:
  assumes "B dvd length a"
  shows "tail_of B (a @ m) = tail_of B m"
proof -
  from assms obtain k where k: "length a = B * k" ..
  show ?thesis
  proof (cases "B = 0")
    case False
    then have "(B * k + length m) div B = k + length m div B" by simp
    then show ?thesis by (simp add: tail_of_def k distrib_left)
  qed (use k in \<open>simp add: tail_of_def\<close>)
qed

lemma tail_small: "length m < B \<Longrightarrow> tail_of B m = m"
  by (simp add: tail_of_def)

lemma append_split:
  assumes "0 < B"
  shows "blocks B (m @ b) = blocks B m @ blocks B (tail_of B m @ b)" and "tail_of B (m @ b) = tail_of B (tail_of B m @ b)"
proof -
  let ?w = "take (B * (length m div B)) m"
  have w: "B dvd length ?w" unfolding length_whole by simp
  have e: "m @ b = ?w @ (tail_of B m @ b)" by (simp add: tail_of_def)
  have "blocks B (m @ b) = blocks B ?w @ blocks B (tail_of B m @ b)"
    unfolding e by (rule blocks_append [OF assms w])
  then show "blocks B (m @ b) = blocks B m @ blocks B (tail_of B m @ b)" by (simp only: blocks_whole [OF assms])
  show "tail_of B (m @ b) = tail_of B (tail_of B m @ b)" unfolding e by (rule tail_append [OF w])
qed

section \<open>Words\<close>

lemma unat_sub_u32: "unat (y :: u32) \<le> unat x \<Longrightarrow> unat (x - y) = unat x - unat y"
  by (simp add: unat_sub_if')

lemma unat_add_u32: "unat x + unat (y :: u32) < 2 ^ 32 \<Longrightarrow> unat (x + y) = unat x + unat y"
  by (simp add: unat_plus_if')

lemma unat_push_u32: "unat x * 2 ^ k < 2 ^ 32 \<Longrightarrow> unat (push_bit k x :: u32) = unat x * 2 ^ k"
  unfolding unsigned_push_bit_eq take_bit_eq_mod push_bit_eq_mult [of k "unat x"] by simp


section \<open>Streaming blocks through a transformation\<close>

definition md_update :: "nat \<Rightarrow> nat \<Rightarrow> ('w sha2_ctx \<Rightarrow> byte list \<Rightarrow> u32 \<Rightarrow> 'w sha2_ctx) \<Rightarrow> 'w sha2_ctx \<Rightarrow> byte list \<Rightarrow> 'w sha2_ctx" where
  "md_update B sh transf ctx message =
     (let len = of_nat (length message);
          tmp_len = of_nat B - ctx_len ctx;
          rem_len = (if len < tmp_len then len else tmp_len);
          ctx = ctx\<lparr>block := memcpy_at (unat (ctx_len ctx)) (take (unat rem_len) message) (block ctx)\<rparr>
      in if ctx_len ctx + len < of_nat B then ctx\<lparr>ctx_len := ctx_len ctx + len\<rparr>
         else
           (let new_len = len - rem_len;
                block_nb = new_len div of_nat B;
                shifted_message = drop (unat rem_len) message;
                ctx = transf ctx (block ctx) 1;
                ctx = transf ctx shifted_message block_nb;
                rem_len = new_len mod of_nat B
            in ctx\<lparr>block := memcpy_at 0 (take (unat rem_len) (drop (unat (push_bit sh block_nb)) shifted_message)) (block ctx),
                   ctx_len := rem_len, tot_len := tot_len ctx + push_bit sh (block_nb + 1)\<rparr>))"

definition md_inv :: "nat \<Rightarrow> ('w list \<Rightarrow> byte list \<Rightarrow> 'w list) \<Rightarrow> 'w list \<Rightarrow> 'w sha2_ctx \<Rightarrow> byte list \<Rightarrow> bool" where
  "md_inv B cf iv ctx m \<longleftrightarrow>
     length (block ctx) = 2 * B \<and> hv ctx = foldl cf iv (blocks B m) \<and> unat (ctx_len ctx) = length m mod B \<and>
     take (length m mod B) (block ctx) = tail_of B m \<and> tot_len ctx = of_nat (B * (length m div B))"

lemma take_memcpy_at: "off \<le> length dst \<Longrightarrow> take (off + length src) (memcpy_at off src dst) = take off dst @ src"
  by (simp add: memcpy_at_def)

lemma take_memcpy_0: "take (length src) (memcpy_at 0 src dst) = src"
  by (simp add: memcpy_at_def)

lemma divmod_split:
  fixes a n B :: nat
  assumes "0 < B"
  shows "(a + n) div B = a div B + (a mod B + n) div B" and "(a + n) mod B = (a mod B + n) mod B"
proof -
  have "a + n = (a mod B + n) + (a div B) * B" by simp
  then show "(a + n) div B = a div B + (a mod B + n) div B"
    using div_mult_self1 [of B "a mod B + n" "a div B"] assms by simp
qed (simp add: mod_add_left_eq)

locale block_transform =
  fixes B sh :: nat
    and cf :: "'w list \<Rightarrow> byte list \<Rightarrow> 'w list"
    and transf :: "'w sha2_ctx \<Rightarrow> byte list \<Rightarrow> u32 \<Rightarrow> 'w sha2_ctx"
  assumes B_pow: "B = 2 ^ sh" and sh: "sh = 6 \<or> sh = 7"
    and transf_blocks: "B * unat n \<le> length msg \<Longrightarrow>
      transf ctx msg n = ctx\<lparr>hv := foldl cf (hv ctx) (blocks B (take (B * unat n) msg))\<rparr>"
begin

lemma B_bounds: "64 \<le> B" "B \<le> 128" "0 < B" "unat (of_nat B :: u32) = B"
  using sh by (auto simp: B_pow)

lemma update_small:
  assumes inv: "md_inv B cf iv ctx m" and small: "length m mod B + length b < B"
  shows "md_inv B cf iv (md_update B sh transf ctx b) (m @ b)"
proof -
  let ?r = "length m mod B"
  have u: "unat (of_nat (length b) :: u32) = length b" using small B_bounds by (simp add: unat_of_nat_u32)
  have c: "unat (ctx_len ctx) = ?r" using inv by (simp add: md_inv_def)
  have sum: "unat (ctx_len ctx + of_nat (length b)) = ?r + length b"
    using small B_bounds(2) by (simp add: unat_add_u32 u c)
  have lt: "ctx_len ctx + of_nat (length b) < of_nat B"
    using small by (simp add: word_less_nat_alt sum B_bounds(4))
  have rem: "of_nat (length b) < (of_nat B - ctx_len ctx :: u32)"
    using small by (simp add: word_less_nat_alt u unat_sub_u32 c B_bounds(4))
  have upd: "md_update B sh transf ctx b =
    ctx\<lparr>block := memcpy_at ?r b (block ctx), ctx_len := ctx_len ctx + of_nat (length b)\<rparr>"
    using lt rem by (simp add: md_update_def Let_def u c)
  have q: "(length m + length b) div B = length m div B" "(length m + length b) mod B = ?r + length b"
    using divmod_split [OF B_bounds(3), of "length m" "length b"] small by simp_all
  have "tail_of B (m @ b) = tail_of B m @ b"
    using small by (simp add: append_split(2) [OF B_bounds(3), of m b] tail_small)
  moreover have "blocks B (m @ b) = blocks B m"
    using small by (simp add: append_split(1) [OF B_bounds(3), of m b])
  moreover have "take (?r + length b) (memcpy_at ?r b (block ctx)) = take ?r (block ctx) @ b"
    using inv small by (simp add: take_memcpy_at md_inv_def)
  ultimately show ?thesis
    using inv small by (simp add: upd md_inv_def q sum c)
qed

lemma update_large:
  assumes inv: "md_inv B cf iv ctx m" and large: "B \<le> length m mod B + length b" and len: "length b < 2 ^ 31"
  shows "md_inv B cf iv (md_update B sh transf ctx b) (m @ b)"
proof -
  let ?r = "length m mod B"
  define s where "s = drop (B - ?r) b"
  define new where "new = length b - (B - ?r)"
  define first where "first = tail_of B m @ take (B - ?r) b"
  have r: "?r < B" using B_bounds by simp
  have ls: "length s = new" by (simp add: s_def new_def)
  have u: "unat (of_nat (length b) :: u32) = length b" using len by (simp add: unat_of_nat_u32)
  have c: "unat (ctx_len ctx) = ?r" using inv by (simp add: md_inv_def)
  have tmp: "unat (of_nat B - ctx_len ctx) = B - ?r" using r by (simp add: unat_sub_u32 c B_bounds(4))
  have sum: "unat (ctx_len ctx + of_nat (length b)) = ?r + length b"
    using r B_bounds(2) len by (simp add: unat_add_u32 u c)
  have nlt: "\<not> ctx_len ctx + of_nat (length b) < of_nat B"
    using large by (simp add: word_less_nat_alt sum B_bounds(4))
  have rem: "\<not> of_nat (length b) < (of_nat B - ctx_len ctx :: u32)"
    using large by (simp add: word_less_nat_alt u tmp)
  have nw: "unat (of_nat (length b) - (of_nat B - ctx_len ctx)) = new"
    using large by (simp add: unat_sub_u32 u tmp new_def)
  have dv: "unat ((of_nat (length b) - (of_nat B - ctx_len ctx)) div of_nat B) = new div B"
    by (simp add: unat_div nw B_bounds(4))
  have md: "unat ((of_nat (length b) - (of_nat B - ctx_len ctx)) mod of_nat B) = new mod B"
    by (simp add: unat_mod nw B_bounds(4))
  have newb: "new < 2 ^ 31" using len by (simp add: new_def)
  have le: "B * (new div B) < 4294967296"
    using newb by (intro le_less_trans [OF times_div_less_eq_dividend]) simp
  have push: "unat (push_bit sh ((of_nat (length b) - (of_nat B - ctx_len ctx)) div of_nat B) :: u32) = B * (new div B)"
    by (subst unat_push_u32) (use le in \<open>simp_all add: dv B_pow [symmetric] mult.commute\<close>)
  have blk: "take B (memcpy_at ?r (take (B - ?r) b) (block ctx)) = first"
  proof -
    have "?r + length (take (B - ?r) b) = B" using large r by simp
    then show ?thesis
      using take_memcpy_at [of ?r "block ctx" "take (B - ?r) b"] inv r by (simp add: md_inv_def first_def)
  qed
  have lf: "length first = B" using large r by (simp add: first_def)
  have e: "tail_of B m @ b = first @ s" by (simp add: first_def s_def)
  have bl: "blocks B (m @ b) = blocks B m @ first # blocks B s"
    by (simp only: append_split(1) [OF B_bounds(3), of m b] e blocks_cons [OF B_bounds(3) lf])
  have tl: "tail_of B (m @ b) = tail_of B s"
    unfolding append_split(2) [OF B_bounds(3), of m b] e by (rule tail_append) (simp add: lf)
  have mb: "?r + length b = B + new" using large r by (simp add: new_def)
  have q: "(length m + length b) div B = length m div B + 1 + new div B" "(length m + length b) mod B = new mod B"
    using divmod_split [OF B_bounds(3), of "length m" "length b"] div_add_self1 [of B new] B_bounds(3) by (simp_all add: mb)
  let ?M = "memcpy_at ?r (take (B - ?r) b) (block ctx)"
  let ?nb = "(of_nat (length b) - (of_nat B - ctx_len ctx)) div of_nat B :: u32"
  have lM: "length ?M = 2 * B" using inv r by (simp add: md_inv_def)
  have t1: "transf (ctx\<lparr>block := ?M\<rparr>) ?M 1 = ctx\<lparr>block := ?M, hv := cf (hv ctx) first\<rparr>"
    using blocks_cons [OF B_bounds(3) lf, of "[]"] B_bounds(3) by (subst transf_blocks) (simp_all add: lM blk)
  have t2: "transf C s ?nb = C\<lparr>hv := foldl cf (hv C) (blocks B s)\<rparr>" for C
    by (subst transf_blocks) (simp_all add: dv ls blocks_whole [OF B_bounds(3), of s, unfolded ls])
  have tls: "take (new mod B) (drop (B * (new div B)) s) = tail_of B s"
    by (simp add: tail_of_def ls minus_mult_div_eq_mod)
  have upd: "md_update B sh transf ctx b = ctx\<lparr>hv := foldl cf (hv ctx) (first # blocks B s),
      block := memcpy_at 0 (tail_of B s) ?M, ctx_len := (of_nat (length b) - (of_nat B - ctx_len ctx)) mod of_nat B,
      tot_len := tot_len ctx + push_bit sh (?nb + 1)\<rparr>"
    using nlt rem by (simp add: md_update_def Let_def tmp c t1 t2 md push tls flip: s_def)
  have tot: "of_nat (B * (length m div B)) + push_bit sh (?nb + 1) = (of_nat (B + B * (length m div B + new div B)) :: u32)"
  proof -
    have "?nb = of_nat (unat ?nb)" by simp
    then have "?nb = of_nat (new div B)" by (simp only: dv)
    then show ?thesis by (simp add: push_bit_eq_mult B_pow algebra_simps)
  qed
  have "take (new mod B) (memcpy_at 0 (tail_of B s) ?M) = tail_of B s"
    using take_memcpy_0 [of "tail_of B s" ?M] by (simp add: ls)
  moreover have "new mod B < B" using B_bounds(3) by simp
  ultimately show ?thesis
    using inv by (simp add: upd md_inv_def md bl tl q tot lM ls del: of_nat_mult of_nat_add)
qed

lemma update_inv:
  "md_inv B cf iv ctx m \<Longrightarrow> length b < 2 ^ 31 \<Longrightarrow> md_inv B cf iv (md_update B sh transf ctx b) (m @ b)"
  using update_small update_large by (cases "length m mod B + length b < B") auto

end

section \<open>Padding and finalisation\<close>

definition be_nat :: "nat \<Rightarrow> nat \<Rightarrow> byte list" where
  "be_nat k n = map (\<lambda>i. of_nat (n div 256 ^ (k - Suc i))) [0..<k]"

definition pad_with :: "nat \<Rightarrow> byte list \<Rightarrow> byte list \<Rightarrow> byte list" where
  "pad_with B field m = 0x80 # replicate ((B - (length m + 1 + length field) mod B) mod B) 0 @ field"

definition md_final :: "nat \<Rightarrow> nat \<Rightarrow> nat \<Rightarrow> ('w sha2_ctx \<Rightarrow> byte list \<Rightarrow> u32 \<Rightarrow> 'w sha2_ctx) \<Rightarrow> 'w sha2_ctx \<Rightarrow> 'w sha2_ctx" where
  "md_final B sh L transf ctx =
     (let block_nb = 1 + (if of_nat B - of_nat (Suc L) < ctx_len ctx mod of_nat B then 1 else 0);
          len_b = push_bit 3 (tot_len ctx + ctx_len ctx);
          pm_len = push_bit sh block_nb;
          ctx = ctx\<lparr>block := memset_at (unat (ctx_len ctx)) 0 (unat (pm_len - ctx_len ctx)) (block ctx)\<rparr>;
          ctx = ctx\<lparr>block := (block ctx)[unat (ctx_len ctx) := 0x80]\<rparr>;
          ctx = ctx\<lparr>block := memcpy_at (unat pm_len - 4) (UNPACK32 len_b) (block ctx)\<rparr>
      in transf ctx (block ctx) block_nb)"

lemma pad_zeros:
  fixes r K B :: nat
  assumes "r < B" and "0 < K" and "K < B"
  shows "(B - (r + K) mod B) mod B = (if r + K \<le> B then B - (r + K) else 2 * B - (r + K))"
proof -
  consider "r + K < B" | "r + K = B" | "B < r + K" by linarith
  then show ?thesis
  proof cases
    case 1
    then show ?thesis using assms by simp
  next
    case 3
    then have "(r + K) mod B = r + K - B" using assms by (simp add: mod_if)
    then show ?thesis using 3 assms by simp
  qed simp
qed

lemma final_bytes:
  assumes "r + 5 \<le> n" and "n \<le> length blk" and "length u = 4"
  shows "memcpy_at (n - 4) u ((memset_at r c (n - r) blk)[r := x]) =
    take r blk @ x # replicate (n - r - 5) c @ u @ drop n blk"
proof -
  define k where "k = n - r - 5"
  have n: "n = r + 5 + k" using assms(1) by (simp add: k_def)
  have "memset_at r c (n - r) blk = take r blk @ c # replicate (k + 4) c @ drop n blk"
    using replicate_Suc [of "k + 4" c] by (simp add: memset_at_def memcpy_at_def n algebra_simps)
  then have upd: "(memset_at r c (n - r) blk)[r := x] = (take r blk @ x # replicate k c) @ replicate 4 c @ drop n blk"
    using assms(2) n by (simp add: list_update_append replicate_add)
  have cpy: "memcpy_at (n - 4) u (a @ replicate 4 c @ d) = a @ u @ d" if "length a = n - 4" for a d
    using that assms(3) by (simp add: memcpy_at_def)
  have "length (take r blk @ x # replicate k c) = n - 4" using assms(2) n by simp
  from cpy [OF this, of "drop n blk"] show ?thesis unfolding upd by (simp add: k_def)
qed

lemma UNPACK32_be_nat: "UNPACK32 (of_nat n) = be_nat 4 n"
proof -
  have d: "ucast (drop_bit k (of_nat n :: u32)) = (of_nat (n div 2 ^ k) :: byte)" if "k \<le> 24" for k
  proof (rule bit_word_eqI)
    fix i
    assume "i < LENGTH(8)"
    then show "bit (ucast (drop_bit k (of_nat n :: u32)) :: byte) i = bit (of_nat (n div 2 ^ k) :: byte) i"
      using that unfolding drop_bit_eq_div [symmetric] by (simp add: bit_simps)
  qed
  from d [of 24] d [of 16] d [of 8] d [of 0] show ?thesis
    by (simp add: UNPACK32_def be_nat_def upt_rec)
qed

context block_transform
begin

lemma final_blocks:
  assumes inv: "md_inv B cf iv ctx m" and L: "L = 8 \<or> L = 16"
  shows "\<exists>P. length P = 2 * B \<and> md_final B sh L transf ctx =
    ctx\<lparr>block := P,
        hv := foldl cf iv (blocks B (m @ pad_with B (replicate (L - 4) 0 @ be_nat 4 (8 * length m)) m))\<rparr>"
proof -
  let ?r = "length m mod B"
  define N :: nat where "N = (if B - Suc L < ?r then 2 else 1)"
  define U where "U = UNPACK32 (push_bit 3 (tot_len ctx + ctx_len ctx))"
  have r: "?r < B" using B_bounds by simp
  have c: "unat (ctx_len ctx) = ?r" using inv by (simp add: md_inv_def)
  have Lb: "Suc L \<le> 17" "8 \<le> L" "Suc L < B" using L B_bounds by auto
  have uL: "unat (of_nat (Suc L) :: u32) = Suc L" using Lb by (intro unat_of_nat_u32) simp
  have cm: "ctx_len ctx mod of_nat B = ctx_len ctx"
    using r by (simp add: word_unat_eq_iff unat_mod c B_bounds(4))
  have nb: "unat (1 + (if of_nat B - of_nat (Suc L) < ctx_len ctx mod of_nat B then 1 else 0) :: u32) = N"
    using Lb unfolding cm N_def word_less_nat_alt by (subst unat_sub_u32) (simp_all add: uL B_bounds(4) c del: of_nat_Suc)
  have pm: "unat (push_bit sh (1 + (if of_nat B - of_nat (Suc L) < ctx_len ctx mod of_nat B then 1 else 0)) :: u32) = N * B"
    by (subst unat_push_u32) (use B_bounds(2) nb in \<open>simp_all add: B_pow [symmetric] N_def del: of_nat_Suc split: if_splits\<close>)
  have two: "?r + 1 + L \<le> 2 * B" using r Lb by linarith
  then have room: "?r + 1 + L \<le> N * B" using Lb(3) by (auto simp: N_def)
  have U: "U = be_nat 4 (8 * length m)"
  proof -
    have "of_nat ?r = ctx_len ctx" by (simp flip: c)
    moreover have "tot_len ctx = of_nat (B * (length m div B))" using inv by (simp add: md_inv_def)
    moreover have "of_nat (length m) = (of_nat (B * (length m div B) + ?r) :: u32)" by (simp only: mult_div_mod_eq)
    ultimately have "of_nat (length m) = tot_len ctx + ctx_len ctx" by (simp only: of_nat_add)
    then have "push_bit 3 (tot_len ctx + ctx_len ctx) = of_nat (8 * length m)"
      by (simp add: push_bit_eq_mult)
    then show ?thesis by (simp only: U_def UNPACK32_be_nat)
  qed
  define z where "z = N * B - (?r + 1 + L)"
  have z: "(B - (length m + 1 + L) mod B) mod B = z"
  proof -
    have e: "(length m + 1 + L) mod B = (?r + Suc L) mod B"
      using divmod_split(2) [OF B_bounds(3), of "length m" "Suc L"] by simp
    have "?r + Suc L \<le> B \<longleftrightarrow> \<not> B - Suc L < ?r" using Lb(3) by linarith
    then show ?thesis unfolding e using pad_zeros [OF r, of "Suc L"] Lb(3) by (simp add: z_def N_def)
  qed
  let ?nb = "1 + (if of_nat B - of_nat (Suc L) < ctx_len ctx mod of_nat B then 1 else 0) :: u32"
  define P where "P = take ?r (block ctx) @ 0x80 # replicate (N * B - ?r - 5) 0 @ U @ drop (N * B) (block ctx)"
  have N: "N * B \<le> length (block ctx)" "N = 1 \<or> N = 2" using inv by (auto simp: md_inv_def N_def)
  have lU: "length U = 4" by (simp add: U_def UNPACK32_def)
  have sub: "unat (push_bit sh ?nb - ctx_len ctx) = N * B - ?r"
    using room by (subst unat_sub_u32) (simp_all add: pm c del: of_nat_Suc)
  have fin: "md_final B sh L transf ctx = transf (ctx\<lparr>block := P\<rparr>) P ?nb"
    unfolding md_final_def Let_def P_def U_def
    using room Lb(2) N by (simp add: pm c sub final_bytes UNPACK32_def del: of_nat_Suc)
  have body: "tail_of B m @ pad_with B (replicate (L - 4) 0 @ U) m = take (N * B) P"
  proof -
    define Q where "Q = tail_of B m @ 0x80 # (replicate z 0 @ replicate (L - 4) 0) @ U"
    have k: "N * B - ?r - 5 = z + (L - 4)" using room Lb(2) by (simp add: z_def)
    have "take ?r (block ctx) = tail_of B m" using inv by (simp add: md_inv_def)
    then have "P = Q @ drop (N * B) (block ctx)" unfolding P_def Q_def k by (simp add: replicate_add)
    moreover have "length Q = N * B" using room Lb(2) lU by (simp add: Q_def z_def)
    moreover have "tail_of B m @ pad_with B (replicate (L - 4) 0 @ U) m = Q"
      using z Lb(2) lU by (simp add: pad_with_def Q_def)
    ultimately show ?thesis by simp
  qed
  have "length P = length (block ctx)" using room Lb(2) N(1) by (simp add: P_def lU)
  then have lP: "length P = 2 * B" using inv by (simp add: md_inv_def)
  have "transf (ctx\<lparr>block := P\<rparr>) P ?nb = ctx\<lparr>block := P, hv := foldl cf (hv ctx) (blocks B (take (N * B) P))\<rparr>"
    using N(2) lP by (subst transf_blocks) (auto simp: nb mult.commute simp del: of_nat_Suc)
  moreover have "foldl cf (hv ctx) (blocks B (take (N * B) P)) =
      foldl cf iv (blocks B (m @ pad_with B (replicate (L - 4) 0 @ be_nat 4 (8 * length m)) m))"
    using inv unfolding append_split(1) [OF B_bounds(3), of m "pad_with B (replicate (L - 4) 0 @ be_nat 4 (8 * length m)) m"]
    by (simp add: md_inv_def body [unfolded U])
  ultimately show ?thesis unfolding fin using lP by auto
qed

end

end
