(* ===== verification/Sha2Correct.thy ===== *)
theory Sha2Correct
  imports BlockStream
begin

text \<open>
  The reference for the SHA-2 family after FIPS 180-2 and the proofs that \<^verbatim>\<open>hmac/hmac/sha2.c\<close> computes
  it: the block functions with and without \<^verbatim>\<open>UNROLL_LOOPS\<close>, the streaming interface and the tables of
  constants.
\<close>

unbundle bit_operations_syntax

section \<open>FIPS 180-2 reference\<close>

definition be_word :: "byte list \<Rightarrow> 'w::len word" where
  "be_word bs = foldl (\<lambda>a b. push_bit 8 a OR ucast b) 0 bs"

fun fips2_W :: "('w::len word \<Rightarrow> 'w word) \<Rightarrow> ('w word \<Rightarrow> 'w word) \<Rightarrow> (nat \<Rightarrow> 'w word) \<Rightarrow> nat \<Rightarrow> 'w word" where
  "fips2_W s0 s1 M t =
     (if t < 16 then M t
      else s1 (fips2_W s0 s1 M (t - 2)) + fips2_W s0 s1 M (t - 7) + s0 (fips2_W s0 s1 M (t - 15)) + fips2_W s0 s1 M (t - 16))"

declare fips2_W.simps [simp del]

fun fips2_round :: "('w::len word \<Rightarrow> 'w word) \<Rightarrow> ('w word \<Rightarrow> 'w word) \<Rightarrow> 'w word \<Rightarrow> 'w word \<Rightarrow> 'w word list \<Rightarrow> 'w word list" where
  "fips2_round S0 S1 K W [a, b, c, d, e, f, g, h] =
     (let T1 = h + S1 e + ((e AND f) XOR (NOT e AND g)) + K + W;
          T2 = S0 a + ((a AND b) XOR (a AND c) XOR (b AND c))
      in [T1 + T2, a, b, c, d + T1, e, f, g])"
| "fips2_round S0 S1 K W _ = []"

definition sha2_hash :: "('w::len word list \<Rightarrow> byte list \<Rightarrow> 'w word list) \<Rightarrow> nat \<Rightarrow> 'w word list \<Rightarrow> nat \<Rightarrow> byte list \<Rightarrow> byte list \<Rightarrow> byte list" where
  "sha2_hash compress B iv d field m =
     take d (concat (map (\<lambda>w. be_nat (LENGTH('w) div 8) (unat w)) (foldl compress iv (blocks B (m @ pad_with B field m)))))"

definition Sigma0_256 :: "u32 \<Rightarrow> u32" where
  "Sigma0_256 x = word_rotr 2 x XOR word_rotr 13 x XOR word_rotr 22 x"

definition Sigma1_256 :: "u32 \<Rightarrow> u32" where
  "Sigma1_256 x = word_rotr 6 x XOR word_rotr 11 x XOR word_rotr 25 x"

definition sigma0_256 :: "u32 \<Rightarrow> u32" where
  "sigma0_256 x = word_rotr 7 x XOR word_rotr 18 x XOR drop_bit 3 x"

definition sigma1_256 :: "u32 \<Rightarrow> u32" where
  "sigma1_256 x = word_rotr 17 x XOR word_rotr 19 x XOR drop_bit 10 x"

definition fips_compress256 :: "u32 list \<Rightarrow> byte list \<Rightarrow> u32 list" where
  "fips_compress256 H M =
     map2 (+) H
       (fold (\<lambda>t. fips2_round Sigma0_256 Sigma1_256 (sha256_k ! t)
                (fips2_W sigma0_256 sigma1_256 (\<lambda>t. be_word (take 4 (drop (4 * t) M))) t)) [0..<64] H)"

definition Sigma0_512 :: "u64 \<Rightarrow> u64" where
  "Sigma0_512 x = word_rotr 28 x XOR word_rotr 34 x XOR word_rotr 39 x"

definition Sigma1_512 :: "u64 \<Rightarrow> u64" where
  "Sigma1_512 x = word_rotr 14 x XOR word_rotr 18 x XOR word_rotr 41 x"

definition sigma0_512 :: "u64 \<Rightarrow> u64" where
  "sigma0_512 x = word_rotr 1 x XOR word_rotr 8 x XOR drop_bit 7 x"

definition sigma1_512 :: "u64 \<Rightarrow> u64" where
  "sigma1_512 x = word_rotr 19 x XOR word_rotr 61 x XOR drop_bit 6 x"

definition fips_compress512 :: "u64 list \<Rightarrow> byte list \<Rightarrow> u64 list" where
  "fips_compress512 H M =
     map2 (+) H
       (fold (\<lambda>t. fips2_round Sigma0_512 Sigma1_512 (sha512_k ! t)
                (fips2_W sigma0_512 sigma1_512 (\<lambda>t. be_word (take 8 (drop (8 * t) M))) t)) [0..<80] H)"

definition fips_sha224 :: "byte list \<Rightarrow> byte list" where
  "fips_sha224 m = sha2_hash fips_compress256 64 sha224_h0 28 (be_nat 8 (8 * length m)) m"

definition trunc_sha224 :: "byte list \<Rightarrow> byte list" where
  "trunc_sha224 m = sha2_hash fips_compress256 64 sha224_h0 28 (replicate 4 0 @ be_nat 4 (8 * length m)) m"

definition fips_sha256 :: "byte list \<Rightarrow> byte list" where
  "fips_sha256 m = sha2_hash fips_compress256 64 sha256_h0 32 (be_nat 8 (8 * length m)) m"

definition trunc_sha256 :: "byte list \<Rightarrow> byte list" where
  "trunc_sha256 m = sha2_hash fips_compress256 64 sha256_h0 32 (replicate 4 0 @ be_nat 4 (8 * length m)) m"

definition fips_sha384 :: "byte list \<Rightarrow> byte list" where
  "fips_sha384 m = sha2_hash fips_compress512 128 sha384_h0 48 (be_nat 16 (8 * length m)) m"

definition trunc_sha384 :: "byte list \<Rightarrow> byte list" where
  "trunc_sha384 m = sha2_hash fips_compress512 128 sha384_h0 48 (replicate 12 0 @ be_nat 4 (8 * length m)) m"

definition fips_sha512 :: "byte list \<Rightarrow> byte list" where
  "fips_sha512 m = sha2_hash fips_compress512 128 sha512_h0 64 (be_nat 16 (8 * length m)) m"

definition trunc_sha512 :: "byte list \<Rightarrow> byte list" where
  "trunc_sha512 m = sha2_hash fips_compress512 128 sha512_h0 64 (replicate 12 0 @ be_nat 4 (8 * length m)) m"

section \<open>Macros\<close>

lemma ROTR_rotr: "n < LENGTH('w) \<Longrightarrow> ROTR (x :: 'w::len word) n = word_rotr n x"
proof (rule bit_word_eqI)
  fix i
  assume n: "n < LENGTH('w)" and i: "i < LENGTH('w)"
  have "(i + n) mod LENGTH('w) = (if i + n < LENGTH('w) then i + n else i + n - LENGTH('w))"
    using n i by (simp add: mod_if)
  then show "bit (ROTR x n) i = bit (word_rotr n x) i"
    using n i by (auto simp: ROTR_def bit_simps add.commute dest: bit_imp_le_length)
qed

lemma F_256: "SHA256_F1 = Sigma0_256" "SHA256_F2 = Sigma1_256" "SHA256_F3 = sigma0_256" "SHA256_F4 = sigma1_256"
  by (rule ext, simp add: SHA256_F1_def SHA256_F2_def SHA256_F3_def SHA256_F4_def Sigma0_256_def Sigma1_256_def
      sigma0_256_def sigma1_256_def ROTR_rotr SHFR_def)+

lemma F_512: "SHA512_F1 = Sigma0_512" "SHA512_F2 = Sigma1_512" "SHA512_F3 = sigma0_512" "SHA512_F4 = sigma1_512"
  by (rule ext, simp add: SHA512_F1_def SHA512_F2_def SHA512_F3_def SHA512_F4_def Sigma0_512_def Sigma1_512_def
      sigma0_512_def sigma1_512_def ROTR_rotr SHFR_def)+

lemmas be_word_unfold = be_word_def foldl.simps push_bit_or push_bit_push_bit push_bit_of_0 or.left_neutral
  arith_simps or.assoc

lemma list4: "4 \<le> length s \<Longrightarrow> take 4 s = [s ! 0, s ! 1, s ! 2, s ! 3]"
  by (rule nth_equalityI) (auto simp: less_Suc_eq numeral_eq_Suc)

lemma list8: "8 \<le> length s \<Longrightarrow> take 8 s = [s ! 0, s ! 1, s ! 2, s ! 3, s ! 4, s ! 5, s ! 6, s ! 7]"
  by (rule nth_equalityI) (auto simp: less_Suc_eq numeral_eq_Suc)

lemma PACK32_be_word: "4 \<le> length s \<Longrightarrow> PACK32 s = be_word (take 4 s)"
  by (simp only: list4 PACK32_def be_word_unfold) (simp only: or.commute or.left_commute)

lemma PACK64_be_word: "8 \<le> length s \<Longrightarrow> PACK64 s = be_word (take 8 s)"
  by (simp only: list8 PACK64_def be_word_unfold) (simp only: or.commute or.left_commute)


section \<open>The block functions\<close>

lemma scr_schedule:
  assumes "\<And>w. scr w = w @ [s1 (w ! (length w - 2)) + w ! (length w - 7) + s0 (w ! (length w - 15)) + w ! (length w - 16)]"
  shows "(scr ^^ k) (map M [0..<16]) = map (fips2_W s0 s1 M) [0..<16 + k]"
proof (induction k)
  case 0
  show ?case by (simp add: fips2_W.simps)
next
  case (Suc k)
  then have "(scr ^^ Suc k) (map M [0..<16]) = scr (map (fips2_W s0 s1 M) [0..<16 + k])" by simp
  also have "\<dots> = map (fips2_W s0 s1 M) [0..<16 + k] @ [fips2_W s0 s1 M (16 + k)]"
    by (simp add: assms fips2_W.simps [of s0 s1 M "16 + k"])
  also have "\<dots> = map (fips2_W s0 s1 M) [0..<Suc (16 + k)]" by (subst upt_Suc) simp
  finally show ?case by (simp only: add_Suc_right)
qed

lemma fips2_W_cong: "(\<And>t. t < 16 \<Longrightarrow> M t = M' t) \<Longrightarrow> fips2_W s0 s1 M t = fips2_W s0 s1 M' t"
  by (induction t rule: less_induct) (simp add: fips2_W.simps [of s0 s1 M] fips2_W.simps [of s0 s1 M'])

lemma eight:
  assumes "length v = 8"
  obtains a b c d e f g h where "v = [a, b, c, d, e, f, g, h]"
  using assms by (auto simp: length_Suc_conv numeral_eq_Suc)

lemma nth8: "[a, b, c, d, e, f, g, h] ! 0 = a" "[a, b, c, d, e, f, g, h] ! 1 = b" "[a, b, c, d, e, f, g, h] ! 2 = c"
  "[a, b, c, d, e, f, g, h] ! 3 = d" "[a, b, c, d, e, f, g, h] ! 4 = e" "[a, b, c, d, e, f, g, h] ! 5 = f"
  "[a, b, c, d, e, f, g, h] ! 6 = g" "[a, b, c, d, e, f, g, h] ! 7 = h"
  by simp_all

lemma length_fips2_round: "length v = 8 \<Longrightarrow> length (fips2_round S0 S1 K W v) = 8"
  by (auto elim!: eight simp: Let_def)

lemma fold_length8: "length v = 8 \<Longrightarrow> length (fold (\<lambda>t. fips2_round S0 S1 (K t) (W t)) ts v) = 8"
  by (induction ts arbitrary: v) (simp_all add: length_fips2_round)

lemma fold_rounds8:
  assumes "length v = 8" and "\<And>t v. t \<in> set ts \<Longrightarrow> length v = 8 \<Longrightarrow> f t v = fips2_round S0 S1 (K t) (W t) v"
  shows "fold f ts v = fold (\<lambda>t. fips2_round S0 S1 (K t) (W t)) ts v"
  using assms by (induction ts arbitrary: v) (simp_all add: length_fips2_round)

lemma map2_eight: "length H = 8 \<Longrightarrow> length V = 8 \<Longrightarrow> map (\<lambda>j. H ! j + V ! j) [0..<8] = map2 (+) H V"
  by (rule nth_equalityI) simp_all

lemma sha256_schedule_W:
  assumes "64 \<le> length M"
  shows "sha256_schedule M = map (fips2_W sigma0_256 sigma1_256 (\<lambda>t. be_word (take 4 (drop (4 * t) M)))) [0..<64]"
proof -
  have "PACK32 (drop (push_bit 2 j) M) = be_word (take 4 (drop (4 * j) M))" if "j < 16" for j
    using that assms by (simp add: PACK32_be_word push_bit_eq_mult mult.commute)
  then show ?thesis
    unfolding sha256_schedule_def scr_schedule [of SHA256_SCR sigma1_256 sigma0_256, OF SHA256_SCR_def [unfolded Let_def F_256]]
    by (intro map_cong fips2_W_cong) simp_all
qed

lemma sha256_schedule_take: "64 \<le> length M \<Longrightarrow> sha256_schedule (take 64 M) = sha256_schedule M"
  unfolding sha256_schedule_def PACK32_def by (intro arg_cong [of _ _ "SHA256_SCR ^^ 48"] map_cong) (auto simp: push_bit_eq_mult)

lemma sha256_round_fips:
  assumes "length v = 8"
  shows "sha256_round w j v = fips2_round Sigma0_256 Sigma1_256 (sha256_k ! j) (w ! j) v"
proof -
  from assms obtain a b c d e f g h where "v = [a, b, c, d, e, f, g, h]" by (rule eight)
  then show ?thesis by (simp only: sha256_round_def nth8 F_256 CH_def MAJ_def fips2_round.simps)
qed

lemma sha256_block_fips:
  assumes "length H = 8" and "length M = 64"
  shows "sha256_block H M = fips_compress256 H M"
proof -
  have "fold (sha256_round (sha256_schedule M)) [0..<64] H =
    fold (\<lambda>t. fips2_round Sigma0_256 Sigma1_256 (sha256_k ! t)
      (fips2_W sigma0_256 sigma1_256 (\<lambda>t. be_word (take 4 (drop (4 * t) M))) t)) [0..<64] H"
    by (rule fold_rounds8 [OF assms(1)]) (simp add: sha256_round_fips sha256_schedule_W assms(2))
  then show ?thesis
    by (simp add: sha256_block_def fips_compress256_def map2_eight assms(1) fold_length8 Let_def)
qed

lemma length_sha256_block: "length (sha256_block H M) = 8"
  by (simp add: sha256_block_def Let_def)

lemma sha256_transf_blocks:
  assumes "64 * unat n \<le> length msg"
  shows "sha256_transf ctx msg n = ctx\<lparr>hv := foldl sha256_block (hv ctx) (blocks 64 (take (64 * unat n) msg))\<rparr>"
proof -
  have "fold (\<lambda>i ctx. ctx\<lparr>hv := sha256_block (hv ctx) (drop (push_bit 6 i) msg)\<rparr>) [0..<k] ctx =
      ctx\<lparr>hv := foldl sha256_block (hv ctx) (blocks 64 (take (64 * k) msg))\<rparr>" if "64 * k \<le> length msg" for k
    using that
  proof (induction k)
    case (Suc k)
    have "blocks 64 (take (64 * Suc k) msg) = blocks 64 (take (64 * k) msg) @ [take 64 (drop (64 * k) msg)]"
      by (rule blocks_take_Suc) (use Suc.prems in simp_all)
    moreover have "sha256_block h (take 64 (drop (64 * k) msg)) = sha256_block h (drop (push_bit 6 k) msg)" for h
      using Suc.prems by (simp add: sha256_block_def sha256_schedule_take push_bit_eq_mult mult.commute)
    ultimately show ?case using Suc by simp
  qed simp
  from this [OF assms] show ?thesis by (simp add: sha256_transf_def)
qed

interpretation sha256: block_transform 64 6 sha256_block sha256_transf
  by unfold_locales (simp_all add: sha256_transf_blocks)

lemma sha512_schedule_W:
  assumes "128 \<le> length M"
  shows "sha512_schedule M = map (fips2_W sigma0_512 sigma1_512 (\<lambda>t. be_word (take 8 (drop (8 * t) M)))) [0..<80]"
proof -
  have "PACK64 (drop (push_bit 3 j) M) = be_word (take 8 (drop (8 * j) M))" if "j < 16" for j
    using that assms by (simp add: PACK64_be_word push_bit_eq_mult mult.commute)
  then show ?thesis
    unfolding sha512_schedule_def scr_schedule [of SHA512_SCR sigma1_512 sigma0_512, OF SHA512_SCR_def [unfolded Let_def F_512]]
    by (intro map_cong fips2_W_cong) simp_all
qed

lemma sha512_schedule_take: "128 \<le> length M \<Longrightarrow> sha512_schedule (take 128 M) = sha512_schedule M"
  unfolding sha512_schedule_def PACK64_def by (intro arg_cong [of _ _ "SHA512_SCR ^^ 64"] map_cong) (auto simp: push_bit_eq_mult)

lemma sha512_round_fips:
  assumes "length v = 8"
  shows "sha512_round w j v = fips2_round Sigma0_512 Sigma1_512 (sha512_k ! j) (w ! j) v"
proof -
  from assms obtain a b c d e f g h where "v = [a, b, c, d, e, f, g, h]" by (rule eight)
  then show ?thesis by (simp only: sha512_round_def nth8 F_512 CH_def MAJ_def fips2_round.simps)
qed

lemma sha512_block_fips:
  assumes "length H = 8" and "length M = 128"
  shows "sha512_block H M = fips_compress512 H M"
proof -
  have "fold (sha512_round (sha512_schedule M)) [0..<80] H =
    fold (\<lambda>t. fips2_round Sigma0_512 Sigma1_512 (sha512_k ! t)
      (fips2_W sigma0_512 sigma1_512 (\<lambda>t. be_word (take 8 (drop (8 * t) M))) t)) [0..<80] H"
    by (rule fold_rounds8 [OF assms(1)]) (simp add: sha512_round_fips sha512_schedule_W assms(2))
  then show ?thesis
    by (simp add: sha512_block_def fips_compress512_def map2_eight assms(1) fold_length8 Let_def)
qed

lemma length_sha512_block: "length (sha512_block H M) = 8"
  by (simp add: sha512_block_def Let_def)

lemma sha512_transf_blocks:
  assumes "128 * unat n \<le> length msg"
  shows "sha512_transf ctx msg n = ctx\<lparr>hv := foldl sha512_block (hv ctx) (blocks 128 (take (128 * unat n) msg))\<rparr>"
proof -
  have "fold (\<lambda>i ctx. ctx\<lparr>hv := sha512_block (hv ctx) (drop (push_bit 7 i) msg)\<rparr>) [0..<k] ctx =
      ctx\<lparr>hv := foldl sha512_block (hv ctx) (blocks 128 (take (128 * k) msg))\<rparr>" if "128 * k \<le> length msg" for k
    using that
  proof (induction k)
    case (Suc k)
    have "blocks 128 (take (128 * Suc k) msg) = blocks 128 (take (128 * k) msg) @ [take 128 (drop (128 * k) msg)]"
      by (rule blocks_take_Suc) (use Suc.prems in simp_all)
    moreover have "sha512_block h (take 128 (drop (128 * k) msg)) = sha512_block h (drop (push_bit 7 k) msg)" for h
      using Suc.prems by (simp add: sha512_block_def sha512_schedule_take push_bit_eq_mult mult.commute)
    ultimately show ?case using Suc by simp
  qed simp
  from this [OF assms] show ?thesis by (simp add: sha512_transf_def)
qed

interpretation sha512: block_transform 128 7 sha512_block sha512_transf
  by unfold_locales (simp_all add: sha512_transf_blocks)

section \<open>Digests\<close>

lemma blocks_lengths: "b \<in> set (blocks B m) \<Longrightarrow> length b = B"
proof (induction B m rule: blocks.induct)
  case (1 B m)
  show ?case
    by (cases "B = 0 \<or> length m < B") (use 1 in \<open>auto simp: blocks.simps [of B m]\<close>)
qed

lemma foldl_block_fips:
  assumes "length iv = 8" and "\<And>H M. length (blk H M) = 8"
    and "\<And>H M. length H = 8 \<Longrightarrow> length M = B \<Longrightarrow> blk H M = cf H M" and "\<And>b. b \<in> set bs \<Longrightarrow> length b = B"
  shows "foldl blk iv bs = foldl cf iv bs" and "length (foldl blk iv bs) = 8"
proof -
  show "foldl blk iv bs = foldl cf iv bs"
    using assms(1,4)
  proof (induction bs arbitrary: iv)
    case (Cons b bs)
    then have "blk iv b = cf iv b" "length (cf iv b) = 8" using assms(2) [of iv b] assms(3) [of iv b] by simp_all
    then show ?case using Cons by simp
  qed simp
  show "length (foldl blk iv bs) = 8" using assms(1) by (induction bs arbitrary: iv) (simp_all add: assms(2))
qed

lemma take_concat_map:
  "(\<And>x. length (f x) = k) \<Longrightarrow> take (k * n) (concat (map f xs)) = concat (map f (take n xs))"
proof (induction n arbitrary: xs)
  case (Suc n)
  then show ?case by (cases xs) simp_all
qed simp

lemma length_be_nat [simp]: "length (be_nat k n) = k"
  by (simp add: be_nat_def)

lemma UNPACK32_unat: "UNPACK32 w = be_nat 4 (unat w)"
  using UNPACK32_be_nat [of "unat w"] by simp

lemma UNPACK64_unat: "UNPACK64 w = be_nat 8 (unat w)"
proof -
  have "ucast (drop_bit k w) = (of_nat (unat w div 2 ^ k) :: byte)" for k
    by (simp flip: unat_drop_div)
  from this [of 56] this [of 48] this [of 40] this [of 32] this [of 24] this [of 16] this [of 8] this [of 0]
  show ?thesis by (simp add: UNPACK64_def be_nat_def upt_rec)
qed

lemma output_words:
  assumes "\<And>w. up w = be_nat (LENGTH('w) div 8) (unat (w :: 'w::len word))" and "n \<le> length hs"
  shows "concat (map (\<lambda>i. up (hs ! i)) [0..<n]) =
    take (LENGTH('w) div 8 * n) (concat (map (\<lambda>w. be_nat (LENGTH('w) div 8) (unat w)) hs))"
proof -
  have "map (\<lambda>i. up (hs ! i)) [0..<n] = map up (take n hs)"
    using assms(2) by (intro nth_equalityI) simp_all
  moreover have "up = (\<lambda>w. be_nat (LENGTH('w) div 8) (unat w))" using assms(1) by auto
  ultimately show ?thesis by (simp add: take_concat_map)
qed

lemma out32: "n \<le> length hs \<Longrightarrow>
    concat (map (\<lambda>i. UNPACK32 (hs ! i)) [0..<n]) = take (4 * n) (concat (map (\<lambda>w. be_nat 4 (unat w)) hs))"
  using output_words [of UNPACK32 n hs] by (simp add: UNPACK32_unat)

lemma out64: "n \<le> length hs \<Longrightarrow>
    concat (map (\<lambda>i. UNPACK64 (hs ! i)) [0..<n]) = take (8 * n) (concat (map (\<lambda>w. be_nat 8 (unat w)) hs))"
  using output_words [of UNPACK64 n hs] by (simp add: UNPACK64_unat)

lemma h0_nth: "length h = 8 \<Longrightarrow> map (\<lambda>i. h ! i) [0..<8] = h"
  by (rule nth_equalityI) simp_all

lemma length_sha224_h0 [simp]: "length sha224_h0 = 8"
  by (simp add: sha224_h0_def)

definition sha224_inv :: "sha256_ctx \<Rightarrow> byte list \<Rightarrow> bool" where
  "sha224_inv = md_inv 64 sha256_block sha224_h0"

lemma sha224_update_md: "sha224_update = md_update 64 6 sha256_transf"
  unfolding fun_eq_iff sha224_update_def md_update_def of_nat_numeral by simp

lemma sha224_final_md:
  "sha224_final ctx = (let ctx = md_final 64 6 8 sha256_transf ctx in (concat (map (\<lambda>i. UNPACK32 (hv ctx ! i)) [0..<7]), ctx))"
  by (simp add: sha224_final_def md_final_def Let_def)

lemma sha224_final_inv:
  assumes "sha224_inv ctx m"
  shows "fst (sha224_final ctx) = trunc_sha224 m" and "length (block (snd (sha224_final ctx))) = 128"
proof -
  let ?bs = "blocks 64 (m @ pad_with 64 (replicate 4 0 @ be_nat 4 (8 * length m)) m)"
  obtain P where P: "length P = 128" "md_final 64 6 8 sha256_transf ctx = ctx\<lparr>block := P, hv := foldl sha256_block sha224_h0 ?bs\<rparr>"
    using sha256.final_blocks [OF assms [unfolded sha224_inv_def], of 8] by auto
  have "foldl sha256_block sha224_h0 ?bs = foldl fips_compress256 sha224_h0 ?bs" "length (foldl sha256_block sha224_h0 ?bs) = 8"
    by (rule foldl_block_fips [OF length_sha224_h0 length_sha256_block sha256_block_fips blocks_lengths]; assumption)+
  then show "fst (sha224_final ctx) = trunc_sha224 m"
    by (simp add: sha224_final_md P(2) trunc_sha224_def sha2_hash_def out32)
  show "length (block (snd (sha224_final ctx))) = 128" by (simp add: sha224_final_md P)
qed

interpretation sha224: streaming_digest "\<lambda>ctx. length (block ctx) = 128" sha224_inv sha224_init sha224_update sha224_final trunc_sha224
proof unfold_locales
  show "sha224_inv (sha224_init s) []" if "length (block s) = 128" for s
    using that by (simp add: sha224_inv_def md_inv_def sha224_init_def h0_nth tail_of_def)
  show "sha224_inv (sha224_update s b) (m @ b)" if "sha224_inv s m" "length b < 2 ^ 31" for s m b
    using sha256.update_inv that by (simp add: sha224_inv_def sha224_update_md)
qed (simp_all add: sha224_final_inv)

lemma length_sha256_h0 [simp]: "length sha256_h0 = 8"
  by (simp add: sha256_h0_def)

definition sha256_inv :: "sha256_ctx \<Rightarrow> byte list \<Rightarrow> bool" where
  "sha256_inv = md_inv 64 sha256_block sha256_h0"

lemma sha256_update_md: "sha256_update = md_update 64 6 sha256_transf"
  unfolding fun_eq_iff sha256_update_def md_update_def of_nat_numeral by simp

lemma sha256_final_md:
  "sha256_final ctx = (let ctx = md_final 64 6 8 sha256_transf ctx in (concat (map (\<lambda>i. UNPACK32 (hv ctx ! i)) [0..<8]), ctx))"
  by (simp add: sha256_final_def md_final_def Let_def)

lemma sha256_final_inv:
  assumes "sha256_inv ctx m"
  shows "fst (sha256_final ctx) = trunc_sha256 m" and "length (block (snd (sha256_final ctx))) = 128"
proof -
  let ?bs = "blocks 64 (m @ pad_with 64 (replicate 4 0 @ be_nat 4 (8 * length m)) m)"
  obtain P where P: "length P = 128" "md_final 64 6 8 sha256_transf ctx = ctx\<lparr>block := P, hv := foldl sha256_block sha256_h0 ?bs\<rparr>"
    using sha256.final_blocks [OF assms [unfolded sha256_inv_def], of 8] by auto
  have "foldl sha256_block sha256_h0 ?bs = foldl fips_compress256 sha256_h0 ?bs" "length (foldl sha256_block sha256_h0 ?bs) = 8"
    by (rule foldl_block_fips [OF length_sha256_h0 length_sha256_block sha256_block_fips blocks_lengths]; assumption)+
  then show "fst (sha256_final ctx) = trunc_sha256 m"
    by (simp add: sha256_final_md P(2) trunc_sha256_def sha2_hash_def out32)
  show "length (block (snd (sha256_final ctx))) = 128" by (simp add: sha256_final_md P)
qed

interpretation sha256: streaming_digest "\<lambda>ctx. length (block ctx) = 128" sha256_inv sha256_init sha256_update sha256_final trunc_sha256
proof unfold_locales
  show "sha256_inv (sha256_init s) []" if "length (block s) = 128" for s
    using that by (simp add: sha256_inv_def md_inv_def sha256_init_def h0_nth tail_of_def)
  show "sha256_inv (sha256_update s b) (m @ b)" if "sha256_inv s m" "length b < 2 ^ 31" for s m b
    using sha256.update_inv that by (simp add: sha256_inv_def sha256_update_md)
qed (simp_all add: sha256_final_inv)

lemma length_sha384_h0 [simp]: "length sha384_h0 = 8"
  by (simp add: sha384_h0_def)

definition sha384_inv :: "sha512_ctx \<Rightarrow> byte list \<Rightarrow> bool" where
  "sha384_inv = md_inv 128 sha512_block sha384_h0"

lemma sha384_update_md: "sha384_update = md_update 128 7 sha512_transf"
  unfolding fun_eq_iff sha384_update_def md_update_def of_nat_numeral by simp

lemma sha384_final_md:
  "sha384_final ctx = (let ctx = md_final 128 7 16 sha512_transf ctx in (concat (map (\<lambda>i. UNPACK64 (hv ctx ! i)) [0..<6]), ctx))"
  by (simp add: sha384_final_def md_final_def Let_def)

lemma sha384_final_inv:
  assumes "sha384_inv ctx m"
  shows "fst (sha384_final ctx) = trunc_sha384 m" and "length (block (snd (sha384_final ctx))) = 256"
proof -
  let ?bs = "blocks 128 (m @ pad_with 128 (replicate 12 0 @ be_nat 4 (8 * length m)) m)"
  obtain P where P: "length P = 256" "md_final 128 7 16 sha512_transf ctx = ctx\<lparr>block := P, hv := foldl sha512_block sha384_h0 ?bs\<rparr>"
    using sha512.final_blocks [OF assms [unfolded sha384_inv_def], of 16] by auto
  have "foldl sha512_block sha384_h0 ?bs = foldl fips_compress512 sha384_h0 ?bs" "length (foldl sha512_block sha384_h0 ?bs) = 8"
    by (rule foldl_block_fips [OF length_sha384_h0 length_sha512_block sha512_block_fips blocks_lengths]; assumption)+
  then show "fst (sha384_final ctx) = trunc_sha384 m"
    by (simp add: sha384_final_md P(2) trunc_sha384_def sha2_hash_def out64)
  show "length (block (snd (sha384_final ctx))) = 256" by (simp add: sha384_final_md P)
qed

interpretation sha384: streaming_digest "\<lambda>ctx. length (block ctx) = 256" sha384_inv sha384_init sha384_update sha384_final trunc_sha384
proof unfold_locales
  show "sha384_inv (sha384_init s) []" if "length (block s) = 256" for s
    using that by (simp add: sha384_inv_def md_inv_def sha384_init_def h0_nth tail_of_def)
  show "sha384_inv (sha384_update s b) (m @ b)" if "sha384_inv s m" "length b < 2 ^ 31" for s m b
    using sha512.update_inv that by (simp add: sha384_inv_def sha384_update_md)
qed (simp_all add: sha384_final_inv)

lemma length_sha512_h0 [simp]: "length sha512_h0 = 8"
  by (simp add: sha512_h0_def)

definition sha512_inv :: "sha512_ctx \<Rightarrow> byte list \<Rightarrow> bool" where
  "sha512_inv = md_inv 128 sha512_block sha512_h0"

lemma sha512_update_md: "sha512_update = md_update 128 7 sha512_transf"
  unfolding fun_eq_iff sha512_update_def md_update_def of_nat_numeral by simp

lemma sha512_final_md:
  "sha512_final ctx = (let ctx = md_final 128 7 16 sha512_transf ctx in (concat (map (\<lambda>i. UNPACK64 (hv ctx ! i)) [0..<8]), ctx))"
  by (simp add: sha512_final_def md_final_def Let_def)

lemma sha512_final_inv:
  assumes "sha512_inv ctx m"
  shows "fst (sha512_final ctx) = trunc_sha512 m" and "length (block (snd (sha512_final ctx))) = 256"
proof -
  let ?bs = "blocks 128 (m @ pad_with 128 (replicate 12 0 @ be_nat 4 (8 * length m)) m)"
  obtain P where P: "length P = 256" "md_final 128 7 16 sha512_transf ctx = ctx\<lparr>block := P, hv := foldl sha512_block sha512_h0 ?bs\<rparr>"
    using sha512.final_blocks [OF assms [unfolded sha512_inv_def], of 16] by auto
  have "foldl sha512_block sha512_h0 ?bs = foldl fips_compress512 sha512_h0 ?bs" "length (foldl sha512_block sha512_h0 ?bs) = 8"
    by (rule foldl_block_fips [OF length_sha512_h0 length_sha512_block sha512_block_fips blocks_lengths]; assumption)+
  then show "fst (sha512_final ctx) = trunc_sha512 m"
    by (simp add: sha512_final_md P(2) trunc_sha512_def sha2_hash_def out64)
  show "length (block (snd (sha512_final ctx))) = 256" by (simp add: sha512_final_md P)
qed

interpretation sha512: streaming_digest "\<lambda>ctx. length (block ctx) = 256" sha512_inv sha512_init sha512_update sha512_final trunc_sha512
proof unfold_locales
  show "sha512_inv (sha512_init s) []" if "length (block s) = 256" for s
    using that by (simp add: sha512_inv_def md_inv_def sha512_init_def h0_nth tail_of_def)
  show "sha512_inv (sha512_update s b) (m @ b)" if "sha512_inv s m" "length b < 2 ^ 31" for s m b
    using sha512.update_inv that by (simp add: sha512_inv_def sha512_update_md)
qed (simp_all add: sha512_final_inv)

section \<open>The length field\<close>

lemma be_nat_small:
  assumes "x < 2 ^ 32"
  shows "be_nat (k + 4) x = replicate k 0 @ be_nat 4 x"
proof (rule nth_equalityI)
  fix i
  assume i: "i < length (be_nat (k + 4) x)"
  have "x div 256 ^ (k + 4 - Suc i) = 0" if "i < k"
  proof -
    have "x < 256 ^ 4" using assms by simp
    also have "(256 :: nat) ^ 4 \<le> 256 ^ (k + 4 - Suc i)" using that by (intro power_increasing) simp_all
    finally show ?thesis by simp
  qed
  then show "be_nat (k + 4) x ! i = (replicate k 0 @ be_nat 4 x) ! i"
    using i by (auto simp: be_nat_def nth_append)
qed simp

lemma byte_of_nat_0: "(of_nat q :: byte) = 0 \<longleftrightarrow> q mod 256 = 0"
  by (simp add: word_of_nat_eq_0_iff mod_eq_0_iff_dvd)

lemma nth_be_nat: "i < k \<Longrightarrow> be_nat k x ! i = of_nat (x div 256 ^ (k - Suc i))"
  by (simp add: be_nat_def)

lemma be_nat_large:
  assumes "2 ^ 32 \<le> x" and "x < 2 ^ 64" and "4 \<le> k"
  shows "be_nat (k + 4) x \<noteq> replicate k 0 @ be_nat 4 x"
proof
  assume eq: "be_nat (k + 4) x = replicate k 0 @ be_nat 4 x"
  have z: "x div 256 ^ (4 + j) mod 256 = 0" if "j < 4" for j
  proof -
    have "be_nat (k + 4) x ! (k - Suc j) = 0" unfolding eq using that assms(3) by (simp add: nth_append)
    moreover have "k + 4 - Suc (k - Suc j) = 4 + j" using that assms(3) by linarith
    ultimately have "(of_nat (x div 256 ^ (4 + j)) :: byte) = 0"
      using nth_be_nat [of "k - Suc j" "k + 4" x] that assms(3) by simp
    then show ?thesis by (simp only: byte_of_nat_0)
  qed
  define y where "y = x div 256 ^ 4"
  have m: "y mod 256 = 0" "y div 256 mod 256 = 0" "y div 256 div 256 mod 256 = 0" "y div 256 div 256 div 256 mod 256 = 0"
    using z [of 0] z [of 1] z [of 2] z [of 3] by (simp_all add: y_def flip: div_mult2_eq)
  have zero: "q = 0" if "q mod 256 = 0" "q div 256 = 0" for q :: nat
    using that mult_div_mod_eq [of 256 q] by simp
  have "y div 256 div 256 div 256 div 256 = 0"
    using assms(2) by (simp add: y_def div_eq_0_iff flip: div_mult2_eq)
  then have "y = 0" using zero [OF m(1) zero [OF m(2) zero [OF m(3) zero [OF m(4)]]]] by simp
  then show False using assms(1) by (simp add: y_def div_eq_0_iff)
qed

lemma pad_with_inject: "length f = length g \<Longrightarrow> pad_with B f m = pad_with B g m \<longleftrightarrow> f = g"
  by (simp add: pad_with_def)

section \<open>The unrolled rounds\<close>

definition unroll_view :: "nat \<Rightarrow> 'a list \<Rightarrow> 'a list" where
  "unroll_view j U = map (\<lambda>i. U ! i) (unroll_order j)"

lemma mod8_cases:
  "j mod 8 = 0 \<or> j mod 8 = 1 \<or> j mod 8 = 2 \<or> j mod 8 = 3 \<or> j mod 8 = 4 \<or> j mod 8 = 5 \<or> j mod 8 = 6 \<or> (j :: nat) mod 8 = 7"
  by presburger

lemma unroll_view_id: "j mod 8 = 0 \<Longrightarrow> length U = 8 \<Longrightarrow> unroll_view j U = U"
  by (auto elim!: eight simp: unroll_view_def unroll_order_def)

lemma exp256_view:
  assumes "length U = 8"
  shows "unroll_view (Suc j) (SHA256_EXP (unroll_order j) w j U) = sha256_round w j (unroll_view j U)"
proof -
  from assms obtain a b c d e f g h where U: "U = [a, b, c, d, e, f, g, h]" by (rule eight)
  show ?thesis
    using mod8_cases [of j]
    by (elim disjE) (simp_all add: U unroll_view_def unroll_order_def mod_Suc SHA256_EXP_def sha256_round_def Let_def)
qed

lemma fold_exp256:
  assumes "length U = 8"
  shows "unroll_view k (fold (\<lambda>j. SHA256_EXP (unroll_order j) w j) [0..<k] U) = fold (sha256_round w) [0..<k] (unroll_view 0 U)
    \<and> length (fold (\<lambda>j. SHA256_EXP (unroll_order j) w j) [0..<k] U) = 8"
  using assms by (induction k) (simp_all add: exp256_view, simp add: SHA256_EXP_def Let_def)

lemma unrolled256:
  assumes "length h = 8"
  shows "sha256_block_unrolled h M = sha256_block h M"
proof -
  define V where "V = fold (\<lambda>j. SHA256_EXP (unroll_order j) (sha256_schedule M) j) [0..<64] h"
  have "unroll_view 64 V = fold (sha256_round (sha256_schedule M)) [0..<64] (unroll_view 0 h)" "length V = 8"
    using fold_exp256 [OF assms, of 64 "sha256_schedule M"] by (simp_all add: V_def)
  then have "V = fold (sha256_round (sha256_schedule M)) [0..<64] h" using assms by (simp add: unroll_view_id)
  then show ?thesis by (simp add: sha256_block_unrolled_def sha256_block_def Let_def flip: V_def)
qed

lemma exp512_view:
  assumes "length U = 8"
  shows "unroll_view (Suc j) (SHA512_EXP (unroll_order j) w j U) = sha512_round w j (unroll_view j U)"
proof -
  from assms obtain a b c d e f g h where U: "U = [a, b, c, d, e, f, g, h]" by (rule eight)
  show ?thesis
    using mod8_cases [of j]
    by (elim disjE) (simp_all add: U unroll_view_def unroll_order_def mod_Suc SHA512_EXP_def sha512_round_def Let_def)
qed

lemma fold_exp512:
  assumes "length U = 8"
  shows "unroll_view k (fold (\<lambda>j. SHA512_EXP (unroll_order j) w j) [0..<k] U) = fold (sha512_round w) [0..<k] (unroll_view 0 U)
    \<and> length (fold (\<lambda>j. SHA512_EXP (unroll_order j) w j) [0..<k] U) = 8"
  using assms by (induction k) (simp_all add: exp512_view, simp add: SHA512_EXP_def Let_def)

lemma unrolled512:
  assumes "length h = 8"
  shows "sha512_block_unrolled h M = sha512_block h M"
proof -
  define V where "V = fold (\<lambda>j. SHA512_EXP (unroll_order j) (sha512_schedule M) j) [0..<80] h"
  have "unroll_view 80 V = fold (sha512_round (sha512_schedule M)) [0..<80] (unroll_view 0 h)" "length V = 8"
    using fold_exp512 [OF assms, of 80 "sha512_schedule M"] by (simp_all add: V_def)
  then have "V = fold (sha512_round (sha512_schedule M)) [0..<80] h" using assms by (simp add: unroll_view_id)
  then show ?thesis by (simp add: sha512_block_unrolled_def sha512_block_def Let_def flip: V_def)
qed

section \<open>Properties\<close>

text \<open>
  C26. Whatever way a message of fewer than 2^29 bytes is cut into chunks, initialising, updating
  with each chunk and finalising gives the FIPS 180-2 digest of the message, for SHA-224, SHA-256,
  SHA-384 and SHA-512, from any context with blocks of the declared size.
\<close>

theorem sha2_correct:
  assumes "list_all (\<lambda>c. length c < 2 ^ 31) chunks" and "length (concat chunks) < 2 ^ 29"
    and "length (block c256) = 128" and "length (block c512) = 256"
  shows "fst (sha224_final (foldl sha224_update (sha224_init c256) chunks)) = fips_sha224 (concat chunks) \<and>
    fst (sha256_final (foldl sha256_update (sha256_init c256) chunks)) = fips_sha256 (concat chunks) \<and>
    fst (sha384_final (foldl sha384_update (sha384_init c512) chunks)) = fips_sha384 (concat chunks) \<and>
    fst (sha512_final (foldl sha512_update (sha512_init c512) chunks)) = fips_sha512 (concat chunks)"
proof -
  have "8 * length (concat chunks) < 2 ^ 32" using assms(2) by simp
  then have "be_nat 8 (8 * length (concat chunks)) = replicate 4 0 @ be_nat 4 (8 * length (concat chunks))"
    and "be_nat 16 (8 * length (concat chunks)) = replicate 12 0 @ be_nat 4 (8 * length (concat chunks))"
    using be_nat_small [of _ 4] be_nat_small [of _ 12] by simp_all
  then have "trunc_sha224 (concat chunks) = fips_sha224 (concat chunks)" "trunc_sha256 (concat chunks) = fips_sha256 (concat chunks)"
    "trunc_sha384 (concat chunks) = fips_sha384 (concat chunks)" "trunc_sha512 (concat chunks) = fips_sha512 (concat chunks)"
    unfolding trunc_sha224_def fips_sha224_def trunc_sha256_def fips_sha256_def trunc_sha384_def fips_sha384_def
      trunc_sha512_def fips_sha512_def by simp_all
  then show ?thesis
    using sha224.hash_chunks [OF assms(3,1)] sha256.hash_chunks [OF assms(3,1)]
      sha384.hash_chunks [OF assms(4,1)] sha512.hash_chunks [OF assms(4,1)] by simp
qed

definition fresh_ctx :: "nat \<Rightarrow> 'w sha2_ctx" where
  "fresh_ctx n = \<lparr>tot_len = 7, ctx_len = 9, block = replicate n 0xA5, hv = []\<rparr>"

theorem sha2_correct_witness:
  "fst (sha224_final (foldl sha224_update (sha224_init (fresh_ctx 128)) [[0x61], [0x62, 0x63]])) = fips_sha224 (concat [[0x61], [0x62, 0x63]]) \<and>
   fst (sha256_final (foldl sha256_update (sha256_init (fresh_ctx 128)) [[0x61], [0x62, 0x63]])) = fips_sha256 (concat [[0x61], [0x62, 0x63]]) \<and>
   fst (sha384_final (foldl sha384_update (sha384_init (fresh_ctx 256)) [[0x61], [0x62, 0x63]])) = fips_sha384 (concat [[0x61], [0x62, 0x63]]) \<and>
   fst (sha512_final (foldl sha512_update (sha512_init (fresh_ctx 256)) [[0x61], [0x62, 0x63]])) = fips_sha512 (concat [[0x61], [0x62, 0x63]])"
  by (rule sha2_correct) (simp_all add: fresh_ctx_def)

text \<open>
  C27. Messages of 2^29 bytes and more are not hashed as FIPS 180-2 requires: the counters have 32
  bits and the bit length is stored in the last four bytes of the padding only, so that the digest
  is the one of a message padded with its bit length modulo 2^32, and that padding differs from
  the one of the standard (shown for SHA-256 and SHA-512).
\<close>

theorem sha2_length_truncated:
  assumes "list_all (\<lambda>c. length c < 2 ^ 31) chunks" and "2 ^ 29 \<le> length (concat chunks)" and "length (concat chunks) < 2 ^ 61"
    and "length (block c256) = 128" and "length (block c512) = 256"
  shows "fst (sha256_final (foldl sha256_update (sha256_init c256) chunks)) = trunc_sha256 (concat chunks) \<and>
    fst (sha512_final (foldl sha512_update (sha512_init c512) chunks)) = trunc_sha512 (concat chunks) \<and>
    pad_with 64 (replicate 4 0 @ be_nat 4 (8 * length (concat chunks))) (concat chunks) \<noteq>
      pad_with 64 (be_nat 8 (8 * length (concat chunks))) (concat chunks) \<and>
    pad_with 128 (replicate 12 0 @ be_nat 4 (8 * length (concat chunks))) (concat chunks) \<noteq>
      pad_with 128 (be_nat 16 (8 * length (concat chunks))) (concat chunks)"
proof -
  let ?n = "length (concat chunks)"
  have "2 ^ 32 \<le> 8 * ?n" "8 * ?n < 2 ^ 64" using assms(2,3) by simp_all
  then have "be_nat (4 + 4) (8 * ?n) \<noteq> replicate 4 0 @ be_nat 4 (8 * ?n)" "be_nat (12 + 4) (8 * ?n) \<noteq> replicate 12 0 @ be_nat 4 (8 * ?n)"
    by (rule be_nat_large; simp)+
  then show ?thesis
    using sha256.hash_chunks [OF assms(4,1)] sha512.hash_chunks [OF assms(5,1)] by (auto simp: pad_with_inject)
qed

theorem sha2_length_truncated_witness:
  "fst (sha256_final (foldl sha256_update (sha256_init (fresh_ctx 128)) [replicate (2 ^ 29) 0])) = trunc_sha256 (concat [replicate (2 ^ 29) 0]) \<and>
    fst (sha512_final (foldl sha512_update (sha512_init (fresh_ctx 256)) [replicate (2 ^ 29) 0])) = trunc_sha512 (concat [replicate (2 ^ 29) 0]) \<and>
    pad_with 64 (replicate 4 0 @ be_nat 4 (8 * length (concat [replicate (2 ^ 29) (0 :: byte)]))) (concat [replicate (2 ^ 29) 0]) \<noteq>
      pad_with 64 (be_nat 8 (8 * length (concat [replicate (2 ^ 29) (0 :: byte)]))) (concat [replicate (2 ^ 29) 0]) \<and>
    pad_with 128 (replicate 12 0 @ be_nat 4 (8 * length (concat [replicate (2 ^ 29) (0 :: byte)]))) (concat [replicate (2 ^ 29) 0]) \<noteq>
      pad_with 128 (be_nat 16 (8 * length (concat [replicate (2 ^ 29) (0 :: byte)]))) (concat [replicate (2 ^ 29) 0])"
  by (rule sha2_length_truncated) (simp_all add: fresh_ctx_def)

text \<open>
  C28. The unrolled rounds of the build option \<^verbatim>\<open>UNROLL_LOOPS\<close>, which rename the working variables instead
  of moving them, transform a block exactly as the loops do, for both word sizes.
\<close>

theorem sha2_unroll_equiv:
  assumes "length h = 8" and "length h' = 8"
  shows "sha256_block_unrolled h M = sha256_block h M \<and> sha512_block_unrolled h' M = sha512_block h' M"
  using unrolled256 [OF assms(1)] unrolled512 [OF assms(2)] by simp

theorem sha2_unroll_equiv_witness:
  "sha256_block_unrolled sha256_h0 [1] = sha256_block sha256_h0 [1] \<and> sha512_block_unrolled sha512_h0 [1] = sha512_block sha512_h0 [1]"
  by (rule sha2_unroll_equiv) simp_all

end
