(* ===== verification/HmacSha2.thy ===== *)
theory HmacSha2
  imports Sha2Correct
begin

text \<open>
  The HMAC functions of \<^verbatim>\<open>hmac/hmac/hmac_sha2.c\<close>. A context holds the inner and outer digest contexts, their
  copies for \<^verbatim>\<open>reinit\<close> and the two padded key blocks. \<open>stk\<close> is the uninitialised context the one-shot
  digest of a long key keeps on its stack; copying more bytes of the tag than it has is None.

  The proofs are done once, in a locale that extends the interface of a streaming digest by its
  block and output sizes, and used for the four digests of \<^verbatim>\<open>sha2.c\<close>: the tag is the one of RFC 2104 and
  a context can be reused after \<^verbatim>\<open>reinit\<close>.
\<close>

unbundle bit_operations_syntax

section \<open>Contexts and operations\<close>

record 's hmac_ctx =
  ctx_inside :: 's
  ctx_outside :: 's
  ctx_inside_reinit :: 's
  ctx_outside_reinit :: 's
  block_ipad :: "byte list"
  block_opad :: "byte list"

type_synonym hmac_sha256_ctx = "sha256_ctx hmac_ctx"
type_synonym hmac_sha512_ctx = "sha512_ctx hmac_ctx"

definition hmac_sha224_init :: "sha256_ctx \<Rightarrow> hmac_sha256_ctx \<Rightarrow> byte list \<Rightarrow> hmac_sha256_ctx" where
  "hmac_sha224_init stk ctx key =
     (let key_size = length key;
          (key_used, num, ctx) =
            (if key_size = 64 then (key, 64, ctx)
             else
               (let (key_used, num) = (if key_size > 64 then (sha224 stk key, 28) else (key, key_size));
                    fill = 64 - num
                in (key_used, num,
                    ctx\<lparr>block_ipad := memset_at num 0x36 fill (block_ipad ctx),
                        block_opad := memset_at num 0x5c fill (block_opad ctx)\<rparr>)));
          ctx = ctx\<lparr>block_ipad := memcpy_at 0 (map (\<lambda>i. key_used ! i XOR 0x36) [0..<num]) (block_ipad ctx),
                    block_opad := memcpy_at 0 (map (\<lambda>i. key_used ! i XOR 0x5c) [0..<num]) (block_opad ctx)\<rparr>;
          ctx = ctx\<lparr>ctx_inside := sha224_update (sha224_init (ctx_inside ctx)) (take 64 (block_ipad ctx))\<rparr>;
          ctx = ctx\<lparr>ctx_outside := sha224_update (sha224_init (ctx_outside ctx)) (take 64 (block_opad ctx))\<rparr>
      in ctx\<lparr>ctx_inside_reinit := ctx_inside ctx, ctx_outside_reinit := ctx_outside ctx\<rparr>)"

definition hmac_sha224_reinit :: "hmac_sha256_ctx \<Rightarrow> hmac_sha256_ctx" where
  "hmac_sha224_reinit ctx = ctx\<lparr>ctx_inside := ctx_inside_reinit ctx, ctx_outside := ctx_outside_reinit ctx\<rparr>"

definition hmac_sha224_update :: "hmac_sha256_ctx \<Rightarrow> byte list \<Rightarrow> hmac_sha256_ctx" where
  "hmac_sha224_update ctx message = ctx\<lparr>ctx_inside := sha224_update (ctx_inside ctx) message\<rparr>"

definition hmac_sha224_final :: "hmac_sha256_ctx \<Rightarrow> nat \<Rightarrow> (byte list \<times> hmac_sha256_ctx) option" where
  "hmac_sha224_final ctx mac_size =
     (let (digest_inside, inside) = sha224_final (ctx_inside ctx);
          outside = sha224_update (ctx_outside ctx) (take 28 digest_inside);
          (mac_temp, outside) = sha224_final outside
      in if mac_size \<le> length mac_temp
         then Some (take mac_size mac_temp, ctx\<lparr>ctx_inside := inside, ctx_outside := outside\<rparr>)
         else None)"

definition hmac_sha224 :: "sha256_ctx \<Rightarrow> hmac_sha256_ctx \<Rightarrow> byte list \<Rightarrow> byte list \<Rightarrow> nat \<Rightarrow> byte list option" where
  "hmac_sha224 stk ctx key message mac_size =
     map_option fst (hmac_sha224_final (hmac_sha224_update (hmac_sha224_init stk ctx key) message) mac_size)"

definition hmac_sha256_init :: "sha256_ctx \<Rightarrow> hmac_sha256_ctx \<Rightarrow> byte list \<Rightarrow> hmac_sha256_ctx" where
  "hmac_sha256_init stk ctx key =
     (let key_size = length key;
          (key_used, num, ctx) =
            (if key_size = 64 then (key, 64, ctx)
             else
               (let (key_used, num) = (if key_size > 64 then (sha256 stk key, 32) else (key, key_size));
                    fill = 64 - num
                in (key_used, num,
                    ctx\<lparr>block_ipad := memset_at num 0x36 fill (block_ipad ctx),
                        block_opad := memset_at num 0x5c fill (block_opad ctx)\<rparr>)));
          ctx = ctx\<lparr>block_ipad := memcpy_at 0 (map (\<lambda>i. key_used ! i XOR 0x36) [0..<num]) (block_ipad ctx),
                    block_opad := memcpy_at 0 (map (\<lambda>i. key_used ! i XOR 0x5c) [0..<num]) (block_opad ctx)\<rparr>;
          ctx = ctx\<lparr>ctx_inside := sha256_update (sha256_init (ctx_inside ctx)) (take 64 (block_ipad ctx))\<rparr>;
          ctx = ctx\<lparr>ctx_outside := sha256_update (sha256_init (ctx_outside ctx)) (take 64 (block_opad ctx))\<rparr>
      in ctx\<lparr>ctx_inside_reinit := ctx_inside ctx, ctx_outside_reinit := ctx_outside ctx\<rparr>)"

definition hmac_sha256_reinit :: "hmac_sha256_ctx \<Rightarrow> hmac_sha256_ctx" where
  "hmac_sha256_reinit ctx = ctx\<lparr>ctx_inside := ctx_inside_reinit ctx, ctx_outside := ctx_outside_reinit ctx\<rparr>"

definition hmac_sha256_update :: "hmac_sha256_ctx \<Rightarrow> byte list \<Rightarrow> hmac_sha256_ctx" where
  "hmac_sha256_update ctx message = ctx\<lparr>ctx_inside := sha256_update (ctx_inside ctx) message\<rparr>"

definition hmac_sha256_final :: "hmac_sha256_ctx \<Rightarrow> nat \<Rightarrow> (byte list \<times> hmac_sha256_ctx) option" where
  "hmac_sha256_final ctx mac_size =
     (let (digest_inside, inside) = sha256_final (ctx_inside ctx);
          outside = sha256_update (ctx_outside ctx) (take 32 digest_inside);
          (mac_temp, outside) = sha256_final outside
      in if mac_size \<le> length mac_temp
         then Some (take mac_size mac_temp, ctx\<lparr>ctx_inside := inside, ctx_outside := outside\<rparr>)
         else None)"

definition hmac_sha256 :: "sha256_ctx \<Rightarrow> hmac_sha256_ctx \<Rightarrow> byte list \<Rightarrow> byte list \<Rightarrow> nat \<Rightarrow> byte list option" where
  "hmac_sha256 stk ctx key message mac_size =
     map_option fst (hmac_sha256_final (hmac_sha256_update (hmac_sha256_init stk ctx key) message) mac_size)"

definition hmac_sha384_init :: "sha512_ctx \<Rightarrow> hmac_sha512_ctx \<Rightarrow> byte list \<Rightarrow> hmac_sha512_ctx" where
  "hmac_sha384_init stk ctx key =
     (let key_size = length key;
          (key_used, num, ctx) =
            (if key_size = 128 then (key, 128, ctx)
             else
               (let (key_used, num) = (if key_size > 128 then (sha384 stk key, 48) else (key, key_size));
                    fill = 128 - num
                in (key_used, num,
                    ctx\<lparr>block_ipad := memset_at num 0x36 fill (block_ipad ctx),
                        block_opad := memset_at num 0x5c fill (block_opad ctx)\<rparr>)));
          ctx = ctx\<lparr>block_ipad := memcpy_at 0 (map (\<lambda>i. key_used ! i XOR 0x36) [0..<num]) (block_ipad ctx),
                    block_opad := memcpy_at 0 (map (\<lambda>i. key_used ! i XOR 0x5c) [0..<num]) (block_opad ctx)\<rparr>;
          ctx = ctx\<lparr>ctx_inside := sha384_update (sha384_init (ctx_inside ctx)) (take 128 (block_ipad ctx))\<rparr>;
          ctx = ctx\<lparr>ctx_outside := sha384_update (sha384_init (ctx_outside ctx)) (take 128 (block_opad ctx))\<rparr>
      in ctx\<lparr>ctx_inside_reinit := ctx_inside ctx, ctx_outside_reinit := ctx_outside ctx\<rparr>)"

definition hmac_sha384_reinit :: "hmac_sha512_ctx \<Rightarrow> hmac_sha512_ctx" where
  "hmac_sha384_reinit ctx = ctx\<lparr>ctx_inside := ctx_inside_reinit ctx, ctx_outside := ctx_outside_reinit ctx\<rparr>"

definition hmac_sha384_update :: "hmac_sha512_ctx \<Rightarrow> byte list \<Rightarrow> hmac_sha512_ctx" where
  "hmac_sha384_update ctx message = ctx\<lparr>ctx_inside := sha384_update (ctx_inside ctx) message\<rparr>"

definition hmac_sha384_final :: "hmac_sha512_ctx \<Rightarrow> nat \<Rightarrow> (byte list \<times> hmac_sha512_ctx) option" where
  "hmac_sha384_final ctx mac_size =
     (let (digest_inside, inside) = sha384_final (ctx_inside ctx);
          outside = sha384_update (ctx_outside ctx) (take 48 digest_inside);
          (mac_temp, outside) = sha384_final outside
      in if mac_size \<le> length mac_temp
         then Some (take mac_size mac_temp, ctx\<lparr>ctx_inside := inside, ctx_outside := outside\<rparr>)
         else None)"

definition hmac_sha384 :: "sha512_ctx \<Rightarrow> hmac_sha512_ctx \<Rightarrow> byte list \<Rightarrow> byte list \<Rightarrow> nat \<Rightarrow> byte list option" where
  "hmac_sha384 stk ctx key message mac_size =
     map_option fst (hmac_sha384_final (hmac_sha384_update (hmac_sha384_init stk ctx key) message) mac_size)"

definition hmac_sha512_init :: "sha512_ctx \<Rightarrow> hmac_sha512_ctx \<Rightarrow> byte list \<Rightarrow> hmac_sha512_ctx" where
  "hmac_sha512_init stk ctx key =
     (let key_size = length key;
          (key_used, num, ctx) =
            (if key_size = 128 then (key, 128, ctx)
             else
               (let (key_used, num) = (if key_size > 128 then (sha512 stk key, 64) else (key, key_size));
                    fill = 128 - num
                in (key_used, num,
                    ctx\<lparr>block_ipad := memset_at num 0x36 fill (block_ipad ctx),
                        block_opad := memset_at num 0x5c fill (block_opad ctx)\<rparr>)));
          ctx = ctx\<lparr>block_ipad := memcpy_at 0 (map (\<lambda>i. key_used ! i XOR 0x36) [0..<num]) (block_ipad ctx),
                    block_opad := memcpy_at 0 (map (\<lambda>i. key_used ! i XOR 0x5c) [0..<num]) (block_opad ctx)\<rparr>;
          ctx = ctx\<lparr>ctx_inside := sha512_update (sha512_init (ctx_inside ctx)) (take 128 (block_ipad ctx))\<rparr>;
          ctx = ctx\<lparr>ctx_outside := sha512_update (sha512_init (ctx_outside ctx)) (take 128 (block_opad ctx))\<rparr>
      in ctx\<lparr>ctx_inside_reinit := ctx_inside ctx, ctx_outside_reinit := ctx_outside ctx\<rparr>)"

definition hmac_sha512_reinit :: "hmac_sha512_ctx \<Rightarrow> hmac_sha512_ctx" where
  "hmac_sha512_reinit ctx = ctx\<lparr>ctx_inside := ctx_inside_reinit ctx, ctx_outside := ctx_outside_reinit ctx\<rparr>"

definition hmac_sha512_update :: "hmac_sha512_ctx \<Rightarrow> byte list \<Rightarrow> hmac_sha512_ctx" where
  "hmac_sha512_update ctx message = ctx\<lparr>ctx_inside := sha512_update (ctx_inside ctx) message\<rparr>"

definition hmac_sha512_final :: "hmac_sha512_ctx \<Rightarrow> nat \<Rightarrow> (byte list \<times> hmac_sha512_ctx) option" where
  "hmac_sha512_final ctx mac_size =
     (let (digest_inside, inside) = sha512_final (ctx_inside ctx);
          outside = sha512_update (ctx_outside ctx) (take 64 digest_inside);
          (mac_temp, outside) = sha512_final outside
      in if mac_size \<le> length mac_temp
         then Some (take mac_size mac_temp, ctx\<lparr>ctx_inside := inside, ctx_outside := outside\<rparr>)
         else None)"

definition hmac_sha512 :: "sha512_ctx \<Rightarrow> hmac_sha512_ctx \<Rightarrow> byte list \<Rightarrow> byte list \<Rightarrow> nat \<Rightarrow> byte list option" where
  "hmac_sha512 stk ctx key message mac_size =
     map_option fst (hmac_sha512_final (hmac_sha512_update (hmac_sha512_init stk ctx key) message) mac_size)"

section \<open>HMAC over a streaming digest\<close>

definition hmac_gen_init :: "nat \<Rightarrow> nat \<Rightarrow> ('s \<Rightarrow> 's) \<Rightarrow> ('s \<Rightarrow> byte list \<Rightarrow> 's) \<Rightarrow> ('s \<Rightarrow> byte list \<Rightarrow> byte list) \<Rightarrow> 's \<Rightarrow> 's hmac_ctx \<Rightarrow> byte list \<Rightarrow> 's hmac_ctx" where
  "hmac_gen_init B D init update oneshot stk ctx key =
     (let key_size = length key;
          (key_used, num, ctx) =
            (if key_size = B then (key, B, ctx)
             else
               (let (key_used, num) = (if key_size > B then (oneshot stk key, D) else (key, key_size));
                    fill = B - num
                in (key_used, num,
                    ctx\<lparr>block_ipad := memset_at num 0x36 fill (block_ipad ctx),
                        block_opad := memset_at num 0x5c fill (block_opad ctx)\<rparr>)));
          ctx = ctx\<lparr>block_ipad := memcpy_at 0 (map (\<lambda>i. key_used ! i XOR 0x36) [0..<num]) (block_ipad ctx),
                    block_opad := memcpy_at 0 (map (\<lambda>i. key_used ! i XOR 0x5c) [0..<num]) (block_opad ctx)\<rparr>;
          ctx = ctx\<lparr>ctx_inside := update (init (ctx_inside ctx)) (take B (block_ipad ctx))\<rparr>;
          ctx = ctx\<lparr>ctx_outside := update (init (ctx_outside ctx)) (take B (block_opad ctx))\<rparr>
      in ctx\<lparr>ctx_inside_reinit := ctx_inside ctx, ctx_outside_reinit := ctx_outside ctx\<rparr>)"

definition hmac_gen_reinit :: "'s hmac_ctx \<Rightarrow> 's hmac_ctx" where
  "hmac_gen_reinit ctx = ctx\<lparr>ctx_inside := ctx_inside_reinit ctx, ctx_outside := ctx_outside_reinit ctx\<rparr>"

definition hmac_gen_update :: "('s \<Rightarrow> byte list \<Rightarrow> 's) \<Rightarrow> 's hmac_ctx \<Rightarrow> byte list \<Rightarrow> 's hmac_ctx" where
  "hmac_gen_update update ctx message = ctx\<lparr>ctx_inside := update (ctx_inside ctx) message\<rparr>"

definition hmac_gen_final :: "nat \<Rightarrow> ('s \<Rightarrow> byte list \<Rightarrow> 's) \<Rightarrow> ('s \<Rightarrow> byte list \<times> 's) \<Rightarrow> 's hmac_ctx \<Rightarrow> nat \<Rightarrow> (byte list \<times> 's hmac_ctx) option" where
  "hmac_gen_final D update final ctx mac_size =
     (let (digest_inside, inside) = final (ctx_inside ctx);
          outside = update (ctx_outside ctx) (take D digest_inside);
          (mac_temp, outside) = final outside
      in if mac_size \<le> length mac_temp
         then Some (take mac_size mac_temp, ctx\<lparr>ctx_inside := inside, ctx_outside := outside\<rparr>)
         else None)"

definition ipad :: "(byte list \<Rightarrow> byte list) \<Rightarrow> nat \<Rightarrow> byte list \<Rightarrow> byte list" where
  "ipad hash B key = map (\<lambda>b. b XOR 0x36) (rfc2104_key hash B key)"

definition opad :: "(byte list \<Rightarrow> byte list) \<Rightarrow> nat \<Rightarrow> byte list \<Rightarrow> byte list" where
  "opad hash B key = map (\<lambda>b. b XOR 0x5c) (rfc2104_key hash B key)"

lemma rfc2104_pads: "rfc2104 hash B key msg = hash (opad hash B key @ hash (ipad hash B key @ msg))"
  by (simp add: rfc2104_def ipad_def opad_def Let_def)

lemma pad_bytes:
  assumes "length blk = B" and "n \<le> length k" and "n \<le> B"
  shows "memcpy_at 0 (map (\<lambda>i. k ! i XOR x) [0..<n]) (memset_at n x (B - n) blk) =
    map (\<lambda>b. b XOR x) (take n k @ replicate (B - n) (0 :: byte))"
proof -
  have "map (\<lambda>i. k ! i XOR x) [0..<n] = map (\<lambda>b. b XOR x) (take n k)"
    using assms(2) by (intro nth_equalityI) simp_all
  then show ?thesis using assms by (simp add: memset_at_def memcpy_at_def)
qed

text \<open>A session: tag one message given in chunks, then reuse the context for a second one.\<close>

definition hmac_session where
  "hmac_session init upd fin reinit stk ctx key bs n bs' n' =
     (case fin (foldl upd (init stk ctx key) bs) n of
        None \<Rightarrow> None
      | Some (mac, ctx') \<Rightarrow>
          (case fin (foldl upd (reinit ctx') bs') n' of
             None \<Rightarrow> None
           | Some (mac', ctx'') \<Rightarrow> Some (mac :: byte list, mac' :: byte list)))"

locale hmac_digest = streaming_digest wf absorbed init update final hash
  for wf :: "'s \<Rightarrow> bool" and absorbed :: "'s \<Rightarrow> byte list \<Rightarrow> bool" and init :: "'s \<Rightarrow> 's"
    and update :: "'s \<Rightarrow> byte list \<Rightarrow> 's" and final :: "'s \<Rightarrow> byte list \<times> 's" and hash :: "byte list \<Rightarrow> byte list" +
  fixes oneshot :: "'s \<Rightarrow> byte list \<Rightarrow> byte list"
    and B D :: nat
  assumes oneshot: "wf s \<Longrightarrow> length m < 2 ^ 31 \<Longrightarrow> oneshot s m = hash m"
    and hash_length: "length (hash m) = D"
    and sizes: "D \<le> B" "B \<le> 128"
begin

definition hmac_wf :: "'s hmac_ctx \<Rightarrow> bool" where
  "hmac_wf ctx \<longleftrightarrow> wf (ctx_inside ctx) \<and> wf (ctx_outside ctx) \<and> length (block_ipad ctx) = B \<and> length (block_opad ctx) = B"

definition hmac_keyed :: "byte list \<Rightarrow> 's hmac_ctx \<Rightarrow> bool" where
  "hmac_keyed key ctx \<longleftrightarrow> absorbed (ctx_inside_reinit ctx) (ipad hash B key) \<and> absorbed (ctx_outside_reinit ctx) (opad hash B key)"

definition hmac_inv :: "byte list \<Rightarrow> 's hmac_ctx \<Rightarrow> byte list \<Rightarrow> bool" where
  "hmac_inv key ctx m \<longleftrightarrow> hmac_keyed key ctx \<and>
     absorbed (ctx_inside ctx) (ipad hash B key @ m) \<and> absorbed (ctx_outside ctx) (opad hash B key)"

lemma length_pads: "length (ipad hash B key) = B" "length (opad hash B key) = B"
  using sizes by (simp_all add: ipad_def opad_def rfc2104_key_def Let_def hash_length)

lemma hmac_init_inv:
  assumes "wf stk" and "hmac_wf ctx" and "length key < 2 ^ 31"
  shows "hmac_inv key (hmac_gen_init B D init update oneshot stk ctx key) []"
proof -
  let ?c = "hmac_gen_init B D init update oneshot stk ctx key"
  have pads: "block_ipad ?c = ipad hash B key" "block_opad ?c = opad hash B key"
  proof -
    consider "length key = B" | "B < length key" | "length key < B" by linarith
    then have "block_ipad ?c = ipad hash B key \<and> block_opad ?c = opad hash B key"
    proof cases
      case 1
      have "map (\<lambda>i. key ! i XOR x) [0..<length key] = map (\<lambda>b. b XOR x) key" for x
        by (rule nth_equalityI) simp_all
      then show ?thesis using 1 assms(2)
        by (simp add: hmac_gen_init_def Let_def hmac_wf_def ipad_def opad_def rfc2104_key_def memcpy_at_def)
    next
      case 2
      have "take D (hash key) = hash key" by (simp add: hash_length)
      then show ?thesis using 2 assms pad_bytes [of _ B D "hash key"] sizes(1)
        by (simp add: hmac_gen_init_def Let_def hmac_wf_def ipad_def opad_def rfc2104_key_def oneshot hash_length)
    next
      case 3
      then show ?thesis using assms pad_bytes [of _ B "length key" key]
        by (simp add: hmac_gen_init_def Let_def hmac_wf_def ipad_def opad_def rfc2104_key_def)
    qed
    then show "block_ipad ?c = ipad hash B key" "block_opad ?c = opad hash B key" by simp_all
  qed
  have "ctx_inside ?c = update (init (ctx_inside ctx)) (take B (block_ipad ?c))"
    "ctx_outside ?c = update (init (ctx_outside ctx)) (take B (block_opad ?c))"
    "ctx_inside_reinit ?c = ctx_inside ?c" "ctx_outside_reinit ?c = ctx_outside ?c"
    by (simp_all add: hmac_gen_init_def Let_def split_beta)
  then show ?thesis
    using assms(2) sizes(2) update_absorbed [OF init_absorbed]
    by (simp add: hmac_inv_def hmac_keyed_def hmac_wf_def pads length_pads)
qed

lemma hmac_update_inv: "hmac_inv key ctx m \<Longrightarrow> length b < 2 ^ 31 \<Longrightarrow> hmac_inv key (hmac_gen_update update ctx b) (m @ b)"
  using update_absorbed [of "ctx_inside ctx" "ipad hash B key @ m" b]
  by (simp add: hmac_inv_def hmac_keyed_def hmac_gen_update_def)

lemma hmac_updates_inv:
  "hmac_inv key ctx m \<Longrightarrow> list_all (\<lambda>b. length b < 2 ^ 31) bs \<Longrightarrow>
    hmac_inv key (foldl (hmac_gen_update update) ctx bs) (m @ concat bs)"
  by (induction bs arbitrary: ctx m) (use hmac_update_inv in \<open>auto simp flip: append_assoc\<close>)

lemma hmac_final_tag:
  assumes "hmac_inv key ctx m"
  shows "map_option fst (hmac_gen_final D update final ctx n) = (if n \<le> D then Some (take n (rfc2104 hash B key m)) else None)"
    and "hmac_gen_final D update final ctx n = Some (mac, ctx') \<Longrightarrow> hmac_inv key (hmac_gen_reinit ctx') []"
proof -
  have in_: "fst (final (ctx_inside ctx)) = hash (ipad hash B key @ m)"
    using assms by (simp add: hmac_inv_def final_hash)
  have "absorbed (update (ctx_outside ctx) (hash (ipad hash B key @ m))) (opad hash B key @ hash (ipad hash B key @ m))"
    using assms sizes by (intro update_absorbed) (simp_all add: hmac_inv_def hash_length)
  from final_hash [OF this]
  show "map_option fst (hmac_gen_final D update final ctx n) = (if n \<le> D then Some (take n (rfc2104 hash B key m)) else None)"
    by (simp add: hmac_gen_final_def split_beta Let_def in_ rfc2104_pads hash_length)
  show "hmac_inv key (hmac_gen_reinit ctx') []" if "hmac_gen_final D update final ctx n = Some (mac, ctx')"
    using that assms
    by (auto simp: hmac_gen_final_def split_beta Let_def hmac_gen_reinit_def hmac_inv_def hmac_keyed_def split: if_splits)
qed

lemma hmac_session_tags:
  assumes "wf stk" and "hmac_wf ctx" and "length key < 2 ^ 31" and "list_all (\<lambda>b. length b < 2 ^ 31) bs"
    and "list_all (\<lambda>b. length b < 2 ^ 31) bs'"
  shows "hmac_session (hmac_gen_init B D init update oneshot) (hmac_gen_update update) (hmac_gen_final D update final) hmac_gen_reinit stk ctx key bs n bs' n' =
    (if n \<le> D \<and> n' \<le> D then Some (take n (rfc2104 hash B key (concat bs)), take n' (rfc2104 hash B key (concat bs'))) else None)"
proof -
  let ?one = "foldl (hmac_gen_update update) (hmac_gen_init B D init update oneshot stk ctx key) bs"
  have inv: "hmac_inv key ?one (concat bs)"
    using hmac_updates_inv [OF hmac_init_inv [OF assms(1-3)] assms(4)] by simp
  show ?thesis
  proof (cases "hmac_gen_final D update final ?one n")
    case None
    then show ?thesis using hmac_final_tag(1) [OF inv, of n] by (auto simp: hmac_session_def split: if_splits)
  next
    case (Some r)
    obtain mac ctx' where f: "hmac_gen_final D update final ?one n = Some (mac, ctx')" using Some by (cases r) simp
    then have mac: "n \<le> D" "mac = take n (rfc2104 hash B key (concat bs))"
      using hmac_final_tag(1) [OF inv, of n] by (auto split: if_splits)
    let ?two = "foldl (hmac_gen_update update) (hmac_gen_reinit ctx') bs'"
    have "hmac_inv key ?two (concat bs')" using hmac_updates_inv [OF hmac_final_tag(2) [OF inv f] assms(5)] by simp
    note tag = hmac_final_tag(1) [OF this, of n']
    show ?thesis
      using tag mac f by (cases "hmac_gen_final D update final ?two n'") (auto simp: hmac_session_def split: if_splits)
  qed
qed

end

section \<open>The four instances\<close>

lemma length_foldl_compress:
  assumes "length iv = 8" and "\<And>H M. length H = 8 \<Longrightarrow> length (cf H M) = 8"
  shows "length (foldl cf iv bs) = 8"
  using assms(1) by (induction bs arbitrary: iv) (simp_all add: assms(2))

lemma length_fips_compress: "length H = 8 \<Longrightarrow> length (fips_compress256 H M) = 8" "length h = 8 \<Longrightarrow> length (fips_compress512 h M) = 8"
  by (simp_all add: fips_compress256_def fips_compress512_def fold_length8)

lemma length_concat_const: "(\<And>x. length (f x) = k) \<Longrightarrow> length (concat (map f xs)) = k * length xs"
  by (induction xs) simp_all

lemma length_sha2_hash:
  assumes "length iv = 8" and "\<And>H M. length H = 8 \<Longrightarrow> length (cf H M) = 8" and "d \<le> LENGTH('w) div 8 * 8"
  shows "length (sha2_hash (cf :: 'w::len word list \<Rightarrow> byte list \<Rightarrow> 'w word list) B iv d field m) = d"
  using assms(3) length_foldl_compress [of iv cf, OF assms(1,2)] by (simp add: sha2_hash_def length_concat_const)

lemma length_trunc_sha224: "length (trunc_sha224 m) = 28"
  unfolding trunc_sha224_def by (rule length_sha2_hash) (simp_all add: length_fips_compress)

lemma trunc_fips_sha224: "length m < 2 ^ 29 \<Longrightarrow> trunc_sha224 m = fips_sha224 m"
  using be_nat_small [of "8 * length m" 4] by (simp add: trunc_sha224_def fips_sha224_def)

interpretation hmac224: hmac_digest "\<lambda>ctx. length (block ctx) = 128" sha224_inv sha224_init sha224_update sha224_final trunc_sha224 sha224 64 28
  by unfold_locales (simp_all add: sha224_def sha224.hash_one length_trunc_sha224)

lemma hmac_sha224_gen:
  "hmac_sha224_init = hmac_gen_init 64 28 sha224_init sha224_update sha224" "hmac_sha224_update = hmac_gen_update sha224_update"
  "hmac_sha224_reinit = hmac_gen_reinit" "hmac_sha224_final = hmac_gen_final 28 sha224_update sha224_final"
  by (simp_all add: fun_eq_iff hmac_sha224_init_def hmac_gen_init_def hmac_sha224_update_def hmac_gen_update_def
      hmac_sha224_reinit_def hmac_gen_reinit_def hmac_sha224_final_def hmac_gen_final_def)

lemma length_trunc_sha256: "length (trunc_sha256 m) = 32"
  unfolding trunc_sha256_def by (rule length_sha2_hash) (simp_all add: length_fips_compress)

lemma trunc_fips_sha256: "length m < 2 ^ 29 \<Longrightarrow> trunc_sha256 m = fips_sha256 m"
  using be_nat_small [of "8 * length m" 4] by (simp add: trunc_sha256_def fips_sha256_def)

interpretation hmac256: hmac_digest "\<lambda>ctx. length (block ctx) = 128" sha256_inv sha256_init sha256_update sha256_final trunc_sha256 sha256 64 32
  by unfold_locales (simp_all add: sha256_def sha256.hash_one length_trunc_sha256)

lemma hmac_sha256_gen:
  "hmac_sha256_init = hmac_gen_init 64 32 sha256_init sha256_update sha256" "hmac_sha256_update = hmac_gen_update sha256_update"
  "hmac_sha256_reinit = hmac_gen_reinit" "hmac_sha256_final = hmac_gen_final 32 sha256_update sha256_final"
  by (simp_all add: fun_eq_iff hmac_sha256_init_def hmac_gen_init_def hmac_sha256_update_def hmac_gen_update_def
      hmac_sha256_reinit_def hmac_gen_reinit_def hmac_sha256_final_def hmac_gen_final_def)

lemma length_trunc_sha384: "length (trunc_sha384 m) = 48"
  unfolding trunc_sha384_def by (rule length_sha2_hash) (simp_all add: length_fips_compress)

lemma trunc_fips_sha384: "length m < 2 ^ 29 \<Longrightarrow> trunc_sha384 m = fips_sha384 m"
  using be_nat_small [of "8 * length m" 12] by (simp add: trunc_sha384_def fips_sha384_def)

interpretation hmac384: hmac_digest "\<lambda>ctx. length (block ctx) = 256" sha384_inv sha384_init sha384_update sha384_final trunc_sha384 sha384 128 48
  by unfold_locales (simp_all add: sha384_def sha384.hash_one length_trunc_sha384)

lemma hmac_sha384_gen:
  "hmac_sha384_init = hmac_gen_init 128 48 sha384_init sha384_update sha384" "hmac_sha384_update = hmac_gen_update sha384_update"
  "hmac_sha384_reinit = hmac_gen_reinit" "hmac_sha384_final = hmac_gen_final 48 sha384_update sha384_final"
  by (simp_all add: fun_eq_iff hmac_sha384_init_def hmac_gen_init_def hmac_sha384_update_def hmac_gen_update_def
      hmac_sha384_reinit_def hmac_gen_reinit_def hmac_sha384_final_def hmac_gen_final_def)

lemma length_trunc_sha512: "length (trunc_sha512 m) = 64"
  unfolding trunc_sha512_def by (rule length_sha2_hash) (simp_all add: length_fips_compress)

lemma trunc_fips_sha512: "length m < 2 ^ 29 \<Longrightarrow> trunc_sha512 m = fips_sha512 m"
  using be_nat_small [of "8 * length m" 12] by (simp add: trunc_sha512_def fips_sha512_def)

interpretation hmac512: hmac_digest "\<lambda>ctx. length (block ctx) = 256" sha512_inv sha512_init sha512_update sha512_final trunc_sha512 sha512 128 64
  by unfold_locales (simp_all add: sha512_def sha512.hash_one length_trunc_sha512)

lemma hmac_sha512_gen:
  "hmac_sha512_init = hmac_gen_init 128 64 sha512_init sha512_update sha512" "hmac_sha512_update = hmac_gen_update sha512_update"
  "hmac_sha512_reinit = hmac_gen_reinit" "hmac_sha512_final = hmac_gen_final 64 sha512_update sha512_final"
  by (simp_all add: fun_eq_iff hmac_sha512_init_def hmac_gen_init_def hmac_sha512_update_def hmac_gen_update_def
      hmac_sha512_reinit_def hmac_gen_reinit_def hmac_sha512_final_def hmac_gen_final_def)

lemma rfc2104_cong:
  assumes "\<And>m. length m < N \<Longrightarrow> h m = h' m" and "\<And>m. length (h m) = D" and "D \<le> B" and "length key < N"
    and "B + length msg < N" and "B + D < N"
  shows "rfc2104 h B key msg = rfc2104 h' B key msg"
proof -
  have k: "rfc2104_key h B key = rfc2104_key h' B key" "length (rfc2104_key h B key) = B"
    using assms(1) [of key] assms(2) [of key] assms(3,4) by (auto simp: rfc2104_key_def Let_def)
  define I where "I = map (\<lambda>b. b XOR 0x36) (rfc2104_key h B key) @ msg"
  have "h (map (\<lambda>b. b XOR 0x5c) (rfc2104_key h B key) @ h I) = h' (map (\<lambda>b. b XOR 0x5c) (rfc2104_key h B key) @ h I)"
    using assms(6) k(2) by (intro assms(1)) (simp add: assms(2))
  moreover have "h I = h' I" using assms(5) k(2) by (intro assms(1)) (simp add: I_def)
  ultimately have "h (map (\<lambda>b. b XOR 0x5c) (rfc2104_key h B key) @ h I) = h' (map (\<lambda>b. b XOR 0x5c) (rfc2104_key h B key) @ h' I)" by metis
  then show ?thesis unfolding rfc2104_def Let_def I_def k(1) .
qed

definition hmac_ok :: "nat \<Rightarrow> 'w sha2_ctx hmac_ctx \<Rightarrow> bool" where
  "hmac_ok B ctx \<longleftrightarrow> length (block (ctx_inside ctx)) = 2 * B \<and> length (block (ctx_outside ctx)) = 2 * B \<and>
     length (block_ipad ctx) = B \<and> length (block_opad ctx) = B"

lemma hmac_sha224_tag:
  assumes "length (block stk) = 128" and "hmac_ok 64 ctx" and "length key < 2 ^ 29" and "length msg < 2 ^ 29 - 128"
  shows "hmac_sha224 stk ctx key msg mac_size = (if mac_size \<le> 28 then Some (take mac_size (rfc2104 fips_sha224 64 key msg)) else None)"
proof -
  have "hmac224.hmac_wf ctx" using assms(2) by (simp add: hmac224.hmac_wf_def hmac_ok_def)
  then have "hmac224.hmac_inv key (hmac_sha224_update (hmac_sha224_init stk ctx key) msg) ([] @ msg)"
    unfolding hmac_sha224_gen using assms by (intro hmac224.hmac_update_inv hmac224.hmac_init_inv) simp_all
  moreover have "rfc2104 trunc_sha224 64 key msg = rfc2104 fips_sha224 64 key msg"
    by (rule rfc2104_cong [where N = "2 ^ 29", OF trunc_fips_sha224 length_trunc_sha224]) (use assms in simp_all)
  ultimately show ?thesis
    using hmac224.hmac_final_tag(1) by (simp add: hmac_sha224_def hmac_sha224_gen)
qed

lemma hmac_sha224_session:
  assumes "length (block stk) = 128" and "hmac_ok 64 ctx" and "length key < 2 ^ 29"
    and "length (concat bs) < 2 ^ 29 - 128" and "length (concat bs') < 2 ^ 29 - 128"
    and "list_all (\<lambda>b. length b < 2 ^ 31) bs" and "list_all (\<lambda>b. length b < 2 ^ 31) bs'"
  shows "hmac_session hmac_sha224_init hmac_sha224_update hmac_sha224_final hmac_sha224_reinit stk ctx key bs n bs' n' =
    (if n \<le> 28 \<and> n' \<le> 28 then Some (take n (rfc2104 fips_sha224 64 key (concat bs)), take n' (rfc2104 fips_sha224 64 key (concat bs'))) else None)"
proof -
  have wf: "hmac224.hmac_wf ctx" using assms(2) by (simp add: hmac224.hmac_wf_def hmac_ok_def)
  have key: "length key < 2 ^ 31" using assms(3) by simp
  have fips: "rfc2104 trunc_sha224 64 key m = rfc2104 fips_sha224 64 key m" if "length m < 2 ^ 29 - 128" for m
    by (rule rfc2104_cong [where N = "2 ^ 29", OF trunc_fips_sha224 length_trunc_sha224]) (use assms(3) that in simp_all)
  show ?thesis
    using hmac224.hmac_session_tags [OF assms(1) wf key assms(6,7), of n n'] unfolding hmac_sha224_gen fips [OF assms(4)] fips [OF assms(5)] .
qed

lemma hmac_sha256_tag:
  assumes "length (block stk) = 128" and "hmac_ok 64 ctx" and "length key < 2 ^ 29" and "length msg < 2 ^ 29 - 128"
  shows "hmac_sha256 stk ctx key msg mac_size = (if mac_size \<le> 32 then Some (take mac_size (rfc2104 fips_sha256 64 key msg)) else None)"
proof -
  have "hmac256.hmac_wf ctx" using assms(2) by (simp add: hmac256.hmac_wf_def hmac_ok_def)
  then have "hmac256.hmac_inv key (hmac_sha256_update (hmac_sha256_init stk ctx key) msg) ([] @ msg)"
    unfolding hmac_sha256_gen using assms by (intro hmac256.hmac_update_inv hmac256.hmac_init_inv) simp_all
  moreover have "rfc2104 trunc_sha256 64 key msg = rfc2104 fips_sha256 64 key msg"
    by (rule rfc2104_cong [where N = "2 ^ 29", OF trunc_fips_sha256 length_trunc_sha256]) (use assms in simp_all)
  ultimately show ?thesis
    using hmac256.hmac_final_tag(1) by (simp add: hmac_sha256_def hmac_sha256_gen)
qed

lemma hmac_sha256_session:
  assumes "length (block stk) = 128" and "hmac_ok 64 ctx" and "length key < 2 ^ 29"
    and "length (concat bs) < 2 ^ 29 - 128" and "length (concat bs') < 2 ^ 29 - 128"
    and "list_all (\<lambda>b. length b < 2 ^ 31) bs" and "list_all (\<lambda>b. length b < 2 ^ 31) bs'"
  shows "hmac_session hmac_sha256_init hmac_sha256_update hmac_sha256_final hmac_sha256_reinit stk ctx key bs n bs' n' =
    (if n \<le> 32 \<and> n' \<le> 32 then Some (take n (rfc2104 fips_sha256 64 key (concat bs)), take n' (rfc2104 fips_sha256 64 key (concat bs'))) else None)"
proof -
  have wf: "hmac256.hmac_wf ctx" using assms(2) by (simp add: hmac256.hmac_wf_def hmac_ok_def)
  have key: "length key < 2 ^ 31" using assms(3) by simp
  have fips: "rfc2104 trunc_sha256 64 key m = rfc2104 fips_sha256 64 key m" if "length m < 2 ^ 29 - 128" for m
    by (rule rfc2104_cong [where N = "2 ^ 29", OF trunc_fips_sha256 length_trunc_sha256]) (use assms(3) that in simp_all)
  show ?thesis
    using hmac256.hmac_session_tags [OF assms(1) wf key assms(6,7), of n n'] unfolding hmac_sha256_gen fips [OF assms(4)] fips [OF assms(5)] .
qed

lemma hmac_sha384_tag:
  assumes "length (block stk) = 256" and "hmac_ok 128 ctx" and "length key < 2 ^ 29" and "length msg < 2 ^ 29 - 128"
  shows "hmac_sha384 stk ctx key msg mac_size = (if mac_size \<le> 48 then Some (take mac_size (rfc2104 fips_sha384 128 key msg)) else None)"
proof -
  have "hmac384.hmac_wf ctx" using assms(2) by (simp add: hmac384.hmac_wf_def hmac_ok_def)
  then have "hmac384.hmac_inv key (hmac_sha384_update (hmac_sha384_init stk ctx key) msg) ([] @ msg)"
    unfolding hmac_sha384_gen using assms by (intro hmac384.hmac_update_inv hmac384.hmac_init_inv) simp_all
  moreover have "rfc2104 trunc_sha384 128 key msg = rfc2104 fips_sha384 128 key msg"
    by (rule rfc2104_cong [where N = "2 ^ 29", OF trunc_fips_sha384 length_trunc_sha384]) (use assms in simp_all)
  ultimately show ?thesis
    using hmac384.hmac_final_tag(1) by (simp add: hmac_sha384_def hmac_sha384_gen)
qed

lemma hmac_sha384_session:
  assumes "length (block stk) = 256" and "hmac_ok 128 ctx" and "length key < 2 ^ 29"
    and "length (concat bs) < 2 ^ 29 - 128" and "length (concat bs') < 2 ^ 29 - 128"
    and "list_all (\<lambda>b. length b < 2 ^ 31) bs" and "list_all (\<lambda>b. length b < 2 ^ 31) bs'"
  shows "hmac_session hmac_sha384_init hmac_sha384_update hmac_sha384_final hmac_sha384_reinit stk ctx key bs n bs' n' =
    (if n \<le> 48 \<and> n' \<le> 48 then Some (take n (rfc2104 fips_sha384 128 key (concat bs)), take n' (rfc2104 fips_sha384 128 key (concat bs'))) else None)"
proof -
  have wf: "hmac384.hmac_wf ctx" using assms(2) by (simp add: hmac384.hmac_wf_def hmac_ok_def)
  have key: "length key < 2 ^ 31" using assms(3) by simp
  have fips: "rfc2104 trunc_sha384 128 key m = rfc2104 fips_sha384 128 key m" if "length m < 2 ^ 29 - 128" for m
    by (rule rfc2104_cong [where N = "2 ^ 29", OF trunc_fips_sha384 length_trunc_sha384]) (use assms(3) that in simp_all)
  show ?thesis
    using hmac384.hmac_session_tags [OF assms(1) wf key assms(6,7), of n n'] unfolding hmac_sha384_gen fips [OF assms(4)] fips [OF assms(5)] .
qed

lemma hmac_sha512_tag:
  assumes "length (block stk) = 256" and "hmac_ok 128 ctx" and "length key < 2 ^ 29" and "length msg < 2 ^ 29 - 128"
  shows "hmac_sha512 stk ctx key msg mac_size = (if mac_size \<le> 64 then Some (take mac_size (rfc2104 fips_sha512 128 key msg)) else None)"
proof -
  have "hmac512.hmac_wf ctx" using assms(2) by (simp add: hmac512.hmac_wf_def hmac_ok_def)
  then have "hmac512.hmac_inv key (hmac_sha512_update (hmac_sha512_init stk ctx key) msg) ([] @ msg)"
    unfolding hmac_sha512_gen using assms by (intro hmac512.hmac_update_inv hmac512.hmac_init_inv) simp_all
  moreover have "rfc2104 trunc_sha512 128 key msg = rfc2104 fips_sha512 128 key msg"
    by (rule rfc2104_cong [where N = "2 ^ 29", OF trunc_fips_sha512 length_trunc_sha512]) (use assms in simp_all)
  ultimately show ?thesis
    using hmac512.hmac_final_tag(1) by (simp add: hmac_sha512_def hmac_sha512_gen)
qed

lemma hmac_sha512_session:
  assumes "length (block stk) = 256" and "hmac_ok 128 ctx" and "length key < 2 ^ 29"
    and "length (concat bs) < 2 ^ 29 - 128" and "length (concat bs') < 2 ^ 29 - 128"
    and "list_all (\<lambda>b. length b < 2 ^ 31) bs" and "list_all (\<lambda>b. length b < 2 ^ 31) bs'"
  shows "hmac_session hmac_sha512_init hmac_sha512_update hmac_sha512_final hmac_sha512_reinit stk ctx key bs n bs' n' =
    (if n \<le> 64 \<and> n' \<le> 64 then Some (take n (rfc2104 fips_sha512 128 key (concat bs)), take n' (rfc2104 fips_sha512 128 key (concat bs'))) else None)"
proof -
  have wf: "hmac512.hmac_wf ctx" using assms(2) by (simp add: hmac512.hmac_wf_def hmac_ok_def)
  have key: "length key < 2 ^ 31" using assms(3) by simp
  have fips: "rfc2104 trunc_sha512 128 key m = rfc2104 fips_sha512 128 key m" if "length m < 2 ^ 29 - 128" for m
    by (rule rfc2104_cong [where N = "2 ^ 29", OF trunc_fips_sha512 length_trunc_sha512]) (use assms(3) that in simp_all)
  show ?thesis
    using hmac512.hmac_session_tags [OF assms(1) wf key assms(6,7), of n n'] unfolding hmac_sha512_gen fips [OF assms(4)] fips [OF assms(5)] .
qed

section \<open>Properties\<close>

text \<open>
  C30. \<^verbatim>\<open>hmac_sha224\<close>, \<^verbatim>\<open>hmac_sha256\<close>, \<^verbatim>\<open>hmac_sha384\<close> and \<^verbatim>\<open>hmac_sha512\<close> give the requested prefix of the tag RFC 2104
  defines over the FIPS 180-2 digest, for keys of any length (shorter than, equal to or longer than
  a block) and from any uninitialised context; a tag longer than the digest reads outside the
  local buffer.
\<close>

theorem hmac_sha2_rfc2104:
  assumes "length (block s256) = 128" and "length (block s512) = 256" and "hmac_ok 64 c256" and "hmac_ok 128 c512"
    and "length key < 2 ^ 29" and "length msg < 2 ^ 29 - 128"
  shows "hmac_sha224 s256 c256 key msg mac_size = (if mac_size \<le> 28 then Some (take mac_size (rfc2104 fips_sha224 64 key msg)) else None) \<and>
    hmac_sha256 s256 c256 key msg mac_size = (if mac_size \<le> 32 then Some (take mac_size (rfc2104 fips_sha256 64 key msg)) else None) \<and>
    hmac_sha384 s512 c512 key msg mac_size = (if mac_size \<le> 48 then Some (take mac_size (rfc2104 fips_sha384 128 key msg)) else None) \<and>
    hmac_sha512 s512 c512 key msg mac_size = (if mac_size \<le> 64 then Some (take mac_size (rfc2104 fips_sha512 128 key msg)) else None)"
  using hmac_sha224_tag hmac_sha256_tag hmac_sha384_tag hmac_sha512_tag assms by blast

definition fresh_hmac :: "nat \<Rightarrow> 'w sha2_ctx hmac_ctx" where
  "fresh_hmac B = \<lparr>ctx_inside = fresh_ctx (2 * B), ctx_outside = fresh_ctx (2 * B), ctx_inside_reinit = fresh_ctx 0,
     ctx_outside_reinit = fresh_ctx 0, block_ipad = replicate B 1, block_opad = replicate B 2\<rparr>"

theorem hmac_sha2_rfc2104_witness:
  "hmac_sha224 (fresh_ctx 128) (fresh_hmac 64) [0x4A, 0x65] [0x68] 16 = (if (16 :: nat) \<le> 28 then Some (take 16 (rfc2104 fips_sha224 64 [0x4A, 0x65] [0x68])) else None) \<and>
    hmac_sha256 (fresh_ctx 128) (fresh_hmac 64) [0x4A, 0x65] [0x68] 16 = (if (16 :: nat) \<le> 32 then Some (take 16 (rfc2104 fips_sha256 64 [0x4A, 0x65] [0x68])) else None) \<and>
    hmac_sha384 (fresh_ctx 256) (fresh_hmac 128) [0x4A, 0x65] [0x68] 16 = (if (16 :: nat) \<le> 48 then Some (take 16 (rfc2104 fips_sha384 128 [0x4A, 0x65] [0x68])) else None) \<and>
    hmac_sha512 (fresh_ctx 256) (fresh_hmac 128) [0x4A, 0x65] [0x68] 16 = (if (16 :: nat) \<le> 64 then Some (take 16 (rfc2104 fips_sha512 128 [0x4A, 0x65] [0x68])) else None)"
  by (rule hmac_sha2_rfc2104) (simp_all add: fresh_ctx_def fresh_hmac_def hmac_ok_def)

text \<open>
  C31. A context survives its use: after a message given in any chunks has been tagged, \<^verbatim>\<open>reinit\<close> restores
  the keyed state and the tag of a second message is again the one of RFC 2104 under the same
  key, for all four digests and tags of every size up to the full digest; a longer first or second tag reads outside the
  local buffer.
\<close>

theorem hmac_sha2_reinit:
  assumes "length (block s256) = 128" and "length (block s512) = 256" and "hmac_ok 64 c256" and "hmac_ok 128 c512"
    and "length key < 2 ^ 29" and "length (concat bs) < 2 ^ 29 - 128" and "length (concat bs') < 2 ^ 29 - 128"
    and "list_all (\<lambda>b. length b < 2 ^ 31) bs" and "list_all (\<lambda>b. length b < 2 ^ 31) bs'"
  shows "hmac_session hmac_sha224_init hmac_sha224_update hmac_sha224_final hmac_sha224_reinit s256 c256 key bs n bs' n' =
      (if n \<le> 28 \<and> n' \<le> 28 then Some (take n (rfc2104 fips_sha224 64 key (concat bs)), take n' (rfc2104 fips_sha224 64 key (concat bs'))) else None) \<and>
    hmac_session hmac_sha256_init hmac_sha256_update hmac_sha256_final hmac_sha256_reinit s256 c256 key bs n bs' n' =
      (if n \<le> 32 \<and> n' \<le> 32 then Some (take n (rfc2104 fips_sha256 64 key (concat bs)), take n' (rfc2104 fips_sha256 64 key (concat bs'))) else None) \<and>
    hmac_session hmac_sha384_init hmac_sha384_update hmac_sha384_final hmac_sha384_reinit s512 c512 key bs n bs' n' =
      (if n \<le> 48 \<and> n' \<le> 48 then Some (take n (rfc2104 fips_sha384 128 key (concat bs)), take n' (rfc2104 fips_sha384 128 key (concat bs'))) else None) \<and>
    hmac_session hmac_sha512_init hmac_sha512_update hmac_sha512_final hmac_sha512_reinit s512 c512 key bs n bs' n' =
      (if n \<le> 64 \<and> n' \<le> 64 then Some (take n (rfc2104 fips_sha512 128 key (concat bs)), take n' (rfc2104 fips_sha512 128 key (concat bs'))) else None)"
  using assms by (intro conjI hmac_sha224_session hmac_sha256_session hmac_sha384_session hmac_sha512_session) simp_all

theorem hmac_sha2_reinit_witness:
  "hmac_session hmac_sha224_init hmac_sha224_update hmac_sha224_final hmac_sha224_reinit (fresh_ctx 128) (fresh_hmac 64) [0x4A, 0x65] [[0x68], [0x69]] 16 [[0x69]] 32 =
      (if (16 :: nat) \<le> 28 \<and> (32 :: nat) \<le> 28 then Some (take 16 (rfc2104 fips_sha224 64 [0x4A, 0x65] (concat [[0x68], [0x69]])), take 32 (rfc2104 fips_sha224 64 [0x4A, 0x65] (concat [[0x69]]))) else None) \<and>
    hmac_session hmac_sha256_init hmac_sha256_update hmac_sha256_final hmac_sha256_reinit (fresh_ctx 128) (fresh_hmac 64) [0x4A, 0x65] [[0x68], [0x69]] 16 [[0x69]] 32 =
      (if (16 :: nat) \<le> 32 \<and> (32 :: nat) \<le> 32 then Some (take 16 (rfc2104 fips_sha256 64 [0x4A, 0x65] (concat [[0x68], [0x69]])), take 32 (rfc2104 fips_sha256 64 [0x4A, 0x65] (concat [[0x69]]))) else None) \<and>
    hmac_session hmac_sha384_init hmac_sha384_update hmac_sha384_final hmac_sha384_reinit (fresh_ctx 256) (fresh_hmac 128) [0x4A, 0x65] [[0x68], [0x69]] 16 [[0x69]] 32 =
      (if (16 :: nat) \<le> 48 \<and> (32 :: nat) \<le> 48 then Some (take 16 (rfc2104 fips_sha384 128 [0x4A, 0x65] (concat [[0x68], [0x69]])), take 32 (rfc2104 fips_sha384 128 [0x4A, 0x65] (concat [[0x69]]))) else None) \<and>
    hmac_session hmac_sha512_init hmac_sha512_update hmac_sha512_final hmac_sha512_reinit (fresh_ctx 256) (fresh_hmac 128) [0x4A, 0x65] [[0x68], [0x69]] 16 [[0x69]] 32 =
      (if (16 :: nat) \<le> 64 \<and> (32 :: nat) \<le> 64 then Some (take 16 (rfc2104 fips_sha512 128 [0x4A, 0x65] (concat [[0x68], [0x69]])), take 32 (rfc2104 fips_sha512 128 [0x4A, 0x65] (concat [[0x69]]))) else None)"
  by (rule hmac_sha2_reinit) (simp_all add: fresh_ctx_def fresh_hmac_def hmac_ok_def)

end
