(* ===== verification/Sfghash.thy ===== *)
theory Sfghash
  imports Links Sfprimes "HOL-Library.Monad_Syntax"
begin

text \<open>
  The hash table of \<^verbatim>\<open>sfghash/sfghash.c\<close> with its hash function (\<^verbatim>\<open>sfhashfcn.c\<close>): rows of doubly linked chains of nodes in memory. Following a NULL or freed pointer, an index outside the
  table and a read outside a key are None; the loops over chains are partial functions, so that None
  also stands for a loop that does not end. Signed arithmetic that leaves \<^verbatim>\<open>int\<close> is None as well. The answers of \<^verbatim>\<open>calloc\<close> are the argument \<open>alloc\<close> (by the number of the
  request; a size that becomes negative in the \<^verbatim>\<open>int\<close> parameter of \<^verbatim>\<open>s_alloc\<close> is close to 2^64 for \<^verbatim>\<open>calloc\<close>, which then always fails), those of \<^verbatim>\<open>rand\<close> are the argument \<open>rand\<close>; the product of two of them, which can leave
  the range of \<^verbatim>\<open>int\<close>, is taken modulo \<open>2 ^ 32\<close>. A key argument is the memory from
  the pointer on, so a string is followed by its NUL byte.
\<close>

unbundle bit_operations_syntax

section \<open>Hash functions\<close>

record sfhashfcn =
  seed :: u32
  scale :: u32
  hardener :: u32

definition sfhashfcn_hash :: "sfhashfcn \<Rightarrow> byte list \<Rightarrow> u32" where
  "sfhashfcn_hash p d = foldl (\<lambda>hash c. hash * scale p + ucast c) (seed p) d XOR hardener p"

definition sfhashfcn_static :: "sfhashfcn \<Rightarrow> sfhashfcn" where
  "sfhashfcn_static p = p\<lparr>seed := 3193, scale := 719, hardener := 133824503\<rparr>"

definition sfhashfcn_new :: "(nat \<Rightarrow> int) \<Rightarrow> int \<Rightarrow> sfhashfcn option" where
  "sfhashfcn_new rand m =
     (if m = 0 \<or> rand 0 mod m + 3191 > 2147483647 \<or> rand 1 mod m + 709 > 2147483647 then None
      else Some \<lparr>seed = of_int (sf_nearest_prime (rand 0 mod m + 3191)), scale = of_int (sf_nearest_prime (rand 1 mod m + 709)),
        hardener = of_int (rand 2) * of_int (rand 3) + 133824503\<rparr>)"

definition memcmp_fcn :: "byte list \<Rightarrow> byte list \<Rightarrow> int" where
  "memcmp_fcn s1 s2 = (case filter (\<lambda>(a, b). a \<noteq> b) (zip s1 s2) of [] \<Rightarrow> 0 | (a, b) # _ \<Rightarrow> uint a - uint b)"

section \<open>Tables\<close>

record 'v hnode = links +
  hkey :: "byte list option"
  hdata :: "'v option"

record 'v sfghash =
  hash_fcn :: "byte list \<Rightarrow> u32"
  keycmp_fcn :: "byte list \<Rightarrow> byte list \<Rightarrow> int"
  keysize :: int
  userkey :: bool
  table :: "addr option list"
  nrows :: nat
  hcount :: u32
  userfree :: bool
  crow :: nat
  cnode :: "addr option"
  splay :: int
  hnodes :: "addr \<Rightarrow> 'v hnode option"
  hbrk :: addr
  hrequests :: nat
  blocks :: int
  freed :: "'v option list"

definition SFGHASH_NOMEM :: int where "SFGHASH_NOMEM = -2"
definition SFGHASH_ERR :: int where "SFGHASH_ERR = -1"
definition SFGHASH_OK :: int where "SFGHASH_OK = 0"
definition SFGHASH_INTABLE :: int where "SFGHASH_INTABLE = 1"

text \<open>\<^verbatim>\<open>s_alloc\<close> takes an \<^verbatim>\<open>int\<close>: the number of bytes it asks for.\<close>

definition s_alloc_size :: "int \<Rightarrow> int" where
  "s_alloc_size n = sint (of_int n :: u32)"

definition sfghash_new ::
    "(nat \<Rightarrow> int) \<Rightarrow> (nat \<Rightarrow> bool) \<Rightarrow> int \<Rightarrow> int \<Rightarrow> bool \<Rightarrow> bool \<Rightarrow> 'v sfghash option option" where
  "sfghash_new rand alloc rows key_size userkeys free_fcn =
     (if rows = - 2147483648 then None
      else let rows = (if rows > 0 then sf_nearest_prime rows else - rows)
      in if \<not> alloc 0 then Some None
         else if \<not> alloc 1 then Some None
         else case sfhashfcn_new rand rows of
           None \<Rightarrow> None
         | Some f \<Rightarrow>
             (let size = s_alloc_size (8 * rows)
              in if size < 0 \<or> \<not> alloc 2 then Some None
                 else if size < 8 * rows then None
                 else Some (Some \<lparr>hash_fcn = sfhashfcn_hash f, keycmp_fcn = memcmp_fcn, keysize = key_size, userkey = userkeys,
                   table = replicate (nat rows) None, nrows = nat rows, hcount = 0, userfree = free_fcn, crow = 0, cnode = None,
                   splay = 0, hnodes = (\<lambda>_. None), hbrk = 0, hrequests = 3, blocks = 3, freed = []\<rparr>)))"

definition sfghash_splaymode :: "'v sfghash \<Rightarrow> int \<Rightarrow> 'v sfghash" where
  "sfghash_splaymode t n = t\<lparr>splay := n\<rparr>"

definition sfghash_count :: "'v sfghash \<Rightarrow> u32" where
  "sfghash_count t = hcount t"

definition sfghash_set_keyops ::
    "'v sfghash option \<Rightarrow> (byte list \<Rightarrow> u32) option \<Rightarrow> (byte list \<Rightarrow> byte list \<Rightarrow> int) option \<Rightarrow> int \<times> 'v sfghash option" where
  "sfghash_set_keyops h new_hash new_cmp =
     (case (h, new_hash, new_cmp) of
        (Some t, Some hash, Some cmp) \<Rightarrow> (0, Some (t\<lparr>hash_fcn := hash, keycmp_fcn := cmp\<rparr>))
      | _ \<Rightarrow> (-1, h))"

section \<open>Keys and rows\<close>

definition read_bytes :: "int \<Rightarrow> byte list \<Rightarrow> byte list option" where
  "read_bytes n key = (if 0 \<le> n \<and> n \<le> int (length key) then Some (take (nat n) key) else None)"

definition read_string :: "byte list \<Rightarrow> byte list option" where
  "read_string key = (if 0 \<in> set key then Some (takeWhile (\<lambda>c. c \<noteq> 0) key) else None)"

text \<open>\<^verbatim>\<open>klen = strlen(key) + 1\<close>, a \<^verbatim>\<open>size_t\<close> stored in an \<^verbatim>\<open>int\<close>.\<close>

definition strlen1 :: "byte list \<Rightarrow> int option" where
  "strlen1 key = map_option (\<lambda>s. sint (of_nat (length s + 1) :: u32)) (read_string key)"

definition row_of :: "'v sfghash \<Rightarrow> byte list \<Rightarrow> int \<Rightarrow> nat option" where
  "row_of t key klen = do {
     bytes \<leftarrow> read_bytes klen key;
     (if nrows t = 0 then None else Some (unat (hash_fcn t bytes) mod nrows t)) }"

definition row :: "'v sfghash \<Rightarrow> nat \<Rightarrow> addr option option" where
  "row t i = (if i < length (table t) then Some (table t ! i) else None)"

definition hnode_at :: "'v sfghash \<Rightarrow> addr option \<Rightarrow> 'v hnode option" where
  "hnode_at t p = (case p of None \<Rightarrow> None | Some a \<Rightarrow> hnodes t a)"

definition set_hnode :: "('v hnode \<Rightarrow> 'v hnode) \<Rightarrow> addr option \<Rightarrow> 'v sfghash \<Rightarrow> 'v sfghash option" where
  "set_hnode f p t =
     (case p of None \<Rightarrow> None | Some a \<Rightarrow> do { n \<leftarrow> hnodes t a; Some (t\<lparr>hnodes := (hnodes t)(a \<mapsto> f n)\<rparr>) })"

text \<open>The comparison of a node's key: \<open>binary\<close> as the function at hand decides it from \<open>keysize\<close>.\<close>

definition key_matches :: "'v sfghash \<Rightarrow> bool \<Rightarrow> byte list \<Rightarrow> byte list \<Rightarrow> int \<Rightarrow> bool option" where
  "key_matches t binary stored key klen =
     (if binary then do {
        a \<leftarrow> read_bytes klen stored;
        b \<leftarrow> read_bytes klen key;
        Some (keycmp_fcn t a b = 0) }
      else do { a \<leftarrow> read_string stored; b \<leftarrow> read_string key; Some (a = b) })"

partial_function (option) search_row :: "'v sfghash \<Rightarrow> bool \<Rightarrow> byte list \<Rightarrow> int \<Rightarrow> addr option \<Rightarrow> addr option option" where
  "search_row t binary key klen hnode =
     (case hnode of
        None \<Rightarrow> Some None
      | Some _ \<Rightarrow> do {
          n \<leftarrow> hnode_at t hnode;
          stored \<leftarrow> hkey n;
          found \<leftarrow> key_matches t binary stored key klen;
          (if found then Some hnode else search_row t binary key klen (next_p n)) })"

section \<open>Operations\<close>

definition sfghash_add :: "(nat \<Rightarrow> bool) \<Rightarrow> 'v sfghash option \<Rightarrow> byte list \<Rightarrow> 'v option \<Rightarrow> (int \<times> 'v sfghash option) option" where
  "sfghash_add alloc t key data =
     (case t of
        None \<Rightarrow> Some (SFGHASH_ERR, None)
      | Some t \<Rightarrow> do {
          klen \<leftarrow> (if keysize t > 0 then Some (keysize t) else strlen1 key);
          index \<leftarrow> row_of t key klen;
          head \<leftarrow> row t index;
          found \<leftarrow> search_row t (keysize t > 0) key klen head;
          (if found \<noteq> None then Some (SFGHASH_INTABLE, Some (t\<lparr>cnode := found\<rparr>))
           else if \<not> alloc (hrequests t) then Some (SFGHASH_NOMEM, Some (t\<lparr>hrequests := hrequests t + 1\<rparr>))
           else if \<not> userkey t \<and> \<not> alloc (hrequests t + 1) then Some (SFGHASH_NOMEM, Some (t\<lparr>hrequests := hrequests t + 2\<rparr>))
           else do {
             copy \<leftarrow> (if userkey t then Some key else read_bytes klen key);
             (let a = hbrk t;
                  node = \<lparr>next_p = head, prev_p = None, hkey = Some copy, hdata = data\<rparr>;
                  t = t\<lparr>hnodes := (hnodes t)(a \<mapsto> node), hbrk := a + 1, hrequests := hrequests t + (if userkey t then 1 else 2),
                        blocks := blocks t + (if userkey t then 1 else 2)\<rparr>
              in do {
                t \<leftarrow> (if head \<noteq> None then set_hnode (prev_p_update (\<lambda>_. Some a)) head t else Some t);
                Some (SFGHASH_OK, Some (t\<lparr>table := (table t)[index := Some a], hcount := hcount t + 1\<rparr>)) }) }) })"

definition movetofront :: "'v sfghash \<Rightarrow> nat \<Rightarrow> addr option \<Rightarrow> 'v sfghash option" where
  "movetofront t index n = do {
     head \<leftarrow> row t index;
     (if head \<noteq> n
      then do {
        x \<leftarrow> hnode_at t n;
        t \<leftarrow> (if prev_p x \<noteq> None then set_hnode (next_p_update (\<lambda>_. next_p x)) (prev_p x) t else Some t);
        x \<leftarrow> hnode_at t n;
        t \<leftarrow> (if next_p x \<noteq> None then set_hnode (prev_p_update (\<lambda>_. prev_p x)) (next_p x) t else Some t);
        t \<leftarrow> set_hnode (prev_p_update (\<lambda>_. None)) n t;
        t \<leftarrow> set_hnode (next_p_update (\<lambda>_. head)) n t;
        set_hnode (prev_p_update (\<lambda>_. n)) head t }
      else Some t) }"

definition sfghash_find_node :: "'v sfghash \<Rightarrow> byte list \<Rightarrow> (addr option \<times> 'v sfghash) option" where
  "sfghash_find_node t key = do {
     klen \<leftarrow> (if keysize t \<noteq> 0 then Some (keysize t) else strlen1 key);
     index \<leftarrow> row_of t key klen;
     head \<leftarrow> row t index;
     found \<leftarrow> search_row t (keysize t \<noteq> 0) key klen head;
     (if found \<noteq> None \<and> splay t > 0 then do { t \<leftarrow> movetofront t index found; Some (found, t) } else Some (found, t)) }"

definition sfghash_find :: "'v sfghash \<Rightarrow> byte list \<Rightarrow> ('v option \<times> 'v sfghash) option" where
  "sfghash_find t key = do {
     (hnode, t) \<leftarrow> sfghash_find_node t key;
     (if hnode \<noteq> None then do { n \<leftarrow> hnode_at t hnode; Some (hdata n, t) } else Some (None, t)) }"

definition sfghash_find2 :: "'v sfghash option \<Rightarrow> byte list \<Rightarrow> 'v option \<Rightarrow> (int \<times> 'v option \<times> 'v sfghash option) option" where
  "sfghash_find2 t key data =
     (case t of
        None \<Rightarrow> Some (0, data, None)
      | Some t \<Rightarrow> do {
          (hnode, t) \<leftarrow> sfghash_find_node t key;
          (if hnode \<noteq> None then do { n \<leftarrow> hnode_at t hnode; Some (1, hdata n, Some t) } else Some (0, data, Some t)) })"

definition sfghash_free_node :: "'v sfghash \<Rightarrow> nat \<Rightarrow> addr \<Rightarrow> (int \<times> 'v sfghash) option" where
  "sfghash_free_node t index hnode = do {
     x \<leftarrow> hnodes t hnode;
     (let t = t\<lparr>blocks := blocks t - (if \<not> userkey t \<and> hkey x \<noteq> None then 1 else 0),
                hnodes := (hnodes t)(hnode \<mapsto> x\<lparr>hkey := None\<rparr>),
                freed := freed t @ (if userfree t then [hdata x] else [])\<rparr>
      in do {
        t \<leftarrow> (if prev_p x \<noteq> None
             then do {
               t \<leftarrow> set_hnode (next_p_update (\<lambda>_. next_p x)) (prev_p x) t;
               (if next_p x \<noteq> None then set_hnode (prev_p_update (\<lambda>_. prev_p x)) (next_p x) t else Some t) }
             else do {
               head \<leftarrow> row t index;
               (if head \<noteq> None
                then do {
                  h \<leftarrow> hnode_at t head;
                  t \<leftarrow> Some (t\<lparr>table := (table t)[index := next_p h]\<rparr>);
                  (if next_p h \<noteq> None then set_hnode (prev_p_update (\<lambda>_. None)) (next_p h) t else Some t) }
                else Some t) });
        x \<leftarrow> hnodes t hnode;
        Some (SFGHASH_OK, t\<lparr>hnodes := (hnodes t)(hnode := None), blocks := blocks t - 1, hcount := hcount t - 1\<rparr>) }) }"

definition sfghash_remove :: "'v sfghash \<Rightarrow> byte list \<Rightarrow> (int \<times> 'v sfghash) option" where
  "sfghash_remove t key = do {
     klen \<leftarrow> (if keysize t > 0 then Some (keysize t) else strlen1 key);
     index \<leftarrow> row_of t key klen;
     head \<leftarrow> row t index;
     found \<leftarrow> search_row t (keysize t > 0) key klen head;
     (case found of None \<Rightarrow> Some (SFGHASH_ERR, t) | Some hnode \<Rightarrow> sfghash_free_node t index hnode) }"

partial_function (option) delete_row :: "'v sfghash \<Rightarrow> addr option \<Rightarrow> 'v sfghash option" where
  "delete_row t node =
     (case node of
        None \<Rightarrow> Some t
      | Some a \<Rightarrow> do {
          x \<leftarrow> hnodes t a;
          delete_row (t\<lparr>hnodes := (hnodes t)(a := None),
            blocks := blocks t - 1 - (if \<not> userkey t \<and> hkey x \<noteq> None then 1 else 0),
            freed := freed t @ (if userfree t \<and> hdata x \<noteq> None then [hdata x] else [])\<rparr>) (next_p x) })"

fun delete_rows :: "nat \<Rightarrow> nat \<Rightarrow> 'v sfghash \<Rightarrow> 'v sfghash option" where
  "delete_rows i 0 t = Some t"
| "delete_rows i (Suc n) t = do { head \<leftarrow> row t i; t \<leftarrow> delete_row t head; delete_rows (Suc i) n t }"

definition sfghash_delete :: "'v sfghash option \<Rightarrow> (int \<times> 'v option list) option" where
  "sfghash_delete h =
     (case h of
        None \<Rightarrow> Some (0, [])
      | Some t \<Rightarrow> do { t \<leftarrow> delete_rows 0 (nrows t) (t\<lparr>blocks := blocks t - 1\<rparr>); Some (blocks t - 2, freed t) })"

section \<open>Iteration\<close>

function skip_rows :: "'v sfghash \<Rightarrow> 'v sfghash option" where
  "skip_rows t =
     (if crow t < nrows t
      then (case row t (crow t) of
              None \<Rightarrow> None
            | Some p \<Rightarrow>
                if p \<noteq> None then Some (t\<lparr>cnode := p\<rparr>)
                else skip_rows (t\<lparr>cnode := None, crow := crow t + 1\<rparr>))
      else Some t)"
  by pat_completeness auto
termination by (relation "measure (\<lambda>t. nrows t - crow t)") auto

declare skip_rows.simps [simp del]

definition sfghash_findfirst1 :: "'v sfghash \<Rightarrow> (addr option \<times> 'v sfghash) option" where
  "sfghash_findfirst1 t = do {
     t \<leftarrow> skip_rows (t\<lparr>crow := 0\<rparr>);
     Some (if crow t < nrows t then cnode t else None, t) }"

definition sfghash_findnext1 :: "'v sfghash \<Rightarrow> (addr option \<times> 'v sfghash) option" where
  "sfghash_findnext1 t = do {
     t \<leftarrow> (if cnode t \<noteq> None then do { n \<leftarrow> hnode_at t (cnode t); Some (t\<lparr>cnode := next_p n\<rparr>) } else Some t);
     (if cnode t \<noteq> None then Some (cnode t, t)
      else do {
        t \<leftarrow> skip_rows (t\<lparr>crow := crow t + 1\<rparr>);
        Some (if crow t < nrows t then cnode t else None, t) }) }"

definition sfghash_next :: "'v sfghash \<Rightarrow> 'v sfghash option" where
  "sfghash_next t =
     (if cnode t = None then Some t
      else do {
        n \<leftarrow> hnode_at t (cnode t);
        (if next_p n \<noteq> None then Some (t\<lparr>cnode := next_p n\<rparr>)
         else skip_rows (t\<lparr>cnode := None, crow := crow t + 1\<rparr>)) })"

definition sfghash_findfirst :: "'v sfghash \<Rightarrow> (addr option \<times> 'v sfghash) option" where
  "sfghash_findfirst t = do {
     t \<leftarrow> skip_rows (t\<lparr>crow := 0\<rparr>);
     (if crow t < nrows t then do { t' \<leftarrow> sfghash_next t; Some (cnode t, t') } else Some (None, t)) }"

definition sfghash_findnext :: "'v sfghash \<Rightarrow> (addr option \<times> 'v sfghash) option" where
  "sfghash_findnext t =
     (if cnode t = None then Some (None, t) else do { t' \<leftarrow> sfghash_next t; Some (cnode t, t') })"

end
