(* ===== verification/SfghashMap.thy ===== *)
theory SfghashMap
  imports Sfghash "HOL-Library.Multiset"
begin

text \<open>
  The hash table as a finite map. \<open>table_inv t R\<close>: row \<open>i\<close> of \<open>t\<close> is a chain of the nodes \<open>R i\<close>, every node hangs in
  the row its key hashes to, no key occurs twice, and the counts are right. \<open>hash_rep t M\<close>: such a table
  holds the map \<open>M\<close> from keys to data.
\<close>

section \<open>The invariant\<close>

text \<open>The key that a pointer stands for: the fixed number of bytes, or the string, whose length must fit an \<^verbatim>\<open>int\<close>.\<close>

definition canon :: "int \<Rightarrow> byte list \<Rightarrow> byte list option" where
  "canon ks key =
     (if ks > 0 then read_bytes ks key
      else do { s \<leftarrow> read_string key; if length s + 1 < 2 ^ 31 then Some (s @ [0]) else None })"

definition node_key :: "'v sfghash \<Rightarrow> addr \<Rightarrow> byte list option" where
  "node_key t a = do { n \<leftarrow> hnodes t a; k \<leftarrow> hkey n; canon (keysize t) k }"

definition table_inv :: "'v sfghash \<Rightarrow> (nat \<Rightarrow> addr list) \<Rightarrow> bool" where
  "table_inv t R \<longleftrightarrow>
     0 < nrows t \<and> length (table t) = nrows t \<and> 0 \<le> keysize t \<and>
     (\<forall>a b. length a = length b \<longrightarrow> (keycmp_fcn t a b = 0 \<longleftrightarrow> a = b)) \<and>
     (\<forall>i<nrows t. seg (hnodes t) None (table t ! i) (R i) None) \<and>
     dom (hnodes t) = (\<Union>i<nrows t. set (R i)) \<and>
     (\<forall>i<nrows t. \<forall>a\<in>set (R i). \<exists>k. node_key t a = Some k \<and> unat (hash_fcn t k) mod nrows t = i) \<and>
     inj_on (node_key t) (dom (hnodes t)) \<and>
     (\<forall>a. hbrk t \<le> a \<longrightarrow> hnodes t a = None) \<and>
     hcount t = of_nat (card (dom (hnodes t))) \<and>
     blocks t = 3 + (if userkey t then 1 else 2) * int (card (dom (hnodes t)))"

definition hash_rep :: "'v sfghash \<Rightarrow> (byte list \<rightharpoonup> 'v option) \<Rightarrow> bool" where
  "hash_rep t M \<longleftrightarrow> (\<exists>R. table_inv t R) \<and>
     (\<forall>k d. M k = Some d \<longleftrightarrow> (\<exists>a n. hnodes t a = Some n \<and> node_key t a = Some k \<and> hdata n = d))"

lemma table_invD:
  assumes "table_inv t R"
  shows "0 < nrows t" "length (table t) = nrows t" "0 \<le> keysize t" "\<And>a b. length a = length b \<Longrightarrow> keycmp_fcn t a b = 0 \<longleftrightarrow> a = b"
    "\<And>i. i < nrows t \<Longrightarrow> seg (hnodes t) None (table t ! i) (R i) None" "dom (hnodes t) = (\<Union>i<nrows t. set (R i))"
    "\<And>i a. i < nrows t \<Longrightarrow> a \<in> set (R i) \<Longrightarrow> \<exists>k. node_key t a = Some k \<and> unat (hash_fcn t k) mod nrows t = i"
    "inj_on (node_key t) (dom (hnodes t))" "\<And>a. hbrk t \<le> a \<Longrightarrow> hnodes t a = None"
    "hcount t = of_nat (card (dom (hnodes t)))" "blocks t = 3 + (if userkey t then 1 else 2) * int (card (dom (hnodes t)))"
  using assms unfolding table_inv_def by blast+

lemma node_key_dom: "node_key t a = Some k \<Longrightarrow> a \<in> dom (hnodes t)"
  by (auto simp: node_key_def bind_eq_Some_conv)

lemma node_row: "table_inv t R \<Longrightarrow> a \<in> dom (hnodes t) \<Longrightarrow> \<exists>i<nrows t. a \<in> set (R i)"
  unfolding table_invD(6) by auto

lemma key_row:
  assumes "table_inv t R" and "node_key t a = Some k"
  shows "a \<in> set (R (unat (hash_fcn t k) mod nrows t))"
proof -
  obtain i where i: "i < nrows t" "a \<in> set (R i)" using node_row [OF assms(1) node_key_dom [OF assms(2)]] by blast
  then show ?thesis using table_invD(7) [OF assms(1) i] assms(2) by auto
qed

lemma row_unique:
  assumes "table_inv t R" and "i < nrows t" and "j < nrows t" and "a \<in> set (R i)" and "a \<in> set (R j)"
  shows "i = j"
  using table_invD(7) [OF assms(1,2,4)] table_invD(7) [OF assms(1,3,5)] by auto

lemma key_unique: "table_inv t R \<Longrightarrow> node_key t a = Some k \<Longrightarrow> node_key t b = Some k \<Longrightarrow> a = b"
  using table_invD(8) node_key_dom by (metis inj_onD)

section \<open>Searching\<close>

lemma read_bytes_length: "read_bytes n key = Some k \<Longrightarrow> length k = nat n"
  by (auto simp: read_bytes_def split: if_splits)

lemma canon_string: "ks \<le> 0 \<Longrightarrow> canon ks key = Some ck \<longleftrightarrow> (\<exists>s. read_string key = Some s \<and> length s + 1 < 2 ^ 31 \<and> ck = s @ [0])"
  by (auto simp: canon_def bind_eq_Some_conv)

lemma strlen1_bytes:
  assumes "read_string key = Some s" and "length s + 1 < 2 ^ 31"
  shows "strlen1 key = Some (int (length s + 1)) \<and> read_bytes (int (length s + 1)) key = Some (s @ [0])"
proof -
  have z: "0 \<in> set key" "s = takeWhile (\<lambda>c. c \<noteq> 0) key" using assms(1) by (auto simp: read_string_def split: if_splits)
  obtain vs where "dropWhile (\<lambda>c. c \<noteq> 0) key = 0 # vs"
    using z(1) by (metis (mono_tags, lifting) dropWhile_eq_Nil_conv hd_dropWhile list.exhaust_sel)
  then have key: "key = s @ 0 # vs" unfolding z(2) by (metis takeWhile_dropWhile_id)
  have "strlen1 key = Some (sint (of_nat (length s + 1) :: u32))" using assms(1) by (simp add: strlen1_def)
  also have "sint (of_nat (length s + 1) :: u32) = signed_take_bit 31 (int (length s + 1))" by (simp only: signed_of_nat) simp
  also have "\<dots> = int (length s + 1)" using assms(2) by (intro signed_take_bit_int_eq_self) simp_all
  finally show ?thesis by (simp add: read_bytes_def key nat_add_distrib)
qed

lemma canon_len: "canon (keysize t) key = Some ck \<Longrightarrow> \<exists>klen. (if keysize t > 0 then Some (keysize t) else strlen1 key) = Some klen \<and> read_bytes klen key = Some ck"
  using strlen1_bytes by (auto simp: canon_def bind_eq_Some_conv split: if_splits)

definition cmp_ok :: "'v sfghash \<Rightarrow> bool" where
  "cmp_ok t \<longleftrightarrow> (\<forall>a b. length a = length b \<longrightarrow> (keycmp_fcn t a b = 0 \<longleftrightarrow> a = b))"

lemma table_inv_cmp: "table_inv t R \<Longrightarrow> cmp_ok t"
  using table_invD(4) by (auto simp: cmp_ok_def)

lemma match_canon:
  assumes "cmp_ok t" and "canon (keysize t) key = Some ck" and "(if keysize t > 0 then Some (keysize t) else strlen1 key) = Some klen"
    and "canon (keysize t) stored = Some sk"
  shows "key_matches t (keysize t > 0) stored key klen = Some (sk = ck)"
proof (cases "keysize t > 0")
  case True
  then have r: "read_bytes klen stored = Some sk" "read_bytes klen key = Some ck" using assms(2-4) by (simp_all add: canon_def)
  then have "keycmp_fcn t sk ck = 0 \<longleftrightarrow> sk = ck" using assms(1) read_bytes_length unfolding cmp_ok_def by metis
  then show ?thesis using True r by (simp add: key_matches_def)
next
  case False
  then show ?thesis using assms(2,4) by (auto simp: key_matches_def canon_string bind_eq_Some_conv)
qed

lemma search_seg:
  assumes inv: "cmp_ok t" and key: "canon (keysize t) key = Some ck" "(if keysize t > 0 then Some (keysize t) else strlen1 key) = Some klen"
  shows "seg (hnodes t) pv p xs None \<Longrightarrow> \<forall>x\<in>set xs. node_key t x \<noteq> None \<Longrightarrow>
    search_row t (keysize t > 0) key klen p = Some (find (\<lambda>a. node_key t a = Some ck) xs)"
proof (induction xs arbitrary: pv p)
  case Nil
  then show ?case by (simp add: search_row.simps [of t _ _ _ None])
next
  case (Cons x xs)
  then obtain n where n: "p = Some x" "hnodes t x = Some n" "seg (hnodes t) (Some x) (next_p n) xs None" by auto
  obtain stored sk where st: "hkey n = Some stored" "canon (keysize t) stored = Some sk" "node_key t x = Some sk"
    using Cons.prems(2) n(2) by (auto simp: node_key_def bind_eq_Some_conv)
  show ?case
    using n st match_canon [OF inv key st(2)] Cons.IH [OF n(3)] Cons.prems(2)
    by (simp add: search_row.simps [of t _ _ _ "Some x"] hnode_at_def)
qed

lemma search_table:
  assumes inv: "table_inv t R" and key: "canon (keysize t) key = Some ck"
  obtains klen i where "(if keysize t > 0 then Some (keysize t) else strlen1 key) = Some klen" "row_of t key klen = Some i"
    "i = unat (hash_fcn t ck) mod nrows t" "i < nrows t" "row t i = Some (table t ! i)" "read_bytes klen key = Some ck"
    "search_row t (keysize t > 0) key klen (table t ! i) = Some (find (\<lambda>a. node_key t a = Some ck) (R i))"
proof -
  obtain klen where klen: "(if keysize t > 0 then Some (keysize t) else strlen1 key) = Some klen" "read_bytes klen key = Some ck"
    using canon_len [OF key] by blast
  define i where "i = unat (hash_fcn t ck) mod nrows t"
  have i: "i < nrows t" using table_invD(1) [OF inv] by (simp add: i_def)
  have "\<forall>x\<in>set (R i). node_key t x \<noteq> None" using table_invD(7) [OF inv i] by fastforce
  from search_seg [OF table_inv_cmp [OF inv] key klen(1) table_invD(5) [OF inv i] this] show ?thesis
    using that [of klen i] klen i table_invD(1,2) [OF inv] by (simp add: i_def row_of_def row_def)
qed

lemma find_key:
  assumes "table_inv t R" and "i = unat (hash_fcn t ck) mod nrows t"
  shows "find (\<lambda>a. node_key t a = Some ck) (R i) = (if \<exists>a. node_key t a = Some ck then Some (THE a. node_key t a = Some ck) else None)"
proof (cases "\<exists>a. node_key t a = Some ck")
  case True
  then obtain a where a: "node_key t a = Some ck" by blast
  have the: "(THE a. node_key t a = Some ck) = a" using a key_unique [OF assms(1)] by blast
  obtain b where b: "find (\<lambda>a. node_key t a = Some ck) (R i) = Some b"
    using a key_row [OF assms(1) a] assms(2) by (cases "find (\<lambda>a. node_key t a = Some ck) (R i)") (auto simp: find_None_iff)
  then have "node_key t b = Some ck" by (auto simp: find_Some_iff)
  then show ?thesis using b the True key_unique [OF assms(1) a] by simp
next
  case False
  then show ?thesis by (simp add: find_None_iff)
qed

lemma rep_lookup: "hash_rep t M \<Longrightarrow> node_key t a = Some k \<Longrightarrow> hnodes t a = Some n \<Longrightarrow> M k = Some (hdata n)"
  by (auto simp: hash_rep_def)

lemma rep_none: "hash_rep t M \<Longrightarrow> M k = None \<longleftrightarrow> (\<forall>a. node_key t a \<noteq> Some k)"
proof -
  assume r: "hash_rep t M"
  have "M k \<noteq> None \<longleftrightarrow> (\<exists>a n. hnodes t a = Some n \<and> node_key t a = Some k)" using r by (simp add: hash_rep_def)
  also have "\<dots> \<longleftrightarrow> (\<exists>a. node_key t a = Some k)" using node_key_dom [of t _ k] by blast
  finally show ?thesis by blast
qed

lemma hash_repI:
  assumes "table_inv t R" and "\<And>a n k. node_key t a = Some k \<Longrightarrow> hnodes t a = Some n \<Longrightarrow> M k = Some (hdata n)"
    and "\<And>k. M k \<noteq> None \<Longrightarrow> \<exists>a. node_key t a = Some k"
  shows "hash_rep t M"
  unfolding hash_rep_def
proof (intro conjI allI)
  show "\<exists>R. table_inv t R" using assms(1) by blast
  show "M k = Some d \<longleftrightarrow> (\<exists>a n. hnodes t a = Some n \<and> node_key t a = Some k \<and> hdata n = d)" for k d
  proof
    assume m: "M k = Some d"
    then obtain a where a: "node_key t a = Some k" using assms(3) by blast
    then obtain n where "hnodes t a = Some n" using node_key_dom [OF a] by auto
    then show "\<exists>a n. hnodes t a = Some n \<and> node_key t a = Some k \<and> hdata n = d" using assms(2) [OF a] a m by auto
  qed (use assms(2) in auto)
qed

lemma rep_bij: "hash_rep t M \<Longrightarrow> table_inv t R \<Longrightarrow> bij_betw (\<lambda>a. the (node_key t a)) (dom (hnodes t)) (dom M)"
proof -
  assume r: "hash_rep t M" and R: "table_inv t R"
  show ?thesis
    unfolding bij_betw_def
  proof
    have some: "\<exists>k. node_key t a = Some k" if a: "a \<in> dom (hnodes t)" for a
    proof -
      obtain i where "i < nrows t" "a \<in> set (R i)" using node_row [OF R a] by blast
      from table_invD(7) [OF R this] show ?thesis by blast
    qed
    show "inj_on (\<lambda>a. the (node_key t a)) (dom (hnodes t))"
    proof (rule inj_onI)
      fix a b
      assume ab: "a \<in> dom (hnodes t)" "b \<in> dom (hnodes t)" "the (node_key t a) = the (node_key t b)"
      obtain ka kb where "node_key t a = Some ka" "node_key t b = Some kb" using some [OF ab(1)] some [OF ab(2)] by blast
      with ab(3) have "node_key t a = node_key t b" by simp
      from inj_onD [OF table_invD(8) [OF R] this ab(1,2)] show "a = b" .
    qed
    have domk: "k \<in> dom M \<longleftrightarrow> (\<exists>a. node_key t a = Some k)" for k using rep_none [OF r, of k] by (simp add: domIff)
    show "(\<lambda>a. the (node_key t a)) ` dom (hnodes t) = dom M"
    proof (intro equalityI subsetI)
      fix k
      assume "k \<in> dom M"
      then obtain a where a: "node_key t a = Some k" using domk by blast
      then have "k = the (node_key t a)" by simp
      from this node_key_dom [OF a] show "k \<in> (\<lambda>a. the (node_key t a)) ` dom (hnodes t)" by (rule image_eqI)
    next
      fix k
      assume "k \<in> (\<lambda>a. the (node_key t a)) ` dom (hnodes t)"
      then obtain a where "a \<in> dom (hnodes t)" "k = the (node_key t a)" by (rule imageE)
      then have "node_key t a = Some k" using some [of a] by auto
      then show "k \<in> dom M" using domk by blast
    qed
  qed
qed

lemma rep_dom: "hash_rep t M \<Longrightarrow> table_inv t R \<Longrightarrow> card (dom M) = card (dom (hnodes t))"
  using bij_betw_same_card [OF rep_bij] by metis

section \<open>Finding\<close>

lemma find_node_row:
  assumes inv: "table_inv t R" and key: "canon (keysize t) key = Some ck" and i: "i = unat (hash_fcn t ck) mod nrows t"
  shows "sfghash_find_node t key =
    (let found = find (\<lambda>a. node_key t a = Some ck) (R i)
     in if found \<noteq> None \<and> splay t > 0 then do { t \<leftarrow> movetofront t i found; Some (found, t) } else Some (found, t))"
proof -
  obtain klen j where k: "(if keysize t > 0 then Some (keysize t) else strlen1 key) = Some klen" "row_of t key klen = Some j"
    "j = unat (hash_fcn t ck) mod nrows t" "j < nrows t" "row t j = Some (table t ! j)" "read_bytes klen key = Some ck"
    "search_row t (keysize t > 0) key klen (table t ! j) = Some (find (\<lambda>a. node_key t a = Some ck) (R j))"
    by (rule search_table [OF inv key])
  have "(keysize t \<noteq> 0) = (keysize t > 0)" using table_invD(3) [OF inv] by auto
  then show ?thesis using k i unfolding sfghash_find_node_def by (simp add: Let_def)
qed

lemma find_rep:
  assumes rep: "hash_rep t M" and key: "canon (keysize t) key = Some ck" and "splay t \<le> 0"
  shows "sfghash_find t key = Some (case M ck of None \<Rightarrow> None | Some d \<Rightarrow> d, t)"
proof -
  obtain R where R: "table_inv t R" using rep by (auto simp: hash_rep_def)
  define i where "i = unat (hash_fcn t ck) mod nrows t"
  have node: "sfghash_find_node t key = Some (find (\<lambda>a. node_key t a = Some ck) (R i), t)"
    using find_node_row [OF R key i_def] assms(3) by simp
  show ?thesis
  proof (cases "find (\<lambda>a. node_key t a = Some ck) (R i)")
    case None
    then have "M ck = None" using find_key [OF R i_def] rep_none [OF rep, of ck] by (auto split: if_splits)
    then show ?thesis using node None by (simp add: sfghash_find_def)
  next
    case (Some a)
    then have a: "node_key t a = Some ck" by (auto simp: find_Some_iff)
    then obtain n where n: "hnodes t a = Some n" using node_key_dom [OF a] by auto
    then show ?thesis using node Some rep_lookup [OF rep a n] by (simp add: sfghash_find_def hnode_at_def)
  qed
qed

section \<open>Adding\<close>

lemma canon_idem: "canon ks key = Some ck \<Longrightarrow> canon ks ck = Some ck"
proof (cases "ks > 0")
  case True
  assume "canon ks key = Some ck"
  then show ?thesis using True by (auto simp: canon_def read_bytes_def split: if_splits)
next
  case False
  assume c: "canon ks key = Some ck"
  then obtain s where s: "ck = s @ [0]" "read_string key = Some s" "length s + 1 < 2 ^ 31" using False by (auto simp: canon_string)
  then have "0 \<notin> set s" by (auto simp: read_string_def dest: set_takeWhileD split: if_splits)
  then have "read_string ck = Some s" using s(1) by (auto simp: read_string_def takeWhile_append)
  then show ?thesis using False s(1,3) by (simp add: canon_string)
qed

lemma add_old:
  assumes rep: "hash_rep t M" and key: "canon (keysize t) key = Some ck" and "M ck \<noteq> None"
  shows "\<exists>a. sfghash_add alloc (Some t) key d = Some (SFGHASH_INTABLE, Some (t\<lparr>cnode := Some a\<rparr>)) \<and> node_key t a = Some ck"
proof -
  obtain R where R: "table_inv t R" using rep by (auto simp: hash_rep_def)
  obtain klen i where k: "(if keysize t > 0 then Some (keysize t) else strlen1 key) = Some klen" "row_of t key klen = Some i"
    "i = unat (hash_fcn t ck) mod nrows t" "i < nrows t" "row t i = Some (table t ! i)" "read_bytes klen key = Some ck"
    "search_row t (keysize t > 0) key klen (table t ! i) = Some (find (\<lambda>a. node_key t a = Some ck) (R i))"
    by (rule search_table [OF R key])
  have "\<exists>a. node_key t a = Some ck" using rep_none [OF rep, of ck] assms(3) by blast
  then obtain a where a: "find (\<lambda>a. node_key t a = Some ck) (R i) = Some a" using find_key [OF R k(3)] by auto
  then have "node_key t a = Some ck" by (auto simp: find_Some_iff)
  moreover have "sfghash_add alloc (Some t) key d = Some (SFGHASH_INTABLE, Some (t\<lparr>cnode := Some a\<rparr>))"
    using k(1,2,5-7) a by (simp add: sfghash_add_def)
  ultimately show ?thesis by blast
qed

lemma add_new:
  assumes rep: "hash_rep t M" and key: "canon (keysize t) key = Some ck" and new: "M ck = None"
    and ok: "alloc (hrequests t)" "userkey t \<or> alloc (hrequests t + 1)"
  shows "\<exists>t'. sfghash_add alloc (Some t) key d = Some (SFGHASH_OK, Some t') \<and> hash_rep t' (M(ck \<mapsto> d)) \<and>
    keysize t' = keysize t \<and> splay t' = splay t \<and> userfree t' = userfree t \<and> freed t' = freed t"
proof -
  obtain R where R: "table_inv t R" using rep by (auto simp: hash_rep_def)
  note I = table_invD [OF R]
  obtain klen i where k: "(if keysize t > 0 then Some (keysize t) else strlen1 key) = Some klen" "row_of t key klen = Some i"
    "i = unat (hash_fcn t ck) mod nrows t" "i < nrows t" "row t i = Some (table t ! i)" "read_bytes klen key = Some ck"
    "search_row t (keysize t > 0) key klen (table t ! i) = Some (find (\<lambda>a. node_key t a = Some ck) (R i))"
    by (rule search_table [OF R key])
  have none: "\<And>b. node_key t b \<noteq> Some ck" using rep_none [OF rep, of ck] new by blast
  then have search: "search_row t (keysize t > 0) key klen (table t ! i) = Some None" using k(7) by (simp add: find_None_iff)
  define a where "a = hbrk t"
  have fresh: "hnodes t a = None" using I(9) by (simp add: a_def)
  then have notin: "a \<notin> set (R j)" if "j < nrows t" for j using I(6) that by auto
  define copy where "copy = (if userkey t then key else ck)"
  have copy: "canon (keysize t) copy = Some ck" using key canon_idem by (simp add: copy_def)
  define p where "p = table t ! i"
  define n :: "'a hnode" where "n = \<lparr>next_p = p, prev_p = None, hkey = Some copy, hdata = d\<rparr>"
  note seg = I(5) [OF k(4), folded p_def]
  define h where "h = (case p of None \<Rightarrow> (hnodes t)(a \<mapsto> n) | Some x \<Rightarrow> (hnodes t)(a \<mapsto> n, x \<mapsto> (the (hnodes t x))\<lparr>prev_p := Some a\<rparr>))"
  define c where "c = (if userkey t then 1 else 2 :: int)"
  define t' where "t' = t\<lparr>table := (table t)[i := Some a], hcount := hcount t + 1, hnodes := h, hbrk := a + 1,
      hrequests := hrequests t + (if userkey t then 1 else 2), blocks := blocks t + c\<rparr>"
  have px: "hnodes t x \<noteq> None \<and> x \<in> set (R i) \<and> x \<noteq> a" if "p = Some x" for x
  proof -
    have "x \<in> set (R i)" using seg that by (cases "R i") auto
    moreover have "x \<noteq> a" using notin [OF k(4)] calculation by blast
    ultimately show ?thesis using seg_dom [OF seg] by auto
  qed
  have op: "sfghash_add alloc (Some t) key d = Some (SFGHASH_OK, Some t')"
  proof (cases p)
    case None
    then show ?thesis using k(1,2,5,6) [folded p_def] search [folded p_def] ok
      by (cases "userkey t") (simp_all add: sfghash_add_def copy_def n_def h_def t'_def c_def a_def Let_def)
  next
    case (Some x)
    then obtain nx where "hnodes t x = Some nx" "x \<noteq> a" using px by auto
    then show ?thesis using k(1,2,5,6) [folded p_def] search [folded p_def] ok Some
      by (cases "userkey t") (simp_all add: sfghash_add_def copy_def n_def h_def t'_def c_def a_def Let_def set_hnode_def)
  qed
  have hseg: "seg h None (Some a) (a # R i) None"
  proof (cases p)
    case None
    then show ?thesis using seg_push(1) [OF seg notin [OF k(4)], of n] by (simp add: h_def n_def)
  next
    case (Some x)
    then obtain nx where nx: "hnodes t x = Some nx" using px by auto
    then show ?thesis using seg_push(2) [OF seg notin [OF k(4)], of n x nx] Some by (simp add: h_def n_def)
  qed
  have hd: "h x = (if x = a then Some n else if p = Some x then map_option (prev_p_update (\<lambda>_. Some a)) (hnodes t x) else hnodes t x)" for x
    using px by (cases p) (auto simp: h_def)
  have domh: "dom h = insert a (dom (hnodes t))" using px by (auto simp: hd domIff split: if_splits)
  have fin: "finite (dom (hnodes t))" unfolding I(6) by simp
  have card: "card (dom h) = Suc (card (dom (hnodes t)))" using fin fresh by (simp add: domh domIff)
  have key': "node_key t' x = (if x = a then Some ck else node_key t x)" for x
    using copy by (cases "hnodes t x") (simp_all add: node_key_def t'_def hd n_def)
  let ?R = "R(i := a # R i)"
  have inv': "table_inv t' ?R"
    unfolding table_inv_def
  proof (intro conjI)
    show "\<forall>j<nrows t'. seg (hnodes t') None (table t' ! j) (?R j) None"
    proof (intro allI impI)
      fix j
      assume "j < nrows t'"
      then have j: "j < nrows t" by (simp add: t'_def)
      show "seg (hnodes t') None (table t' ! j) (?R j) None"
      proof (cases "j = i")
        case True
        then show ?thesis using hseg k(4) I(2) by (simp add: t'_def)
      next
        case False
        have "hnodes t x = h x" if "x \<in> set (R j)" for x
          using that notin [OF j] px row_unique [OF R j k(4)] False by (auto simp: hd)
        then show ?thesis using I(5) [OF j] seg_cong [of "R j" "hnodes t" h] False by (simp add: t'_def)
      qed
    qed
    show "dom (hnodes t') = (\<Union>j<nrows t'. set (?R j))"
      using domh I(6) k(4) by (auto simp: t'_def split: if_splits)
    show "\<forall>j<nrows t'. \<forall>x\<in>set (?R j). \<exists>k. node_key t' x = Some k \<and> unat (hash_fcn t' k) mod nrows t' = j"
    proof (intro allI impI ballI)
      fix j x
      assume "j < nrows t'" and x: "x \<in> set (?R j)"
      then have j: "j < nrows t" by (simp add: t'_def)
      have eq: "hash_fcn t' = hash_fcn t" "nrows t' = nrows t" by (simp_all add: t'_def)
      show "\<exists>k. node_key t' x = Some k \<and> unat (hash_fcn t' k) mod nrows t' = j"
      proof (cases "x = a")
        case True
        then have "j = i" using x notin [OF j] by (auto split: if_splits)
        then show ?thesis using True k(3) by (simp add: key' eq)
      next
        case False
        then have "x \<in> set (R j)" using x by (auto split: if_splits)
        then show ?thesis using I(7) [OF j] False by (simp add: key' eq)
      qed
    qed
    show "inj_on (node_key t') (dom (hnodes t'))"
    proof (rule inj_onI)
      fix x y
      assume "x \<in> dom (hnodes t')" "y \<in> dom (hnodes t')" "node_key t' x = node_key t' y"
      moreover have "hnodes t' = h" by (simp add: t'_def)
      ultimately show "x = y" using inj_onD [OF I(8), of x y] none domh by (auto simp: key' split: if_splits)
    qed
    show "\<forall>x. hbrk t' \<le> x \<longrightarrow> hnodes t' x = None"
    proof (intro allI impI)
      fix x
      assume "hbrk t' \<le> x"
      then have "hbrk t \<le> x" "x \<noteq> a" by (simp_all add: t'_def a_def)
      then show "hnodes t' x = None" using I(9) by (simp add: t'_def hd)
    qed
    show "hcount t' = of_nat (card (dom (hnodes t')))" using I(10) card by (simp add: t'_def add.commute)
    show "blocks t' = 3 + (if userkey t' then 1 else 2) * int (card (dom (hnodes t')))"
      using I(11) card by (simp add: t'_def c_def algebra_simps)
    show "\<forall>a b. length a = length b \<longrightarrow> (keycmp_fcn t' a b = 0) = (a = b)" using I(4) by (simp add: t'_def)
  qed (use I(1-3) in \<open>simp_all add: t'_def\<close>)
  have "hash_rep t' (M(ck \<mapsto> d))"
  proof (rule hash_repI [OF inv'])
    fix x m kk
    assume x: "node_key t' x = Some kk" "hnodes t' x = Some m"
    show "(M(ck \<mapsto> d)) kk = Some (hdata m)"
    proof (cases "x = a")
      case True
      then have "kk = ck" using x(1) by (simp add: key')
      moreover have "m = n" using x(2) True by (simp add: t'_def hd)
      ultimately show ?thesis by (simp add: n_def)
    next
      case False
      then have kx: "node_key t x = Some kk" "kk \<noteq> ck" using x(1) none by (auto simp: key')
      obtain m' where "hnodes t x = Some m'" "hdata m = hdata m'" using x(2) False by (auto simp: t'_def hd split: if_splits)
      then show ?thesis using rep_lookup [OF rep kx(1)] kx(2) by simp
    qed
  next
    fix kk
    assume "(M(ck \<mapsto> d)) kk \<noteq> None"
    then have "kk = ck \<or> M kk \<noteq> None" by (auto split: if_splits)
    then show "\<exists>x. node_key t' x = Some kk"
    proof
      assume "kk = ck"
      then have "node_key t' a = Some kk" by (simp add: key')
      then show ?thesis by blast
    next
      assume "M kk \<noteq> None"
      then have "\<exists>x. node_key t x = Some kk" using rep_none [OF rep, of kk] by simp
      then obtain x where x: "node_key t x = Some kk" ..
      then have "x \<noteq> a" using node_key_dom [OF x] fresh by auto
      then have "node_key t' x = Some kk" using x by (simp add: key')
      then show ?thesis by blast
    qed
  qed
  moreover have "keysize t' = keysize t" "splay t' = splay t" "userfree t' = userfree t" "freed t' = freed t" by (simp_all add: t'_def)
  ultimately show ?thesis using op by blast
qed

section \<open>Removing\<close>

lemma free_rep:
  assumes rep: "hash_rep t M" and R: "table_inv t R" and i: "i < nrows t" and ai: "a \<in> set (R i)" and ck: "node_key t a = Some ck"
    and x: "hnodes t a = Some x"
  shows "\<exists>t'. sfghash_free_node t i a = Some (SFGHASH_OK, t') \<and> hash_rep t' (M(ck := None)) \<and> keysize t' = keysize t \<and>
    splay t' = splay t \<and> userfree t' = userfree t \<and> freed t' = freed t @ (if userfree t then [hdata x] else [])"
proof -
  note I = table_invD [OF R]
  obtain us vs where Ri: "R i = us @ a # vs" using ai by (auto simp: in_set_conv_decomp)
  have s: "seg (hnodes t) None (table t ! i) (us @ a # vs) None" using I(5) [OF i] Ri by simp
  have d: "distinct (us @ a # vs)" by (rule seg_distinct_end [OF s])
  define h where "h = (\<lambda>y. if y = a then None
      else if us \<noteq> [] \<and> y = last us then map_option (next_p_update (\<lambda>_. next_p x)) (hnodes t y)
      else if vs \<noteq> [] \<and> y = hd vs then map_option (prev_p_update (\<lambda>_. prev_p x)) (hnodes t y) else hnodes t y)"
  have nb: "hnodes t y \<noteq> None" if "y \<in> set (us @ vs)" for y using seg_dom [OF s] that by auto
  have lv: "us \<noteq> [] \<Longrightarrow> last us \<notin> set vs" using d last_in_set [of us] by (metis distinct_append disjoint_iff list.set_intros(2))
  have neq: "us \<noteq> [] \<Longrightarrow> last us \<noteq> a" "vs \<noteq> [] \<Longrightarrow> hd vs \<noteq> a" "us \<noteq> [] \<Longrightarrow> vs \<noteq> [] \<Longrightarrow> hd vs \<noteq> last us"
  proof -
    show "us \<noteq> [] \<Longrightarrow> last us \<noteq> a" "vs \<noteq> [] \<Longrightarrow> hd vs \<noteq> a" using d last_in_set [of us] hd_in_set [of vs] by auto
    show "us \<noteq> [] \<Longrightarrow> vs \<noteq> [] \<Longrightarrow> hd vs \<noteq> last us" using lv hd_in_set [of vs] by metis
  qed
  have un: "seg h None (if us = [] then next_p x else table t ! i) (us @ vs) None" "prev_p x = lastp None us"
    "next_p x = (case vs of [] \<Rightarrow> None | v # _ \<Rightarrow> Some v)"
  proof -
    have h1: "h y = hnodes t y" if "y \<in> set us" "y \<noteq> last us" for y using that d by (cases vs) (auto simp: h_def)
    have h2: "\<exists>y. hnodes t (last us) = Some y \<and> h (last us) = Some (y\<lparr>next_p := next_p x\<rparr>)" if "us \<noteq> []"
      using nb [of "last us"] that neq(1) by (auto simp: h_def)
    have h3: "h y = hnodes t y" if "y \<in> set vs" "y \<noteq> hd vs" for y using that d lv by (auto simp: h_def)
    have h4: "\<exists>y. hnodes t (hd vs) = Some y \<and> h (hd vs) = Some (y\<lparr>prev_p := prev_p x\<rparr>)" if "vs \<noteq> []"
      using nb [of "hd vs"] that neq(2,3) by (auto simp: h_def)
    note u = seg_unlink [OF s x h1 h2 h3 h4]
    show "seg h None (if us = [] then next_p x else table t ! i) (us @ vs) None" by (rule u(1))
    show "prev_p x = lastp None us" by (rule u(2))
    show "next_p x = (case vs of [] \<Rightarrow> None | v # _ \<Rightarrow> Some v)" by (rule u(3))
  qed
  have hk: "hkey x \<noteq> None" using ck x by (cases "hkey x") (auto simp: node_key_def)
  define t' where "t' = t\<lparr>table := (if us = [] then (table t)[i := next_p x] else table t), hnodes := h,
      blocks := blocks t - (if userkey t then 1 else 2), hcount := hcount t - 1,
      freed := freed t @ (if userfree t then [hdata x] else [])\<rparr>"
  have op: "sfghash_free_node t i a = Some (SFGHASH_OK, t')"
  proof -
    define x' where "x' = x\<lparr>hkey := None\<rparr>"
    have len: "i < length (table t)" using i I(2) by simp
    note step = sfghash_free_node_def set_hnode_def hnode_at_def row_def Let_def
    show ?thesis
    proof (cases us rule: rev_cases)
      case Nil
      have tab: "table t ! i = Some a" "prev_p x = None" using s un(2) Nil by simp_all
      show ?thesis
      proof (cases vs)
        case Nil
        then have "next_p x = None" using un(3) by simp
        moreover have "(hnodes t)(a := None) = h" using Nil \<open>us = []\<close> by (auto simp: h_def)
        ultimately show ?thesis using tab x hk len \<open>us = []\<close> by (simp add: step t'_def)
      next
        case (Cons v ws)
        obtain nv where v: "hnodes t v = Some nv" using nb [of v] Cons by auto
        have n: "next_p x = Some v" "v \<noteq> a" using un(3) neq Cons by simp_all
        have "(hnodes t)(v \<mapsto> nv\<lparr>prev_p := None\<rparr>, a := None) = h" using Cons \<open>us = []\<close> v tab(2) by (auto simp: h_def)
        then show ?thesis using tab x hk len n v \<open>us = []\<close> by (simp add: step t'_def fun_upd_twist)
      qed
    next
      case (snoc ws u)
      obtain nu where u: "hnodes t u = Some nu" using nb [of u] snoc by auto
      have p: "prev_p x = Some u" "u \<noteq> a" "us \<noteq> []" "last us = u" using un(2) neq snoc by simp_all
      show ?thesis
      proof (cases vs)
        case Nil
        then have "next_p x = None" using un(3) by simp
        moreover have "(hnodes t)(u \<mapsto> nu\<lparr>next_p := next_p x\<rparr>, a := None) = h" using Nil p u by (auto simp: h_def)
        ultimately show ?thesis using p x hk u by (simp add: step t'_def fun_upd_twist)
      next
        case (Cons v vs')
        obtain nv where v: "hnodes t v = Some nv" using nb [of v] Cons by auto
        have n: "next_p x = Some v" "v \<noteq> a" "v \<noteq> u" using un(3) neq Cons p by auto
        have "(hnodes t)(u \<mapsto> nu\<lparr>next_p := next_p x\<rparr>, v \<mapsto> nv\<lparr>prev_p := prev_p x\<rparr>, a := None) = h"
          using Cons p u v n by (auto simp: h_def)
        then show ?thesis using p x hk u v n by (simp add: step t'_def fun_upd_twist)
      qed
    qed
  qed
  let ?R = "R(i := us @ vs)"
  have hd: "h y = hnodes t y" if "y \<notin> set (R i)" for y
    using that Ri last_in_set [of us] hd_in_set [of vs] by (auto simp: h_def)
  have domh: "dom h = dom (hnodes t) - {a}" by (auto simp: h_def split: if_splits)
  have fin: "finite (dom (hnodes t))" unfolding I(6) by simp
  have card: "card (dom (hnodes t)) = Suc (card (dom h))"
    unfolding domh using card_Suc_Diff1 [OF fin, of a] x by (simp add: domI)
  have data: "\<exists>m'. hnodes t y = Some m' \<and> hkey m' = hkey m \<and> hdata m' = hdata m" if "h y = Some m" for y m
    using that by (auto simp: h_def split: if_splits)
  have key': "node_key t' y = (if y = a then None else node_key t y)" for y
  proof (cases "h y")
    case None
    then have "y = a \<or> hnodes t y = None" using domh by auto
    then show ?thesis using None by (auto simp: node_key_def t'_def)
  next
    case (Some m)
    then have "y \<noteq> a" using domh by auto
    then show ?thesis using data [OF Some] Some by (auto simp: node_key_def t'_def)
  qed
  have eq: "hash_fcn t' = hash_fcn t" "nrows t' = nrows t" "hnodes t' = h" "keysize t' = keysize t" "userkey t' = userkey t"
    "keycmp_fcn t' = keycmp_fcn t" "hbrk t' = hbrk t" by (simp_all add: t'_def)
  have inv': "table_inv t' ?R"
    unfolding table_inv_def
  proof (intro conjI)
    show "\<forall>j<nrows t'. seg (hnodes t') None (table t' ! j) (?R j) None"
    proof (intro allI impI)
      fix j
      assume "j < nrows t'"
      then have j: "j < nrows t" by (simp add: eq)
      show "seg (hnodes t') None (table t' ! j) (?R j) None"
      proof (cases "j = i")
        case True
        then show ?thesis using un(1) i I(2) by (auto simp: t'_def)
      next
        case False
        have "hnodes t y = h y" if "y \<in> set (R j)" for y
        proof -
          have "y \<notin> set (R i)" using row_unique [OF R j i that] False by blast
          then show ?thesis by (simp add: hd)
        qed
        then show ?thesis using I(5) [OF j] seg_cong [of "R j" "hnodes t" h] False by (simp add: t'_def)
      qed
    qed
    have other: "a \<notin> set (R j)" if "j < nrows t" "j \<noteq> i" for j using row_unique [OF R that(1) i _ ai] that(2) by blast
    show "dom (hnodes t') = (\<Union>j<nrows t'. set (?R j))"
    proof -
      have "set (R i) - {a} = set (us @ vs)" using Ri d by auto
      then have "set (?R j) = set (R j) - {a}" if "j < nrows t" for j using other [OF that] by (cases "j = i") auto
      then have "(\<Union>j<nrows t. set (?R j)) = (\<Union>j<nrows t. set (R j)) - {a}" by auto
      then show ?thesis unfolding eq domh I(6) by simp
    qed
    show "\<forall>j<nrows t'. \<forall>y\<in>set (?R j). \<exists>k. node_key t' y = Some k \<and> unat (hash_fcn t' k) mod nrows t' = j"
    proof (intro allI impI ballI)
      fix j y
      assume "j < nrows t'" and y: "y \<in> set (?R j)"
      then have j: "j < nrows t" by (simp add: eq)
      have "y \<in> set (R j)" "y \<noteq> a" using y Ri d other [OF j] by (auto split: if_splits)
      then show "\<exists>k. node_key t' y = Some k \<and> unat (hash_fcn t' k) mod nrows t' = j" using I(7) [OF j] by (simp add: key' eq)
    qed
    show "inj_on (node_key t') (dom (hnodes t'))"
    proof (rule inj_onI)
      fix y z
      assume "y \<in> dom (hnodes t')" "z \<in> dom (hnodes t')" "node_key t' y = node_key t' z"
      then show "y = z" using inj_onD [OF I(8), of y z] domh by (auto simp: key' eq split: if_splits)
    qed
    show "\<forall>y. hbrk t' \<le> y \<longrightarrow> hnodes t' y = None" using I(9) domh by (auto simp: eq domIff)
    show "hcount t' = of_nat (card (dom (hnodes t')))" using I(10) card by (simp add: t'_def)
    show "blocks t' = 3 + (if userkey t' then 1 else 2) * int (card (dom (hnodes t')))"
      using I(11) card by (simp add: t'_def algebra_simps)
    show "\<forall>a b. length a = length b \<longrightarrow> (keycmp_fcn t' a b = 0) = (a = b)" using I(4) by (simp add: eq)
  qed (use I(1-3) in \<open>simp_all add: t'_def\<close>)
  have "hash_rep t' (M(ck := None))"
  proof (rule hash_repI [OF inv'])
    fix y m kk
    assume y: "node_key t' y = Some kk" "hnodes t' y = Some m"
    have ya: "y \<noteq> a" "node_key t y = Some kk" using y(1) by (auto simp: key' split: if_splits)
    then have "kk \<noteq> ck" using key_unique [OF R ck] by blast
    moreover obtain m' where "hnodes t y = Some m'" "hdata m' = hdata m" using data [of y m] y(2) by (auto simp: eq)
    ultimately show "(M(ck := None)) kk = Some (hdata m)" using rep_lookup [OF rep ya(2)] by simp
  next
    fix kk
    assume "(M(ck := None)) kk \<noteq> None"
    then have k: "kk \<noteq> ck" "M kk \<noteq> None" by (auto split: if_splits)
    then have "\<exists>y. node_key t y = Some kk" using rep_none [OF rep, of kk] by simp
    then obtain y where y: "node_key t y = Some kk" ..
    then have "y \<noteq> a" using ck k(1) by auto
    then have "node_key t' y = Some kk" using y by (simp add: key')
    then show "\<exists>y. node_key t' y = Some kk" ..
  qed
  then show ?thesis using op by (auto simp: t'_def)
qed

lemma remove_rep:
  assumes rep: "hash_rep t M" and key: "canon (keysize t) key = Some ck"
  shows "\<exists>t'. sfghash_remove t key = Some (if M ck = None then SFGHASH_ERR else SFGHASH_OK, t') \<and> hash_rep t' (M(ck := None)) \<and>
    keysize t' = keysize t \<and> splay t' = splay t \<and> userfree t' = userfree t \<and> freed t' = freed t @ (if userfree t then case M ck of None \<Rightarrow> [] | Some d \<Rightarrow> [d] else [])"
proof -
  obtain R where R: "table_inv t R" using rep by (auto simp: hash_rep_def)
  obtain klen i where k: "(if keysize t > 0 then Some (keysize t) else strlen1 key) = Some klen" "row_of t key klen = Some i"
    "i = unat (hash_fcn t ck) mod nrows t" "i < nrows t" "row t i = Some (table t ! i)" "read_bytes klen key = Some ck"
    "search_row t (keysize t > 0) key klen (table t ! i) = Some (find (\<lambda>a. node_key t a = Some ck) (R i))"
    by (rule search_table [OF R key])
  show ?thesis
  proof (cases "find (\<lambda>a. node_key t a = Some ck) (R i)")
    case None
    then have m: "M ck = None" using find_key [OF R k(3)] rep_none [OF rep, of ck] by (auto split: if_splits)
    then have "M(ck := None) = M" by auto
    moreover have "sfghash_remove t key = Some (SFGHASH_ERR, t)" using k(1,2,5,7) None by (simp add: sfghash_remove_def)
    ultimately show ?thesis using m rep by simp
  next
    case (Some a)
    then have a: "node_key t a = Some ck" by (auto simp: find_Some_iff)
    then obtain x where x: "hnodes t a = Some x" using node_key_dom [OF a] by auto
    have "a \<in> set (R i)" using key_row [OF R a] k(3) by simp
    from free_rep [OF rep R k(4) this a x] obtain t' where t': "sfghash_free_node t i a = Some (SFGHASH_OK, t')" "hash_rep t' (M(ck := None))"
      "keysize t' = keysize t" "splay t' = splay t" "userfree t' = userfree t" "freed t' = freed t @ (if userfree t then [hdata x] else [])" by blast
    moreover have "sfghash_remove t key = sfghash_free_node t i a" using k(1,2,5,7) Some by (simp add: sfghash_remove_def)
    moreover have "M ck = Some (hdata x)" by (rule rep_lookup [OF rep a x])
    ultimately show ?thesis by simp
  qed
qed

section \<open>Deleting\<close>

definition node_data :: "'v sfghash \<Rightarrow> addr list \<Rightarrow> 'v option list" where
  "node_data t xs = (if userfree t then filter (\<lambda>d. d \<noteq> None) (map (\<lambda>x. hdata (the (hnodes t x))) xs) else [])"

definition without :: "'v sfghash \<Rightarrow> addr list \<Rightarrow> 'v sfghash" where
  "without t xs = t\<lparr>hnodes := (\<lambda>a. if a \<in> set xs then None else hnodes t a),
     blocks := blocks t - (if userkey t then 1 else 2) * int (length xs), freed := freed t @ node_data t xs\<rparr>"

lemma without_simps [simp]:
  "hnodes (without t xs) a = (if a \<in> set xs then None else hnodes t a)" "table (without t xs) = table t" "nrows (without t xs) = nrows t"
  "blocks (without t xs) = blocks t - (if userkey t then 1 else 2) * int (length xs)" "freed (without t xs) = freed t @ node_data t xs"
  "userkey (without t xs) = userkey t" "userfree (without t xs) = userfree t"
  by (simp_all add: without_def)

lemma without_append: "set xs \<inter> set ys = {} \<Longrightarrow> without (without t xs) ys = without t (xs @ ys)"
proof -
  assume d: "set xs \<inter> set ys = {}"
  then have e: "map (\<lambda>x. hdata (the (hnodes (without t xs) x))) ys = map (\<lambda>x. hdata (the (hnodes t x))) ys"
    by (intro map_cong) auto
  have "node_data t (xs @ ys) = node_data t xs @ node_data (without t xs) ys"
    unfolding node_data_def without_simps(7) e by simp
  then show ?thesis by (simp add: without_def fun_eq_iff algebra_simps)
qed

lemma delete_row_seg:
  "seg (hnodes t) pv p xs None \<Longrightarrow> \<forall>x\<in>set xs. node_key t x \<noteq> None \<Longrightarrow> delete_row t p = Some (without t xs)"
proof (induction xs arbitrary: pv p t)
  case Nil
  then show ?case by (simp add: delete_row.simps [of t None] without_def node_data_def)
next
  case (Cons x xs)
  have d: "x \<notin> set xs" using seg_distinct_end [OF Cons.prems(1)] by simp
  obtain n where n: "p = Some x" "hnodes t x = Some n" "seg (hnodes t) (Some x) (next_p n) xs None" using Cons.prems(1) by auto
  have k: "hkey n \<noteq> None" using Cons.prems(2) n(2) by (cases "hkey n") (auto simp: node_key_def)
  have t1: "t\<lparr>hnodes := (hnodes t)(x := None), blocks := blocks t - 1 - (if \<not> userkey t \<and> hkey n \<noteq> None then 1 else 0),
      freed := freed t @ (if userfree t \<and> hdata n \<noteq> None then [hdata n] else [])\<rparr> = without t [x]"
    using n(2) k by (auto simp: without_def node_data_def fun_eq_iff)
  have "seg (hnodes (without t [x])) (Some x) (next_p n) xs None"
    using n(3) seg_cong [of xs "hnodes t" "hnodes (without t [x])"] d by auto
  moreover have "\<forall>y\<in>set xs. node_key (without t [x]) y \<noteq> None"
  proof
    fix y
    assume y: "y \<in> set xs"
    then have "node_key (without t [x]) y = node_key t y" using d by (auto simp: node_key_def without_def)
    then show "node_key (without t [x]) y \<noteq> None" using Cons.prems(2) y by simp
  qed
  ultimately have "delete_row (without t [x]) (next_p n) = Some (without (without t [x]) xs)" by (rule Cons.IH)
  moreover have "without (without t [x]) xs = without t (x # xs)" using without_append [of "[x]" xs t] d by simp
  ultimately show ?case unfolding n(1) delete_row.simps [of t "Some x"] using n(2) t1 by simp
qed

lemma delete_rows_all:
  assumes "\<forall>j<k + n. j < length (table t) \<and> seg (hnodes t) None (table t ! j) (R j) None"
    and "\<forall>j<k + n. \<forall>x\<in>set (R j). node_key t x \<noteq> None" and "distinct (concat (map R [0..<k + n]))"
  shows "delete_rows k n (without t (concat (map R [0..<k]))) = Some (without t (concat (map R [0..<k + n])))"
  using assms
proof (induction n arbitrary: k)
  case (Suc n)
  let ?xs = "concat (map R [0..<k])"
  have "[0..<k + Suc n] = [0..<k] @ [k..<k + Suc n]" by (rule upt_add_eq_append) simp
  also have "[k..<k + Suc n] = k # [Suc k..<k + Suc n]" by (rule upt_conv_Cons) simp
  finally have "distinct (?xs @ R k @ concat (map R [Suc k..<k + Suc n]))"
    using Suc.prems(3) by (simp only: map_append concat_append list.map concat.simps)
  then have d: "set ?xs \<inter> set (R k) = {}" unfolding distinct_append by (metis Int_Un_distrib Un_empty set_append)
  have "delete_row (without t ?xs) (table t ! k) = Some (without (without t ?xs) (R k))"
  proof (rule delete_row_seg)
    show "seg (hnodes (without t ?xs)) None (table t ! k) (R k) None"
    proof -
      have "\<forall>x\<in>set (R k). hnodes t x = hnodes (without t ?xs) x" using d by auto
      moreover have "seg (hnodes t) None (table t ! k) (R k) None" using Suc.prems(1) by simp
      ultimately show ?thesis using seg_cong by blast
    qed
    show "\<forall>x\<in>set (R k). node_key (without t ?xs) x \<noteq> None"
    proof
      fix x
      assume x: "x \<in> set (R k)"
      then have "x \<notin> set ?xs" using d by blast
      then have "node_key (without t ?xs) x = node_key t x" by (simp add: node_key_def without_def)
      moreover have "node_key t x \<noteq> None" using Suc.prems(2) [rule_format, of k x] x by simp
      ultimately show "node_key (without t ?xs) x \<noteq> None" by simp
    qed
  qed
  also have "without (without t ?xs) (R k) = without t (concat (map R [0..<Suc k]))" using without_append [OF d] by simp
  finally have row: "delete_row (without t ?xs) (table t ! k) = Some (without t (concat (map R [0..<Suc k])))" .
  have "delete_rows (Suc k) n (without t (concat (map R [0..<Suc k]))) = Some (without t (concat (map R [0..<Suc k + n])))"
    by (rule Suc.IH) (use Suc.prems in simp_all)
  moreover have "k < length (table t)" using Suc.prems(1) by simp
  ultimately show ?case using row by (simp add: row_def)
qed simp

lemma delete_rep:
  assumes rep: "hash_rep t M"
  shows "\<exists>fs. sfghash_delete (Some t) = Some (0, freed t @ fs) \<and>
    mset fs = (if userfree t then filter_mset (\<lambda>d. d \<noteq> None) (image_mset (\<lambda>k. the (M k)) (mset_set (dom M))) else {#})"
proof -
  obtain R where R: "table_inv t R" using rep by (auto simp: hash_rep_def)
  note I = table_invD [OF R]
  define t1 where "t1 = t\<lparr>blocks := blocks t - 1\<rparr>"
  define xs where "xs = concat (map R [0..<nrows t])"
  have dis: "distinct (concat (map R [0..<n]))" if "n \<le> nrows t" for n
    using that
  proof (induction n)
    case (Suc n)
    have "set (concat (map R [0..<n])) \<inter> set (R n) = {}"
    proof (intro equals0I)
      fix x
      assume "x \<in> set (concat (map R [0..<n])) \<inter> set (R n)"
      then obtain j where "j < n" "x \<in> set (R j)" "x \<in> set (R n)" by auto
      then show False using row_unique [OF R, of j n x] Suc.prems by simp
    qed
    moreover have "distinct (R n)" using seg_distinct_end [OF I(5)] Suc.prems by simp
    ultimately show ?case using Suc by simp
  qed simp
  have nk: "node_key t1 x = node_key t x" for x by (simp add: node_key_def t1_def)
  have key: "\<exists>k. node_key t x = Some k" if "x \<in> dom (hnodes t)" for x
  proof -
    obtain i where "i < nrows t" "x \<in> set (R i)" using node_row [OF R \<open>x \<in> dom (hnodes t)\<close>] by blast
    from I(7) [OF this] show ?thesis by blast
  qed
  have dom: "set xs = dom (hnodes t)" unfolding xs_def I(6) by auto
  have "delete_rows 0 (nrows t) (without t1 (concat (map R [0..<0]))) = Some (without t1 (concat (map R [0..<0 + nrows t])))"
  proof (rule delete_rows_all)
    show "\<forall>j<0 + nrows t. j < length (table t1) \<and> seg (hnodes t1) None (table t1 ! j) (R j) None"
      using I(2,5) by (simp add: t1_def)
    show "\<forall>j<0 + nrows t. \<forall>x\<in>set (R j). node_key t1 x \<noteq> None" using I(7) by (fastforce simp: nk)
  qed (simp add: dis)
  moreover have "without t1 (concat (map R [0..<0])) = t1" by (simp add: without_def node_data_def)
  ultimately have del: "delete_rows 0 (nrows t) t1 = Some (without t1 xs)" by (simp add: xs_def)
  have len: "length xs = card (dom (hnodes t))" using dis [of "nrows t"] dom distinct_card [of xs] by (simp add: xs_def)
  have nd: "node_data t1 xs = node_data t xs" by (simp add: node_data_def t1_def)
  have "sfghash_delete (Some t) = Some (0, freed t @ node_data t xs)"
    unfolding sfghash_delete_def option.case t1_def [symmetric] del using I(11) len by (simp add: nd) (simp add: t1_def)
  moreover have "mset (map (\<lambda>x. hdata (the (hnodes t x))) xs) = image_mset (\<lambda>k. the (M k)) (mset_set (dom M))"
  proof -
    let ?g = "\<lambda>x. the (node_key t x)"
    have inj: "inj_on ?g (dom (hnodes t))" and img: "?g ` dom (hnodes t) = dom M" using rep_bij [OF rep R] by (auto simp: bij_betw_def)
    have "mset xs = mset_set (dom (hnodes t))" using dis [of "nrows t"] dom mset_set_set [of xs] by (simp add: xs_def)
    then have "mset (map (\<lambda>x. hdata (the (hnodes t x))) xs) = image_mset (\<lambda>x. hdata (the (hnodes t x))) (mset_set (dom (hnodes t)))" by simp
    also have "\<dots> = image_mset (\<lambda>x. the (M (?g x))) (mset_set (dom (hnodes t)))"
    proof (rule image_mset_cong)
      fix x
      assume "x \<in># mset_set (dom (hnodes t))"
      then have x: "x \<in> dom (hnodes t)" using dom by (metis List.finite_set finite_set_mset_mset_set)
      then obtain k n where "node_key t x = Some k" "hnodes t x = Some n" using key by blast
      then show "hdata (the (hnodes t x)) = the (M (?g x))" using rep_lookup [OF rep] by simp
    qed
    also have "\<dots> = image_mset (\<lambda>k. the (M k)) (image_mset ?g (mset_set (dom (hnodes t))))" by (simp add: multiset.map_comp comp_def)
    also have "image_mset ?g (mset_set (dom (hnodes t))) = mset_set (dom M)" using image_mset_mset_set [OF inj] img by simp
    finally show ?thesis .
  qed
  then have "mset (node_data t xs) =
    (if userfree t then filter_mset (\<lambda>d. d \<noteq> None) (image_mset (\<lambda>k. the (M k)) (mset_set (dom M))) else {#})"
    by (simp only: node_data_def mset_filter mset.simps split: if_split) simp
  ultimately show ?thesis by blast
qed

section \<open>Splay mode\<close>

lemma splay_loses:
  assumes rep: "hash_rep t M" and key: "canon (keysize t) key = Some ck" and sp: "splay t > 0"
    and a: "node_key t a = Some ck" and n: "hnodes t a = Some n" and prev: "prev_p n \<noteq> None"
  shows "\<exists>t'. sfghash_find t key = Some (hdata n, t') \<and> sfghash_find t' key = Some (None, t')"
proof -
  obtain R where R: "table_inv t R" using rep by (auto simp: hash_rep_def)
  note I = table_invD [OF R]
  obtain klen i where k: "(if keysize t > 0 then Some (keysize t) else strlen1 key) = Some klen" "row_of t key klen = Some i"
    "i = unat (hash_fcn t ck) mod nrows t" "i < nrows t" "row t i = Some (table t ! i)" "read_bytes klen key = Some ck"
    "search_row t (keysize t > 0) key klen (table t ! i) = Some (find (\<lambda>a. node_key t a = Some ck) (R i))"
    by (rule search_table [OF R key])
  have ai: "a \<in> set (R i)" using key_row [OF R a] k(3) by simp
  then obtain us vs where Ri: "R i = us @ a # vs" by (auto simp: in_set_conv_decomp)
  have s: "seg (hnodes t) None (table t ! i) (us @ a # vs) None" using I(5) [OF k(4)] Ri by simp
  have pn: "prev_p n = lastp None us" using s n by (auto simp: seg_append)
  obtain x ws where us: "us = x # ws" using prev pn by (cases us) auto
  have head: "table t ! i = Some x" using s us by simp
  define u where "u = last us"
  have d: "distinct (us @ a # vs)" by (rule seg_distinct_end [OF s])
  have uu: "u \<in> set us" "prev_p n = Some u" using us pn by (simp_all add: u_def lastp_def)
  have neq: "u \<noteq> a" "x \<noteq> a" "a \<notin> set us" "a \<notin> set vs" "u \<notin> set vs" "x \<notin> set vs" using d uu(1) us by auto
  have hdv: "vs \<noteq> [] \<Longrightarrow> hd vs \<noteq> a \<and> hd vs \<noteq> u \<and> hd vs \<noteq> x" using neq hd_in_set [of vs] by metis
  have nb: "hnodes t y \<noteq> None" if "y \<in> set (us @ vs)" for y using seg_dom [OF s] that by auto
  obtain nu where nu: "hnodes t u = Some nu" using nb [of u] uu(1) by auto
  obtain nx where nx: "hnodes t x = Some nx" using nb [of x] us by auto
  define a' where "a' = n\<lparr>prev_p := None, next_p := Some x\<rparr>"
  define h1 where "h1 = (\<lambda>y. if y = a then Some a' else if y = u then map_option (next_p_update (\<lambda>_. next_p n)) (hnodes t y)
      else if vs \<noteq> [] \<and> y = hd vs then map_option (prev_p_update (\<lambda>_. prev_p n)) (hnodes t y) else hnodes t y)"
  have "h1 x \<noteq> None" using nx by (auto simp: h1_def)
  then obtain mx where mx: "h1 x = Some mx" by blast
  define t' where "t' = t\<lparr>hnodes := h1(x \<mapsto> mx\<lparr>prev_p := Some a\<rparr>)\<rparr>"
  have s1: "seg h1 None (Some x) (us @ vs) None" and nn: "next_p n = (case vs of [] \<Rightarrow> None | v # _ \<Rightarrow> Some v)"
  proof -
    have e1: "h1 y = hnodes t y" if "y \<in> set us" "y \<noteq> last us" for y
      using that d hdv neq by (cases vs) (auto simp: h1_def u_def)
    have e2: "\<exists>y. hnodes t (last us) = Some y \<and> h1 (last us) = Some (y\<lparr>next_p := next_p n\<rparr>)"
      using nu neq(1) by (auto simp: h1_def u_def)
    have e3: "h1 y = hnodes t y" if "y \<in> set vs" "y \<noteq> hd vs" for y using that neq by (auto simp: h1_def)
    have e4: "\<exists>y. hnodes t (hd vs) = Some y \<and> h1 (hd vs) = Some (y\<lparr>prev_p := prev_p n\<rparr>)" if "vs \<noteq> []"
      using nb [of "hd vs"] that hdv by (auto simp: h1_def)
    note un = seg_unlink [OF s n e1 e2 e3 e4]
    show "seg h1 None (Some x) (us @ vs) None" using un(1) us head by simp
    show "next_p n = (case vs of [] \<Rightarrow> None | v # _ \<Rightarrow> Some v)" by (rule un(3))
  qed
  have seg': "seg (hnodes t') (Some a) (Some x) (us @ vs) None"
    using seg_reprev [of h1 None "Some x" x "ws @ vs" None mx "Some a"] s1 mx d us by (simp add: t'_def)
  note step = movetofront_def set_hnode_def hnode_at_def
  have move: "movetofront t i (Some a) = Some t'"
  proof (cases vs)
    case Nil
    have h1: "(hnodes t)(u \<mapsto> nu\<lparr>next_p := next_p n\<rparr>, a \<mapsto> a') = h1" using Nil nu neq(1) by (auto simp: h1_def)
    have "movetofront t i (Some a) = do { t \<leftarrow> Some (t\<lparr>hnodes := (hnodes t)(u \<mapsto> nu\<lparr>next_p := next_p n\<rparr>, a \<mapsto> a')\<rparr>);
        set_hnode (prev_p_update (\<lambda>_. Some a)) (Some x) t }"
      using k(5) head neq n nu uu(2) nn Nil by (simp add: step a'_def)
    then show ?thesis unfolding h1 using mx by (simp add: set_hnode_def t'_def)
  next
    case (Cons v ws')
    obtain nv where v: "hnodes t v = Some nv" "v \<noteq> a" "v \<noteq> u" using nb [of v] Cons hdv by auto
    have h1: "(hnodes t)(u \<mapsto> nu\<lparr>next_p := next_p n\<rparr>, v \<mapsto> nv\<lparr>prev_p := prev_p n\<rparr>, a \<mapsto> a') = h1" using Cons nu neq(1) v by (auto simp: h1_def)
    have "movetofront t i (Some a) = do { t \<leftarrow> Some (t\<lparr>hnodes := (hnodes t)(u \<mapsto> nu\<lparr>next_p := next_p n\<rparr>, v \<mapsto> nv\<lparr>prev_p := prev_p n\<rparr>, a \<mapsto> a')\<rparr>);
        set_hnode (prev_p_update (\<lambda>_. Some a)) (Some x) t }"
      using k(5) head neq n nu uu(2) nn Cons v by (simp add: step a'_def)
    then show ?thesis unfolding h1 using mx by (simp add: set_hnode_def t'_def)
  qed
  have found: "find (\<lambda>a. node_key t a = Some ck) (R i) = Some a"
  proof -
    have "\<exists>a. node_key t a = Some ck" using a by blast
    moreover have "(THE a. node_key t a = Some ck) = a" using a key_unique [OF R] by blast
    ultimately show ?thesis using find_key [OF R k(3)] by simp
  qed
  have keys: "node_key t' y = node_key t y" if y: "y \<in> set (us @ vs)" for y
  proof -
    have "y \<noteq> a" using y neq by auto
    obtain m where "hnodes t y = Some m" using nb [OF y] by auto
    moreover from this have "\<exists>m'. hnodes t' y = Some m' \<and> hkey m' = hkey m"
      using mx \<open>y \<noteq> a\<close> by (auto simp: t'_def h1_def split: if_splits)
    ultimately show ?thesis by (auto simp: node_key_def t'_def)
  qed
  have gone: "node_key t' y \<noteq> Some ck \<and> node_key t' y \<noteq> None" if "y \<in> set (us @ vs)" for y
  proof -
    have "y \<in> set (R i)" "y \<noteq> a" using that Ri neq by auto
    then show ?thesis using I(7) [OF k(4)] key_unique [OF R a] keys [OF that] by fastforce
  qed
  have first: "sfghash_find t key = Some (hdata n, t')"
  proof -
    have "sfghash_find_node t key = Some (Some a, t')" using find_node_row [OF R key k(3)] found sp move by simp
    moreover have "hnodes t' a = Some a'" using neq by (simp add: t'_def h1_def)
    ultimately show ?thesis by (simp add: sfghash_find_def hnode_at_def a'_def)
  qed
  have "sfghash_find_node t' key = Some (None, t')"
  proof -
    have eq: "keysize t' = keysize t" "row_of t' key klen = Some i" "row t' i = Some (Some x)" "splay t' = splay t" "cmp_ok t'"
    proof -
      show "keysize t' = keysize t" "splay t' = splay t" "cmp_ok t'" using table_inv_cmp [OF R] by (simp_all add: t'_def cmp_ok_def)
      have f: "nrows t' = nrows t" "hash_fcn t' = hash_fcn t" by (simp_all add: t'_def)
      show "row_of t' key klen = Some i" using k(2) unfolding row_of_def f .
      show "row t' i = Some (Some x)" using k(4) I(2) head by (simp add: t'_def row_def)
    qed
    have "canon (keysize t') key = Some ck" using key by (simp add: eq)
    moreover have "(if keysize t' > 0 then Some (keysize t') else strlen1 key) = Some klen" unfolding eq(1) by (rule k(1))
    moreover have "\<forall>y\<in>set (us @ vs). node_key t' y \<noteq> None" using gone by blast
    ultimately have "search_row t' (keysize t' > 0) key klen (Some x) = Some (find (\<lambda>a. node_key t' a = Some ck) (us @ vs))"
      using search_seg [OF eq(5) _ _ seg'] by blast
    moreover have "find (\<lambda>a. node_key t' a = Some ck) (us @ vs) = None" unfolding find_None_iff using gone by blast
    moreover have "(keysize t \<noteq> 0) = (keysize t > 0)" using I(3) by auto
    ultimately have search: "search_row t' (keysize t' \<noteq> 0) key klen (Some x) = Some None" by (simp add: eq)
    have len: "(if keysize t' \<noteq> 0 then Some (keysize t') else strlen1 key) = Some klen" using k(1) I(3) by (auto simp: eq split: if_splits)
    show ?thesis unfolding sfghash_find_node_def len using search by (simp add: eq(2,3))
  qed
  then show ?thesis using first by (simp add: sfghash_find_def)
qed

end
