(* ===== verification/SfghashSpec.thy ===== *)
theory SfghashSpec
  imports SfghashMap
begin

text \<open>
  What clients of the hash table rely on: a table that was created with \<^verbatim>\<open>sfghash_new\<close> behaves under any sequence of
  calls as a finite map from keys to data. The locale \<open>map_table\<close> states the contract of the single calls, its
  interpretation shows that the hash table fulfils it, and \<open>table_run\<close> runs a list of calls.
\<close>

section \<open>The interface\<close>

datatype ('r, 'd) table_call = Put 'r "'d option" | Get 'r | Drop 'r | Amount
datatype 'd answer = Status int | Value "'d option" | Number u32

fun call_key :: "('r, 'd) table_call \<Rightarrow> 'r option" where
  "call_key (Put r d) = Some r"
| "call_key (Get r) = Some r"
| "call_key (Drop r) = Some r"
| "call_key Amount = None"

definition call_ok :: "('r \<Rightarrow> 'k option) \<Rightarrow> ('r, 'd) table_call \<Rightarrow> bool" where
  "call_ok norm c \<longleftrightarrow> (case call_key c of None \<Rightarrow> True | Some r \<Rightarrow> norm r \<noteq> None)"

fun table_step ::
    "('t \<Rightarrow> 'r \<Rightarrow> 'd option \<Rightarrow> (int \<times> 't) option) \<Rightarrow> ('t \<Rightarrow> 'r \<Rightarrow> ('d option \<times> 't) option) \<Rightarrow> ('t \<Rightarrow> 'r \<Rightarrow> (int \<times> 't) option) \<Rightarrow>
     ('t \<Rightarrow> u32) \<Rightarrow> 't \<Rightarrow> ('r, 'd) table_call \<Rightarrow> ('d answer \<times> 't) option" where
  "table_step put look drp amount t (Put r d) = map_option (map_prod Status id) (put t r d)"
| "table_step put look drp amount t (Get r) = map_option (map_prod Value id) (look t r)"
| "table_step put look drp amount t (Drop r) = map_option (map_prod Status id) (drp t r)"
| "table_step put look drp amount t Amount = Some (Number (amount t), t)"

fun table_run ::
    "('t \<Rightarrow> 'r \<Rightarrow> 'd option \<Rightarrow> (int \<times> 't) option) \<Rightarrow> ('t \<Rightarrow> 'r \<Rightarrow> ('d option \<times> 't) option) \<Rightarrow> ('t \<Rightarrow> 'r \<Rightarrow> (int \<times> 't) option) \<Rightarrow>
     ('t \<Rightarrow> u32) \<Rightarrow> 't \<Rightarrow> ('r, 'd) table_call list \<Rightarrow> ('d answer list \<times> 't) option" where
  "table_run put look drp amount t [] = Some ([], t)"
| "table_run put look drp amount t (c # cs) = do {
     (a, t) \<leftarrow> table_step put look drp amount t c;
     (as, t) \<leftarrow> table_run put look drp amount t cs;
     Some (a # as, t) }"

fun map_call :: "('r \<Rightarrow> 'k option) \<Rightarrow> ('k \<rightharpoonup> 'd option) \<Rightarrow> ('r, 'd) table_call \<Rightarrow> 'd answer \<times> ('k \<rightharpoonup> 'd option)" where
  "map_call norm M (Put r d) =
     (let k = the (norm r) in if M k = None then (Status SFGHASH_OK, M(k \<mapsto> d)) else (Status SFGHASH_INTABLE, M))"
| "map_call norm M (Get r) = (Value (case M (the (norm r)) of None \<Rightarrow> None | Some d \<Rightarrow> d), M)"
| "map_call norm M (Drop r) =
     (let k = the (norm r) in (Status (if M k = None then SFGHASH_ERR else SFGHASH_OK), M(k := None)))"
| "map_call norm M Amount = (Number (of_nat (card (dom M))), M)"

fun map_run :: "('r \<Rightarrow> 'k option) \<Rightarrow> ('k \<rightharpoonup> 'd option) \<Rightarrow> ('r, 'd) table_call list \<Rightarrow> 'd answer list \<times> ('k \<rightharpoonup> 'd option)" where
  "map_run norm M [] = ([], M)"
| "map_run norm M (c # cs) = (let (a, M) = map_call norm M c; (as, M) = map_run norm M cs in (a # as, M))"

text \<open>The data of the entries that are dropped, in order.\<close>

fun map_drops :: "('r \<Rightarrow> 'k option) \<Rightarrow> ('k \<rightharpoonup> 'd option) \<Rightarrow> ('r, 'd) table_call list \<Rightarrow> 'd option list" where
  "map_drops norm M [] = []"
| "map_drops norm M (c # cs) =
     (case c of Drop r \<Rightarrow> (case M (the (norm r)) of None \<Rightarrow> [] | Some d \<Rightarrow> [d]) | _ \<Rightarrow> []) @ map_drops norm (snd (map_call norm M c)) cs"

locale map_table =
  fixes rep :: "'t \<Rightarrow> ('k \<rightharpoonup> 'd option) \<Rightarrow> bool" and norm :: "'r \<Rightarrow> 'k option"
    and put :: "'t \<Rightarrow> 'r \<Rightarrow> 'd option \<Rightarrow> (int \<times> 't) option" and look :: "'t \<Rightarrow> 'r \<Rightarrow> ('d option \<times> 't) option"
    and drp :: "'t \<Rightarrow> 'r \<Rightarrow> (int \<times> 't) option" and amount :: "'t \<Rightarrow> u32" and released :: "'t \<Rightarrow> 'd option list" and frees :: bool
  assumes put_new: "rep t M \<Longrightarrow> norm r = Some k \<Longrightarrow> M k = None \<Longrightarrow>
      \<exists>t'. put t r d = Some (SFGHASH_OK, t') \<and> rep t' (M(k \<mapsto> d)) \<and> released t' = released t"
    and put_old: "rep t M \<Longrightarrow> norm r = Some k \<Longrightarrow> M k \<noteq> None \<Longrightarrow>
      \<exists>t'. put t r d = Some (SFGHASH_INTABLE, t') \<and> rep t' M \<and> released t' = released t"
    and look_rep: "rep t M \<Longrightarrow> norm r = Some k \<Longrightarrow>
      \<exists>t'. look t r = Some (case M k of None \<Rightarrow> None | Some d \<Rightarrow> d, t') \<and> rep t' M \<and> released t' = released t"
    and drop_rep: "rep t M \<Longrightarrow> norm r = Some k \<Longrightarrow>
      \<exists>t'. drp t r = Some (if M k = None then SFGHASH_ERR else SFGHASH_OK, t') \<and> rep t' (M(k := None)) \<and>
        released t' = released t @ (if frees then case M k of None \<Rightarrow> [] | Some d \<Rightarrow> [d] else [])"
    and amount_rep: "rep t M \<Longrightarrow> amount t = of_nat (card (dom M))"
begin

lemma call_rep:
  assumes rep: "rep t M" and key: "call_ok norm c"
  shows "\<exists>t'. table_step put look drp amount t c = Some (fst (map_call norm M c), t') \<and> rep t' (snd (map_call norm M c)) \<and>
    released t' = released t @ (if frees then map_drops norm M [c] else [])"
proof (cases c)
  case (Put r d)
  then obtain k where k: "norm r = Some k" using key by (auto simp: call_ok_def)
  show ?thesis
  proof (cases "M k = None")
    case True
    from put_new [OF rep k True, of d] Put k True show ?thesis by (auto simp: Let_def)
  next
    case False
    from put_old [OF rep k False, of d] Put k False show ?thesis by (auto simp: Let_def)
  qed
next
  case (Get r)
  then obtain k where k: "norm r = Some k" using key by (auto simp: call_ok_def)
  from look_rep [OF rep k] Get k show ?thesis by auto
next
  case (Drop r)
  then obtain k where k: "norm r = Some k" using key by (auto simp: call_ok_def)
  from drop_rep [OF rep k] obtain t' where "drp t r = Some (if M k = None then SFGHASH_ERR else SFGHASH_OK, t')" "rep t' (M(k := None))"
    "released t' = released t @ (if frees then case M k of None \<Rightarrow> [] | Some d \<Rightarrow> [d] else [])" by blast
  then show ?thesis using Drop k by (auto simp: Let_def)
next
  case Amount
  then show ?thesis using amount_rep [OF rep] rep by simp
qed

lemma run_rep:
  assumes "rep t M" and "\<forall>c\<in>set cs. call_ok norm c"
  shows "\<exists>t'. table_run put look drp amount t cs = Some (fst (map_run norm M cs), t') \<and> rep t' (snd (map_run norm M cs)) \<and>
    released t' = released t @ (if frees then map_drops norm M cs else [])"
  using assms
proof (induction cs arbitrary: t M)
  case (Cons c cs)
  have "call_ok norm c" using Cons.prems(2) by simp
  from call_rep [OF Cons.prems(1) this] obtain t1 where t1: "table_step put look drp amount t c = Some (fst (map_call norm M c), t1)"
      "rep t1 (snd (map_call norm M c))" "released t1 = released t @ (if frees then map_drops norm M [c] else [])" by blast
  have "\<forall>d\<in>set cs. call_ok norm d" using Cons.prems(2) by simp
  from Cons.IH [OF t1(2) this] obtain t' where t':
    "table_run put look drp amount t1 cs = Some (fst (map_run norm (snd (map_call norm M c)) cs), t')"
    "rep t' (snd (map_run norm (snd (map_call norm M c)) cs))"
    "released t' = released t1 @ (if frees then map_drops norm (snd (map_call norm M c)) cs else [])" by blast
  have "table_run put look drp amount t (c # cs) = Some (fst (map_run norm M (c # cs)), t')" using t1(1) t'(1) by (simp add: split_beta Let_def)
  moreover have "rep t' (snd (map_run norm M (c # cs)))" using t'(2) by (simp add: split_beta Let_def)
  moreover have "released t' = released t @ (if frees then map_drops norm M (c # cs) else [])" using t1(3) t'(3) by simp
  ultimately show ?case by blast
qed simp

end

section \<open>The hash table provides it\<close>

definition hash_put :: "(nat \<Rightarrow> bool) \<Rightarrow> 'v sfghash \<Rightarrow> byte list \<Rightarrow> 'v option \<Rightarrow> (int \<times> 'v sfghash) option" where
  "hash_put alloc t key d = do { (c, t) \<leftarrow> sfghash_add alloc (Some t) key d; t \<leftarrow> t; Some (c, t) }"

lemma node_key_cnode: "node_key (t\<lparr>cnode := c\<rparr>) = node_key t"
  by (rule ext) (simp add: node_key_def)

lemma hash_rep_cnode [simp]: "hash_rep (t\<lparr>cnode := c\<rparr>) M = hash_rep t M"
  by (simp add: hash_rep_def table_inv_def node_key_cnode)

interpretation gh: map_table "\<lambda>t M. hash_rep t M \<and> keysize t = ks \<and> splay t \<le> 0 \<and> userfree t = uf" "canon ks" "hash_put (\<lambda>_. True)"
  sfghash_find sfghash_remove sfghash_count freed uf for ks uf
proof (unfold_locales, goal_cases)
  case (1 t M r k d)
  then show ?case using add_new [of t M r k "\<lambda>_. True" d] by (fastforce simp: hash_put_def)
next
  case (2 t M r k d)
  then show ?case using add_old [of t M r k "\<lambda>_. True" d] by (fastforce simp: hash_put_def)
next
  case (3 t M r k)
  then show ?case using find_rep [of t M r k] by fastforce
next
  case (4 t M r k)
  then show ?case using remove_rep [of t M r k] by fastforce
next
  case (5 t M)
  then obtain R where R: "table_inv t R" by (auto simp: hash_rep_def)
  then show ?case using rep_dom [of t M R] table_invD(10) [OF R] 5 by (simp add: sfghash_count_def)
qed

section \<open>Creation\<close>

lemma memcmp_eq: "length a = length b \<Longrightarrow> memcmp_fcn a b = 0 \<longleftrightarrow> a = b"
proof (induction a b rule: list_induct2)
  case (Cons x xs y ys)
  then show ?case by (cases "x = y") (simp_all add: memcmp_fcn_def word_uint_eq_iff)
qed (simp add: memcmp_fcn_def)

definition table_rows :: "int \<Rightarrow> int" where
  "table_rows rows = (if rows > 0 then sf_nearest_prime rows else - rows)"

lemma table_rows_nonneg: "0 \<le> table_rows rows"
  by (simp add: table_rows_def sf_nearest_prime_nonneg)

lemma s_alloc_size_fits: "0 \<le> n \<Longrightarrow> n < 2147483648 \<Longrightarrow> s_alloc_size n = n"
proof -
  assume n: "0 \<le> n" "n < 2147483648"
  have "s_alloc_size n = signed_take_bit 31 n" unfolding s_alloc_size_def by (simp only: signed_of_int) simp
  also have "\<dots> = n" using n by (intro signed_take_bit_int_eq_self) simp_all
  finally show ?thesis .
qed

lemma s_alloc_size_less: "s_alloc_size n < 2147483648"
  using sint_less [of "of_int n :: u32"] by (simp add: s_alloc_size_def)

lemma s_alloc_size_high: "2147483648 \<le> n \<Longrightarrow> n < 4294967296 \<Longrightarrow> s_alloc_size n = n - 4294967296"
proof -
  assume n: "2147483648 \<le> n" "n < 4294967296"
  have "(of_int n :: u32) = of_int (n - 4294967296)" by simp
  then have "s_alloc_size n = signed_take_bit 31 (n - 4294967296)" unfolding s_alloc_size_def by (simp only: signed_of_int) simp
  also have "\<dots> = n - 4294967296" using n by (intro signed_take_bit_int_eq_self) simp_all
  finally show ?thesis .
qed

lemma sfhashfcn_new_some: "0 < m \<Longrightarrow> m \<le> 2147480456 \<Longrightarrow> sfhashfcn_new rand m \<noteq> None"
proof -
  assume m: "0 < m" "m \<le> 2147480456"
  have "\<not> rand 0 mod m + 3191 > 2147483647" "\<not> rand 1 mod m + 709 > 2147483647"
    using pos_mod_bound [OF m(1), of "rand 0"] pos_mod_bound [OF m(1), of "rand 1"] m(2) by linarith+
  then show ?thesis unfolding sfhashfcn_new_def using m(1) by simp
qed

definition empty_table :: "'v sfghash \<Rightarrow> int \<Rightarrow> bool \<Rightarrow> bool \<Rightarrow> bool" where
  "empty_table t ks uk free \<longleftrightarrow> hash_rep t Map.empty \<and> keysize t = ks \<and> splay t = 0 \<and> userkey t = uk \<and> userfree t = free \<and> freed t = []"

lemma new_some:
  assumes "sfghash_new rand alloc rows ks uk free = Some (Some t)" and "0 \<le> ks"
  shows "empty_table t ks uk free"
proof -
  obtain f where pos: "table_rows rows \<noteq> 0" and t: "t = \<lparr>hash_fcn = sfhashfcn_hash f, keycmp_fcn = memcmp_fcn, keysize = ks, userkey = uk,
    table = replicate (nat (table_rows rows)) None, nrows = nat (table_rows rows), hcount = 0, userfree = free, crow = 0, cnode = None,
    splay = 0, hnodes = (\<lambda>_. None), hbrk = 0, hrequests = 3, blocks = 3, freed = []\<rparr>"
    using assms(1) unfolding sfghash_new_def table_rows_def [symmetric] by (auto simp: sfhashfcn_new_def Let_def split: if_splits)
  have pos: "0 < table_rows rows" using pos table_rows_nonneg [of rows] by simp
  have "table_inv t (\<lambda>_. [])"
    unfolding table_inv_def using pos assms(2) memcmp_eq by (auto simp: t)
  then have "hash_rep t Map.empty" by (rule hash_repI) (auto simp: node_key_def t)
  then show ?thesis by (simp add: empty_table_def) (simp add: t)
qed

lemma new_small:
  assumes "alloc 0" and "alloc 1" and "alloc 2" and "0 < table_rows rows" and "table_rows rows < 268435456" and "0 \<le> ks"
  shows "\<exists>t. sfghash_new rand alloc rows ks uk free = Some (Some t) \<and> empty_table t ks uk free"
proof -
  obtain f where f: "sfhashfcn_new rand (table_rows rows) = Some f" using sfhashfcn_new_some [of "table_rows rows" rand] assms(4,5) by auto
  have "s_alloc_size (8 * table_rows rows) = 8 * table_rows rows" using assms(4,5) by (intro s_alloc_size_fits) simp_all
  moreover have "rows \<noteq> - 2147483648" using assms(5) by (auto simp: table_rows_def)
  ultimately obtain t :: "'a sfghash" where "sfghash_new rand alloc rows ks uk free = Some (Some t)"
    unfolding sfghash_new_def table_rows_def [symmetric] using assms(1-4) f by (simp add: Let_def)
  then show ?thesis using new_some [OF _ assms(6)] by blast
qed

section \<open>Properties\<close>

text \<open>
  C33. A table from \<^verbatim>\<open>sfghash_new\<close> is a finite map: while no allocation fails, any sequence of additions, searches, removals and counts returns what a map from
  keys to data returns (the key being the fixed number of bytes, or the string, that the table compares), without a memory fault and
  without an endless loop. Deleting the table afterwards leaves no block allocated. When the table was created with a free function, it is called
  exactly with the datum of every removed entry, in order (NULL included), and at the end once with every datum that is left and not
  NULL; without one nothing is freed.
\<close>

theorem sfghash_map:
  assumes "sfghash_new rand alloc rows ks uk free = Some (Some t)" and "0 \<le> ks" and "\<forall>c\<in>set cs. call_ok (canon ks) c"
  shows "\<exists>t' fs. table_run (hash_put (\<lambda>_. True)) sfghash_find sfghash_remove sfghash_count t cs = Some (fst (map_run (canon ks) Map.empty cs), t') \<and>
    sfghash_delete (Some t') = Some (0, (if free then map_drops (canon ks) Map.empty cs else []) @ fs) \<and>
    mset fs = (let M = snd (map_run (canon ks) Map.empty cs)
               in if free then filter_mset (\<lambda>d. d \<noteq> None) (image_mset (\<lambda>k. the (M k)) (mset_set (dom M))) else {#})"
proof -
  have e: "empty_table t ks uk free" by (rule new_some [OF assms(1,2)])
  then have "hash_rep t Map.empty \<and> keysize t = ks \<and> splay t \<le> 0 \<and> userfree t = free" by (simp add: empty_table_def)
  from gh.run_rep [OF this assms(3)] obtain t' where
    run: "table_run (hash_put (\<lambda>_. True)) sfghash_find sfghash_remove sfghash_count t cs = Some (fst (map_run (canon ks) Map.empty cs), t')"
    and rep: "hash_rep t' (snd (map_run (canon ks) Map.empty cs))" "userfree t' = free"
    and freed: "freed t' = (if free then map_drops (canon ks) Map.empty cs else [])" using e by (auto simp: empty_table_def)
  from delete_rep [OF rep(1)] run show ?thesis unfolding freed rep(2) by (auto simp: Let_def)
qed

lemma sfghash_map_witness:
  "\<exists>t t' fs. sfghash_new (\<lambda>_. 7) (\<lambda>_. True) 10 2 False True = Some (Some t) \<and>
     table_run (hash_put (\<lambda>_. True)) sfghash_find sfghash_remove sfghash_count t
       [Put [1, 2] (Some (5 :: nat)), Put [3, 4] (Some 8), Put [1, 2] (Some 6), Get [1, 2], Drop [3, 4], Get [3, 4], Amount] =
     Some ([Status 0, Status 0, Status 1, Value (Some 5), Status 0, Value None, Number 1], t') \<and>
     sfghash_delete (Some t') = Some (0, Some 8 # fs) \<and> fs = [Some 5]"
proof -
  have "0 < table_rows 10" "table_rows 10 < 268435456" and two: "0 \<le> (2 :: int)"
    using nearest_small [of 10] by (simp_all add: table_rows_def)
  then obtain t :: "nat sfghash" where t: "sfghash_new (\<lambda>_. 7) (\<lambda>_. True) 10 2 False True = Some (Some t)"
    using new_small [of "\<lambda>_. True" 10 2 "\<lambda>_. 7" False True] by blast
  let ?cs = "[Put [1, 2] (Some (5 :: nat)), Put [3, 4] (Some 8), Put [1, 2] (Some 6), Get [1, 2], Drop [3, 4], Get [3, 4], Amount]"
  have keys: "canon 2 [1, 2] = Some [1, 2]" "canon 2 [3, 4] = Some [3, 4]" by (simp_all add: canon_def read_bytes_def)
  have ok: "\<forall>c\<in>set ?cs. call_ok (canon 2) c" by (simp add: call_ok_def keys)
  have answers: "fst (map_run (canon 2) Map.empty ?cs) = [Status 0, Status 0, Status 1, Value (Some 5), Status 0, Value None, Number 1]"
    and last: "snd (map_run (canon 2) Map.empty ?cs) = [[1, 2] \<mapsto> Some 5]" and drops: "map_drops (canon 2) Map.empty ?cs = [Some 8]"
    by (simp_all add: keys SFGHASH_OK_def SFGHASH_INTABLE_def Let_def fun_eq_iff)
  from sfghash_map [OF t two ok] obtain t' fs where
    r: "table_run (hash_put (\<lambda>_. True)) sfghash_find sfghash_remove sfghash_count t ?cs = Some (fst (map_run (canon 2) Map.empty ?cs), t')"
    "sfghash_delete (Some t') = Some (0, Some 8 # fs)" "mset fs = {#Some 5#}" unfolding last drops by auto
  then have "fs = [Some 5]" by simp
  with t r show ?thesis unfolding answers by blast
qed

text \<open>
  C34. With all allocations answered, \<^verbatim>\<open>sfghash_new\<close> gives an empty table for a positive number of rows, except for the sizes whose prime table entry is
  missing, and for a negative one above -2^28. It divides by zero for 0 rows and for the missing sizes, and the negation of the least \<^verbatim>\<open>int\<close>
  overflows. From -2^28 to -2^29 the size of the table becomes negative in the parameter of \<^verbatim>\<open>s_alloc\<close> and the answer is NULL; below that it never gives a table, and
  when the truncated size is not negative (at -2^29 it is 0) it writes outside its block.
\<close>

theorem sfghash_new_total:
  assumes "0 \<le> ks" and "- 2147483648 \<le> rows" "rows < 2147483648"
  shows "(rows = 0 \<or> rows = - 2147483648 \<or> rows > 0 \<and> zero_band rows \<longrightarrow>
      sfghash_new rand (\<lambda>_. True) rows ks uk free = (None :: 'v sfghash option option)) \<and>
    (rows > 0 \<and> \<not> zero_band rows \<or> - 268435456 < rows \<and> rows < 0 \<longrightarrow>
      (\<exists>t :: 'v sfghash. sfghash_new rand (\<lambda>_. True) rows ks uk free = Some (Some t) \<and> empty_table t ks uk free)) \<and>
    (- 536870912 < rows \<and> rows \<le> - 268435456 \<longrightarrow> sfghash_new rand (\<lambda>_. True) rows ks uk free = (Some None :: 'v sfghash option option)) \<and>
    (rows \<le> - 536870912 \<longrightarrow> (\<forall>t :: 'v sfghash. sfghash_new rand (\<lambda>_. True) rows ks uk free \<noteq> Some (Some t)) \<and>
      (0 \<le> s_alloc_size (8 * - rows) \<longrightarrow> sfghash_new rand (\<lambda>_. True) rows ks uk free = (None :: 'v sfghash option option)))"
proof (intro conjI impI)
  have zero: "table_rows rows = 0 \<longleftrightarrow> rows = 0 \<or> rows > 0 \<and> zero_band rows" by (auto simp: table_rows_def nearest_zero_iff)
  note new = sfghash_new_def [of rand "\<lambda>_. True" rows ks uk free, folded table_rows_def]
  show "sfghash_new rand (\<lambda>_. True) rows ks uk free = (None :: 'v sfghash option option)" if "rows = 0 \<or> rows = - 2147483648 \<or> rows > 0 \<and> zero_band rows"
    using that zero unfolding new by (auto simp: sfhashfcn_new_def)
  show "\<exists>t :: 'v sfghash. sfghash_new rand (\<lambda>_. True) rows ks uk free = Some (Some t) \<and> empty_table t ks uk free"
    if r: "rows > 0 \<and> \<not> zero_band rows \<or> - 268435456 < rows \<and> rows < 0"
  proof (rule new_small)
    have "table_rows rows \<noteq> 0" using r zero by auto
    then show "0 < table_rows rows" using table_rows_nonneg [of rows] by simp
    show "table_rows rows < 268435456" using r nearest_bound [of rows] by (auto simp: table_rows_def)
  qed (use assms(1) in simp_all)
  show "sfghash_new rand (\<lambda>_. True) rows ks uk free = (Some None :: 'v sfghash option option)" if r: "- 536870912 < rows \<and> rows \<le> - 268435456"
  proof -
    have m: "table_rows rows = - rows" using r by (simp add: table_rows_def)
    obtain f where "sfhashfcn_new rand (- rows) = Some f" using sfhashfcn_new_some [of "- rows" rand] r by auto
    moreover have "s_alloc_size (8 * - rows) = 8 * - rows - 4294967296" using r by (intro s_alloc_size_high) simp_all
    ultimately show ?thesis unfolding new m using r by (simp add: Let_def)
  qed
  assume r: "rows \<le> - 536870912"
  then have m: "table_rows rows = - rows" by (simp add: table_rows_def)
  have s: "s_alloc_size (8 * - rows) < 8 * - rows" using s_alloc_size_less [of "8 * - rows"] r by simp
  show "\<forall>t :: 'v sfghash. sfghash_new rand (\<lambda>_. True) rows ks uk free \<noteq> Some (Some t)"
    using s unfolding new m by (auto simp: Let_def split: option.split)
  show "sfghash_new rand (\<lambda>_. True) rows ks uk free = (None :: 'v sfghash option option)" if "0 \<le> s_alloc_size (8 * - rows)"
    using s that unfolding new m by (auto simp: Let_def split: option.split)
qed

lemma sfghash_new_total_witness:
  "sfghash_new (\<lambda>_. 0) (\<lambda>_. True) 1048000 0 False False = (None :: nat sfghash option option) \<and>
   sfghash_new (\<lambda>_. 0) (\<lambda>_. True) (- 536870912) 0 False False = (None :: nat sfghash option option) \<and>
   (\<exists>t :: nat sfghash. sfghash_new (\<lambda>_. 0) (\<lambda>_. True) (- 5) 0 False False = Some (Some t) \<and> empty_table t 0 False False)"
  using sfghash_new_total [of 0 1048000 "\<lambda>_. 0" False False, where 'v = nat] sfghash_new_total [of 0 "- 536870912" "\<lambda>_. 0" False False, where 'v = nat]
    sfghash_new_total [of 0 "- 5" "\<lambda>_. 0" False False, where 'v = nat]
  by (auto simp: zero_band_def s_alloc_size_def)

text \<open>
  C35. In splay mode a search that finds a node which is not the first of its row returns the node's datum but loses the node: the table
  still points to the former first node, so the same search then finds nothing.
\<close>

theorem sfghash_splay_loses:
  assumes "hash_rep t M" and "canon (keysize t) key = Some ck" and "0 < splay t"
    and "node_key t a = Some ck" and "hnodes t a = Some n" and "prev_p n \<noteq> None"
  shows "\<exists>t'. sfghash_find t key = Some (hdata n, t') \<and> sfghash_find t' key = Some (None, t') \<and> M ck = Some (hdata n)"
  using splay_loses [OF assms] rep_lookup [OF assms(1,4,5)] by blast

definition sample :: "nat sfghash" where
  "sample = \<lparr>hash_fcn = (\<lambda>_. 0), keycmp_fcn = memcmp_fcn, keysize = 1, userkey = False, table = [Some 1], nrows = 1, hcount = 2,
     userfree = False, crow = 0, cnode = None, splay = 1,
     hnodes = [0 \<mapsto> \<lparr>next_p = None, prev_p = Some 1, hkey = Some [10], hdata = Some 5\<rparr>,
               1 \<mapsto> \<lparr>next_p = Some 0, prev_p = None, hkey = Some [20], hdata = Some 6\<rparr>],
     hbrk = 2, hrequests = 7, blocks = 7, freed = []\<rparr>"

lemma sample_keys: "node_key sample a = (if a = 0 then Some [10] else if a = 1 then Some [20] else None)"
  by (simp add: node_key_def sample_def canon_def read_bytes_def)

lemma sample_data: "hnodes sample a = Some n \<Longrightarrow> a = 0 \<and> hdata n = Some 5 \<or> a = 1 \<and> hdata n = Some 6"
  by (auto simp: sample_def split: if_splits)

lemma sample_rep: "hash_rep sample [[10] \<mapsto> Some 5, [20] \<mapsto> Some 6]"
proof (rule hash_repI)
  have keys: "node_key sample = (\<lambda>a. if a = 0 then Some [10] else if a = 1 then Some [20] else None)" by (rule ext) (rule sample_keys)
  have dom: "dom (hnodes sample) = {0, 1}" by (auto simp: sample_def split: if_splits)
  have chain: "seg (hnodes sample) None (table sample ! 0) [1, 0] None" by (simp add: sample_def)
  have cmp: "keycmp_fcn sample = memcmp_fcn" "hash_fcn sample = (\<lambda>_. 0)" "nrows sample = 1" by (simp_all add: sample_def)
  show "table_inv sample (\<lambda>_. [1, 0])"
    unfolding table_inv_def dom keys cmp using memcmp_eq chain by (auto simp: sample_def inj_on_def)
  show "([[10] \<mapsto> Some 5, [20] \<mapsto> Some 6]) k = Some (hdata n)" if "node_key sample a = Some k" "hnodes sample a = Some n" for a n k
    using that(1) sample_data [OF that(2)] by (auto simp: sample_keys split: if_splits)
  show "\<exists>a. node_key sample a = Some k" if "([[10 :: byte] \<mapsto> Some (5 :: nat), [20] \<mapsto> Some 6]) k \<noteq> None" for k
    using that by (auto simp: sample_keys split: if_splits)
qed

lemma sfghash_splay_loses_witness:
  "\<exists>t'. sfghash_find sample [10] = Some (Some 5, t') \<and> sfghash_find t' [10] = Some (None, t')"
proof -
  define n :: "nat hnode" where "n = \<lparr>next_p = None, prev_p = Some 1, hkey = Some [10], hdata = Some 5\<rparr>"
  have "canon (keysize sample) [10] = Some [10]" "0 < splay sample" "node_key sample 0 = Some [10]" "hnodes sample 0 = Some n" "prev_p n \<noteq> None" "hdata n = Some 5"
    by (simp_all add: sample_keys n_def) (simp_all add: sample_def canon_def read_bytes_def)
  then show ?thesis using sfghash_splay_loses [OF sample_rep, of "[10]" "[10]" 0 n] by auto
qed

end
