(* ===== verification/SfghashIter.thy ===== *)
theory SfghashIter
  imports SfghashSpec
begin

text \<open>
  Walking over the hash table with \<^verbatim>\<open>sfghash_findfirst\<close> and \<^verbatim>\<open>sfghash_findnext\<close>. \<open>all_nodes\<close> is the client's loop, a partial function: that
  it gives a result means that the walk ends.
\<close>

partial_function (option) other_nodes :: "'v sfghash \<Rightarrow> (addr list \<times> 'v sfghash) option" where
  "other_nodes t = do {
     (n, t) \<leftarrow> sfghash_findnext t;
     (case n of None \<Rightarrow> Some ([], t) | Some a \<Rightarrow> do { (as, t) \<leftarrow> other_nodes t; Some (a # as, t) }) }"

definition all_nodes :: "'v sfghash \<Rightarrow> (addr list \<times> 'v sfghash) option" where
  "all_nodes t = do {
     (n, t) \<leftarrow> sfghash_findfirst t;
     (case n of None \<Rightarrow> Some ([], t) | Some a \<Rightarrow> do { (as, t) \<leftarrow> other_nodes t; Some (a # as, t) }) }"

lemma node_key_cursor [simp]: "node_key (t\<lparr>cnode := c\<rparr>) = node_key t" "node_key (t\<lparr>crow := j\<rparr>) = node_key t"
  by (rule ext, simp add: node_key_def)+

lemma table_inv_cursor [simp]: "table_inv (t\<lparr>cnode := c\<rparr>) R = table_inv t R" "table_inv (t\<lparr>crow := j\<rparr>) R = table_inv t R"
  by (simp_all add: table_inv_def)

definition later :: "(nat \<Rightarrow> addr list) \<Rightarrow> 'v sfghash \<Rightarrow> nat \<Rightarrow> addr list" where
  "later R t i = concat (map R [i..<nrows t])"

lemma later_step: "i < nrows t \<Longrightarrow> later R t i = R i @ later R t (Suc i)"
  by (simp add: later_def upt_conv_Cons)

lemma later_end [simp]: "nrows t \<le> i \<Longrightarrow> later R t i = []"
  by (simp add: later_def)

text \<open>The cursor of \<open>t\<close> stands on the first of the nodes \<open>xs\<close> that are still to come.\<close>

definition cursor :: "(nat \<Rightarrow> addr list) \<Rightarrow> 'v sfghash \<Rightarrow> addr list \<Rightarrow> bool" where
  "cursor R t xs \<longleftrightarrow> (case xs of
       [] \<Rightarrow> cnode t = None
     | x # _ \<Rightarrow> cnode t = Some x \<and> crow t < nrows t \<and> (\<exists>us ys. R (crow t) = us @ ys \<and> ys \<noteq> [] \<and> xs = ys @ later R t (Suc (crow t))))"

lemma skip_rows_step:
  "crow t < nrows t \<Longrightarrow> crow t < length (table t) \<Longrightarrow> skip_rows t =
    (if table t ! crow t \<noteq> None then Some (t\<lparr>cnode := table t ! crow t\<rparr>) else skip_rows (t\<lparr>cnode := None, crow := crow t + 1\<rparr>))"
  by (subst skip_rows.simps) (simp add: row_def)

lemma skip_rows_cursor:
  assumes "table_inv t R" and "crow t \<ge> nrows t \<Longrightarrow> cnode t = None"
  shows "\<exists>c j. skip_rows t = Some (t\<lparr>cnode := c, crow := j\<rparr>) \<and> cursor R (t\<lparr>cnode := c, crow := j\<rparr>) (later R t (crow t)) \<and>
    (j < nrows t \<longleftrightarrow> later R t (crow t) \<noteq> [])"
  using assms
proof (induction "nrows t - crow t" arbitrary: t)
  case 0
  then have "t\<lparr>cnode := None, crow := crow t\<rparr> = t" by simp
  then show ?case using 0 by (intro exI [of _ None] exI [of _ "crow t"]) (simp add: skip_rows.simps [of t] cursor_def)
next
  case (Suc m)
  let ?i = "crow t"
  have i: "?i < nrows t" using Suc.hyps(2) by simp
  have len: "?i < length (table t)" using i table_invD(2) [OF Suc.prems(1)] by simp
  have seg: "seg (hnodes t) None (table t ! ?i) (R ?i) None" by (rule table_invD(5) [OF Suc.prems(1) i])
  show ?case
  proof (cases "R ?i")
    case Nil
    let ?t = "t\<lparr>cnode := None, crow := ?i + 1\<rparr>"
    have none: "table t ! ?i = None" using seg Nil by simp
    have inv: "table_inv ?t R" using Suc.prems(1) by simp
    have "m = nrows ?t - crow ?t" using Suc.hyps(2) by simp
    from Suc.hyps(1) [OF this inv] obtain c j where c: "skip_rows ?t = Some (?t\<lparr>cnode := c, crow := j\<rparr>)"
      "cursor R (?t\<lparr>cnode := c, crow := j\<rparr>) (later R ?t (crow ?t))" "j < nrows ?t \<longleftrightarrow> later R ?t (crow ?t) \<noteq> []" by auto
    have "later R t ?i = later R ?t (crow ?t)" using later_step [OF i, of R] Nil by (simp add: later_def)
    then show ?thesis using c none skip_rows_step [OF i len] by auto
  next
    case (Cons x xs)
    then have x: "table t ! ?i = Some x" using seg by simp
    have "t\<lparr>cnode := Some x\<rparr> = t\<lparr>cnode := Some x, crow := ?i\<rparr>" by simp
    then have "skip_rows t = Some (t\<lparr>cnode := Some x, crow := ?i\<rparr>)" using skip_rows_step [OF i len] x by simp
    moreover have "cursor R (t\<lparr>cnode := Some x, crow := ?i\<rparr>) (later R t ?i)"
      using Cons i later_step [OF i, of R] by (auto simp: cursor_def later_def)
    ultimately show ?thesis using i Cons later_step [OF i, of R] by (intro exI [of _ "Some x"] exI [of _ ?i]) simp
  qed
qed

lemma next_cursor:
  assumes inv: "table_inv t R" and cur: "cursor R t (x # xs)"
  shows "\<exists>c j. sfghash_next t = Some (t\<lparr>cnode := c, crow := j\<rparr>) \<and> cursor R (t\<lparr>cnode := c, crow := j\<rparr>) xs"
proof -
  obtain us ys where c: "cnode t = Some x" "crow t < nrows t" "R (crow t) = us @ ys" "ys \<noteq> []" "x # xs = ys @ later R t (Suc (crow t))"
    using cur by (auto simp: cursor_def)
  obtain zs where ys: "ys = x # zs" "xs = zs @ later R t (Suc (crow t))" using c(4,5) by (cases ys) auto
  have seg: "seg (hnodes t) None (table t ! crow t) (us @ x # zs) None" using table_invD(5) [OF inv c(2)] c(3) ys by simp
  then obtain n where n1: "hnodes t x = Some n" "seg (hnodes t) (Some x) (next_p n) zs None" by (auto simp: seg_append)
  note n = n1(1) seg_first [OF n1(2)]
  show ?thesis
  proof (cases zs)
    case Nil
    let ?t = "t\<lparr>cnode := None, crow := crow t + 1\<rparr>"
    have "table_inv ?t R" using inv by simp
    from skip_rows_cursor [OF this] obtain c' j where s: "skip_rows ?t = Some (?t\<lparr>cnode := c', crow := j\<rparr>)"
      "cursor R (?t\<lparr>cnode := c', crow := j\<rparr>) (later R ?t (crow ?t))" by auto
    have "xs = later R ?t (crow ?t)" using ys(2) Nil by (simp add: later_def)
    moreover have "sfghash_next t = skip_rows ?t" using c(1) n Nil by (simp add: sfghash_next_def hnode_at_def)
    ultimately show ?thesis using s by auto
  next
    case (Cons z zs')
    have "sfghash_next t = Some (t\<lparr>cnode := Some z, crow := crow t\<rparr>)" using c(1) n Cons by (simp add: sfghash_next_def hnode_at_def)
    moreover have "cursor R (t\<lparr>cnode := Some z, crow := crow t\<rparr>) xs"
      using ys(2) Cons c(2,3) ys(1) by (auto simp: cursor_def later_def intro!: exI [of _ "us @ [x]"])
    ultimately show ?thesis by blast
  qed
qed

lemma other_nodes_all: "table_inv t R \<Longrightarrow> cursor R t xs \<Longrightarrow> \<exists>t'. other_nodes t = Some (xs, t')"
proof (induction xs arbitrary: t)
  case Nil
  then show ?case by (subst other_nodes.simps) (simp add: cursor_def sfghash_findnext_def)
next
  case (Cons x xs)
  obtain c j where c: "sfghash_next t = Some (t\<lparr>cnode := c, crow := j\<rparr>)" "cursor R (t\<lparr>cnode := c, crow := j\<rparr>) xs"
    using next_cursor [OF Cons.prems] by blast
  have "table_inv (t\<lparr>cnode := c, crow := j\<rparr>) R" using Cons.prems(1) by simp
  from Cons.IH [OF this c(2)] obtain t' where "other_nodes (t\<lparr>cnode := c, crow := j\<rparr>) = Some (xs, t')" by blast
  moreover have "sfghash_findnext t = Some (Some x, t\<lparr>cnode := c, crow := j\<rparr>)"
    using c(1) Cons.prems(2) by (simp add: cursor_def sfghash_findnext_def)
  ultimately show ?case by (subst other_nodes.simps) simp
qed

lemma all_nodes_all:
  assumes inv: "table_inv t R"
  shows "\<exists>t'. all_nodes t = Some (later R t 0, t')"
proof -
  let ?t = "t\<lparr>crow := 0\<rparr>"
  have inv': "table_inv ?t R" using inv by simp
  have "crow ?t \<ge> nrows ?t \<Longrightarrow> cnode ?t = None" using table_invD(1) [OF inv] by simp
  from skip_rows_cursor [OF inv' this] obtain c j where s: "skip_rows ?t = Some (?t\<lparr>cnode := c, crow := j\<rparr>)"
    "cursor R (?t\<lparr>cnode := c, crow := j\<rparr>) (later R ?t 0)" "j < nrows t \<longleftrightarrow> later R ?t 0 \<noteq> []" by auto
  let ?u = "?t\<lparr>cnode := c, crow := j\<rparr>"
  have L: "later R ?t 0 = later R t 0" by (simp add: later_def)
  have inv2: "table_inv ?u R" using inv by simp
  show ?thesis
  proof (cases "later R t 0")
    case Nil
    then show ?thesis using s L by (simp add: all_nodes_def sfghash_findfirst_def)
  next
    case (Cons x xs)
    then obtain c' k where n: "sfghash_next ?u = Some (?u\<lparr>cnode := c', crow := k\<rparr>)" "cursor R (?u\<lparr>cnode := c', crow := k\<rparr>) xs"
      using next_cursor [OF inv2, of x xs] s(2) L by auto
    have "table_inv (?u\<lparr>cnode := c', crow := k\<rparr>) R" using inv by simp
    from other_nodes_all [OF this n(2)] obtain t' where "other_nodes (?u\<lparr>cnode := c', crow := k\<rparr>) = Some (xs, t')" by blast
    moreover have "c = Some x" using s(2) L Cons by (simp add: cursor_def)
    moreover have "j < nrows t" using s(3) L Cons by simp
    ultimately show ?thesis using s(1) n(1) Cons by (simp add: all_nodes_def sfghash_findfirst_def)
  qed
qed

lemma later_distinct: "table_inv t R \<Longrightarrow> distinct (later R t i) \<and> set (later R t i) = (\<Union>j\<in>{i..<nrows t}. set (R j))"
proof (induction "nrows t - i" arbitrary: i)
  case 0
  then show ?case by simp
next
  case (Suc m)
  then have i: "i < nrows t" by simp
  have IH: "distinct (later R t (Suc i))" "set (later R t (Suc i)) = (\<Union>j\<in>{Suc i..<nrows t}. set (R j))"
    using Suc.hyps(1) [of "Suc i"] Suc.hyps(2) Suc.prems by auto
  have "distinct (R i)" using seg_distinct_end [OF table_invD(5) [OF Suc.prems i]] .
  moreover have "set (R i) \<inter> (\<Union>j\<in>{Suc i..<nrows t}. set (R j)) = {}"
  proof (intro equals0I)
    fix a
    assume "a \<in> set (R i) \<inter> (\<Union>j\<in>{Suc i..<nrows t}. set (R j))"
    then obtain j where "Suc i \<le> j" "j < nrows t" "a \<in> set (R i)" "a \<in> set (R j)" by auto
    then show False using row_unique [OF Suc.prems i, of j a] by simp
  qed
  moreover have "{i..<nrows t} = insert i {Suc i..<nrows t}" using i by auto
  ultimately show ?case using IH later_step [OF i, of R] by simp
qed

section \<open>The property\<close>

definition entry :: "'v sfghash \<Rightarrow> addr \<Rightarrow> byte list \<times> 'v option" where
  "entry t a = (the (node_key t a), hdata (the (hnodes t a)))"

text \<open>
  C36. The walk with \<^verbatim>\<open>sfghash_findfirst\<close> and \<^verbatim>\<open>sfghash_findnext\<close> ends for every table, and visits every entry of the map exactly once.
\<close>

theorem sfghash_walk:
  assumes "hash_rep t M"
  shows "\<exists>as t'. all_nodes t = Some (as, t') \<and> distinct (map fst (map (entry t) as)) \<and> map_of (map (entry t) as) = M"
proof -
  obtain R where R: "table_inv t R" using assms by (auto simp: hash_rep_def)
  define as where "as = later R t 0"
  obtain t' where walk: "all_nodes t = Some (as, t')" using all_nodes_all [OF R] by (auto simp: as_def)
  have "(\<Union>j\<in>{0..<nrows t}. set (R j)) = dom (hnodes t)" unfolding table_invD(6) [OF R] by (simp add: atLeast0LessThan)
  then have set: "set as = dom (hnodes t)" and dist: "distinct as" using later_distinct [OF R, of 0] by (auto simp: as_def)
  note bij = rep_bij [OF assms R]
  have keys: "map fst (map (entry t) as) = map (\<lambda>a. the (node_key t a)) as" by (simp add: entry_def)
  have d: "distinct (map fst (map (entry t) as))"
    unfolding keys using dist bij by (simp add: distinct_map bij_betw_def set)
  have "map_of (map (entry t) as) k = M k" for k
  proof (cases "M k")
    case None
    then have "k \<notin> (\<lambda>a. the (node_key t a)) ` dom (hnodes t)" using bij by (simp add: bij_betw_def domIff)
    then have "k \<notin> fst ` set (map (entry t) as)" by (auto simp: set entry_def)
    then show ?thesis using None by (simp add: map_of_eq_None_iff)
  next
    case (Some v)
    then obtain a where a: "node_key t a = Some k" using rep_none [OF assms, of k] by auto
    then obtain n where n: "hnodes t a = Some n" using node_key_dom [OF a] by auto
    then have "entry t a = (k, v)" using a Some rep_lookup [OF assms a n] by (simp add: entry_def)
    moreover have "a \<in> set as" using n set by auto
    ultimately have "(k, v) \<in> set (map (entry t) as)" by force
    then show ?thesis using map_of_is_SomeI [OF d] Some by simp
  qed
  then show ?thesis using walk d by blast
qed

lemma sfghash_walk_witness: "\<exists>as t'. all_nodes sample = Some (as, t') \<and> map_of (map (entry sample) as) = [[10] \<mapsto> Some 5, [20] \<mapsto> Some 6]"
  using sfghash_walk [OF sample_rep] by blast

end
