(* ===== verification/Heap32.thy ===== *)
theory Heap32
  imports Prelude "HOL-Library.Multiset" "HOL-Library.Monad_Syntax"
begin

text \<open>
  The binary heaps of \<^verbatim>\<open>heap/bigheap.c\<close> and \<^verbatim>\<open>heap/smallheap.c\<close> on arrays of \<^verbatim>\<open>uint32_t\<close>, indices and sizes at their width.
  Reading or writing outside the array is None, and so is a recursion that does not end. Both files have the same shape: the locale
  \<open>sifting\<close> proves it correct once for an order \<open>higher\<close>, and is interpreted with \<open>>\<close> and \<open><\<close>.
\<close>

section \<open>The code\<close>

definition elem_at :: "u32 list \<Rightarrow> u32 \<Rightarrow> u32 option" where
  "elem_at array i = (if unat i < length array then Some (array ! unat i) else None)"

definition Swap :: "u32 list \<Rightarrow> u32 \<Rightarrow> u32 \<Rightarrow> u32 list option" where
  "Swap array i j = do {
     tmp \<leftarrow> elem_at array j;
     x \<leftarrow> elem_at array i;
     Some (array[unat j := x, unat i := tmp]) }"

partial_function (option) MaxHeapify :: "u32 list \<Rightarrow> u32 \<Rightarrow> u32 \<Rightarrow> u32 list option" where
  "MaxHeapify array heapSize currentNode =
     (let leftChild = 2 * currentNode + 1;
          rightChild = 2 * currentNode + 2
      in do {
        largest \<leftarrow> (if leftChild < heapSize
                   then do {
                     x \<leftarrow> elem_at array leftChild;
                     y \<leftarrow> elem_at array currentNode;
                     Some (if x > y then leftChild else currentNode) }
                   else Some currentNode);
        largest \<leftarrow> (if rightChild < heapSize
                   then do {
                     x \<leftarrow> elem_at array rightChild;
                     y \<leftarrow> elem_at array largest;
                     Some (if x > y then rightChild else largest) }
                   else Some largest);
        (if largest \<noteq> currentNode
         then do { array \<leftarrow> Swap array largest currentNode; MaxHeapify array heapSize largest }
         else Some array) })"

partial_function (option) MinHeapify :: "u32 list \<Rightarrow> u32 \<Rightarrow> u32 \<Rightarrow> u32 list option" where
  "MinHeapify array heapSize currentNode =
     (let leftChild = 2 * currentNode + 1;
          rightChild = 2 * currentNode + 2
      in do {
        minimum \<leftarrow> (if leftChild < heapSize
                   then do {
                     x \<leftarrow> elem_at array leftChild;
                     y \<leftarrow> elem_at array currentNode;
                     Some (if x < y then leftChild else currentNode) }
                   else Some currentNode);
        minimum \<leftarrow> (if rightChild < heapSize
                   then do {
                     x \<leftarrow> elem_at array rightChild;
                     y \<leftarrow> elem_at array minimum;
                     Some (if x < y then rightChild else minimum) }
                   else Some minimum);
        (if minimum \<noteq> currentNode
         then do { array \<leftarrow> Swap array minimum currentNode; MinHeapify array heapSize minimum }
         else Some array) })"

text \<open>The loops of the construction, down from \<open>i\<close>.\<close>

fun max_creat_loop :: "u32 \<Rightarrow> nat \<Rightarrow> u32 list \<Rightarrow> u32 list option" where
  "max_creat_loop heapSize 0 array = MaxHeapify array heapSize 0"
| "max_creat_loop heapSize (Suc i) array = do { array \<leftarrow> MaxHeapify array heapSize (of_nat (Suc i)); max_creat_loop heapSize i array }"

definition MaxHeapCreat :: "u32 list \<Rightarrow> u32 \<Rightarrow> u32 list option" where
  "MaxHeapCreat array heapSize = max_creat_loop heapSize (unat (heapSize div 2)) array"

definition MaxInsert :: "u32 list \<Rightarrow> u32 \<Rightarrow> u32 \<Rightarrow> u32 list option" where
  "MaxInsert array heapSize x = do {
     first \<leftarrow> elem_at array 0;
     (if x < first then MaxHeapify (array[0 := x]) heapSize 0 else Some array) }"

fun min_creat_loop :: "u32 \<Rightarrow> nat \<Rightarrow> u32 list \<Rightarrow> u32 list option" where
  "min_creat_loop heapSize 0 array = MinHeapify array heapSize 0"
| "min_creat_loop heapSize (Suc i) array = do { array \<leftarrow> MinHeapify array heapSize (of_nat (Suc i)); min_creat_loop heapSize i array }"

definition MinHeapCreat :: "u32 list \<Rightarrow> u32 \<Rightarrow> u32 list option" where
  "MinHeapCreat array heapSize = min_creat_loop heapSize (unat (heapSize div 2)) array"

definition MinInsert :: "u32 list \<Rightarrow> u32 \<Rightarrow> u32 \<Rightarrow> u32 list option" where
  "MinInsert array heapSize x = do {
     first \<leftarrow> elem_at array 0;
     (if x > first then MinHeapify (array[0 := x]) heapSize 0 else Some array) }"

section \<open>Heap order\<close>

definition kid :: "nat \<Rightarrow> nat \<Rightarrow> bool" where
  "kid j i \<longleftrightarrow> j = 2 * i + 1 \<or> j = 2 * i + 2"

text \<open>\<open>heap_at\<close>: no child of \<open>i\<close> is above it. \<open>heap_from\<close>: so for all nodes from \<open>k\<close> on.\<close>

definition heap_at :: "(u32 \<Rightarrow> u32 \<Rightarrow> bool) \<Rightarrow> u32 list \<Rightarrow> nat \<Rightarrow> nat \<Rightarrow> bool" where
  "heap_at higher a n i \<longleftrightarrow> (\<forall>j. kid j i \<longrightarrow> j < n \<longrightarrow> \<not> higher (a ! j) (a ! i))"

definition heap_from :: "(u32 \<Rightarrow> u32 \<Rightarrow> bool) \<Rightarrow> u32 list \<Rightarrow> nat \<Rightarrow> nat \<Rightarrow> bool" where
  "heap_from higher a n k \<longleftrightarrow> (\<forall>i\<ge>k. heap_at higher a n i)"

text \<open>The heap order from \<open>k\<close> on, except perhaps at \<open>c\<close>, whose children fit under its parent.\<close>

definition heap_except :: "(u32 \<Rightarrow> u32 \<Rightarrow> bool) \<Rightarrow> u32 list \<Rightarrow> nat \<Rightarrow> nat \<Rightarrow> nat \<Rightarrow> bool" where
  "heap_except higher a n k c \<longleftrightarrow> k \<le> c \<and> (\<forall>i\<ge>k. i \<noteq> c \<longrightarrow> heap_at higher a n i) \<and>
     (\<forall>p\<ge>k. kid c p \<longrightarrow> (\<forall>j. kid j c \<longrightarrow> j < n \<longrightarrow> \<not> higher (a ! j) (a ! p)))"

definition same_elems :: "nat \<Rightarrow> u32 list \<Rightarrow> u32 list \<Rightarrow> bool" where
  "same_elems n a b \<longleftrightarrow> length b = length a \<and> mset (take n b) = mset (take n a) \<and> drop n b = drop n a"

lemma same_elems_refl [simp]: "same_elems n a a"
  by (simp add: same_elems_def)

lemma same_elems_trans: "same_elems n a b \<Longrightarrow> same_elems n b c \<Longrightarrow> same_elems n a c"
  by (simp add: same_elems_def)

lemma same_elems_swap: "i < n \<Longrightarrow> j < n \<Longrightarrow> n \<le> length a \<Longrightarrow> same_elems n a (a[j := a ! i, i := a ! j])"
  using mset_swap [of i "take n a" j] by (simp add: same_elems_def take_update_swap)

text \<open>One round of either function.\<close>

definition sift_step ::
    "(u32 \<Rightarrow> u32 \<Rightarrow> bool) \<Rightarrow> (u32 list \<Rightarrow> u32 \<Rightarrow> u32 \<Rightarrow> u32 list option) \<Rightarrow> u32 list \<Rightarrow> u32 \<Rightarrow> u32 \<Rightarrow> u32 list option" where
  "sift_step higher again array heapSize currentNode =
     (let leftChild = 2 * currentNode + 1;
          rightChild = 2 * currentNode + 2
      in do {
        m \<leftarrow> (if leftChild < heapSize
             then do { x \<leftarrow> elem_at array leftChild; y \<leftarrow> elem_at array currentNode; Some (if higher x y then leftChild else currentNode) }
             else Some currentNode);
        m \<leftarrow> (if rightChild < heapSize
             then do { x \<leftarrow> elem_at array rightChild; y \<leftarrow> elem_at array m; Some (if higher x y then rightChild else m) }
             else Some m);
        (if m \<noteq> currentNode then do { array \<leftarrow> Swap array m currentNode; again array heapSize m } else Some array) })"

text \<open>Inserting one number after another.\<close>

fun insert_all :: "(u32 list \<Rightarrow> u32 \<Rightarrow> u32 \<Rightarrow> u32 list option) \<Rightarrow> u32 \<Rightarrow> u32 list \<Rightarrow> u32 list \<Rightarrow> u32 list option" where
  "insert_all ins n a [] = Some a"
| "insert_all ins n a (x # xs) = do { a \<leftarrow> ins a n x; insert_all ins n a xs }"

locale sifting =
  fixes higher :: "u32 \<Rightarrow> u32 \<Rightarrow> bool" and heapify :: "u32 list \<Rightarrow> u32 \<Rightarrow> u32 \<Rightarrow> u32 list option"
    and creat_loop :: "u32 \<Rightarrow> nat \<Rightarrow> u32 list \<Rightarrow> u32 list option" and insert_elem :: "u32 list \<Rightarrow> u32 \<Rightarrow> u32 \<Rightarrow> u32 list option"
  assumes asym: "higher x y \<Longrightarrow> \<not> higher y x"
    and negtrans: "\<not> higher x y \<Longrightarrow> \<not> higher y z \<Longrightarrow> \<not> higher x z"
    and heapify_eq: "heapify a n c = sift_step higher heapify a n c"
    and creat_0: "creat_loop n 0 a = heapify a n 0"
    and creat_Suc: "creat_loop n (Suc i) a = do { a \<leftarrow> heapify a n (of_nat (Suc i)); creat_loop n i a }"
    and insert_eq: "insert_elem a n x = do { f \<leftarrow> elem_at a 0; (if higher f x then heapify (a[0 := x]) n 0 else Some a) }"
begin

lemma irrefl [simp]: "\<not> higher x x"
  using asym by blast

lemma trans: "higher x y \<Longrightarrow> higher y z \<Longrightarrow> higher x z"
  using negtrans asym by blast

text \<open>The round chooses a node \<open>m\<close> among \<open>c\<close> and its children that none of them is above.\<close>

lemma round:
  assumes n: "unat n < 2 ^ 31" "unat n \<le> length a" "unat c < unat n"
  shows "\<exists>m. heapify a n c = (if m = c then Some a else heapify (a[unat c := a ! unat m, unat m := a ! unat c]) n m) \<and>
    (m = c \<or> kid (unat m) (unat c) \<and> unat m < unat n \<and> higher (a ! unat m) (a ! unat c)) \<and>
    (\<forall>j. kid j (unat c) \<longrightarrow> j < unat n \<longrightarrow> \<not> higher (a ! j) (a ! unat m))"
proof -
  define l where "l = 2 * c + 1"
  define r where "r = 2 * c + 2"
  have l: "unat l = 2 * unat c + 1" and r: "unat r = 2 * unat c + 2"
    using n(1,3) by (simp_all add: l_def r_def unat_word_ariths)
  define m1 where "m1 = (if l < n \<and> higher (a ! unat l) (a ! unat c) then l else c)"
  define m where "m = (if r < n \<and> higher (a ! unat r) (a ! unat m1) then r else m1)"
  have less: "x < n \<Longrightarrow> unat x < length a" for x using n(2) by (simp add: word_less_nat_alt)
  have cn: "c < n" using n(3) by (simp add: word_less_nat_alt)
  have m1n: "m1 < n" and mn: "m < n" using cn by (simp_all add: m1_def m_def)
  have "heapify a n c = (if m \<noteq> c then do { b \<leftarrow> Swap a m c; heapify b n m } else Some a)"
  proof -
    have one: "(if l < n then do { x \<leftarrow> elem_at a l; y \<leftarrow> elem_at a c; Some (if higher x y then l else c) } else Some c) = Some m1"
      using less [OF cn] less by (simp add: elem_at_def m1_def)
    have two: "(if r < n then do { x \<leftarrow> elem_at a r; y \<leftarrow> elem_at a m1; Some (if higher x y then r else m1) } else Some m1) = Some m"
      using less [OF m1n] less by (simp add: elem_at_def m_def)
    show ?thesis unfolding heapify_eq [of a n c] sift_step_def Let_def l_def [symmetric] r_def [symmetric] one Option.bind.bind_lunit two ..
  qed
  then have "heapify a n c = (if m = c then Some a else heapify (a[unat c := a ! unat m, unat m := a ! unat c]) n m)"
    using less [OF cn] less [OF mn] by (simp add: Swap_def elem_at_def)
  moreover have "m = c \<or> kid (unat m) (unat c) \<and> unat m < unat n \<and> higher (a ! unat m) (a ! unat c)"
  proof -
    have kids: "kid (unat l) (unat c)" "kid (unat r) (unat c)" by (simp_all add: kid_def l r)
    have "m1 = c \<or> m1 = l \<and> higher (a ! unat l) (a ! unat c)" by (simp add: m1_def)
    moreover have "m = m1 \<or> m = r \<and> higher (a ! unat r) (a ! unat m1)" by (simp add: m_def)
    moreover have "unat m < unat n" using mn by (simp add: word_less_nat_alt)
    ultimately show ?thesis using kids trans by blast
  qed
  moreover have "\<not> higher (a ! j) (a ! unat m)" if "kid j (unat c)" "j < unat n" for j
  proof -
    have "j = unat l \<and> l < n \<or> j = unat r \<and> r < n" using that unfolding kid_def word_less_nat_alt l r by blast
    moreover have "\<not> higher (a ! unat l) (a ! unat m)" if "l < n"
    proof (cases "higher (a ! unat l) (a ! unat c)")
      case True
      then have "m1 = l" using that by (simp add: m1_def)
      then have "m = l \<or> m = r \<and> higher (a ! unat r) (a ! unat l)" by (simp add: m_def)
      then show ?thesis using asym irrefl by blast
    next
      case False
      then have "m1 = c" by (simp add: m1_def)
      then have "m = c \<or> m = r \<and> higher (a ! unat r) (a ! unat c)" by (simp add: m_def)
      then show ?thesis using asym negtrans [OF False] False by blast
    qed
    moreover have "\<not> higher (a ! unat r) (a ! unat m)" if "r < n" using that by (simp add: m_def)
    ultimately show ?thesis by blast
  qed
  ultimately show ?thesis by blast
qed

text \<open>Moving the top of \<open>c\<close> and its children up keeps the order except at the child.\<close>

lemma sift_down:
  assumes ex: "heap_except higher a n k c" and m: "kid m c" "m < n" "n \<le> length a" "higher (a ! m) (a ! c)"
    and top: "\<And>j. kid j c \<Longrightarrow> j < n \<Longrightarrow> \<not> higher (a ! j) (a ! m)"
  shows "heap_except higher (a[c := a ! m, m := a ! c]) n k m"
proof -
  let ?b = "a[c := a ! m, m := a ! c]"
  have cm: "c < m" "c < length a" "m < length a" using m(1-3) by (auto simp: kid_def)
  have b: "?b ! j = (if j = m then a ! c else if j = c then a ! m else a ! j)" if "j < n" for j
    using that cm m(3) by (auto simp: nth_list_update)
  have kc: "k \<le> c" and hp: "\<And>i. i \<ge> k \<Longrightarrow> i \<noteq> c \<Longrightarrow> heap_at higher a n i"
    and up: "\<And>p j. p \<ge> k \<Longrightarrow> kid c p \<Longrightarrow> kid j c \<Longrightarrow> j < n \<Longrightarrow> \<not> higher (a ! j) (a ! p)"
    using ex by (auto simp: heap_except_def)
  have parent: "i = i'" if "kid j i" "kid j i'" for i i' j using that by (auto simp: kid_def)
  have "heap_at higher ?b n i" if i: "i \<ge> k" "i \<noteq> m" for i
    unfolding heap_at_def
  proof (intro allI impI)
    fix j
    assume j: "kid j i" "j < n"
    then have ji: "i < j" by (auto simp: kid_def)
    then have inn: "i < n" using j(2) by simp
    show "\<not> higher (?b ! j) (?b ! i)"
    proof (cases "i = c")
      case True
      then show ?thesis using top [OF _ j(2)] j asym [OF m(4)] ji b [OF j(2)] b [OF inn] cm(1) by (cases "j = m") auto
    next
      case False
      then have jm: "j \<noteq> m" using parent [OF j(1)] m(1) by blast
      show ?thesis
      proof (cases "j = c")
        case True
        then have "\<not> higher (a ! m) (a ! i)" using up [OF i(1) _ m(1,2)] j(1) by simp
        then show ?thesis using True False i(2) jm b [OF j(2)] b [OF inn] by simp
      next
        case jc: False
        then show ?thesis using hp [OF i(1) False] j b [OF j(2)] b [OF inn] False i(2) jm by (simp add: heap_at_def)
      qed
    qed
  qed
  moreover have "\<not> higher (?b ! j) (?b ! p)" if "p \<ge> k" "kid m p" "kid j m" "j < n" for p j
  proof -
    have p: "p = c" using parent [OF that(2) m(1)] .
    have "heap_at higher a n m" using hp [of m] kc cm by simp
    then have "\<not> higher (a ! j) (a ! m)" using that(3,4) by (simp add: heap_at_def)
    moreover have "j \<noteq> m" "j \<noteq> c" using that(3) cm by (auto simp: kid_def)
    moreover have "c < n" using cm m(2) by simp
    ultimately show ?thesis using p b [OF that(4)] b [of c] cm by simp
  qed
  ultimately show ?thesis using kc cm by (auto simp: heap_except_def)
qed

lemma heapify_correct:
  assumes "unat n < 2 ^ 31" and "unat n \<le> length a" and "unat c < unat n" and "heap_except higher a (unat n) k (unat c)"
  shows "\<exists>b. heapify a n c = Some b \<and> same_elems (unat n) a b \<and> heap_from higher b (unat n) k"
  using assms
proof (induction "unat n - unat c" arbitrary: a c rule: less_induct)
  case less
  obtain m where m: "heapify a n c = (if m = c then Some a else heapify (a[unat c := a ! unat m, unat m := a ! unat c]) n m)"
    "m = c \<or> kid (unat m) (unat c) \<and> unat m < unat n \<and> higher (a ! unat m) (a ! unat c)"
    "\<And>j. kid j (unat c) \<Longrightarrow> j < unat n \<Longrightarrow> \<not> higher (a ! j) (a ! unat m)"
    using round [OF less.prems(1-3)] by blast
  show ?case
  proof (cases "m = c")
    case True
    then have "heap_at higher a (unat n) (unat c)" using m(3) by (simp add: heap_at_def)
    then have "heap_from higher a (unat n) k" using less.prems(4) by (auto simp: heap_from_def heap_except_def)
    then show ?thesis using m(1) True by simp
  next
    case False
    then have mm: "kid (unat m) (unat c)" "unat m < unat n" "higher (a ! unat m) (a ! unat c)" using m(2) by simp_all
    let ?b = "a[unat c := a ! unat m, unat m := a ! unat c]"
    have "unat n - unat m < unat n - unat c" using mm(1,2) by (auto simp: kid_def)
    moreover have "heap_except higher ?b (unat n) k (unat m)"
      by (rule sift_down [OF less.prems(4) mm(1,2) less.prems(2) mm(3) m(3)])
    ultimately obtain b where b: "heapify ?b n m = Some b" "same_elems (unat n) ?b b" "heap_from higher b (unat n) k"
      using less.hyps [of m ?b] less.prems(1,2) mm(2) by auto
    have "same_elems (unat n) a ?b"
      using same_elems_swap [OF mm(2) less.prems(3,2)] by simp
    then show ?thesis using b m(1) False same_elems_trans by auto
  qed
qed

text \<open>With no element at all nothing is read.\<close>

lemma heapify_empty: "unat n = 0 \<Longrightarrow> heapify a n 0 = Some a"
  unfolding heapify_eq [of a n 0] sift_step_def Let_def by (simp add: word_less_nat_alt)

lemma creat_correct:
  assumes n: "unat n < 2 ^ 31" "unat n \<le> length a" and i: "i \<le> unat n div 2" and heap: "heap_from higher a (unat n) (Suc i)"
  shows "\<exists>b. creat_loop n i a = Some b \<and> same_elems (unat n) a b \<and> heap_from higher b (unat n) 0"
  using n(2) i heap
proof (induction i arbitrary: a)
  case 0
  show ?case
  proof (cases "unat n = 0")
    case True
    then have "heapify a n 0 = Some a" by (rule heapify_empty)
    then show ?thesis using True by (simp add: creat_0 heap_from_def heap_at_def)
  next
    case False
    have "heap_except higher a (unat n) 0 0" using 0(3) by (auto simp: heap_except_def heap_from_def kid_def)
    then show ?thesis using heapify_correct [of n a 0 0] n(1) 0(1) False by (simp add: creat_0)
  qed
next
  case (Suc i)
  have c: "unat (of_nat (Suc i) :: u32) = Suc i" using Suc.prems(2) n(1) by (intro unat_of_nat_u32) simp
  have "\<exists>b. heapify a n (of_nat (Suc i)) = Some b \<and> same_elems (unat n) a b \<and> heap_from higher b (unat n) (Suc i)"
  proof (cases "Suc i < unat n")
    case True
    have "heap_except higher a (unat n) (Suc i) (Suc i)" using Suc.prems(3) by (auto simp: heap_except_def heap_from_def kid_def)
    then show ?thesis using heapify_correct [of n a "of_nat (Suc i)" "Suc i"] n(1) Suc.prems(1) True unfolding c by blast
  next
    case False
    then have False using Suc.prems(2) by linarith
    then show ?thesis ..
  qed
  then obtain b where b: "heapify a n (of_nat (Suc i)) = Some b" "same_elems (unat n) a b" "heap_from higher b (unat n) (Suc i)" by blast
  moreover have "unat n \<le> length b" using b(2) Suc.prems(1) by (simp add: same_elems_def)
  ultimately obtain d where "creat_loop n i b = Some d" "same_elems (unat n) b d" "heap_from higher d (unat n) 0"
    using Suc.IH [of b] Suc.prems(2) by auto
  then show ?case using b same_elems_trans by (auto simp: creat_Suc)
qed

lemma creat_heap:
  assumes "unat n < 2 ^ 31" and "unat n \<le> length a"
  shows "\<exists>b. creat_loop n (unat (n div 2)) a = Some b \<and> same_elems (unat n) a b \<and> heap_from higher b (unat n) 0"
proof -
  have "heap_from higher a (unat n) (Suc (unat n div 2))" by (auto simp: heap_from_def heap_at_def kid_def)
  then show ?thesis using creat_correct [OF assms] by (simp add: unat_div)
qed

lemma top_of_heap: "heap_from higher a n 0 \<Longrightarrow> j < n \<Longrightarrow> \<not> higher (a ! j) (a ! 0)"
proof (induction j rule: less_induct)
  case (less j)
  show ?case
  proof (cases j)
    case (Suc i)
    then have "kid j (i div 2)" by (auto simp: kid_def)
    then have "\<not> higher (a ! j) (a ! (i div 2))" using less.prems by (auto simp: heap_from_def heap_at_def)
    moreover have "\<not> higher (a ! (i div 2)) (a ! 0)" using less.IH [of "i div 2"] less.prems Suc by simp
    ultimately show ?thesis by (rule negtrans)
  qed simp
qed

lemma insert_correct:
  assumes n: "unat n < 2 ^ 31" "unat n \<le> length a" "0 < unat n" and heap: "heap_from higher a (unat n) 0"
  shows "\<exists>b. insert_elem a n x = Some b \<and> length b = length a \<and> drop (unat n) b = drop (unat n) a \<and> heap_from higher b (unat n) 0 \<and>
    mset (take (unat n) b) = (if higher (a ! 0) x then mset (take (unat n) a) - {#a ! 0#} + {#x#} else mset (take (unat n) a))"
proof (cases "higher (a ! 0) x")
  case True
  let ?a = "a[0 := x]"
  have "heap_except higher ?a (unat n) 0 0" using heap by (auto simp: heap_except_def heap_from_def heap_at_def kid_def)
  then obtain b where b: "heapify ?a n 0 = Some b" "same_elems (unat n) ?a b" "heap_from higher b (unat n) 0"
    using heapify_correct [of n ?a 0 0] n by auto
  have "mset (take (unat n) ?a) = mset (take (unat n) a) - {#a ! 0#} + {#x#}"
    using n mset_update [of 0 "take (unat n) a" x] by (simp add: take_update_swap)
  moreover have "drop (unat n) ?a = drop (unat n) a" using n(3) by simp
  ultimately show ?thesis using b True n by (auto simp: insert_eq elem_at_def same_elems_def)
next
  case False
  then show ?thesis using n heap by (auto simp: insert_eq elem_at_def)
qed

lemma insert_all_correct:
  assumes n: "unat n < 2 ^ 31" "0 < unat n"
  shows "unat n \<le> length a \<Longrightarrow> heap_from higher a (unat n) 0 \<Longrightarrow> \<forall>z\<in>#mset (take (unat n) a). \<forall>y\<in>#old. \<not> higher z y \<Longrightarrow>
    \<exists>b rest. insert_all insert_elem n a xs = Some b \<and> heap_from higher b (unat n) 0 \<and> drop (unat n) b = drop (unat n) a \<and>
      mset (take (unat n) b) + rest = mset (take (unat n) a) + mset xs + old \<and>
      (\<forall>z\<in>#mset (take (unat n) b). \<forall>y\<in>#rest. \<not> higher z y)"
proof (induction xs arbitrary: a old)
  case Nil
  then show ?case by auto
next
  case (Cons x xs)
  let ?m = "mset (take (unat n) a)"
  obtain b where b: "insert_elem a n x = Some b" "length b = length a" "drop (unat n) b = drop (unat n) a" "heap_from higher b (unat n) 0"
    "mset (take (unat n) b) = (if higher (a ! 0) x then ?m - {#a ! 0#} + {#x#} else ?m)"
    using insert_correct [OF n(1) Cons.prems(1) n(2) Cons.prems(2), of x] by blast
  define out where "out = (if higher (a ! 0) x then a ! 0 else x)"
  have top: "\<not> higher z (a ! 0)" if "z \<in># ?m" for z
  proof -
    have "z \<in> set (take (unat n) a)" using that by simp
    then obtain j where "j < unat n" "z = a ! j" unfolding in_set_conv_nth using Cons.prems(1) by auto
    then show ?thesis using top_of_heap [OF Cons.prems(2)] by simp
  qed
  have a0: "a ! 0 \<in># ?m" using n(2) Cons.prems(1) by (auto simp: in_set_conv_nth intro!: exI [of _ 0])
  have sum: "mset (take (unat n) b) + (old + {#out#}) = ?m + {#x#} + old"
    using a0 unfolding b(5) out_def by (auto simp: multiset_eq_iff)
  have "\<not> higher z y" if z: "z \<in># mset (take (unat n) b)" and y: "y \<in># old + {#out#}" for z y
  proof (cases "higher (a ! 0) x")
    case True
    then have "z = x \<or> z \<in># ?m" using z unfolding b(5) by (auto dest: in_diffD)
    then have z0: "\<not> higher z (a ! 0)" using top asym [OF True] by blast
    have "y = a ! 0 \<or> \<not> higher (a ! 0) y" using y True Cons.prems(3) a0 by (auto simp: out_def)
    then show ?thesis using z0 negtrans by blast
  next
    case False
    then have zm: "z \<in># ?m" using z unfolding b(5) by simp
    have "y = x \<or> y \<in># old" using y False by (auto simp: out_def)
    then show ?thesis using Cons.prems(3) zm negtrans [OF top [OF zm] False] by blast
  qed
  then have inv: "\<forall>z\<in>#mset (take (unat n) b). \<forall>y\<in>#old + {#out#}. \<not> higher z y" by blast
  have "unat n \<le> length b" using b(2) Cons.prems(1) by simp
  from Cons.IH [OF this b(4) inv] obtain d rest where d: "insert_all insert_elem n b xs = Some d" "heap_from higher d (unat n) 0"
    "drop (unat n) d = drop (unat n) b" "mset (take (unat n) d) + rest = mset (take (unat n) b) + mset xs + (old + {#out#})"
    "\<forall>z\<in>#mset (take (unat n) d). \<forall>y\<in>#rest. \<not> higher z y" by blast
  show ?case
  proof (intro exI conjI)
    show "insert_all insert_elem n a (x # xs) = Some d" using b(1) d(1) by simp
    show "drop (unat n) d = drop (unat n) a" using d(3) b(3) by simp
    show "mset (take (unat n) d) + rest = ?m + mset (x # xs) + old" using d(4) sum by (simp add: ac_simps)
  qed (use d in blast)+
qed

lemma select:
  assumes n: "unat n < 2 ^ 31" "unat n \<le> length a" "0 < unat n"
  shows "\<exists>h b rest. creat_loop n (unat (n div 2)) a = Some h \<and> insert_all insert_elem n h xs = Some b \<and> heap_from higher b (unat n) 0 \<and>
    drop (unat n) b = drop (unat n) a \<and> mset (take (unat n) b) + rest = mset (take (unat n) a) + mset xs \<and>
    (\<forall>z\<in>#mset (take (unat n) b). \<forall>y\<in>#rest. \<not> higher z y)"
proof -
  obtain h where h: "creat_loop n (unat (n div 2)) a = Some h" "same_elems (unat n) a h" "heap_from higher h (unat n) 0"
    using creat_heap [OF n(1,2)] by blast
  then show ?thesis using insert_all_correct [OF n(1,3) _ h(3), of "{#}" xs] n(2) by (auto simp: same_elems_def)
qed

end

interpretation maxheap: sifting "\<lambda>x y. x > y" MaxHeapify max_creat_loop MaxInsert
proof (unfold_locales, goal_cases)
  case (3 a n c)
  then show ?case unfolding sift_step_def by (rule MaxHeapify.simps)
qed (auto simp: MaxInsert_def)

interpretation minheap: sifting "\<lambda>x y. x < y" MinHeapify min_creat_loop MinInsert
proof (unfold_locales, goal_cases)
  case (3 a n c)
  then show ?case unfolding sift_step_def by (rule MinHeapify.simps)
qed (auto simp: MinInsert_def)

section \<open>The property\<close>

text \<open>
  C37. Building a heap of the first \<open>n\<close> elements and then inserting any further numbers always returns and stays within the array; afterwards
  every node is in heap order with its children, and the array holds the \<open>n\<close> lowest (with the max-heap) or highest (with the min-heap)
  of all numbers seen, the elements behind the heap being untouched.
\<close>

theorem heap_selects:
  assumes "unat n < 2 ^ 31" and "unat n \<le> length a" and "0 < unat n"
  shows "(\<exists>h b rest. MaxHeapCreat a n = Some h \<and> insert_all MaxInsert n h xs = Some b \<and> drop (unat n) b = drop (unat n) a \<and>
      (\<forall>i j. (j = 2 * i + 1 \<or> j = 2 * i + 2) \<and> j < unat n \<longrightarrow> b ! j \<le> b ! i) \<and>
      mset (take (unat n) b) + rest = mset (take (unat n) a) + mset xs \<and> (\<forall>z\<in>#mset (take (unat n) b). \<forall>y\<in>#rest. z \<le> y)) \<and>
    (\<exists>h b rest. MinHeapCreat a n = Some h \<and> insert_all MinInsert n h xs = Some b \<and> drop (unat n) b = drop (unat n) a \<and>
      (\<forall>i j. (j = 2 * i + 1 \<or> j = 2 * i + 2) \<and> j < unat n \<longrightarrow> b ! i \<le> b ! j) \<and>
      mset (take (unat n) b) + rest = mset (take (unat n) a) + mset xs \<and> (\<forall>z\<in>#mset (take (unat n) b). \<forall>y\<in>#rest. y \<le> z))"
proof
  obtain h b rest where "max_creat_loop n (unat (n div 2)) a = Some h" "insert_all MaxInsert n h xs = Some b"
    "heap_from (\<lambda>x y. x > y) b (unat n) 0" "drop (unat n) b = drop (unat n) a" "mset (take (unat n) b) + rest = mset (take (unat n) a) + mset xs"
    "\<forall>z\<in>#mset (take (unat n) b). \<forall>y\<in>#rest. \<not> y < z"
    using maxheap.select [OF assms, of xs] by blast
  then show "\<exists>h b rest. MaxHeapCreat a n = Some h \<and> insert_all MaxInsert n h xs = Some b \<and> drop (unat n) b = drop (unat n) a \<and>
      (\<forall>i j. (j = 2 * i + 1 \<or> j = 2 * i + 2) \<and> j < unat n \<longrightarrow> b ! j \<le> b ! i) \<and>
      mset (take (unat n) b) + rest = mset (take (unat n) a) + mset xs \<and> (\<forall>z\<in>#mset (take (unat n) b). \<forall>y\<in>#rest. z \<le> y)"
    unfolding MaxHeapCreat_def heap_from_def heap_at_def kid_def by (intro exI [of _ h] exI [of _ b] exI [of _ rest]) (auto simp: not_less)
next
  obtain h b rest where "min_creat_loop n (unat (n div 2)) a = Some h" "insert_all MinInsert n h xs = Some b"
    "heap_from (\<lambda>x y. x < y) b (unat n) 0" "drop (unat n) b = drop (unat n) a" "mset (take (unat n) b) + rest = mset (take (unat n) a) + mset xs"
    "\<forall>z\<in>#mset (take (unat n) b). \<forall>y\<in>#rest. \<not> z < y"
    using minheap.select [OF assms, of xs] by blast
  then show "\<exists>h b rest. MinHeapCreat a n = Some h \<and> insert_all MinInsert n h xs = Some b \<and> drop (unat n) b = drop (unat n) a \<and>
      (\<forall>i j. (j = 2 * i + 1 \<or> j = 2 * i + 2) \<and> j < unat n \<longrightarrow> b ! i \<le> b ! j) \<and>
      mset (take (unat n) b) + rest = mset (take (unat n) a) + mset xs \<and> (\<forall>z\<in>#mset (take (unat n) b). \<forall>y\<in>#rest. y \<le> z)"
    unfolding MinHeapCreat_def heap_from_def heap_at_def kid_def by (intro exI [of _ h] exI [of _ b] exI [of _ rest]) (auto simp: not_less)
qed

lemma heap_selects_witness:
  "\<exists>h b rest. MaxHeapCreat [2, 20, 13, 18] 3 = Some h \<and> insert_all MaxInsert 3 h [10, 25] = Some b \<and> drop 3 b = [18] \<and>
    mset (take 3 b) + rest = {#2, 20, 13, 10, 25#} \<and> (\<forall>z\<in>#mset (take 3 b). \<forall>y\<in>#rest. z \<le> y)"
proof -
  have three: "unat (3 :: u32) = 3" by simp
  have "unat (3 :: u32) < 2 ^ 31" "unat (3 :: u32) \<le> length [2 :: u32, 20, 13, 18]" "0 < unat (3 :: u32)" unfolding three by simp_all
  from conjunct1 [OF heap_selects [OF this, of "[10, 25]"], unfolded three] obtain h b rest where
    "MaxHeapCreat [2, 20, 13, 18] 3 = Some h" "insert_all MaxInsert 3 h [10, 25] = Some b" "drop 3 b = drop 3 [2, 20, 13, 18]"
    "mset (take 3 b) + rest = mset (take 3 [2, 20, 13, 18]) + mset [10, 25]" "\<forall>z\<in>#mset (take 3 b). \<forall>y\<in>#rest. z \<le> y" by blast
  moreover have "mset (take 3 [2, 20, 13, 18 :: u32]) + mset [10, 25] = {#2, 20, 13, 10, 25#}" "drop 3 [2, 20, 13, 18 :: u32] = [18]"
    by (simp_all add: numeral_3_eq_3)
  ultimately show ?thesis by metis
qed

end
