(* ===== verification/Kmp.thy ===== *)
theory Kmp
  imports Prelude "HOL-Library.Sublist" "HOL-Library.Monad_Syntax"
begin

text \<open>
  The string search of \<^verbatim>\<open>kmp/kmp.c\<close>. A string is the memory from its address on, with its NUL byte; \<open>next\<close> is the caller's array of \<^verbatim>\<open>int\<close>.
  Reading or writing outside is None, and so is a loop that does not end. The answer of \<open>kmp\<close> is the list of the shifts it prints,
  and the array it leaves. The lengths are a \<^verbatim>\<open>size_t\<close> stored in an \<^verbatim>\<open>int\<close>, so from 2^31 characters on they are wrong; the counters
  stay below them and never leave \<^verbatim>\<open>int\<close>.
\<close>

section \<open>The code\<close>

definition str_len :: "byte list \<Rightarrow> int option" where
  "str_len s = (if 0 \<in> set s then Some (sint (of_nat (length (takeWhile (\<lambda>c. c \<noteq> 0) s)) :: u32)) else None)"

definition get :: "'a list \<Rightarrow> int \<Rightarrow> 'a option" where
  "get a i = (if 0 \<le> i \<and> i < int (length a) then Some (a ! nat i) else None)"

definition put :: "'a list \<Rightarrow> int \<Rightarrow> 'a \<Rightarrow> 'a list option" where
  "put a i x = (if 0 \<le> i \<and> i < int (length a) then Some (a[nat i := x]) else None)"

text \<open>The inner loops \<^verbatim>\<open>while (k > 0 && P[k] != c) k = next[k-1]\<close>.\<close>

partial_function (option) fall_back :: "byte list \<Rightarrow> int list \<Rightarrow> byte \<Rightarrow> int \<Rightarrow> int option" where
  "fall_back P nxt c k =
     (if k > 0
      then do {
        x \<leftarrow> get P k;
        (if c \<noteq> x then do { k' \<leftarrow> get nxt (k - 1); fall_back P nxt c k' } else Some k) }
      else Some k)"

text \<open>The bodies of the two outer loops share the step from the state \<open>k\<close> over the character \<open>c\<close>.\<close>

definition advance :: "byte list \<Rightarrow> int list \<Rightarrow> byte \<Rightarrow> int \<Rightarrow> int option" where
  "advance P nxt c k = do {
     k \<leftarrow> fall_back P nxt c k;
     x \<leftarrow> get P k;
     Some (if c = x then k + 1 else k) }"

function next_loop :: "byte list \<Rightarrow> int list \<Rightarrow> int \<Rightarrow> int \<Rightarrow> int \<Rightarrow> int list option" where
  "next_loop P nxt m q k =
     (if q < m
      then do {
        c \<leftarrow> get P q;
        k \<leftarrow> advance P nxt c k;
        nxt \<leftarrow> put nxt q k;
        next_loop P nxt m (q + 1) k }
      else Some nxt)"
  by pat_completeness auto
termination by (relation "measure (\<lambda>(P, nxt, m, q, k). nat (m - q))") auto

declare next_loop.simps [simp del]

definition makeNext :: "byte list \<Rightarrow> int list \<Rightarrow> int list option" where
  "makeNext P nxt = do {
     m \<leftarrow> str_len P;
     nxt \<leftarrow> put nxt 0 0;
     next_loop P nxt m 1 0 }"

function search_loop :: "byte list \<Rightarrow> byte list \<Rightarrow> int list \<Rightarrow> int \<Rightarrow> int \<Rightarrow> int \<Rightarrow> int \<Rightarrow> int list option" where
  "search_loop T P nxt n m i q =
     (if i < n
      then do {
        c \<leftarrow> get T i;
        q \<leftarrow> advance P nxt c q;
        out \<leftarrow> search_loop T P nxt n m (i + 1) q;
        Some (if q = m then (i - m + 1) # out else out) }
      else Some [])"
  by pat_completeness auto
termination by (relation "measure (\<lambda>(T, P, nxt, n, m, i, q). nat (n - i))") auto

declare search_loop.simps [simp del]

definition kmp :: "byte list \<Rightarrow> byte list \<Rightarrow> int list \<Rightarrow> (int list \<times> int list) option" where
  "kmp T P nxt = do {
     n \<leftarrow> str_len T;
     m \<leftarrow> str_len P;
     nxt \<leftarrow> makeNext P nxt;
     out \<leftarrow> search_loop T P nxt n m 0 0;
     Some (out, nxt) }"

section \<open>Prefixes of the pattern at the end of a text\<close>

text \<open>\<open>ends p k w\<close>: the text \<open>w\<close> ends with the first \<open>k\<close> characters of the pattern \<open>p\<close>.\<close>

definition ends :: "byte list \<Rightarrow> nat \<Rightarrow> byte list \<Rightarrow> bool" where
  "ends p k w \<longleftrightarrow> k \<le> length p \<and> suffix (take k p) w"

definition longest :: "byte list \<Rightarrow> byte list \<Rightarrow> nat \<Rightarrow> bool" where
  "longest p w k \<longleftrightarrow> ends p k w \<and> (\<forall>k'. ends p k' w \<longrightarrow> k' \<le> k)"

text \<open>The table up to \<open>n\<close>: the longest proper border of each prefix of the pattern.\<close>

definition borders :: "byte list \<Rightarrow> int list \<Rightarrow> nat \<Rightarrow> bool" where
  "borders p nxt n \<longleftrightarrow> n \<le> length nxt \<and> (\<forall>i<n. 0 \<le> nxt ! i \<and> longest p (drop 1 (take (Suc i) p)) (nat (nxt ! i)))"

lemma ends_0 [simp]: "ends p 0 w"
  by (simp add: ends_def)

lemma ends_length: "ends p k w \<Longrightarrow> k \<le> length w"
  using suffix_length_le by (fastforce simp: ends_def)

lemma suffix_drop1: "suffix xs ys \<Longrightarrow> length xs < length ys \<Longrightarrow> suffix xs (drop 1 ys)"
proof -
  assume "suffix xs ys" "length xs < length ys"
  then obtain z zs where "ys = (z # zs) @ xs" by (auto simp: suffix_def) (metis append_Nil length_greater_0_conv list.exhaust less_irrefl list.size(3) add_0)
  then show ?thesis by (simp add: suffix_def)
qed

lemma ends_shorter:
  assumes "ends p k w" and "k' < k"
  shows "ends p k' w \<longleftrightarrow> ends p k' (drop 1 (take k p))"
proof
  assume e: "ends p k' w"
  have "suffix (take k' p) (take k p)"
    using suffix_length_suffix [of "take k' p" w "take k p"] e assms by (auto simp: ends_def)
  then show "ends p k' (drop 1 (take k p))" using suffix_drop1 [of "take k' p" "take k p"] e assms by (auto simp: ends_def)
next
  assume e: "ends p k' (drop 1 (take k p))"
  have "suffix (drop 1 (take k p)) (take k p)" by (rule suffix_drop)
  with e assms(1) show "ends p k' w" unfolding ends_def by (meson suffix_order.trans)
qed

lemma ends_snoc: "ends p (Suc k) (w @ [c]) \<longleftrightarrow> k < length p \<and> ends p k w \<and> p ! k = c"
  by (auto simp: ends_def take_Suc_conv_app_nth)

section \<open>One step\<close>

text \<open>\<open>p\<close> is the pattern and \<open>P\<close> the memory that holds it.\<close>

definition holds :: "byte list \<Rightarrow> byte list \<Rightarrow> bool" where
  "holds P p \<longleftrightarrow> 0 \<notin> set p \<and> (\<exists>rest. P = p @ 0 # rest)"

lemma get_int [simp]: "get a (int i) = (if i < length a then Some (a ! i) else None)"
  by (simp add: get_def)

lemma put_int [simp]: "put a (int i) x = (if i < length a then Some (a[i := x]) else None)"
  by (simp add: put_def)

lemma holds_get: "holds P p \<Longrightarrow> k \<le> length p \<Longrightarrow> get P (int k) = Some (if k < length p then p ! k else 0)"
  by (auto simp: holds_def nth_append)

lemma holds_len:
  assumes "holds P p" and "length p < 2 ^ 31"
  shows "str_len P = Some (int (length p))"
proof -
  have "sint (of_nat (length p) :: u32) = signed_take_bit 31 (int (length p))" by (simp only: signed_of_nat) simp
  also have "\<dots> = int (length p)" using assms(2) by (intro signed_take_bit_int_eq_self) simp_all
  finally have s: "sint (of_nat (length p) :: u32) = int (length p)" .
  have "0 \<in> set P" "takeWhile (\<lambda>c. c \<noteq> 0) P = p" using assms(1) by (auto simp: holds_def takeWhile_append)
  then show ?thesis using s by (simp add: str_len_def)
qed

lemma fall_back_correct:
  assumes P: "holds P p" and c: "c \<noteq> 0"
  shows "borders p nxt n \<Longrightarrow> k \<le> n \<Longrightarrow> ends p k w \<Longrightarrow> (\<forall>k'. ends p (Suc k') (w @ [c]) \<longrightarrow> k' \<le> k) \<Longrightarrow>
    \<exists>k1. fall_back P nxt c (int k) = Some (int k1) \<and> k1 \<le> k \<and> ends p k1 w \<and> (k1 = 0 \<or> k1 < length p \<and> p ! k1 = c) \<and>
      (\<forall>k'. ends p (Suc k') (w @ [c]) \<longrightarrow> k' \<le> k1)"
proof (induction k rule: less_induct)
  case (less k)
  show ?case
  proof (cases k)
    case 0
    then show ?thesis using less.prems by (auto simp: fall_back.simps [of P nxt c 0])
  next
    case (Suc j)
    have kp: "k \<le> length p" using less.prems(3) by (simp add: ends_def)
    note g = holds_get [OF P kp]
    have pos: "int k > 0" using Suc by simp
    show ?thesis
    proof (cases "k < length p \<and> p ! k = c")
      case True
      then have "fall_back P nxt c (int k) = Some (int k)" using pos g by (simp only: fall_back.simps [of P nxt c "int k"]) simp
      then show ?thesis using less.prems(3,4) True by blast
    next
      case False
      then have ne: "c \<noteq> (if k < length p then p ! k else 0)" using c by auto
      have j: "j < n" using less.prems(2) Suc by simp
      define m where "m = nat (nxt ! j)"
      have nx: "get nxt (int k - 1) = Some (int m)" "longest p (drop 1 (take k p)) m"
        using less.prems(1) j Suc by (auto simp: borders_def m_def)
      have lt: "m < k" using ends_length [of p m "drop 1 (take k p)"] nx(2) kp Suc by (auto simp: longest_def)
      have e: "ends p m w" using nx(2) ends_shorter [OF less.prems(3) lt] by (simp add: longest_def)
      have "\<forall>k'. ends p (Suc k') (w @ [c]) \<longrightarrow> k' \<le> m"
      proof (intro allI impI)
        fix k'
        assume k': "ends p (Suc k') (w @ [c])"
        then have "k' \<le> k" "k' \<noteq> k" "ends p k' w" using less.prems(4) False by (auto simp: ends_snoc)
        then have "ends p k' (drop 1 (take k p))" using ends_shorter [OF less.prems(3), of k'] by simp
        then show "k' \<le> m" using nx(2) by (simp add: longest_def)
      qed
      from less.IH [OF lt less.prems(1) _ e this] lt less.prems(2) obtain k1 where
        k1: "fall_back P nxt c (int m) = Some (int k1)" "k1 \<le> m" "ends p k1 w" "k1 = 0 \<or> k1 < length p \<and> p ! k1 = c"
          "\<forall>k'. ends p (Suc k') (w @ [c]) \<longrightarrow> k' \<le> k1" by auto
      have "fall_back P nxt c (int k) = fall_back P nxt c (int m)"
        unfolding fall_back.simps [of P nxt c "int k"] g nx(1) using pos ne by simp
      then show ?thesis using k1 lt by auto
    qed
  qed
qed

lemma advance_correct:
  assumes P: "holds P p" and c: "c \<noteq> 0" and b: "borders p nxt n" "k \<le> n" and k: "longest p w k"
  shows "\<exists>k'. advance P nxt c (int k) = Some (int k') \<and> longest p (w @ [c]) k' \<and> k' \<le> Suc k"
proof -
  have "\<forall>k'. ends p (Suc k') (w @ [c]) \<longrightarrow> k' \<le> k" using k by (auto simp: ends_snoc longest_def)
  then obtain k1 where k1: "fall_back P nxt c (int k) = Some (int k1)" "k1 \<le> k" "ends p k1 w" "k1 = 0 \<or> k1 < length p \<and> p ! k1 = c"
    "\<forall>k'. ends p (Suc k') (w @ [c]) \<longrightarrow> k' \<le> k1"
    using fall_back_correct [OF P c b, of w] k by (auto simp: longest_def)
  have k1p: "k1 \<le> length p" using k1(3) by (simp add: ends_def)
  define k2 where "k2 = (if k1 < length p \<and> p ! k1 = c then k1 + 1 else k1)"
  have "advance P nxt c (int k) = Some (int k2)"
    unfolding advance_def k1(1) bind.simps holds_get [OF P k1p] using c by (auto simp: k2_def)
  moreover have "longest p (w @ [c]) k2"
  proof (cases "k1 < length p \<and> p ! k1 = c")
    case True
    have "k' \<le> Suc k1" if "ends p k' (w @ [c])" for k' using that k1(5) by (cases k') auto
    then show ?thesis using True k1(3) by (simp add: k2_def longest_def ends_snoc)
  next
    case False
    then have "k1 = 0" using k1(4) by blast
    moreover have "k' = 0" if "ends p k' (w @ [c])" for k'
      using that k1(5) False calculation by (cases k') (auto simp: ends_snoc)
    moreover have "k2 = k1" using False by (simp only: k2_def if_False)
    ultimately show ?thesis by (simp add: longest_def)
  qed
  ultimately show ?thesis using k1(2) by (auto simp: k2_def)
qed

section \<open>The loops\<close>

lemma borders_grow:
  assumes "borders p nxt q" and "q < length nxt" and "longest p (drop 1 (take (Suc q) p)) k"
  shows "borders p (nxt[q := int k]) (Suc q)"
  using assms by (auto simp: borders_def nth_list_update less_Suc_eq)

lemma next_loop_correct:
  assumes P: "holds P p"
  shows "borders p nxt q \<Longrightarrow> longest p (drop 1 (take q p)) k \<Longrightarrow> 0 < q \<Longrightarrow> q \<le> length p \<Longrightarrow> length p \<le> length nxt \<Longrightarrow>
    \<exists>nxt'. next_loop P nxt (int (length p)) (int q) (int k) = Some nxt' \<and> length nxt' = length nxt \<and> borders p nxt' (length p)"
proof (induction "length p - q" arbitrary: nxt q k)
  case 0
  then show ?case by (simp add: next_loop.simps)
next
  case (Suc d)
  have q: "q < length p" using Suc.hyps(2) by simp
  have c: "get P (int q) = Some (p ! q)" "p ! q \<noteq> 0"
    using holds_get [OF P, of q] q P by (auto simp: holds_def in_set_conv_nth)
  have "k \<le> q" using Suc.prems(2) ends_length [of p k "drop 1 (take q p)"] q by (auto simp: longest_def)
  then obtain k' where k': "advance P nxt (p ! q) (int k) = Some (int k')" "longest p (drop 1 (take q p) @ [p ! q]) k'"
    using advance_correct [OF P c(2) Suc.prems(1) _ Suc.prems(2)] by blast
  have w: "drop 1 (take q p) @ [p ! q] = drop 1 (take (Suc q) p)" using q Suc.prems(3) by (simp add: take_Suc_conv_app_nth)
  have grow: "borders p (nxt[q := int k']) (Suc q)"
    using borders_grow [OF Suc.prems(1)] k'(2) w q Suc.prems(5) by simp
  have d: "d = length p - Suc q" using Suc.hyps(2) by simp
  obtain nxt' where n: "next_loop P (nxt[q := int k']) (int (length p)) (int (Suc q)) (int k') = Some nxt'" "length nxt' = length nxt" "borders p nxt' (length p)"
    using Suc.hyps(1) [OF d grow k'(2) [unfolded w]] q Suc.prems(5) by auto
  have "put nxt (int q) (int k') = Some (nxt[q := int k'])" using q Suc.prems(5) by simp
  then have "next_loop P nxt (int (length p)) (int q) (int k) = next_loop P (nxt[q := int k']) (int (length p)) (int q + 1) (int k')"
    by (subst next_loop.simps) (simp only: c(1) k'(1) bind.simps of_nat_less_iff q if_True)
  then show ?case using n by (simp add: add.commute)
qed

lemma makeNext_correct:
  assumes P: "holds P p" and "0 < length p" and "length p \<le> length nxt" and "length p < 2 ^ 31"
  shows "\<exists>nxt'. makeNext P nxt = Some nxt' \<and> length nxt' = length nxt \<and> borders p nxt' (length p)"
proof -
  have one: "drop 1 (take 1 p) = []" by (cases p) simp_all
  have l: "longest p (drop 1 (take 1 p)) 0" unfolding one using ends_length [of p _ "[]"] by (auto simp: longest_def)
  have "borders p (nxt[0 := int 0]) (Suc 0)" by (rule borders_grow) (use l assms(2,3) in \<open>auto simp: borders_def\<close>)
  from next_loop_correct [OF P this, of 0] l assms(2,3) obtain nxt' where
    "next_loop P (nxt[0 := 0]) (int (length p)) 1 0 = Some nxt'" "length nxt' = length nxt" "borders p nxt' (length p)" by auto
  moreover have "put nxt 0 0 = Some (nxt[0 := 0])" using assms(2,3) by (auto simp: put_def)
  ultimately show ?thesis using holds_len [OF P assms(4)] by (simp add: makeNext_def)
qed

lemma search_loop_correct:
  assumes T: "holds T t" and P: "holds P p" and b: "borders p nxt (length p)"
  shows "i \<le> length t \<Longrightarrow> longest p (take i t) q \<Longrightarrow>
    search_loop T P nxt (int (length t)) (int (length p)) (int i) (int q) =
      Some (map (\<lambda>i. int i - int (length p) + 1) (filter (\<lambda>i. suffix p (take (Suc i) t)) [i..<length t]))"
proof (induction "length t - i" arbitrary: i q)
  case 0
  then show ?case by (simp add: search_loop.simps)
next
  case (Suc d)
  have i: "i < length t" using Suc.hyps(2) by simp
  have c: "get T (int i) = Some (t ! i)" "t ! i \<noteq> 0"
    using holds_get [OF T, of i] i T by (auto simp: holds_def in_set_conv_nth)
  have "q \<le> length p" using Suc.prems(2) by (simp add: longest_def ends_def)
  then obtain q' where q': "advance P nxt (t ! i) (int q) = Some (int q')" "longest p (take (Suc i) t) q'"
    using advance_correct [OF P c(2) b _ Suc.prems(2)] unfolding take_Suc_conv_app_nth [OF i] by blast
  have "q' = length p \<longleftrightarrow> suffix p (take (Suc i) t)"
  proof
    show "q' = length p \<Longrightarrow> suffix p (take (Suc i) t)" using q'(2) by (simp add: longest_def ends_def)
    assume "suffix p (take (Suc i) t)"
    then have "ends p (length p) (take (Suc i) t)" by (simp add: ends_def)
    then have "length p \<le> q'" "q' \<le> length p" using q'(2) by (auto simp: longest_def ends_def)
    then show "q' = length p" by simp
  qed
  moreover have "[i..<length t] = i # [Suc i..<length t]" using i by (rule upt_conv_Cons)
  moreover have rest: "search_loop T P nxt (int (length t)) (int (length p)) (int (Suc i)) (int q') =
      Some (map (\<lambda>i. int i - int (length p) + 1) (filter (\<lambda>i. suffix p (take (Suc i) t)) [Suc i..<length t]))"
    by (rule Suc.hyps(1)) (use Suc.hyps(2) q'(2) i in simp_all)
  have "int (Suc i) = int i + 1" by simp
  note rest' = rest [unfolded this]
  have "search_loop T P nxt (int (length t)) (int (length p)) (int i) (int q) =
      do { out \<leftarrow> search_loop T P nxt (int (length t)) (int (length p)) (int i + 1) (int q');
           Some (if int q' = int (length p) then (int i - int (length p) + 1) # out else out) }"
    by (subst search_loop.simps) (simp only: c(1) q'(1) bind.simps of_nat_less_iff i if_True)
  ultimately show ?case unfolding rest' by simp
qed

lemma occurrences:
  assumes "p \<noteq> []"
  shows "map (\<lambda>i. int i - int (length p) + 1) (filter (\<lambda>i. suffix p (take (Suc i) t)) [0..<length t]) =
    map int (filter (\<lambda>s. prefix p (drop s t)) [0..<length t])" (is "?l = ?r")
proof (rule sorted_distinct_set_unique)
  have "sorted (map (\<lambda>i. int i - int (length p) + 1) xs) \<and> distinct (map (\<lambda>i. int i - int (length p) + 1) xs) \<and> sorted (map int xs) \<and> distinct (map int xs)"
    if "sorted xs" "distinct xs" for xs :: "nat list"
    using that by (auto simp: distinct_map inj_on_def sorted_map sorted_wrt_map)
  from this [OF sorted_wrt_filter distinct_filter] show "sorted ?l" "distinct ?l" "sorted ?r" "distinct ?r" by simp_all
  have at: "suffix p (take (Suc i) t) \<longleftrightarrow> (\<exists>s. Suc i = s + length p \<and> prefix p (drop s t))" if i: "i < length t" for i
  proof
    assume "suffix p (take (Suc i) t)"
    then obtain us where us: "take (Suc i) t = us @ p" by (auto simp: suffix_def)
    have "Suc i = length us + length p" using arg_cong [OF us, of length] i by simp
    moreover have "drop (length us) t = p @ drop (Suc i) t"
      using append_take_drop_id [of "Suc i" t] us by (metis append_assoc append_eq_conv_conj)
    ultimately show "\<exists>s. Suc i = s + length p \<and> prefix p (drop s t)" by (auto simp: prefix_def)
  next
    assume "\<exists>s. Suc i = s + length p \<and> prefix p (drop s t)"
    then obtain s vs where s: "Suc i = s + length p" "drop s t = p @ vs" by (auto simp: prefix_def)
    have "take (Suc i) t = take s t @ p" using s i by (simp add: take_add)
    then show "suffix p (take (Suc i) t)" by (simp add: suffix_def)
  qed
  show "set ?l = set ?r"
  proof (intro equalityI subsetI)
    fix x
    assume "x \<in> set ?l"
    then obtain i where i: "i < length t" "suffix p (take (Suc i) t)" "x = int i - int (length p) + 1" by auto
    then obtain s where "Suc i = s + length p" "prefix p (drop s t)" using at by blast
    moreover have "0 < length p" using assms by simp
    ultimately have "s < length t" "x = int s" "prefix p (drop s t)" using i by linarith+
    then show "x \<in> set ?r" by simp
  next
    fix x
    assume "x \<in> set ?r"
    then obtain s where s: "s < length t" "prefix p (drop s t)" "x = int s" by auto
    have p: "0 < length p" using assms by simp
    have "length p \<le> length t - s" using prefix_length_le [OF s(2)] by simp
    with p obtain i where i: "Suc i = s + length p" "i < length t" using s(1) by (cases "s + length p") auto
    then have "suffix p (take (Suc i) t)" using at [OF i(2)] s(2) by blast
    moreover have "x = int i - int (length p) + 1" using i(1) s(3) by linarith
    ultimately show "x \<in> set ?l" using i(2) by (auto intro!: image_eqI [of _ _ i])
  qed
qed

section \<open>The property\<close>

text \<open>
  C38. For a text and a pattern of less than 2^31 characters, the pattern not empty, and an array \<open>next\<close> with room for it the search always returns, reads and writes only inside the strings and
  the array, and prints exactly the positions at which the pattern occurs in the text, in increasing order; the array then
  holds the length of the longest proper border of every prefix of the pattern.
\<close>

theorem kmp_correct:
  assumes "0 \<notin> set t" and "0 \<notin> set p" and "p \<noteq> []" and "length p \<le> length nxt" and "length t < 2 ^ 31" and "length p < 2 ^ 31"
  shows "\<exists>nxt'. kmp (t @ 0 # tr) (p @ 0 # pr) nxt = Some (map int (filter (\<lambda>s. prefix p (drop s t)) [0..<length t]), nxt') \<and>
    length nxt' = length nxt \<and>
    (\<forall>i<length p. nxt' ! i = int (Max {k. k \<le> i \<and> suffix (take k p) (take (Suc i) p)}))"
proof -
  have T: "holds (t @ 0 # tr) t" and P: "holds (p @ 0 # pr) p" using assms(1,2) by (auto simp: holds_def)
  obtain nxt' where n: "makeNext (p @ 0 # pr) nxt = Some nxt'" "length nxt' = length nxt" "borders p nxt' (length p)"
    using makeNext_correct [OF P _ assms(4,6)] assms(3) by auto
  have "longest p (take 0 t) 0" using ends_length [of p _ "[]"] by (auto simp: longest_def)
  from search_loop_correct [OF T P n(3) _ this] have
    "kmp (t @ 0 # tr) (p @ 0 # pr) nxt = Some (map int (filter (\<lambda>s. prefix p (drop s t)) [0..<length t]), nxt')"
    using occurrences [OF assms(3), of t] n(1) holds_len [OF T assms(5)] holds_len [OF P assms(6)] by (simp add: kmp_def)
  moreover have "nxt' ! i = int (Max {k. k \<le> i \<and> suffix (take k p) (take (Suc i) p)})" if i: "i < length p" for i
  proof -
    have "ends p k (drop 1 (take (Suc i) p)) \<longleftrightarrow> k \<le> i \<and> suffix (take k p) (take (Suc i) p)" for k
    proof -
      have self: "ends p (Suc i) (take (Suc i) p)" using i by (simp add: ends_def)
      show ?thesis
      proof (cases "k \<le> i")
        case True
        then show ?thesis using ends_shorter [OF self, of k] i by (simp add: ends_def)
      next
        case False
        then show ?thesis using ends_length [of p k "drop 1 (take (Suc i) p)"] i by auto
      qed
    qed
    then have "longest p (drop 1 (take (Suc i) p)) k \<longleftrightarrow> k \<in> {k. k \<le> i \<and> suffix (take k p) (take (Suc i) p)} \<and>
        (\<forall>k'\<in>{k. k \<le> i \<and> suffix (take k p) (take (Suc i) p)}. k' \<le> k)" for k by (simp add: longest_def)
    moreover have "longest p (drop 1 (take (Suc i) p)) (nat (nxt' ! i))" and pos: "0 \<le> nxt' ! i" using n(3) i by (simp_all add: borders_def)
    moreover have "finite {k. k \<le> i \<and> suffix (take k p) (take (Suc i) p)}" by simp
    ultimately have "nat (nxt' ! i) = Max {k. k \<le> i \<and> suffix (take k p) (take (Suc i) p)}" by (intro Max_eqI [symmetric]) auto
    then show ?thesis using pos by linarith
  qed
  ultimately show ?thesis using n(2) by blast
qed

lemma kmp_correct_witness:
  "\<exists>nxt'. kmp [97, 98, 97, 98, 97, 0] [97, 98, 97, 0, 5] [7, 7, 7, - 7] = Some ([0, 2], nxt') \<and> length nxt' = 4 \<and>
    nxt' ! 2 = int (Max {k. k \<le> 2 \<and> suffix (take k [97, 98, 97 :: byte]) (take 3 [97, 98, 97])})"
proof -
  let ?t = "[97, 98, 97, 98, 97 :: byte]" and ?p = "[97, 98, 97 :: byte]"
  have "0 \<notin> set ?t" "0 \<notin> set ?p" "?p \<noteq> []" "length ?p \<le> length [7, 7, 7, - 7 :: int]" "length ?t < 2 ^ 31" "length ?p < 2 ^ 31" by simp_all
  from kmp_correct [OF this, of "[]" "[5]"] obtain nxt' where
    k: "kmp (?t @ 0 # []) (?p @ 0 # [5]) [7, 7, 7, - 7] = Some (map int (filter (\<lambda>s. prefix ?p (drop s ?t)) [0..<length ?t]), nxt')"
      "length nxt' = length [7, 7, 7, - 7 :: int]" "\<forall>i<length ?p. nxt' ! i = int (Max {k. k \<le> i \<and> suffix (take k ?p) (take (Suc i) ?p)})" by blast
  have "map int (filter (\<lambda>s. prefix ?p (drop s ?t)) [0..<length ?t]) = [0, 2]" by (simp add: upt_rec)
  moreover have "nxt' ! 2 = int (Max {k. k \<le> 2 \<and> suffix (take k ?p) (take (Suc 2) ?p)})" using k(3) by simp
  ultimately show ?thesis using k(1,2) by (simp add: numeral_3_eq_3 numeral_2_eq_2)
qed

end
