(* ===== verification/PamConfig.thy ===== *)
theory PamConfig
  imports Prelude
begin

text \<open>
  The state file of the PAM module (\<^verbatim>\<open>google-authenticator/libpam/pam_google_authenticator.c\<close>) in memory: the secret on the first line, then
  options of the form \<^verbatim>\<open>" KEY value\<close> and scratch codes. The text is the byte list up to its NUL byte, so a pointer into it is
  the rest of the text from there. \<open>get_cfg_value\<close> and \<open>set_cfg_value\<close> are shown to be lookup and update on the
  list of lines. The answer of \<^verbatim>\<open>malloc\<close> to the \<open>n\<close>-th request is \<open>alloc n\<close>.
\<close>

section \<open>The code\<close>

datatype cfg_value = Missing | Oom | Found "byte list"

definition newline :: "byte \<Rightarrow> bool" where
  "newline c \<longleftrightarrow> c = 10 \<or> c = 13"

definition blank :: "byte \<Rightarrow> bool" where
  "blank c \<longleftrightarrow> c = 32 \<or> c = 9"

text \<open>\<^verbatim>\<open>line += strcspn(line, "\r\n"); line += strspn(line, "\r\n")\<close>\<close>

definition next_line :: "byte list \<Rightarrow> byte list" where
  "next_line line = dropWhile newline (dropWhile (\<lambda>c. \<not> newline c) line)"

definition key_line :: "byte list \<Rightarrow> byte list \<Rightarrow> bool" where
  "key_line key line \<longleftrightarrow> take 2 line = [0x22, 0x20] \<and> take (length key) (drop 2 line) = key \<and>
     (case drop (2 + length key) line of [] \<Rightarrow> True | c # _ \<Rightarrow> blank c \<or> newline c)"

lemma length_next_line: "line \<noteq> [] \<Longrightarrow> length (next_line line) < length line"
proof (cases line)
  case (Cons c cs)
  have "length (next_line line) \<le> length (dropWhile (\<lambda>c. \<not> newline c) line)" unfolding next_line_def by (rule length_dropWhile_le)
  moreover have "length (dropWhile newline cs) \<le> length cs" "length (dropWhile (\<lambda>c. \<not> newline c) cs) \<le> length cs"
    by (rule length_dropWhile_le)+
  ultimately show ?thesis using Cons by (cases "newline c") (simp_all add: next_line_def)
qed simp

function get_cfg_value :: "(nat \<Rightarrow> bool) \<Rightarrow> byte list \<Rightarrow> byte list \<Rightarrow> nat \<Rightarrow> cfg_value \<times> nat" where
  "get_cfg_value alloc key line req =
     (if line = [] then (Missing, req)
      else if key_line key line
      then (let ptr = dropWhile blank (drop (2 + length key) line)
            in if \<not> alloc req then (Oom, req + 1) else (Found (takeWhile (\<lambda>c. \<not> newline c) ptr), req + 1))
      else get_cfg_value alloc key (next_line line) req)"
  by pat_completeness auto
termination by (relation "measure (\<lambda>(alloc, key, line, req). length line)") (auto simp: length_next_line)

declare get_cfg_value.simps [simp del]

definition line_len :: "byte list \<Rightarrow> nat" where
  "line_len line = length line - length (next_line line)"

text \<open>The first line with the key: its offset.\<close>

function find_key :: "byte list \<Rightarrow> byte list \<Rightarrow> nat option" where
  "find_key key line =
     (if line = [] then None
      else if key_line key line then Some 0
      else map_option (\<lambda>i. line_len line + i) (find_key key (next_line line)))"
  by pat_completeness auto
termination by (relation "measure (\<lambda>(key, line). length line)") (auto simp: length_next_line)

declare find_key.simps [simp del]

text \<open>The loop that deletes the other lines with the key.\<close>

function delete_keys :: "byte list \<Rightarrow> byte list \<Rightarrow> byte list" where
  "delete_keys key line =
     (if line = [] then []
      else if key_line key line then delete_keys key (next_line line)
      else take (line_len line) line @ delete_keys key (next_line line))"
  by pat_completeness auto
termination by (relation "measure (\<lambda>(key, line). length line)") (auto simp: length_next_line)

declare delete_keys.simps [simp del]

definition set_cfg_value :: "(nat \<Rightarrow> bool) \<Rightarrow> byte list \<Rightarrow> byte list \<Rightarrow> byte list \<Rightarrow> nat \<Rightarrow> byte list option \<times> nat" where
  "set_cfg_value alloc key val buf req =
     (let (start, stop) = (case find_key key buf of
            Some i \<Rightarrow> (i, i + line_len (drop i buf))
          | None \<Rightarrow> (line_len buf, line_len buf));
          total_len = length key + length val + 4;
          new_line = [0x22, 0x20] @ key @ [0x20] @ val @ [0x0A];
          result = take start buf @ new_line @ delete_keys key (drop stop buf)
      in if total_len \<le> stop - start then (Some result, req)
         else if \<not> alloc req then (None, req + 1)
         else (Some result, req + 1))"

section \<open>Lines\<close>

function lines :: "byte list \<Rightarrow> byte list list" where
  "lines s = (if s = [] then [] else takeWhile (\<lambda>c. \<not> newline c) s # lines (next_line s))"
  by pat_completeness auto
termination by (relation "measure length") (auto simp: length_next_line)

declare lines.simps [simp del]

lemma lines_Nil [simp]: "lines [] = []"
  by (simp add: lines.simps)

definition key_ok :: "byte list \<Rightarrow> bool" where
  "key_ok key \<longleftrightarrow> (\<forall>c\<in>set key. \<not> newline c \<and> \<not> blank c)"

definition val_ok :: "byte list \<Rightarrow> bool" where
  "val_ok val \<longleftrightarrow> (\<forall>c\<in>set val. \<not> newline c)"

lemma blank_newline [simp]: "blank c \<Longrightarrow> \<not> newline c" "newline c \<Longrightarrow> \<not> blank c"
  by (auto simp: blank_def newline_def)

lemma marks [simp]: "\<not> newline 0x22" "\<not> newline 0x20" "newline 0x0A" "blank 0x20" "\<not> blank 0x22"
  by (simp_all add: newline_def blank_def)

lemma key_line_iff: "key_line key s \<longleftrightarrow> (\<exists>r. s = 0x22 # 0x20 # key @ r \<and> (case r of [] \<Rightarrow> True | c # _ \<Rightarrow> blank c \<or> newline c))"
proof
  assume k: "key_line key s"
  then have "s = take 2 s @ take (length key) (drop 2 s) @ drop (2 + length key) s" by (metis append_take_drop_id drop_drop add.commute)
  then show "\<exists>r. s = 0x22 # 0x20 # key @ r \<and> (case r of [] \<Rightarrow> True | c # _ \<Rightarrow> blank c \<or> newline c)"
    using k by (intro exI [of _ "drop (2 + length key) s"]) (simp add: key_line_def)
qed (auto simp: key_line_def)

text \<open>Whether a line has a key, and with what value, depends on the line only, not on what follows it.\<close>

definition line_value :: "byte list \<Rightarrow> byte list \<Rightarrow> byte list" where
  "line_value key l = dropWhile blank (drop (2 + length key) l)"

lemma takeWhile_after: "\<forall>c\<in>set p. P c \<Longrightarrow> takeWhile P (p @ r) = p @ takeWhile P r"
  by (induction p) auto

lemma key_line_prefix:
  assumes "key_ok key"
  shows "key_line key (takeWhile (\<lambda>c. \<not> newline c) s) = key_line key s"
proof
  assume k: "key_line key s"
  then obtain r where r: "s = 0x22 # 0x20 # key @ r" "case r of [] \<Rightarrow> True | c # _ \<Rightarrow> blank c \<or> newline c" by (auto simp: key_line_iff)
  have "takeWhile (\<lambda>c. \<not> newline c) s = 0x22 # 0x20 # key @ takeWhile (\<lambda>c. \<not> newline c) r"
    using assms unfolding r(1) by (simp add: takeWhile_after key_ok_def)
  then show "key_line key (takeWhile (\<lambda>c. \<not> newline c) s)" using r(2) by (cases r) (auto simp: key_line_iff)
next
  assume "key_line key (takeWhile (\<lambda>c. \<not> newline c) s)"
  then obtain r where r: "takeWhile (\<lambda>c. \<not> newline c) s = 0x22 # 0x20 # key @ r" "case r of [] \<Rightarrow> True | c # _ \<Rightarrow> blank c \<or> newline c"
    by (auto simp: key_line_iff)
  have "s = 0x22 # 0x20 # key @ r @ dropWhile (\<lambda>c. \<not> newline c) s"
    using r(1) takeWhile_dropWhile_id [of "\<lambda>c. \<not> newline c" s] by simp
  moreover have "case r @ dropWhile (\<lambda>c. \<not> newline c) s of [] \<Rightarrow> True | c # _ \<Rightarrow> blank c \<or> newline c"
  proof -
    define d where "d = dropWhile (\<lambda>c. \<not> newline c) s"
    have "d = [] \<or> newline (hd d)" using hd_dropWhile [of "\<lambda>c. \<not> newline c" s] by (auto simp: d_def)
    then show ?thesis unfolding d_def [symmetric] using r(2) by (cases r; cases d) auto
  qed
  ultimately show "key_line key s" unfolding key_line_iff by blast
qed

lemma takeWhile_blank: "takeWhile (\<lambda>c. \<not> newline c) (dropWhile blank r) = dropWhile blank (takeWhile (\<lambda>c. \<not> newline c) r)"
  by (induction r) auto

lemma line_value_prefix:
  assumes "key_ok key" and "key_line key s"
  shows "takeWhile (\<lambda>c. \<not> newline c) (dropWhile blank (drop (2 + length key) s)) = line_value key (takeWhile (\<lambda>c. \<not> newline c) s)"
proof -
  obtain r where r: "s = 0x22 # 0x20 # key @ r" using assms(2) by (auto simp: key_line_iff)
  have "takeWhile (\<lambda>c. \<not> newline c) s = 0x22 # 0x20 # key @ takeWhile (\<lambda>c. \<not> newline c) r"
    using assms(1) unfolding r by (simp add: takeWhile_after key_ok_def)
  then show ?thesis by (simp add: line_value_def takeWhile_blank r)
qed

text \<open>\<open>whole\<close>: complete lines; \<open>starts\<close>: the text does not start with a newline.\<close>

definition whole :: "byte list \<Rightarrow> bool" where
  "whole a \<longleftrightarrow> a = [] \<or> newline (last a)"

definition starts :: "byte list \<Rightarrow> bool" where
  "starts b \<longleftrightarrow> b = [] \<or> \<not> newline (hd b)"

lemma starts_next [simp]: "starts (next_line s)"
  using hd_dropWhile [of newline] by (auto simp: starts_def next_line_def)

lemma starts_dropWhile: "starts b \<Longrightarrow> dropWhile newline b = b"
  by (cases b) (auto simp: starts_def)

lemma key_line_starts: "key_line key s \<Longrightarrow> starts s"
  by (auto simp: key_line_iff starts_def)

lemma line_split: "s = takeWhile (\<lambda>c. \<not> newline c) s @ takeWhile newline (dropWhile (\<lambda>c. \<not> newline c) s) @ next_line s"
  by (simp add: next_line_def)

lemma line_len_take: "take (line_len s) s = takeWhile (\<lambda>c. \<not> newline c) s @ takeWhile newline (dropWhile (\<lambda>c. \<not> newline c) s)"
proof -
  let ?a = "takeWhile (\<lambda>c. \<not> newline c) s @ takeWhile newline (dropWhile (\<lambda>c. \<not> newline c) s)"
  have s: "s = ?a @ next_line s" using line_split [of s] by simp
  then have "length s = length ?a + length (next_line s)" by (metis length_append)
  then have "line_len s = length ?a" by (simp add: line_len_def)
  then show ?thesis using s by (metis append_eq_conv_conj)
qed

lemma line_len_drop: "drop (line_len s) s = next_line s"
  by (metis line_len_take line_split append_assoc append_take_drop_id same_append_eq)

lemma line_len_le: "line_len s \<le> length s"
  by (simp add: line_len_def)

text \<open>A text is its first line, the newlines behind it, and the rest.\<close>

lemma line_parts:
  obtains l n where "s = l @ n @ next_line s" "\<forall>c\<in>set l. \<not> newline c" "\<forall>c\<in>set n. newline c" "n \<noteq> [] \<or> next_line s = []"
    "takeWhile (\<lambda>c. \<not> newline c) s = l" "take (line_len s) s = l @ n"
proof
  let ?d = "dropWhile (\<lambda>c. \<not> newline c) s"
  show "s = takeWhile (\<lambda>c. \<not> newline c) s @ takeWhile newline ?d @ next_line s" by (rule line_split)
  show "\<forall>c\<in>set (takeWhile (\<lambda>c. \<not> newline c) s). \<not> newline c" "\<forall>c\<in>set (takeWhile newline ?d). newline c"
    by (auto dest: set_takeWhileD)
  show "take (line_len s) s = takeWhile (\<lambda>c. \<not> newline c) s @ takeWhile newline ?d" by (rule line_len_take)
  show "takeWhile newline ?d \<noteq> [] \<or> next_line s = []"
  proof (cases ?d)
    case Nil
    then show ?thesis unfolding next_line_def Nil by simp
  next
    case (Cons c cs)
    then have "newline c" using hd_dropWhile [of "\<lambda>c. \<not> newline c" s] by simp
    then show ?thesis unfolding Cons by simp
  qed
qed (rule refl)

lemma parts_line:
  assumes "\<forall>c\<in>set l. \<not> newline c" and "\<forall>c\<in>set n. newline c" and "starts r" and "n \<noteq> [] \<or> r = []"
  shows "takeWhile (\<lambda>c. \<not> newline c) (l @ n @ r) = l" "next_line (l @ n @ r) = r"
proof -
  have nr: "n @ r = [] \<or> newline (hd (n @ r))" using assms(2,4) by (cases n) auto
  have d: "dropWhile (\<lambda>c. \<not> newline c) (l @ x) = dropWhile (\<lambda>c. \<not> newline c) x" for x using assms(1) by (simp add: dropWhile_append2)
  have "dropWhile (\<lambda>c. \<not> newline c) (n @ r) = n @ r" "takeWhile (\<lambda>c. \<not> newline c) (n @ r) = []" using nr by (cases "n @ r"; simp)+
  then have dn: "dropWhile (\<lambda>c. \<not> newline c) (l @ n @ r) = n @ r" and tn: "takeWhile (\<lambda>c. \<not> newline c) (l @ n @ r) = l"
    using d [of "n @ r"] takeWhile_after [of l "\<lambda>c. \<not> newline c" "n @ r"] assms(1) by simp_all
  show "takeWhile (\<lambda>c. \<not> newline c) (l @ n @ r) = l" by (rule tn)
  show "next_line (l @ n @ r) = r" unfolding next_line_def dn using assms(2,3) starts_dropWhile [of r] by (simp add: dropWhile_append2)
qed

lemma lines_parts:
  assumes "\<forall>c\<in>set l. \<not> newline c" and "\<forall>c\<in>set n. newline c" and "starts r" and "n \<noteq> [] \<or> r = []" and "l @ n @ r \<noteq> []"
  shows "lines (l @ n @ r) = l # lines r"
  by (subst lines.simps) (simp only: parts_line [OF assms(1-4)] assms(5) if_False)

lemma whole_line:
  assumes "next_line s \<noteq> [] \<or> (\<exists>c\<in>set s. newline c)"
  shows "whole (take (line_len s) s)"
proof -
  obtain l n where p: "s = l @ n @ next_line s" "\<forall>c\<in>set l. \<not> newline c" "\<forall>c\<in>set n. newline c" "n \<noteq> [] \<or> next_line s = []"
    "take (line_len s) s = l @ n" by (rule line_parts)
  have "n \<noteq> []"
  proof
    assume n: "n = []"
    then have "next_line s = []" using p(4) by simp
    then have "s = l" using p(1) n by simp
    then show False using assms p(2) \<open>next_line s = []\<close> by blast
  qed
  then show ?thesis using p(3,5) last_in_set [of n] by (auto simp: whole_def)
qed

lemma lines_append: "whole a \<Longrightarrow> starts b \<Longrightarrow> lines (a @ b) = lines a @ lines b"
proof (induction "length a" arbitrary: a rule: less_induct)
  case less
  show ?case
  proof (cases "a = []")
    case False
    obtain l n where p: "a = l @ n @ next_line a" "\<forall>c\<in>set l. \<not> newline c" "\<forall>c\<in>set n. newline c" "n \<noteq> [] \<or> next_line a = []"
      "takeWhile (\<lambda>c. \<not> newline c) a = l" by (rule line_parts)
    define r where "r = next_line a"
    have a: "a = l @ n @ r" unfolding r_def by (rule p(1))
    have "newline (last a)" "last a \<in> set a" using less.prems(1) False by (simp_all add: whole_def)
    have n: "n \<noteq> []"
    proof
      assume "n = []"
      then have "r = []" using p(4) by (simp add: r_def)
      then have "a = l" using \<open>n = []\<close> a by simp
      then have "last a \<in> set l" using \<open>last a \<in> set a\<close> by simp
      then show False using p(2) \<open>newline (last a)\<close> by blast
    qed
    have "r \<noteq> [] \<Longrightarrow> last a = last r" unfolding a by simp
    then have wr: "whole r" using \<open>newline (last a)\<close> by (cases "r = []") (simp_all add: whole_def)
    have sr: "starts r" by (simp add: r_def)
    have srb: "starts (r @ b)" using sr less.prems(2) by (cases r) (auto simp: starts_def)
    have "lines (r @ b) = lines r @ lines b"
      by (rule less.hyps) (use length_next_line [OF False] wr less.prems(2) in \<open>simp_all add: r_def\<close>)
    moreover have "lines a = l # lines r" unfolding a by (rule lines_parts [OF p(2,3) sr]) (use n in simp_all)
    moreover have "lines (l @ n @ (r @ b)) = l # lines (r @ b)" by (rule lines_parts [OF p(2,3) srb]) (use n in simp_all)
    ultimately show ?thesis unfolding a by simp
  qed simp
qed

lemma lines_line: "s \<noteq> [] \<Longrightarrow> lines (take (line_len s) s) = [takeWhile (\<lambda>c. \<not> newline c) s]"
proof -
  assume s: "s \<noteq> []"
  obtain l n where p: "s = l @ n @ next_line s" "\<forall>c\<in>set l. \<not> newline c" "\<forall>c\<in>set n. newline c" "n \<noteq> [] \<or> next_line s = []"
    "takeWhile (\<lambda>c. \<not> newline c) s = l" "take (line_len s) s = l @ n" by (rule line_parts)
  have "l @ n \<noteq> []" using p(1,4) s by auto
  then have "lines (l @ n @ []) = l # lines []" by (intro lines_parts [OF p(2,3)]) (simp_all add: starts_def)
  then show ?thesis using p(5,6) by simp
qed

section \<open>Reading\<close>

lemma get_cfg_value_lines:
  assumes "key_ok key"
  shows "get_cfg_value alloc key s req =
    (case find (key_line key) (lines s) of
       None \<Rightarrow> (Missing, req)
     | Some l \<Rightarrow> if alloc req then (Found (line_value key l), req + 1) else (Oom, req + 1))"
proof (induction "length s" arbitrary: s rule: less_induct)
  case less
  show ?case
  proof (cases "s = []")
    case False
    then show ?thesis
      using less.hyps [OF length_next_line [OF False]] key_line_prefix [OF assms, of s] line_value_prefix [OF assms, of s]
      by (simp add: get_cfg_value.simps [of alloc key s] lines.simps [of s] Let_def)
  qed (simp add: get_cfg_value.simps)
qed

section \<open>Writing\<close>

text \<open>\<open>set_lines\<close>: the first line with the key is replaced and the others deleted; a new line goes behind the first line.\<close>

definition set_lines :: "byte list \<Rightarrow> byte list \<Rightarrow> byte list list \<Rightarrow> byte list list" where
  "set_lines key new ls =
     (if \<exists>l\<in>set ls. key_line key l
      then takeWhile (\<lambda>l. \<not> key_line key l) ls @ new # filter (\<lambda>l. \<not> key_line key l) (tl (dropWhile (\<lambda>l. \<not> key_line key l) ls))
      else case ls of [] \<Rightarrow> [new] | l # ls \<Rightarrow> l # new # ls)"

definition option_line :: "byte list \<Rightarrow> byte list \<Rightarrow> byte list" where
  "option_line key val = [0x22, 0x20] @ key @ [0x20] @ val"

lemma lines_Cons: "s \<noteq> [] \<Longrightarrow> lines s = takeWhile (\<lambda>c. \<not> newline c) s # lines (next_line s)"
  by (simp add: lines.simps)

lemma delete_keys_lines:
  assumes "key_ok key"
  shows "starts s \<Longrightarrow> lines (delete_keys key s) = filter (\<lambda>l. \<not> key_line key l) (lines s) \<and> starts (delete_keys key s)"
proof (induction "length s" arbitrary: s rule: less_induct)
  case less
  show ?case
  proof (cases "s = []")
    case False
    have IH: "lines (delete_keys key (next_line s)) = filter (\<lambda>l. \<not> key_line key l) (lines (next_line s))" "starts (delete_keys key (next_line s))"
      using less.hyps [OF length_next_line [OF False]] by simp_all
    show ?thesis
    proof (cases "key_line key s")
      case True
      then show ?thesis using IH key_line_prefix [OF assms, of s] False by (simp add: delete_keys.simps [of key s] lines_Cons)
    next
      case nk: False
      let ?a = "take (line_len s) s"
      have d: "delete_keys key s = ?a @ delete_keys key (next_line s)" using False nk by (subst delete_keys.simps) simp
      have "lines (?a @ delete_keys key (next_line s)) = lines ?a @ lines (delete_keys key (next_line s))"
      proof (cases "next_line s = []")
        case True
        then show ?thesis by (simp add: delete_keys.simps)
      next
        case False
        then show ?thesis using lines_append [OF whole_line IH(2)] by blast
      qed
      then have "lines (delete_keys key s) = filter (\<lambda>l. \<not> key_line key l) (lines s)"
        unfolding d using lines_line [OF False] IH(1) key_line_prefix [OF assms, of s] nk by (simp add: lines_Cons [OF False])
      moreover have "starts (delete_keys key s)"
      proof -
        have "?a \<noteq> []" using length_next_line [OF False] False by (simp add: line_len_def)
        moreover have "hd ?a = hd s" using calculation by (metis hd_take take_eq_Nil neq0_conv)
        ultimately show ?thesis unfolding d using less.prems False by (simp add: starts_def)
      qed
      ultimately show ?thesis ..
    qed
  qed (simp add: delete_keys.simps starts_def)
qed

lemma find_key_Some:
  assumes "key_ok key"
  shows "find_key key s = Some i \<Longrightarrow> i \<le> length s \<and> whole (take i s) \<and> key_line key (drop i s) \<and> (\<forall>l\<in>set (lines (take i s)). \<not> key_line key l)"
proof (induction "length s" arbitrary: s i rule: less_induct)
  case less
  have False': "s \<noteq> []" using less.prems by (auto simp: find_key.simps [of key s] split: if_splits)
  show ?case
  proof (cases "key_line key s")
    case True
    then have "i = 0" using less.prems False' by (simp add: find_key.simps [of key s])
    then show ?thesis using True by (simp add: whole_def)
  next
    case nk: False
    then obtain j where j: "find_key key (next_line s) = Some j" "i = line_len s + j"
      using less.prems False' by (auto simp: find_key.simps [of key s])
    have IH: "j \<le> length (next_line s)" "whole (take j (next_line s))" "key_line key (drop j (next_line s))"
      "\<forall>l\<in>set (lines (take j (next_line s))). \<not> key_line key l" using less.hyps [OF length_next_line [OF False'] j(1)] by simp_all
    have take: "take i s = take (line_len s) s @ take j (next_line s)" unfolding j(2) take_add line_len_drop ..
    have "next_line s \<noteq> []" using j(1) by (auto simp: find_key.simps)
    then have w: "whole (take (line_len s) s)" using whole_line by blast
    have st: "starts (take j (next_line s))"
      using starts_next [of s] unfolding starts_def by (cases j; cases "next_line s") auto
    have "lines (take i s) = takeWhile (\<lambda>c. \<not> newline c) s # lines (take j (next_line s))"
      unfolding take lines_append [OF w st] lines_line [OF False'] by simp
    moreover have "whole (take i s)" using w IH(2) unfolding take whole_def by (auto simp: last_append)
    moreover have "drop i s = drop j (next_line s)" unfolding j(2) by (metis line_len_drop drop_drop add.commute)
    moreover have "length s = line_len s + length (next_line s)" using line_len_le [of s] length_next_line [OF False'] by (simp add: line_len_def)
    ultimately show ?thesis using IH j(2) key_line_prefix [OF assms, of s] nk by auto
  qed
qed

lemma find_key_None: "key_ok key \<Longrightarrow> find_key key s = None \<Longrightarrow> \<forall>l\<in>set (lines s). \<not> key_line key l"
proof (induction "length s" arbitrary: s rule: less_induct)
  case less
  show ?case
  proof (cases "s = []")
    case False
    then have "\<not> key_line key s" "find_key key (next_line s) = None" using less.prems(2) by (auto simp: find_key.simps [of key s] split: if_splits)
    then show ?thesis
      using less.hyps [OF length_next_line [OF False] less.prems(1)] key_line_prefix [OF less.prems(1), of s] by (simp add: lines_Cons [OF False])
  qed simp
qed

text \<open>The text after a change, and its lines.\<close>

definition new_text :: "byte list \<Rightarrow> byte list \<Rightarrow> byte list \<Rightarrow> byte list" where
  "new_text key val buf =
     (let (start, stop) = (case find_key key buf of
            Some i \<Rightarrow> (i, i + line_len (drop i buf))
          | None \<Rightarrow> (line_len buf, line_len buf))
      in take start buf @ option_line key val @ [0x0A] @ delete_keys key (drop stop buf))"

lemma set_cfg_value_text:
  "set_cfg_value alloc key val buf req =
     (if fst (set_cfg_value alloc key val buf req) = None then (None, req + 1)
      else (Some (new_text key val buf), snd (set_cfg_value alloc key val buf req)))"
  by (simp add: set_cfg_value_def new_text_def option_line_def Let_def split: option.split)

lemma set_cfg_value_alloc: "\<forall>n. alloc n \<Longrightarrow> \<exists>r. set_cfg_value alloc key val buf req = (Some (new_text key val buf), r)"
  by (simp add: set_cfg_value_def new_text_def option_line_def Let_def split: option.split)

lemma new_text_lines:
  assumes key: "key_ok key" and val: "val_ok val" and buf: "buf = [] \<or> (\<exists>c\<in>set buf. newline c) \<or> find_key key buf \<noteq> None"
  shows "lines (new_text key val buf) = set_lines key (option_line key val) (lines buf)"
proof -
  have opt: "\<forall>c\<in>set (option_line key val). \<not> newline c" "option_line key val \<noteq> []" "starts (option_line key val @ r)" for r
    using key val by (auto simp: option_line_def key_ok_def val_ok_def starts_def)
  have line: "lines (option_line key val @ [0x0A] @ d) = option_line key val # lines d" if "starts d" for d
    by (rule lines_parts [OF opt(1) _ that]) (simp_all add: opt(2))
  show ?thesis
  proof (cases "find_key key buf")
    case None
    have nk: "\<forall>l\<in>set (lines buf). \<not> key_line key l" by (rule find_key_None [OF key None])
    have t: "new_text key val buf = take (line_len buf) buf @ option_line key val @ [0x0A] @ delete_keys key (next_line buf)"
      by (simp add: new_text_def None line_len_drop)
    show ?thesis
    proof (cases "buf = []")
      case True
      then show ?thesis using line [of "[]"] t unfolding True by (simp add: set_lines_def delete_keys.simps line_len_def next_line_def starts_def)
    next
      case False
      then have "whole (take (line_len buf) buf)" using buf None whole_line by blast
      then have "lines (new_text key val buf) = takeWhile (\<lambda>c. \<not> newline c) buf # option_line key val # lines (delete_keys key (next_line buf))"
        unfolding t using lines_append [OF _ opt(3)] lines_line [OF False] line delete_keys_lines [OF key, of "next_line buf"] by simp
      moreover have "lines (delete_keys key (next_line buf)) = lines (next_line buf)"
        using delete_keys_lines [OF key, of "next_line buf"] nk by (simp add: lines_Cons [OF False] filter_id_conv)
      ultimately show ?thesis using nk by (simp add: set_lines_def lines_Cons [OF False])
    qed
  next
    case (Some i)
    have f: "i \<le> length buf" "whole (take i buf)" "key_line key (drop i buf)" "\<forall>l\<in>set (lines (take i buf)). \<not> key_line key l"
      using find_key_Some [OF key Some] by simp_all
    define d where "d = drop i buf"
    have d: "d \<noteq> []" "starts d" "key_line key d" using f(3) key_line_starts by (auto simp: d_def key_line_iff)
    have t: "new_text key val buf = take i buf @ option_line key val @ [0x0A] @ delete_keys key (next_line d)"
      by (simp add: new_text_def Some line_len_drop [symmetric] d_def add.commute)
    have l: "lines buf = lines (take i buf) @ takeWhile (\<lambda>c. \<not> newline c) d # lines (next_line d)"
      using lines_append [OF f(2) d(2)] lines_Cons [OF d(1)] by (simp add: d_def)
    have kd: "key_line key (takeWhile (\<lambda>c. \<not> newline c) d)" using key_line_prefix [OF key, of d] d(3) by simp
    have "lines (new_text key val buf) = lines (take i buf) @ option_line key val # filter (\<lambda>l. \<not> key_line key l) (lines (next_line d))"
      unfolding t lines_append [OF f(2) opt(3)] using line delete_keys_lines [OF key, of "next_line d"] by simp
    moreover have "set_lines key (option_line key val) (lines buf) =
        lines (take i buf) @ option_line key val # filter (\<lambda>l. \<not> key_line key l) (lines (next_line d))"
      using f(4) kd unfolding set_lines_def l by (simp add: takeWhile_append2 dropWhile_append2)
    ultimately show ?thesis by simp
  qed
qed

section \<open>The options as a map\<close>

definition option_of :: "byte list \<Rightarrow> byte list \<Rightarrow> byte list option" where
  "option_of key s = map_option (line_value key) (find (key_line key) (lines s))"

text \<open>There is a place for an option: the text has a complete first line, or the option already.\<close>

definition settable :: "byte list \<Rightarrow> byte list \<Rightarrow> bool" where
  "settable key s \<longleftrightarrow> s = [] \<or> (\<exists>c\<in>set s. newline c) \<or> option_of key s \<noteq> None"

lemma get_cfg_value_option:
  "key_ok key \<Longrightarrow> get_cfg_value alloc key s req =
    (case option_of key s of None \<Rightarrow> (Missing, req) | Some v \<Rightarrow> if alloc req then (Found v, req + 1) else (Oom, req + 1))"
  by (simp add: get_cfg_value_lines option_of_def split: option.split)

lemma settable_find: "key_ok key \<Longrightarrow> settable key s \<Longrightarrow> s = [] \<or> (\<exists>c\<in>set s. newline c) \<or> find_key key s \<noteq> None"
  using find_key_None [of key s] by (auto simp: settable_def option_of_def find_Some_iff)

lemma key_line_option [simp]: "key_line key (option_line key val)"
  by (simp add: key_line_iff option_line_def)

lemma key_line_unique: "key_ok key \<Longrightarrow> key_ok key' \<Longrightarrow> key_line key l \<Longrightarrow> key_line key' l \<Longrightarrow> key = key'"
proof -
  have sep: "takeWhile (\<lambda>c. \<not> newline c \<and> \<not> blank c) (drop 2 l) = key" if "key_ok key" "key_line key l" for key
  proof -
    obtain r where r: "l = 0x22 # 0x20 # key @ r" "case r of [] \<Rightarrow> True | c # _ \<Rightarrow> blank c \<or> newline c" using \<open>key_line key l\<close> by (auto simp: key_line_iff)
    have "takeWhile (\<lambda>c. \<not> newline c \<and> \<not> blank c) r = []" using r(2) by (cases r) auto
    then show ?thesis using that(1) unfolding r(1) by (simp add: takeWhile_after key_ok_def)
  qed
  assume "key_ok key" "key_ok key'" "key_line key l" "key_line key' l"
  then show "key = key'" using sep by metis
qed

lemma find_filter: "(\<And>x. P x \<Longrightarrow> Q x) \<Longrightarrow> find P (filter Q xs) = find P xs"
  by (induction xs) auto

lemma find_append: "find P (xs @ ys) = (case find P xs of None \<Rightarrow> find P ys | Some x \<Rightarrow> Some x)"
  by (induction xs) auto

lemma find_none: "(\<And>x. x \<in> set xs \<Longrightarrow> \<not> P x) \<Longrightarrow> find P xs = None"
  by (auto simp: find_None_iff)

lemma find_set_same: "key_line key new \<Longrightarrow> find (key_line key) (set_lines key new ls) = Some new"
proof (cases "\<exists>l\<in>set ls. key_line key l")
  case True
  assume new: "key_line key new"
  have "find (key_line key) (takeWhile (\<lambda>l. \<not> key_line key l) ls) = None" by (rule find_none) (auto dest: set_takeWhileD)
  then show ?thesis using True new by (simp add: set_lines_def find_append)
next
  case False
  assume "key_line key new"
  then show ?thesis using False by (cases ls) (simp_all add: set_lines_def)
qed

lemma find_set_other:
  assumes "\<And>l. key_line key l \<Longrightarrow> \<not> P l" and "\<not> P new"
  shows "find P (set_lines key new ls) = find P ls"
proof (cases "\<exists>l\<in>set ls. key_line key l")
  case True
  let ?Q = "\<lambda>l. \<not> key_line key l"
  obtain x where "x \<in> set ls" "key_line key x" using True by blast
  then have ne: "dropWhile ?Q ls \<noteq> []" by (auto simp: dropWhile_eq_Nil_conv)
  then obtain y ys where y: "dropWhile ?Q ls = y # ys" by (cases "dropWhile ?Q ls") auto
  have "key_line key y" using hd_dropWhile [OF ne] y by simp
  then have ny: "\<not> P y" using assms(1) by blast
  have "find P (filter ?Q ys) = find P ys" by (rule find_filter) (use assms(1) in blast)
  then have "find P (set_lines key new ls) = find P (takeWhile ?Q ls @ dropWhile ?Q ls)"
    using True assms(2) ny by (simp add: set_lines_def y find_append split: option.split)
  then show ?thesis by simp
next
  case False
  then show ?thesis using assms(2) by (cases ls) (simp_all add: set_lines_def)
qed

lemma set_lines_first: "ls \<noteq> [] \<Longrightarrow> \<not> key_line key (hd ls) \<Longrightarrow> set_lines key new ls \<noteq> [] \<and> hd (set_lines key new ls) = hd ls"
  by (cases ls) (auto simp: set_lines_def)

text \<open>What the clients of the state file rely on.\<close>

locale option_store =
  fixes get :: "'k \<Rightarrow> 's \<Rightarrow> 'v option" and put :: "'k \<Rightarrow> 'v \<Rightarrow> 's \<Rightarrow> 's" and room :: "'k \<Rightarrow> 's \<Rightarrow> bool"
    and key_fine :: "'k \<Rightarrow> bool" and val_fine :: "'v \<Rightarrow> bool" and norm :: "'v \<Rightarrow> 'v"
  assumes get_same: "key_fine k \<Longrightarrow> val_fine v \<Longrightarrow> room k s \<Longrightarrow> get k (put k v s) = Some (norm v)"
    and get_other: "key_fine k \<Longrightarrow> key_fine k' \<Longrightarrow> k' \<noteq> k \<Longrightarrow> val_fine v \<Longrightarrow> room k s \<Longrightarrow> get k' (put k v s) = get k' s"
    and room_put: "key_fine k \<Longrightarrow> val_fine v \<Longrightarrow> room k s \<Longrightarrow> room k' (put k v s)"
begin

fun put_all :: "('k \<times> 'v) list \<Rightarrow> 's \<Rightarrow> 's" where
  "put_all [] s = s"
| "put_all ((k, v) # us) s = put_all us (put k v s)"

lemma get_put_all:
  "\<forall>(k, v)\<in>set us. key_fine k \<and> val_fine v \<Longrightarrow> \<forall>k. room k s \<Longrightarrow> key_fine k \<Longrightarrow>
    get k (put_all us s) = (case map_of (rev us) k of None \<Rightarrow> get k s | Some v \<Rightarrow> Some (norm v))"
proof (induction us arbitrary: s)
  case (Cons u us)
  obtain k' v where u: "u = (k', v)" by force
  have ok: "key_fine k'" "val_fine v" "\<forall>(k, v)\<in>set us. key_fine k \<and> val_fine v" using Cons.prems(1) u by auto
  have "\<forall>k. room k (put k' v s)" using room_put ok Cons.prems(2) by blast
  from Cons.IH [OF ok(3) this Cons.prems(3)] show ?case
    using get_same [OF ok(1,2)] get_other [OF ok(1) Cons.prems(3) _ ok(2)] Cons.prems(2) u
    by (cases "k = k'") (auto simp: map_add_def split: option.split)
qed simp

end

lemma new_text_newline: "\<exists>c\<in>set (new_text key val s). newline c"
  by (auto simp: new_text_def Let_def split: option.split)

lemma option_line_value: "key_ok key \<Longrightarrow> line_value key (option_line key val) = dropWhile blank val"
  by (simp add: line_value_def option_line_def)

interpretation pam: option_store option_of new_text settable key_ok val_ok "dropWhile blank"
proof (unfold_locales, goal_cases)
  case (1 k v s)
  then show ?case
    using new_text_lines [OF 1(1,2) settable_find [OF 1(1,3)]] find_set_same [of k "option_line k v" "lines s"]
    by (simp add: option_of_def option_line_value)
next
  case (2 k k' v s)
  have "find (key_line k') (set_lines k (option_line k v) (lines s)) = find (key_line k') (lines s)"
    by (rule find_set_other) (use key_line_unique [OF 2(1,2)] 2(3) key_line_option in blast)+
  then show ?case using new_text_lines [OF 2(1,4) settable_find [OF 2(1,5)]] by (simp add: option_of_def)
next
  case (3 k v s k')
  then show ?case using new_text_newline by (auto simp: settable_def)
qed

lemma new_text_first:
  assumes "key_ok key" and "val_ok val" and "settable key s" and "lines s \<noteq> []" and "\<not> key_line key (hd (lines s))"
  shows "lines (new_text key val s) \<noteq> [] \<and> hd (lines (new_text key val s)) = hd (lines s)"
  using new_text_lines [OF assms(1,2) settable_find [OF assms(1,3)]] set_lines_first [OF assms(4,5)] by simp

section \<open>The property\<close>

text \<open>A sequence of calls of \<^verbatim>\<open>set_cfg_value\<close>.\<close>

fun set_cfg_values :: "(nat \<Rightarrow> bool) \<Rightarrow> (byte list \<times> byte list) list \<Rightarrow> byte list \<Rightarrow> nat \<Rightarrow> byte list option \<times> nat" where
  "set_cfg_values alloc [] buf req = (Some buf, req)"
| "set_cfg_values alloc ((key, val) # us) buf req =
     (case set_cfg_value alloc key val buf req of
        (None, req) \<Rightarrow> (None, req)
      | (Some buf, req) \<Rightarrow> set_cfg_values alloc us buf req)"

lemma set_cfg_values_all: "\<forall>n. alloc n \<Longrightarrow> \<exists>r. set_cfg_values alloc us buf req = (Some (pam.put_all us buf), r)"
proof (induction us arbitrary: buf req)
  case (Cons u us)
  obtain k v where u: "u = (k, v)" by force
  obtain r where "set_cfg_value alloc k v buf req = (Some (new_text k v buf), r)" using set_cfg_value_alloc [OF Cons.prems] by blast
  then show ?case using Cons.IH [OF Cons.prems, of "new_text k v buf" r] by (simp add: u)
qed simp

lemma put_all_first:
  "\<forall>(k, v)\<in>set us. key_ok k \<and> val_ok v \<and> \<not> key_line k (hd (lines buf)) \<Longrightarrow> \<exists>c\<in>set buf. newline c \<Longrightarrow> lines buf \<noteq> [] \<Longrightarrow>
    lines (pam.put_all us buf) \<noteq> [] \<and> hd (lines (pam.put_all us buf)) = hd (lines buf)"
proof (induction us arbitrary: buf)
  case (Cons u us)
  obtain k v where u: "u = (k, v)" by force
  have ok: "key_ok k" "val_ok v" "\<not> key_line k (hd (lines buf))" using Cons.prems(1) u by auto
  have "settable k buf" using Cons.prems(2) by (simp add: settable_def)
  from new_text_first [OF ok(1,2) this Cons.prems(3) ok(3)] show ?case
    using Cons.IH [of "new_text k v buf"] Cons.prems(1) new_text_newline [of k v buf] by (simp add: u)
qed simp

text \<open>
  C39. The state file is a map from keys to values: after any sequence of \<^verbatim>\<open>set_cfg_value\<close> calls on a text with a complete first line, reading a
  key gives the last value set for it (without leading blanks), or what the text had before; the first line, the secret,
  stays as it was.
\<close>

theorem pam_config_map:
  assumes "\<exists>c\<in>set buf. newline c" and "\<forall>n. alloc n" and "key_ok key"
    and "\<forall>(k, v)\<in>set us. key_ok k \<and> val_ok v \<and> \<not> key_line k (hd (lines buf))"
  shows "\<exists>buf' r. set_cfg_values alloc us buf req = (Some buf', r) \<and>
    fst (get_cfg_value alloc key buf' r) =
      (case map_of (rev us) key of None \<Rightarrow> fst (get_cfg_value alloc key buf req) | Some v \<Rightarrow> Found (dropWhile blank v)) \<and>
    hd (lines buf') = hd (lines buf)"
proof -
  obtain r where r: "set_cfg_values alloc us buf req = (Some (pam.put_all us buf), r)" using set_cfg_values_all assms(2) by blast
  have ok: "\<forall>(k, v)\<in>set us. key_ok k \<and> val_ok v" using assms(4) by auto
  have "\<forall>k. settable k buf" using assms(1) by (simp add: settable_def)
  from pam.get_put_all [OF ok this assms(3)] have
    "option_of key (pam.put_all us buf) = (case map_of (rev us) key of None \<Rightarrow> option_of key buf | Some v \<Rightarrow> Some (dropWhile blank v))" .
  then have "fst (get_cfg_value alloc key (pam.put_all us buf) r) =
      (case map_of (rev us) key of None \<Rightarrow> fst (get_cfg_value alloc key buf req) | Some v \<Rightarrow> Found (dropWhile blank v))"
    using assms(2) by (simp add: get_cfg_value_option [OF assms(3)] split: option.split)
  moreover have "lines buf \<noteq> []" using assms(1) by (auto simp: lines.simps [of buf])
  ultimately show ?thesis using r put_all_first [OF assms(4,1)] by blast
qed

lemma pam_config_map_witness:
  "\<exists>buf' r. set_cfg_values (\<lambda>_. True) [([0x41], [0x31]), ([0x42], [0x20, 0x32]), ([0x41], [0x33])] [0x53, 0x0A] 0 = (Some buf', r) \<and>
    fst (get_cfg_value (\<lambda>_. True) [0x41] buf' r) = Found [0x33] \<and> hd (lines buf') = [0x53]"
proof -
  let ?us = "[([0x41], [0x31]), ([0x42], [0x20, 0x32]), ([0x41], [0x33])] :: (byte list \<times> byte list) list"
  have first: "hd (lines [0x53, 0x0A]) = [0x53]" by (simp add: lines.simps [of "[0x53, 0x0A]"] newline_def)
  have "\<exists>c\<in>set [0x53, 0x0A :: byte]. newline c" "\<forall>n. (\<lambda>_ :: nat. True) n" "key_ok [0x41]"
    "\<forall>(k, v)\<in>set ?us. key_ok k \<and> val_ok v \<and> \<not> key_line k (hd (lines [0x53, 0x0A]))"
    unfolding first by (simp_all add: key_ok_def val_ok_def newline_def blank_def key_line_def)
  from pam_config_map [OF this, of 0] show ?thesis unfolding first by (simp add: blank_def)
qed

end
