(* ===== verification/PamNumbers.thy ===== *)
theory PamNumbers
  imports PamConfig
begin

text \<open>
  Numbers in the state file: \<^verbatim>\<open>strtoul\<close> and \<^verbatim>\<open>strtol\<close> of the C library with base 10 on a machine with a 64-bit \<^verbatim>\<open>long\<close>, which answer
  the value, the rest of the text (the text itself when there is no number) and whether \<^verbatim>\<open>errno\<close> becomes ERANGE, and the decimal
  output of \<^verbatim>\<open>sprintf\<close>. Reading what was printed gives the number back.
\<close>

definition space :: "byte \<Rightarrow> bool" where
  "space c \<longleftrightarrow> c = 32 \<or> 9 \<le> c \<and> c \<le> 13"

definition digit :: "byte \<Rightarrow> bool" where
  "digit c \<longleftrightarrow> 48 \<le> c \<and> c \<le> 57"

definition dec_value :: "byte list \<Rightarrow> nat" where
  "dec_value ds = foldl (\<lambda>n c. 10 * n + (unat c - 48)) 0 ds"

definition sign_of :: "byte list \<Rightarrow> bool \<times> byte list" where
  "sign_of t = (case t of [] \<Rightarrow> (False, []) | c # cs \<Rightarrow> if c = 45 then (True, cs) else if c = 43 then (False, cs) else (False, c # cs))"

definition strtoul :: "byte list \<Rightarrow> 64 word \<times> byte list \<times> bool" where
  "strtoul s =
     (let (neg, t) = sign_of (dropWhile space s);
          ds = takeWhile digit t;
          n = dec_value ds
      in if ds = [] then (0, s, False)
         else if 2 ^ 64 \<le> n then (- 1, dropWhile digit t, True)
         else (if neg then - of_nat n else of_nat n, dropWhile digit t, False))"

definition strtol :: "byte list \<Rightarrow> int \<times> byte list \<times> bool" where
  "strtol s =
     (let (neg, t) = sign_of (dropWhile space s);
          ds = takeWhile digit t;
          n = int (dec_value ds)
      in if ds = [] then (0, s, False)
         else if neg \<and> 2 ^ 63 < n then (- (2 ^ 63), dropWhile digit t, True)
         else if \<not> neg \<and> 2 ^ 63 \<le> n then (2 ^ 63 - 1, dropWhile digit t, True)
         else (if neg then - n else n, dropWhile digit t, False))"

text \<open>The conversion \<^verbatim>\<open>(int)\<close> of an \<^verbatim>\<open>unsigned long\<close>.\<close>

definition to_int :: "64 word \<Rightarrow> int" where
  "to_int v = sint (ucast v :: u32)"

definition digit_char :: "nat \<Rightarrow> byte" where
  "digit_char d = of_nat (48 + d)"

fun dec :: "nat \<Rightarrow> byte list" where
  "dec n = (if n < 10 then [digit_char n] else dec (n div 10) @ [digit_char (n mod 10)])"

declare dec.simps [simp del]

definition dec_int :: "int \<Rightarrow> byte list" where
  "dec_int i = (if i < 0 then 45 # dec (nat (- i)) else dec (nat i))"

lemma sign_of_length: "length (snd (sign_of t)) \<le> length t"
  by (cases t) (simp_all add: sign_of_def)

lemma strtoul_shorter: "strtoul s = (v, r, e) \<Longrightarrow> r \<noteq> s \<Longrightarrow> length r < length s"
proof -
  assume s: "strtoul s = (v, r, e)" "r \<noteq> s"
  obtain neg t where t: "sign_of (dropWhile space s) = (neg, t)" by force
  have "takeWhile digit t \<noteq> []" using s t by (auto simp: strtoul_def Let_def)
  then have r: "r = dropWhile digit t" using s(1) t by (auto simp: strtoul_def Let_def split: if_splits)
  have "length t = length (takeWhile digit t) + length r" unfolding r by (metis takeWhile_dropWhile_id length_append)
  moreover have "length t \<le> length s" using sign_of_length [of "dropWhile space s"] length_dropWhile_le [of space s] t by simp
  ultimately show ?thesis using \<open>takeWhile digit t \<noteq> []\<close> by (cases "takeWhile digit t") simp_all
qed

lemma unat_of_nat_byte: "k < 256 \<Longrightarrow> unat (of_nat k :: byte) = k"
  by (simp add: unsigned_of_nat take_bit_eq_mod)

lemma digit_of_nat: "n < 10 \<Longrightarrow> digit (digit_char n) \<and> unat (digit_char n) = 48 + n"
proof -
  assume n: "n < 10"
  then have u: "unat (digit_char n) = 48 + n" using unat_of_nat_byte [of "48 + n"] by (simp only: digit_char_def)
  then show ?thesis using n by (simp add: digit_def word_le_nat_alt u)
qed

lemma dec_digits: "c \<in> set (dec n) \<Longrightarrow> digit c"
proof (induction n rule: dec.induct)
  case (1 n)
  then show ?case using digit_of_nat [of n] digit_of_nat [of "n mod 10"] by (subst (asm) dec.simps) (auto split: if_splits)
qed

lemma dec_nonempty [simp]: "dec n \<noteq> []"
  by (subst dec.simps) simp

lemma dec_value_dec: "dec_value (dec n) = n"
proof (induction n rule: dec.induct)
  case (1 n)
  show ?case
  proof (cases "n < 10")
    case True
    then show ?thesis using digit_of_nat [of n] by (subst dec.simps) (simp add: dec_value_def)
  next
    case False
    then have "dec_value (dec n) = 10 * dec_value (dec (n div 10)) + n mod 10"
      using digit_of_nat [of "n mod 10"] by (subst dec.simps) (simp add: dec_value_def)
    then show ?thesis using 1 False by simp
  qed
qed

lemma digit_not: "digit c \<Longrightarrow> \<not> space c \<and> c \<noteq> 45 \<and> c \<noteq> 43 \<and> \<not> newline c \<and> \<not> blank c"
  by (auto simp: digit_def space_def newline_def blank_def word_le_nat_alt)

lemma scan_dec:
  assumes "\<forall>c\<in>set sp. space c" and "r = [] \<or> \<not> digit (hd r)"
  shows "sign_of (dropWhile space (sp @ dec n @ r)) = (False, dec n @ r)" "takeWhile digit (dec n @ r) = dec n" "dropWhile digit (dec n @ r) = r"
proof -
  obtain c cs where c: "dec n = c # cs" by (cases "dec n") simp_all
  then have d: "digit c" using dec_digits [of c n] by simp
  have "dropWhile space (sp @ dec n @ r) = dropWhile space (dec n @ r)" using assms(1) by (simp add: dropWhile_append2)
  then show "sign_of (dropWhile space (sp @ dec n @ r)) = (False, dec n @ r)" using c digit_not [OF d] by (simp add: sign_of_def)
  have all: "\<forall>c\<in>set (dec n). digit c" using dec_digits by blast
  have "takeWhile digit r = []" "dropWhile digit r = r" using assms(2) by (cases r; auto)+
  then show "takeWhile digit (dec n @ r) = dec n" "dropWhile digit (dec n @ r) = r"
    using all by (simp_all add: takeWhile_after dropWhile_append2)
qed

lemma strtoul_dec:
  assumes "n < 2 ^ 64" and "\<forall>c\<in>set sp. space c" and "r = [] \<or> \<not> digit (hd r)"
  shows "strtoul (sp @ dec n @ r) = (of_nat n, r, False)"
  unfolding strtoul_def scan_dec(1) [OF assms(2,3)] Let_def prod.case scan_dec(2,3) [OF assms(2,3)] dec_value_dec using assms(1) by simp

lemma strtol_dec:
  assumes "n < 2 ^ 63" and "\<forall>c\<in>set sp. space c" and "r = [] \<or> \<not> digit (hd r)"
  shows "strtol (sp @ dec n @ r) = (int n, r, False)"
proof -
  have "int n < 2 ^ 63" using assms(1) by (metis of_nat_less_iff of_nat_numeral of_nat_power)
  then show ?thesis
    unfolding strtol_def scan_dec(1) [OF assms(2,3)] Let_def prod.case scan_dec(2,3) [OF assms(2,3)] dec_value_dec by simp
qed

lemma ucast_u64: "n < 2 ^ 32 \<Longrightarrow> (ucast (of_nat n :: 64 word) :: u32) = of_nat n"
  by (simp add: unsigned_of_nat word_of_nat_eq_iff)

lemma to_int_of_nat: "n < 2 ^ 31 \<Longrightarrow> to_int (of_nat n) = int n"
proof -
  assume n: "n < 2 ^ 31"
  then have "to_int (of_nat n) = sint (of_nat n :: u32)" unfolding to_int_def by (subst ucast_u64) simp_all
  also have "\<dots> = signed_take_bit 31 (uint (of_nat n :: u32))" by (simp add: sint_uint)
  also have "uint (of_nat n :: u32) = int n" using n by (simp only: uint_nat) (simp add: unat_of_nat_u32)
  also have "signed_take_bit 31 (int n) = int n" using n by (intro signed_take_bit_int_eq_self) simp_all
  finally show ?thesis .
qed

lemma dec_clean: "\<forall>c\<in>set (dec n). \<not> newline c \<and> \<not> blank c"
  using dec_digits digit_not by blast

end
