(* ===== verification/PamRate.thy ===== *)
theory PamRate
  imports PamNumbers "HOL-Library.Multiset"
begin

text \<open>
  The rate limit of the PAM module (\<^verbatim>\<open>rate_limit\<close> of \<^verbatim>\<open>pam_google_authenticator.c\<close>): the option RATE_LIMIT holds the number of attempts, the
  interval in seconds and the times of recent attempts. \<^verbatim>\<open>qsort\<close> is an insertion sort; when the comparator is not an order
  (times more than 2^31 seconds apart) the C library leaves the result open. The property reads a
  sequence of attempts as a sliding window.
\<close>

section \<open>The code\<close>

record pam_state =
  state_text :: "byte list"
  updated :: bool
  requests :: nat

definition RATE_LIMIT :: "byte list" where
  "RATE_LIMIT = [0x52, 0x41, 0x54, 0x45, 0x5F, 0x4C, 0x49, 0x4D, 0x49, 0x54]"

definition comparator :: "u32 \<Rightarrow> u32 \<Rightarrow> int" where
  "comparator a b = sint (a - b)"

fun insert_cmp :: "u32 \<Rightarrow> u32 list \<Rightarrow> u32 list" where
  "insert_cmp x [] = [x]"
| "insert_cmp x (y # ys) = (if comparator x y \<le> 0 then x # y # ys else y # insert_cmp x ys)"

definition qsort :: "u32 list \<Rightarrow> u32 list" where
  "qsort xs = foldr insert_cmp xs []"

definition starts_blank :: "byte list \<Rightarrow> bool" where
  "starts_blank s \<longleftrightarrow> (case s of [] \<Rightarrow> False | c # _ \<Rightarrow> blank c)"

text \<open>The loop that reads the times of earlier attempts, and those that prune them.\<close>

function parse_stamps :: "(nat \<Rightarrow> bool) \<Rightarrow> byte list \<Rightarrow> u32 list \<Rightarrow> nat \<Rightarrow> u32 list option \<times> nat" where
  "parse_stamps alloc s ts req =
     (if s = [] \<or> newline (hd s) then (Some ts, req)
      else if \<not> starts_blank s then (None, req)
      else (case strtoul s of (v, r, err) \<Rightarrow>
        if err \<or> r = s then (None, req)
        else if \<not> alloc req then (None, req + 1)
        else parse_stamps alloc r (ts @ [ucast v]) (req + 1)))"
  by pat_completeness auto
termination by (relation "measure (\<lambda>(alloc, s, ts, req). length s)") (auto dest: strtoul_shorter [OF sym])

declare parse_stamps.simps [simp del]

fun prune :: "u32 \<Rightarrow> u32 \<Rightarrow> u32 list \<Rightarrow> int \<Rightarrow> int \<times> int \<Rightarrow> int \<times> int" where
  "prune now interval [] i (start, stop) = (start, stop)"
| "prune now interval (t # ts) i (start, stop) =
     (if t < now - interval then prune now interval ts (i + 1) (i + 1, i)
      else if t > now then (start, stop)
      else prune now interval ts (i + 1) (start, i))"

definition stamp_list :: "int \<Rightarrow> int \<Rightarrow> u32 list \<Rightarrow> byte list" where
  "stamp_list attempts interval ts = dec_int attempts @ [0x20] @ dec_int interval @ concat (map (\<lambda>t. 0x20 # dec (unat t)) ts)"

definition rate_limit :: "(nat \<Rightarrow> bool) \<Rightarrow> u32 \<Rightarrow> pam_state \<Rightarrow> int \<times> pam_state" where
  "rate_limit alloc now st =
     (case get_cfg_value alloc RATE_LIMIT (state_text st) (requests st) of
        (Missing, req) \<Rightarrow> (0, st\<lparr>requests := req\<rparr>)
      | (Oom, req) \<Rightarrow> (-1, st\<lparr>requests := req\<rparr>)
      | (Found value, req) \<Rightarrow>
          (let (a, e1, err1) = strtoul value; attempts = to_int a
           in if attempts < 1 \<or> e1 = value \<or> attempts > 100 \<or> err1 \<or> \<not> starts_blank e1 then (-1, st\<lparr>requests := req\<rparr>)
              else
                (let (b, e2, err2) = strtoul e1; interval = to_int b
                 in if interval < 1 \<or> e2 = e1 \<or> interval > 3600 \<or> err2 then (-1, st\<lparr>requests := req\<rparr>)
                    else if \<not> alloc req then (-1, st\<lparr>requests := req + 1\<rparr>)
                    else case parse_stamps alloc e2 [now] (req + 1) of
                      (None, req) \<Rightarrow> (-1, st\<lparr>requests := req\<rparr>)
                    | (Some ts, req) \<Rightarrow>
                        (let timestamps = qsort ts;
                             (start, stop) = prune now (of_int interval) timestamps 0 (0, -1);
                             exceeded = stop - start + 1 > attempts;
                             start = (if exceeded then stop - attempts + 1 else start);
                             kept = take (nat (stop - start + 1)) (drop (nat start) timestamps)
                         in if \<not> alloc req then (-1, st\<lparr>requests := req + 1\<rparr>)
                            else case set_cfg_value alloc RATE_LIMIT (stamp_list attempts interval kept) (state_text st) (req + 1) of
                              (None, req) \<Rightarrow> (-1, st\<lparr>requests := req\<rparr>)
                            | (Some buf, req) \<Rightarrow>
                                (if exceeded then -1 else 0, st\<lparr>state_text := buf, updated := True, requests := req\<rparr>)))))"

section \<open>Reading the option back\<close>

definition nat_stamps :: "nat list \<Rightarrow> byte list" where
  "nat_stamps ts = concat (map (\<lambda>t. 0x20 # dec t) ts)"

lemma nat_stamps_simps [simp]: "nat_stamps [] = []" "nat_stamps (t # ts) = 0x20 # dec t @ nat_stamps ts"
  by (simp_all add: nat_stamps_def)

lemma nat_stamps_end: "nat_stamps ts = [] \<or> \<not> digit (hd (nat_stamps ts))"
  by (cases ts) (simp_all add: digit_def)

lemma space_blank [simp]: "space 0x20"
  by (simp add: space_def)

lemma strtoul_stamp: "t < 2 ^ 64 \<Longrightarrow> strtoul (0x20 # dec t @ nat_stamps ts) = (of_nat t, nat_stamps ts, False)"
  using strtoul_dec [of t "[0x20]" "nat_stamps ts"] nat_stamps_end [of ts] by simp

lemma parse_stamps_correct:
  assumes "\<forall>n. alloc n"
  shows "\<forall>t\<in>set ts. t < 2 ^ 32 \<Longrightarrow> parse_stamps alloc (nat_stamps ts) acc req = (Some (acc @ map of_nat ts), req + length ts)"
proof (induction ts arbitrary: acc req)
  case Nil
  then show ?case by (simp add: parse_stamps.simps)
next
  case (Cons t ts)
  have t: "t < 2 ^ 32" "t < 2 ^ 64" using Cons.prems by (auto intro: less_trans)
  have "nat_stamps ts \<noteq> 0x20 # dec t @ nat_stamps ts" by (metis append_Cons append_self_conv2 list.distinct(1) append_assoc)
  moreover have "alloc req" using assms by blast
  moreover have "parse_stamps alloc (nat_stamps ts) (acc @ [of_nat t]) (req + 1) = (Some (acc @ [of_nat t] @ map of_nat ts), req + 1 + length ts)"
    using Cons by simp
  ultimately show ?case using strtoul_stamp [OF t(2), of ts] ucast_u64 [OF t(1)]
    by (subst parse_stamps.simps) (simp add: starts_blank_def)
qed

text \<open>Sorting, for times below 2^31.\<close>

lemma comparator_le: "a < 2 ^ 31 \<Longrightarrow> b < 2 ^ 31 \<Longrightarrow> comparator (of_nat a) (of_nat b) \<le> 0 \<longleftrightarrow> a \<le> b"
proof -
  assume a: "a < 2 ^ 31" "b < 2 ^ 31"
  have "(of_nat a - of_nat b :: u32) = of_int (int a - int b)" by simp
  then have "comparator (of_nat a) (of_nat b) = signed_take_bit 31 (int a - int b)" unfolding comparator_def by (simp only: signed_of_int) simp
  also have "\<dots> = int a - int b" using a by (intro signed_take_bit_int_eq_self) simp_all
  finally show ?thesis by simp
qed

lemma insert_cmp_insort:
  "x < 2 ^ 31 \<Longrightarrow> \<forall>y\<in>set ys. y < 2 ^ 31 \<Longrightarrow> insert_cmp (of_nat x) (map of_nat ys) = map of_nat (insort x ys)"
  by (induction ys) (simp_all add: comparator_le)

lemma qsort_sort: "\<forall>x\<in>set xs. x < 2 ^ 31 \<Longrightarrow> qsort (map of_nat xs) = map of_nat (sort xs)"
  by (induction xs) (simp_all add: qsort_def insert_cmp_insort)

lemma qsort_latest:
  assumes "sorted ts" and "\<forall>t\<in>set ts. t \<le> now" and "now < 2 ^ 31"
  shows "qsort (of_nat now # map of_nat ts) = map of_nat (ts @ [now])"
proof -
  have "\<forall>x\<in>set (now # ts). x < 2 ^ 31" using assms by (auto intro: le_less_trans)
  from qsort_sort [OF this] have "qsort (of_nat now # map of_nat ts) = map of_nat (sort (now # ts))" by simp
  also have "sort (now # ts) = ts @ [now]" using assms(1,2) by (intro properties_for_sort) (simp_all add: sorted_append)
  finally show ?thesis .
qed

section \<open>One attempt\<close>

text \<open>Pruning a sorted list: the old times end at \<open>start\<close>.\<close>

lemma prune_old:
  "\<forall>t\<in>set old. t < now - interval \<Longrightarrow> prune now interval (old @ ts) i (s, i - 1) =
    prune now interval ts (i + int (length old)) (if old = [] then s else i + int (length old), i + int (length old) - 1)"
proof (induction old arbitrary: i s)
  case (Cons t old)
  then show ?case using Cons.IH [of "i + 1" "i + 1"] by (simp add: algebra_simps)
qed simp

lemma prune_recent:
  "\<forall>t\<in>set ts. \<not> t < now - interval \<and> \<not> t > now \<Longrightarrow> prune now interval ts i (s, i - 1) = (s, i + int (length ts) - 1)"
proof (induction ts arbitrary: i)
  case (Cons t ts)
  then show ?case using Cons.IH [of "i + 1"] by (simp add: algebra_simps)
qed simp

lemma prune_correct:
  assumes "\<forall>t\<in>set old. t < now - interval" and "\<forall>t\<in>set ts. \<not> t < now - interval \<and> \<not> t > now"
  shows "prune now interval (old @ ts) 0 (0, -1) = (int (length old), int (length old) + int (length ts) - 1)"
  using prune_old [OF assms(1), of ts 0 0] prune_recent [OF assms(2), of "int (length old)" "int (length old)"] by (cases "old = []") simp_all

lemma sorted_split: "sorted xs \<Longrightarrow> xs = filter (\<lambda>t. \<not> k \<le> t) xs @ filter (\<lambda>t. k \<le> t) (xs :: nat list)"
proof (induction xs)
  case (Cons x xs)
  show ?case
  proof (cases "k \<le> x")
    case True
    then have "filter (\<lambda>t. \<not> k \<le> t) xs = []" "filter (\<lambda>t. k \<le> t) xs = xs" using Cons.prems by (auto simp: filter_empty_conv intro!: filter_True)
    then show ?thesis using True by simp
  qed (use Cons in simp)
qed simp

definition last_n :: "nat \<Rightarrow> 'a list \<Rightarrow> 'a list" where
  "last_n n xs = drop (length xs - n) xs"

lemma stamp_list_nat: "\<forall>t\<in>set ts. t < 2 ^ 32 \<Longrightarrow>
  stamp_list (int a) (int b) (map of_nat ts) = dec a @ 0x20 # dec b @ nat_stamps ts"
proof -
  assume t: "\<forall>t\<in>set ts. t < 2 ^ 32"
  then have "concat (map (\<lambda>t :: u32. 0x20 # dec (unat t)) (map of_nat ts)) = nat_stamps ts"
    by (induction ts) (simp_all add: unat_of_nat_u32)
  then show ?thesis by (simp only: stamp_list_def) (simp add: dec_int_def)
qed

lemma key_RATE_LIMIT [simp]: "key_ok RATE_LIMIT"
  by (simp add: key_ok_def RATE_LIMIT_def newline_def blank_def)

lemma stamps_clean: "c \<in> set (nat_stamps ts) \<Longrightarrow> \<not> newline c"
  using dec_clean by (induction ts) (auto simp: newline_def)

lemma rate_value_ok: "val_ok (dec a @ 0x20 # dec b @ nat_stamps ts)"
  using dec_clean stamps_clean by (auto simp: val_ok_def newline_def)

lemma rate_value_blank: "dropWhile blank (dec a @ r) = dec a @ r"
proof -
  obtain c cs where "dec a = c # cs" by (cases "dec a") simp_all
  then show ?thesis using dec_clean [of a] by simp
qed

lemma rate_limit_step:
  assumes alloc: "\<forall>n. alloc n" and opt: "option_of RATE_LIMIT (state_text st) = Some (dec a @ 0x20 # dec b @ nat_stamps ts)"
    and a: "1 \<le> a" "a \<le> 100" and b: "1 \<le> b" "b \<le> 3600"
    and ts: "sorted ts" "\<forall>t\<in>set ts. t \<le> now" "now < 2 ^ 31" "b \<le> now"
  shows "\<exists>st'. rate_limit alloc (of_nat now) st = (if length (filter (\<lambda>t. now - b \<le> t) ts) < a then 0 else -1, st') \<and>
    state_text st' = new_text RATE_LIMIT (dec a @ 0x20 # dec b @ nat_stamps (last_n a (filter (\<lambda>t. now - b \<le> t) ts @ [now]))) (state_text st) \<and> updated st'"
proof -
  define new where "new = filter (\<lambda>t. now - b \<le> t) (ts @ [now])"
  define old where "old = filter (\<lambda>t. \<not> now - b \<le> t) (ts @ [now])"
  have small: "\<forall>t\<in>set (ts @ [now]). t < 2 ^ 31" using ts(2,3) by (auto intro: le_less_trans)
  then have small32: "\<forall>t\<in>set (ts @ [now]). t < 2 ^ 32" by auto
  have split: "ts @ [now] = old @ new" unfolding old_def new_def by (rule sorted_split) (use ts(1,2) in \<open>simp add: sorted_append\<close>)
  let ?v = "dec a @ 0x20 # dec b @ nat_stamps ts" and ?e1 = "0x20 # dec b @ nat_stamps ts"
  have get: "get_cfg_value alloc RATE_LIMIT (state_text st) (requests st) = (Found ?v, requests st + 1)"
    using alloc opt by (simp add: get_cfg_value_option)
  have p1: "strtoul ?v = (of_nat a, ?e1, False)" using strtoul_dec [of a "[]" ?e1] a by (simp add: digit_def)
  have p2: "strtoul ?e1 = (of_nat b, nat_stamps ts, False)" using strtoul_stamp [of b ts] b by simp
  have ne: "?e1 \<noteq> ?v" "nat_stamps ts \<noteq> ?e1" by (metis append_self_conv2 dec_nonempty, metis append_Cons append_self_conv2 list.distinct(1) append_assoc)
  have ia: "to_int (of_nat a) = int a" "to_int (of_nat b) = int b" using a b by (intro to_int_of_nat; simp)+
  have stamps: "parse_stamps alloc (nat_stamps ts) [of_nat now] (requests st + 2) = (Some (of_nat now # map of_nat ts), requests st + 2 + length ts)"
    using parse_stamps_correct [OF alloc, of ts "[of_nat now]"] small32 by simp
  have sorted: "qsort (of_nat now # map of_nat ts) = map of_nat old @ map of_nat new"
    unfolding qsort_latest [OF ts(1-3)] split by simp
  have wb: "(of_nat now - of_int (int b) :: u32) = of_nat (now - b)" using ts(4) by (simp add: of_nat_diff)
  have less: "(of_nat x :: u32) < of_nat y \<longleftrightarrow> x < y" if "x < 2 ^ 32" "y < 2 ^ 32" for x y
    using that by (simp add: word_less_nat_alt unat_of_nat_u32)
  have pr: "prune (of_nat now) (of_int (int b)) (map of_nat old @ map of_nat new) 0 (0, - 1) =
      (int (length old), int (length old) + int (length new) - 1)"
    unfolding length_map [of "of_nat :: nat \<Rightarrow> u32", symmetric]
  proof (rule prune_correct; unfold wb)
    show "\<forall>t\<in>set (map of_nat old). t < (of_nat (now - b) :: u32)" using small32 ts(3) less by (auto simp: old_def)
    show "\<forall>t\<in>set (map of_nat new). \<not> t < (of_nat (now - b) :: u32) \<and> \<not> t > of_nat now"
      using small32 ts(2,3) less by (auto simp: new_def)
  qed
  have len: "length new = length (filter (\<lambda>t. now - b \<le> t) ts) + 1" by (simp add: new_def)
  define start where "start = (if length new > a then length old + length new - a else length old)"
  have kept: "take (length old + length new - start) (drop start (map of_nat old @ map of_nat new)) = (map of_nat (last_n a new) :: u32 list)"
    by (simp add: start_def last_n_def drop_map)
  have list: "stamp_list (int a) (int b) (map of_nat (last_n a new)) = dec a @ 0x20 # dec b @ nat_stamps (last_n a new)"
    by (rule stamp_list_nat) (use small32 in \<open>auto simp: last_n_def new_def dest: in_set_dropD\<close>)
  have exc: "int (length old) + int (length new) - 1 - int (length old) + 1 > int a \<longleftrightarrow> length new > a" by linarith
  have k: "take (nat (stop' - s' + 1)) (drop (nat s') (map of_nat old @ map of_nat new)) = (map of_nat (last_n a new) :: u32 list)"
    if "stop' = int (length old) + int (length new) - 1" "s' = (if length new > a then stop' - int a + 1 else int (length old))" for s' stop'
  proof -
    have "nat s' = start" "nat (stop' - s' + 1) = length old + length new - start" using that by (auto simp: start_def)
    then show ?thesis using kept by (simp only:)
  qed
  obtain r where set: "set_cfg_value alloc RATE_LIMIT (dec a @ 0x20 # dec b @ nat_stamps (last_n a new)) (state_text st) (requests st + 2 + length ts + 1) =
      (Some (new_text RATE_LIMIT (dec a @ 0x20 # dec b @ nat_stamps (last_n a new)) (state_text st)), r)"
    using set_cfg_value_alloc [OF alloc] by blast
  have sb: "starts_blank ?e1" by (simp add: starts_blank_def)
  have al: "alloc n" for n using alloc by blast
  have new: "new = filter (\<lambda>t. now - b \<le> t) ts @ [now]" by (simp add: new_def)
  have c: "length new > a \<longleftrightarrow> \<not> length (filter (\<lambda>t. now - b \<le> t) ts) < a" using len by linarith
  have ri: "\<not> (int a < 1 \<or> ?e1 = ?v \<or> int a > 100 \<or> False \<or> \<not> starts_blank ?e1)"
    "\<not> (int b < 1 \<or> nat_stamps ts = ?e1 \<or> int b > 3600 \<or> False)" using a b ne sb by auto
  have k2: "take (nat (int (length old) + int (length new) - 1 -
        (if int a < int (length old) + int (length new) - 1 - int (length old) + 1 then int (length old) + int (length new) - 1 - int a + 1 else int (length old)) + 1))
      (drop (nat (if int a < int (length old) + int (length new) - 1 - int (length old) + 1 then int (length old) + int (length new) - 1 - int a + 1 else int (length old)))
        (map of_nat old @ map of_nat new)) = (map of_nat (last_n a new) :: u32 list)"
    by (rule k [OF refl]) (simp only: exc)
  have st: "parse_stamps alloc (nat_stamps ts) [of_nat now] (requests st + 1 + 1) = (Some (of_nat now # map of_nat ts), requests st + 2 + length ts)"
    using stamps by simp
  have "rate_limit alloc (of_nat now) st = (if length new > a then -1 else 0,
      st\<lparr>state_text := new_text RATE_LIMIT (dec a @ 0x20 # dec b @ nat_stamps (last_n a new)) (state_text st), updated := True, requests := r\<rparr>)"
    unfolding rate_limit_def get p1 Let_def prod.case cfg_value.case ia ri(1) if_False p2 ri(2) al not_True_eq_False
    apply (simp only: ri if_False al not_True_eq_False st sorted pr prod.case option.case k2 list set)
    using exc by simp
  then show ?thesis unfolding c new by (auto split: if_splits)
qed

section \<open>A sequence of attempts\<close>

fun rate_limits :: "(nat \<Rightarrow> bool) \<Rightarrow> u32 list \<Rightarrow> pam_state \<Rightarrow> int list \<times> pam_state" where
  "rate_limits alloc [] st = ([], st)"
| "rate_limits alloc (now # nows) st =
     (let (r, st) = rate_limit alloc now st; (rs, st) = rate_limits alloc nows st in (r # rs, st))"

lemma last_n_append: "last_n n (xs @ ys) = last_n (n - length ys) xs @ last_n n ys"
  by (cases "n \<le> length ys") (simp_all add: last_n_def)

lemma last_n_again: "last_n n (last_n n xs @ ys) = last_n n (xs @ ys)"
proof -
  have "last_n m (last_n n xs) = last_n m xs" if "m \<le> n" for m
  proof -
    have "length xs - (length xs - n + m) + (length xs - n) = length xs - m" using that by arith
    then show ?thesis by (simp add: last_n_def)
  qed
  then show ?thesis by (simp add: last_n_append)
qed

lemma filter_last_n:
  assumes "sorted xs"
  shows "filter (\<lambda>t. k \<le> t) (last_n n xs) = last_n n (filter (\<lambda>t. k \<le> t) (xs :: nat list))"
proof -
  define old new where "old = filter (\<lambda>t. \<not> k \<le> t) xs" and "new = filter (\<lambda>t. k \<le> t) xs"
  have xs: "xs = old @ new" unfolding old_def new_def by (rule sorted_split [OF assms])
  have "filter (\<lambda>t. k \<le> t) (last_n m old) = []" for m by (auto simp: last_n_def old_def filter_empty_conv dest: in_set_dropD)
  moreover have "filter (\<lambda>t. k \<le> t) (last_n n new) = last_n n new"
    by (rule filter_True) (auto simp: last_n_def new_def dest: in_set_dropD)
  moreover have "filter (\<lambda>t. k \<le> t) xs = new" by (simp add: new_def)
  ultimately show ?thesis unfolding xs last_n_append by simp
qed

lemma length_last_n [simp]: "length (last_n n xs) = min n (length xs)"
  by (simp add: last_n_def)

lemma set_last_n: "t \<in> set (last_n n xs) \<Longrightarrow> t \<in> set xs"
  by (auto simp: last_n_def dest: in_set_dropD)

lemma recent_again:
  assumes "sorted past" and "m \<le> k"
  shows "filter (\<lambda>t. k \<le> t) (last_n n (filter (\<lambda>t. m \<le> t) past)) = last_n n (filter (\<lambda>t. k \<le> t) (past :: nat list))"
proof -
  have "filter (\<lambda>t. k \<le> t) (filter (\<lambda>t. m \<le> t) past) = filter (\<lambda>t. k \<le> t) past"
    unfolding filter_filter by (rule filter_cong [OF refl]) (use assms(2) in auto)
  then show ?thesis using filter_last_n [OF sorted_wrt_filter [OF assms(1)], of k n] by simp
qed

text \<open>The answers that a sliding window over all earlier attempts would give.\<close>

fun window :: "nat \<Rightarrow> nat \<Rightarrow> nat list \<Rightarrow> nat list \<Rightarrow> int list" where
  "window a b past [] = []"
| "window a b past (now # nows) = (if length (filter (\<lambda>t. now - b \<le> t) past) < a then 0 else -1) # window a b (past @ [now]) nows"

lemma rate_limits_window:
  assumes alloc: "\<forall>n. alloc n" and a: "1 \<le> a" "a \<le> 100" and b: "1 \<le> b" "b \<le> 3600"
  shows "sorted (past @ ts) \<Longrightarrow> \<forall>t\<in>set ts. b \<le> t \<and> t < 2 ^ 31 \<and> m \<le> t - b \<Longrightarrow>
    option_of RATE_LIMIT (state_text st) = Some (dec a @ 0x20 # dec b @ nat_stamps (last_n a (filter (\<lambda>t. m \<le> t) past))) \<Longrightarrow>
    \<exists>st'. rate_limits alloc (map of_nat ts) st = (window a b past ts, st') \<and>
      (\<forall>key. key_ok key \<longrightarrow> key \<noteq> RATE_LIMIT \<longrightarrow> option_of key (state_text st') = option_of key (state_text st))"
proof (induction ts arbitrary: past st m)
  case (Cons now nows)
  let ?recent = "filter (\<lambda>t. now - b \<le> t) past" and ?old = "last_n a (filter (\<lambda>t. m \<le> t) past)"
  have past: "sorted past" "\<forall>t\<in>set past. t \<le> now" using Cons.prems(1) by (simp_all add: sorted_append)
  have old: "sorted ?old" "\<forall>t\<in>set ?old. t \<le> now" using past sorted_wrt_filter [OF past(1)] by (auto simp: last_n_def sorted_wrt_drop dest: in_set_dropD)
  have now: "now < 2 ^ 31" "b \<le> now" "m \<le> now - b" using Cons.prems(2) by simp_all
  have rec: "filter (\<lambda>t. now - b \<le> t) ?old = last_n a ?recent" by (rule recent_again [OF past(1) now(3)])
  have stamps: "last_n a (last_n a ?recent @ [now]) = last_n a (filter (\<lambda>t. now - b \<le> t) (past @ [now]))"
    unfolding last_n_again by simp
  let ?v = "dec a @ 0x20 # dec b @ nat_stamps (last_n a (filter (\<lambda>t. now - b \<le> t) (past @ [now])))"
  obtain st1 where st1: "rate_limit alloc (of_nat now) st = (if length (last_n a ?recent) < a then 0 else -1, st1)"
    "state_text st1 = new_text RATE_LIMIT ?v (state_text st)"
    using rate_limit_step [OF alloc Cons.prems(3) a b old now(1,2)] unfolding rec stamps by blast
  have room: "settable RATE_LIMIT (state_text st)" using Cons.prems(3) by (simp add: settable_def)
  have "option_of RATE_LIMIT (state_text st1) = Some ?v"
    unfolding st1(2) pam.get_same [OF key_RATE_LIMIT rate_value_ok room] rate_value_blank by (rule refl)
  moreover have "\<forall>t\<in>set nows. b \<le> t \<and> t < 2 ^ 31 \<and> now - b \<le> t - b" using Cons.prems(1,2) by (auto simp: sorted_append)
  moreover have "sorted ((past @ [now]) @ nows)" using Cons.prems(1) by simp
  ultimately obtain st' where st': "rate_limits alloc (map of_nat nows) st1 = (window a b (past @ [now]) nows, st')"
    "\<forall>key. key_ok key \<longrightarrow> key \<noteq> RATE_LIMIT \<longrightarrow> option_of key (state_text st') = option_of key (state_text st1)"
    using Cons.IH [of "past @ [now]" "now - b" st1] by blast
  have other: "option_of key (state_text st1) = option_of key (state_text st)" if "key_ok key" "key \<noteq> RATE_LIMIT" for key
    unfolding st1(2) by (rule pam.get_other [OF key_RATE_LIMIT that rate_value_ok room])
  show ?case using st1(1) st' other by simp
qed simp

lemma window_nth: "k < length ts \<Longrightarrow> window a b past ts ! k =
    (if length (filter (\<lambda>t. ts ! k - b \<le> t) (past @ take k ts)) < a then 0 else -1)"
proof (induction ts arbitrary: past k)
  case (Cons now nows)
  show ?case using Cons.IH [of _ "past @ [now]"] Cons.prems by (cases k) simp_all
qed simp

lemma length_window [simp]: "length (window a b past ts) = length ts"
  by (induction ts arbitrary: past) simp_all

section \<open>The property\<close>

text \<open>
  C40. When RATE_LIMIT is \<open>a b\<close>, the \<open>k\<close>-th of a sequence of attempts is let through exactly when fewer than \<open>a\<close> of the earlier attempts (also
  those that were refused) were in the \<open>b\<close> seconds before it; no other option changes.
\<close>

theorem rate_limit_window:
  assumes "\<forall>n. alloc n" and "option_of RATE_LIMIT (state_text st) = Some (dec a @ 0x20 # dec b)"
    and "1 \<le> a" "a \<le> 100" and "1 \<le> b" "b \<le> 3600"
    and "sorted ts" and "\<forall>t\<in>set ts. b \<le> t \<and> t < 2 ^ 31"
  shows "\<exists>rs st'. rate_limits alloc (map of_nat ts) st = (rs, st') \<and> length rs = length ts \<and>
    (\<forall>k<length ts. rs ! k = (if card {j. j < k \<and> ts ! k \<le> ts ! j + b} < a then 0 else -1)) \<and>
    (\<forall>key. key_ok key \<longrightarrow> key \<noteq> RATE_LIMIT \<longrightarrow> option_of key (state_text st') = option_of key (state_text st))"
proof -
  have o: "option_of RATE_LIMIT (state_text st) = Some (dec a @ 0x20 # dec b @ nat_stamps (last_n a (filter (\<lambda>t. 0 \<le> t) [])))"
    using assms(2) by (simp add: last_n_def)
  have t: "sorted ([] @ ts)" "\<forall>t\<in>set ts. b \<le> t \<and> t < 2 ^ 31 \<and> 0 \<le> t - b" using assms(7,8) by simp_all
  have c: "length (filter (\<lambda>t. ts ! k - b \<le> t) (take k ts)) = card {j. j < k \<and> ts ! k \<le> ts ! j + b}" if "k < length ts" for k
    unfolding length_filter_conv_card using that by (intro arg_cong [of _ _ card]) auto
  show ?thesis using rate_limits_window [OF assms(1,3-6) t o] window_nth [of _ ts a b "[]"] c by fastforce
qed

lemma rate_limit_window_witness:
  "\<exists>st'. rate_limits (\<lambda>_. True) [100, 120, 151] \<lparr>state_text = [0x53, 0x0A, 0x22, 0x20] @ RATE_LIMIT @ [0x20, 0x31, 0x20, 0x33, 0x30, 0x0A],
      updated = False, requests = 0\<rparr> = ([0, -1, 0], st')"
proof -
  let ?st = "\<lparr>state_text = [0x53, 0x0A, 0x22, 0x20] @ RATE_LIMIT @ [0x20, 0x31, 0x20, 0x33, 0x30, 0x0A], updated = False, requests = 0\<rparr>"
  let ?ts = "[100, 120, 151] :: nat list"
  have o: "option_of RATE_LIMIT (state_text ?st) = Some (dec 1 @ 0x20 # dec 30)" by code_simp
  have "\<forall>n. (\<lambda>_ :: nat. True) n" "(1 :: nat) \<le> 1" "(1 :: nat) \<le> 100" "(1 :: nat) \<le> 30" "(30 :: nat) \<le> 3600" "sorted ?ts"
    "\<forall>t\<in>set ?ts. 30 \<le> t \<and> t < 2 ^ 31" by simp_all
  note w = rate_limit_window [of "\<lambda>_. True" ?st 1 30 ?ts, OF this(1) o this(2-7)]
  obtain rs st' where r: "rate_limits (\<lambda>_. True) (map of_nat ?ts) ?st = (rs, st')" "length rs = 3"
    "\<forall>k<3. rs ! k = (if card {j. j < k \<and> ?ts ! k \<le> ?ts ! j + 30} < 1 then 0 else -1)" using w by auto
  have "{j. j < 0 \<and> ?ts ! 0 \<le> ?ts ! j + 30} = {}" "{j. j < 1 \<and> ?ts ! 1 \<le> ?ts ! j + 30} = {0}" "{j. j < 2 \<and> ?ts ! 2 \<le> ?ts ! j + 30} = {}"
  proof -
    have s: "{j. j < k \<and> P j} = set (filter P [0..<k])" for k :: nat and P by auto
    show "{j. j < 0 \<and> ?ts ! 0 \<le> ?ts ! j + 30} = {}" "{j. j < 1 \<and> ?ts ! 1 \<le> ?ts ! j + 30} = {0}" "{j. j < 2 \<and> ?ts ! 2 \<le> ?ts ! j + 30} = {}"
      unfolding s by (simp_all add: upt_rec)
  qed
  then have "rs ! 0 = 0" "rs ! 1 = -1" "rs ! 2 = 0" using r(3) by (simp_all del: One_nat_def)
  then have "rs = [0, -1, 0]" using r(2) by (intro nth_equalityI) (auto simp: less_Suc_eq numeral_3_eq_3 numeral_2_eq_2)
  then show ?thesis using r(1) by auto
qed

end
