(* ===== verification/PamCodes.thy ===== *)
theory PamCodes
  imports PamRate Hotp
begin

text \<open>
  Scratch codes, the window size and counter-based codes of the PAM module (\<^verbatim>\<open>check_scratch_codes\<close>, \<^verbatim>\<open>window_size\<close>, \<^verbatim>\<open>get_hotp_counter\<close>,
  \<^verbatim>\<open>check_counterbased_code\<close> of \<^verbatim>\<open>pam_google_authenticator.c\<close>). The properties: a scratch code can be used as often as it is listed, and over any
  sequence of attempts the accepted counters increase, so that no code is accepted again for the same counter.
\<close>

section \<open>The code\<close>

definition WINDOW_SIZE :: "byte list" where
  "WINDOW_SIZE = [0x57, 0x49, 0x4E, 0x44, 0x4F, 0x57, 0x5F, 0x53, 0x49, 0x5A, 0x45]"

definition HOTP_COUNTER :: "byte list" where
  "HOTP_COUNTER = [0x48, 0x4F, 0x54, 0x50, 0x5F, 0x43, 0x4F, 0x55, 0x4E, 0x54, 0x45, 0x52]"

lemma length_strtoul: "length (fst (snd (strtoul s))) \<le> length s"
  using strtoul_shorter [of s] by (cases "strtoul s") (metis fst_conv le_eq_less_or_eq snd_conv)

text \<open>
  The search for a scratch code from \<open>ptr\<close> on: the rest of the text from the line with the code, and from behind it.
\<close>

function find_scratch :: "int \<Rightarrow> byte list \<Rightarrow> (byte list \<times> byte list) option" where
  "find_scratch code s =
     (let ptr = dropWhile newline s
      in if ptr \<noteq> [] \<and> hd ptr = 0x22 then find_scratch code (dropWhile (\<lambda>c. c \<noteq> 10) ptr)
         else (case strtoul ptr of (v, endptr, err) \<Rightarrow>
           let scratchcode = to_int v
           in if err \<or> endptr = ptr \<or> \<not> (endptr = [] \<or> newline (hd endptr)) \<or> scratchcode < 10000000 \<or> scratchcode \<ge> 100000000 then None
              else if scratchcode = code then Some (ptr, dropWhile newline endptr)
              else find_scratch code endptr))"
  by pat_completeness auto
termination
proof (relation "measure (\<lambda>(code, s). length s)", goal_cases)
  case (2 code s ptr)
  have "length (dropWhile (\<lambda>c. c \<noteq> 10) ptr) < length ptr" using 2(2) length_dropWhile_le [of "\<lambda>c. c \<noteq> 10" "tl ptr"] by (cases ptr) simp_all
  then show ?case using 2(1) length_dropWhile_le [of newline s] by simp
next
  case (3 code s ptr v p endptr err sc)
  then have "length endptr < length ptr" using strtoul_shorter [of ptr v endptr err] by simp
  then show ?case using 3(1) length_dropWhile_le [of newline s] by simp
qed simp

declare find_scratch.simps [simp del]

definition check_scratch_codes :: "int \<Rightarrow> pam_state \<Rightarrow> int \<times> pam_state" where
  "check_scratch_codes code st =
     (let buf = state_text st
      in case find_scratch code (dropWhile (\<lambda>c. c \<noteq> 10) buf) of
           Some (ptr, endptr) \<Rightarrow> (0, st\<lparr>state_text := take (length buf - length ptr) buf @ endptr, updated := True\<rparr>)
         | None \<Rightarrow> (1, st))"

definition window_size :: "(nat \<Rightarrow> bool) \<Rightarrow> pam_state \<Rightarrow> int \<times> pam_state" where
  "window_size alloc st =
     (case get_cfg_value alloc WINDOW_SIZE (state_text st) (requests st) of
        (Missing, req) \<Rightarrow> (3, st\<lparr>requests := req\<rparr>)
      | (Oom, req) \<Rightarrow> (0, st\<lparr>requests := req\<rparr>)
      | (Found value, req) \<Rightarrow>
          (let (v, endptr, err) = strtoul value; win = to_int v
           in if err \<or> value = [] \<or> endptr = value \<or> \<not> (endptr = [] \<or> blank (hd endptr) \<or> newline (hd endptr)) \<or> win < 1 \<or> win > 100
              then (0, st\<lparr>requests := req\<rparr>)
              else (win, st\<lparr>requests := req\<rparr>)))"

definition get_hotp_counter :: "(nat \<Rightarrow> bool) \<Rightarrow> pam_state \<Rightarrow> int \<times> pam_state" where
  "get_hotp_counter alloc st =
     (case get_cfg_value alloc HOTP_COUNTER (state_text st) (requests st) of
        (Missing, req) \<Rightarrow> (0, st\<lparr>requests := req\<rparr>)
      | (Oom, req) \<Rightarrow> (-1, st\<lparr>requests := req\<rparr>)
      | (Found value, req) \<Rightarrow> (fst (strtol value), st\<lparr>requests := req\<rparr>))"

text \<open>
  \<open>token v\<close> is \<^verbatim>\<open>compute_code(secret, secretLen, v)\<close>; the answer is the return value, the new value of \<^verbatim>\<open>*must_advance_counter\<close>, and the state.
\<close>

definition check_counterbased_code :: "(nat \<Rightarrow> bool) \<Rightarrow> (64 word \<Rightarrow> u32) \<Rightarrow> int \<Rightarrow> int \<Rightarrow> bool \<Rightarrow> pam_state \<Rightarrow> int \<times> bool \<times> pam_state" where
  "check_counterbased_code alloc token code hotp_counter must_advance st =
     (if hotp_counter < 1 then (1, must_advance, st)
      else if code < 0 \<or> code \<ge> 1000000 then (1, must_advance, st)
      else (case window_size alloc st of (win, st) \<Rightarrow>
        if win = 0 then (-1, must_advance, st)
        else case find (\<lambda>i. token (of_int (hotp_counter + int i)) = of_int code) [0..<nat win] of
          None \<Rightarrow> (1, True, st)
        | Some i \<Rightarrow>
            (case set_cfg_value alloc HOTP_COUNTER (dec_int (hotp_counter + int i + 1)) (state_text st) (requests st) of
               (None, req) \<Rightarrow> (-1, must_advance, st\<lparr>requests := req\<rparr>)
             | (Some buf, req) \<Rightarrow> (0, False, st\<lparr>state_text := buf, updated := True, requests := req\<rparr>))))"

text \<open>
  What \<^verbatim>\<open>google_authenticator\<close> does around it for a counter-based code: it reads the counter, checks the code, and after a failed attempt advances
  the counter unless \<^verbatim>\<open>no_increment_hotp\<close> is set.
\<close>

definition advance_counter :: "(nat \<Rightarrow> bool) \<Rightarrow> bool \<Rightarrow> bool \<Rightarrow> int \<Rightarrow> bool \<Rightarrow> pam_state \<Rightarrow> bool \<times> pam_state" where
  "advance_counter alloc no_increment_hotp must_advance hotp_counter success st =
     (if \<not> no_increment_hotp \<and> must_advance
      then (case set_cfg_value alloc HOTP_COUNTER (dec_int (hotp_counter + 1)) (state_text st) (requests st) of
              (None, req) \<Rightarrow> (False, st\<lparr>updated := True, requests := req\<rparr>)
            | (Some buf, req) \<Rightarrow> (success, st\<lparr>state_text := buf, updated := True, requests := req\<rparr>))
      else (success, st))"

section \<open>Scratch codes\<close>

definition code_lines :: "nat list \<Rightarrow> byte list" where
  "code_lines codes = concat (map (\<lambda>c. dec c @ [10]) codes)"

lemma code_lines_simps [simp]: "code_lines [] = []" "code_lines (c # cs) = dec c @ 10 # code_lines cs"
  by (simp_all add: code_lines_def)

definition scratch_range :: "nat \<Rightarrow> bool" where
  "scratch_range c \<longleftrightarrow> 10000000 \<le> c \<and> c < 100000000"

lemma newline_10 [simp]: "newline 10"
  by (simp add: newline_def)

lemma dec_hd: "hd (dec n) \<in> set (dec n)" "hd (dec n @ r) = hd (dec n)"
  by simp_all

lemma dropWhile_dec: "(\<And>c. digit c \<Longrightarrow> \<not> P c) \<Longrightarrow> dropWhile P (dec n @ r) = dec n @ r"
  using dec_digits [of "hd (dec n)" n] by (cases "dec n") simp_all

lemma code_lines_start: "dropWhile newline (code_lines cs) = code_lines cs"
  using dropWhile_dec [of newline] digit_not by (cases cs) auto

lemma find_scratch_lines:
  "\<forall>c\<in>set cs. scratch_range c \<Longrightarrow> \<forall>x\<in>set n. newline x \<Longrightarrow>
    find_scratch (int code) (n @ code_lines cs) =
      (if code \<in> set cs then (case dropWhile (\<lambda>c. c \<noteq> code) cs of _ # rest \<Rightarrow> Some (dec code @ 10 # code_lines rest, code_lines rest)) else None)"
proof (induction cs arbitrary: n)
  case Nil
  then have n: "dropWhile newline (n @ code_lines []) = []" by (simp add: dropWhile_eq_Nil_conv)
  show ?case by (subst find_scratch.simps, unfold n Let_def) (simp add: strtoul_def sign_of_def)
next
  case (Cons c cs)
  have c: "scratch_range c" "c < 2 ^ 64" "c < 2 ^ 31" using Cons.prems by (auto simp: scratch_range_def)
  have s: "strtoul (dec c @ 10 # code_lines cs) = (of_nat c, 10 # code_lines cs, False)"
    using strtoul_dec [OF c(2), of "[]" "10 # code_lines cs"] by (simp add: digit_def)
  have d: "dropWhile newline (n @ dec c @ 10 # code_lines cs) = dec c @ 10 # code_lines cs"
    using dropWhile_dec [of newline] digit_not Cons.prems(2) by (simp add: dropWhile_append2)
  have q: "hd (dec c) \<noteq> 0x22" using dec_digits [OF dec_hd(1), of c] by (auto simp: digit_def)
  have ne: "10 # code_lines cs \<noteq> dec c @ 10 # code_lines cs" by (metis append_self_conv2 dec_nonempty)
  have r: "\<not> c < 10000000" "\<not> c \<ge> 100000000" using c(1) by (simp_all add: scratch_range_def)
  have IH: "find_scratch (int code) (10 # code_lines cs) =
      (if code \<in> set cs then (case dropWhile (\<lambda>c. c \<noteq> code) cs of _ # rest \<Rightarrow> Some (dec code @ 10 # code_lines rest, code_lines rest)) else None)"
    using Cons.IH [of "[10]"] Cons.prems by simp
  show ?case unfolding code_lines_simps
    by (subst find_scratch.simps) (simp add: d q s ne r IH to_int_of_nat [OF c(3)] code_lines_start Let_def)
qed

definition option_lines :: "byte list list \<Rightarrow> byte list" where
  "option_lines opts = concat (map (\<lambda>l. 0x22 # l @ [10]) opts)"

lemma option_lines_simps [simp]: "option_lines [] = []" "option_lines (l # ls) = 0x22 # l @ 10 # option_lines ls"
  by (simp_all add: option_lines_def)

lemma dropWhile_until: "x \<notin> set l \<Longrightarrow> dropWhile (\<lambda>c. c \<noteq> x) (l @ x # r) = x # r"
  by (induction l) auto

lemma find_scratch_options: "\<forall>l\<in>set opts. 10 \<notin> set l \<Longrightarrow> find_scratch code (10 # option_lines opts @ r) = find_scratch code (10 # r)"
proof (induction opts)
  case (Cons l opts)
  then show ?case by (subst find_scratch.simps) (simp add: newline_def dropWhile_until)
qed simp

text \<open>A state file: the secret, the options and the scratch codes.\<close>

definition state_file :: "byte list \<Rightarrow> byte list list \<Rightarrow> nat list \<Rightarrow> byte list" where
  "state_file secret opts codes = secret @ 10 # option_lines opts @ code_lines codes"

lemma code_lines_append: "code_lines (xs @ ys) = code_lines xs @ code_lines ys"
  by (simp add: code_lines_def)

lemma check_scratch_codes_step:
  assumes "10 \<notin> set secret" and "\<forall>l\<in>set opts. 10 \<notin> set l" and "\<forall>c\<in>set codes. scratch_range c"
    and st: "state_text st = state_file secret opts codes"
  shows "check_scratch_codes (int code) st =
    (if code \<in> set codes then (0, st\<lparr>state_text := state_file secret opts (remove1 code codes), updated := True\<rparr>) else (1, st))"
proof -
  let ?s = "10 # option_lines opts @ code_lines codes"
  have d: "dropWhile (\<lambda>c. c \<noteq> 10) (state_text st) = ?s" by (simp add: st state_file_def dropWhile_until [OF assms(1)])
  note f = find_scratch_options [OF assms(2), of "int code" "code_lines codes"] find_scratch_lines [OF assms(3), of "[10]" code, simplified]
  show ?thesis
  proof (cases "code \<in> set codes")
    case True
    then obtain pre post where c: "codes = pre @ code # post" "code \<notin> set pre" by (meson split_list_first)
    have w: "dropWhile (\<lambda>c. c \<noteq> code) codes = code # post" unfolding c(1) by (rule dropWhile_until [OF c(2)])
    have "take (length (state_text st) - length (code_lines (code # post))) (state_text st) = state_file secret opts pre"
      unfolding st c(1) state_file_def code_lines_append by simp
    moreover have "find_scratch (int code) ?s = Some (code_lines (code # post), code_lines post)"
      unfolding f w using True by simp
    moreover have "remove1 code codes = pre @ post" unfolding c(1) using c(2) by (simp add: remove1_append)
    ultimately show ?thesis using True unfolding check_scratch_codes_def Let_def d
      by (simp del: code_lines_simps) (simp add: state_file_def code_lines_append)
  next
    case False
    then show ?thesis unfolding check_scratch_codes_def Let_def d f by simp
  qed
qed

fun use_scratch_codes :: "int list \<Rightarrow> pam_state \<Rightarrow> int list \<times> pam_state" where
  "use_scratch_codes [] st = ([], st)"
| "use_scratch_codes (code # tries) st = (let (r, st) = check_scratch_codes code st; (rs, st) = use_scratch_codes tries st in (r # rs, st))"

lemma use_scratch_codes_nth:
  "10 \<notin> set secret \<Longrightarrow> \<forall>l\<in>set opts. 10 \<notin> set l \<Longrightarrow> \<forall>c\<in>set codes. scratch_range c \<Longrightarrow> state_text st = state_file secret opts codes \<Longrightarrow>
    \<exists>rs st'. use_scratch_codes (map int tries) st = (rs, st') \<and> length rs = length tries \<and> state_text st' = state_file secret opts (fold remove1 tries codes) \<and>
      (\<forall>k<length tries. rs ! k = (if count_list (take k tries) (tries ! k) < count_list codes (tries ! k) then 0 else 1))"
proof (induction tries arbitrary: codes st)
  case (Cons c tries)
  let ?rest = "remove1 c codes"
  define st1 where "st1 = snd (check_scratch_codes (int c) st)"
  note step = check_scratch_codes_step [OF Cons.prems, of c]
  have t1: "state_text st1 = state_file secret opts ?rest" using step Cons.prems(4) by (simp add: st1_def remove1_idem)
  have "\<forall>c\<in>set ?rest. scratch_range c" using Cons.prems(3) notin_set_remove1 by metis
  from Cons.IH [OF Cons.prems(1,2) this t1] obtain rs st' where
    IH: "use_scratch_codes (map int tries) st1 = (rs, st')" "length rs = length tries" "state_text st' = state_file secret opts (fold remove1 tries ?rest)"
      "\<forall>k<length tries. rs ! k = (if count_list (take k tries) (tries ! k) < count_list ?rest (tries ! k) then 0 else 1)" by blast
  have run: "use_scratch_codes (map int (c # tries)) st = (fst (check_scratch_codes (int c) st) # rs, st')"
    using IH(1) by (simp add: st1_def split_beta)
  have "(if count_list (take k (c # tries)) ((c # tries) ! k) < count_list codes ((c # tries) ! k) then 0 else 1) =
      (fst (check_scratch_codes (int c) st) # rs) ! k" if k: "k < Suc (length tries)" for k
  proof (cases k)
    case 0
    then show ?thesis using step by (simp add: count_list_0_iff)
  next
    case (Suc j)
    have "count_list ?rest x = count_list codes x - (if x = c then 1 else 0)" for x by (simp add: count_list_remove1)
    then show ?thesis using IH(4) Suc k by auto
  qed
  then show ?case using run IH(2,3) by simp
qed simp

section \<open>Counter-based codes\<close>

definition window_of :: "byte list option \<Rightarrow> int" where
  "window_of opt =
     (case opt of
        None \<Rightarrow> 3
      | Some value \<Rightarrow>
          (let (v, endptr, err) = strtoul value; win = to_int v
           in if err \<or> value = [] \<or> endptr = value \<or> \<not> (endptr = [] \<or> blank (hd endptr) \<or> newline (hd endptr)) \<or> win < 1 \<or> win > 100 then 0 else win))"

lemma keys_ok [simp]: "key_ok WINDOW_SIZE" "key_ok HOTP_COUNTER" "HOTP_COUNTER \<noteq> WINDOW_SIZE" "WINDOW_SIZE \<noteq> HOTP_COUNTER"
  by (simp_all add: key_ok_def WINDOW_SIZE_def HOTP_COUNTER_def newline_def blank_def)

lemma requests_kept [simp]: "\<exists>r. st = st\<lparr>requests := r\<rparr>" "\<exists>r. st\<lparr>requests := n\<rparr> = st\<lparr>requests := r\<rparr>"
proof -
  show "\<exists>r. st = st\<lparr>requests := r\<rparr>" by (rule exI [of _ "requests st"]) simp
qed (rule exI, rule refl)

lemma window_size_of: "\<forall>n. alloc n \<Longrightarrow> \<exists>r. window_size alloc st = (window_of (option_of WINDOW_SIZE (state_text st)), st\<lparr>requests := r\<rparr>)"
  by (auto simp: window_size_def get_cfg_value_option window_of_def Let_def split: option.split prod.split)

lemma window_of_range: "0 \<le> window_of opt \<and> window_of opt \<le> 100"
  by (auto simp: window_of_def Let_def split: option.split prod.split)

lemma dec_val_ok [simp]: "val_ok (dec n)"
  using dec_clean by (auto simp: val_ok_def)

lemma dec_blank [simp]: "dropWhile blank (dec n) = dec n"
  using rate_value_blank [of n "[]"] by simp

lemma dec_int_of_nat [simp]: "dec_int (int n) = dec n"
  by (simp add: dec_int_def)

lemma get_hotp_counter_of:
  "\<forall>n. alloc n \<Longrightarrow> option_of HOTP_COUNTER (state_text st) = Some (dec c) \<Longrightarrow> c < 2 ^ 63 \<Longrightarrow>
    \<exists>r. get_hotp_counter alloc st = (int c, st\<lparr>requests := r\<rparr>)"
  using strtol_dec [of c "[]" "[]"] by (simp add: get_hotp_counter_def get_cfg_value_option)

text \<open>The counter of the file after a call, and that the other options stay.\<close>

definition counter_file :: "nat \<Rightarrow> pam_state \<Rightarrow> pam_state \<Rightarrow> bool" where
  "counter_file c st st' \<longleftrightarrow> option_of HOTP_COUNTER (state_text st') = Some (dec c) \<and>
     (\<forall>key. key_ok key \<longrightarrow> key \<noteq> HOTP_COUNTER \<longrightarrow> option_of key (state_text st') = option_of key (state_text st))"

lemma counter_file_set:
  "settable HOTP_COUNTER (state_text st) \<Longrightarrow> state_text st' = new_text HOTP_COUNTER (dec c) (state_text st) \<Longrightarrow> counter_file c st st'"
  by (simp add: counter_file_def pam.get_same pam.get_other)

lemma counter_file_trans: "counter_file c st st1 \<Longrightarrow> counter_file d st1 st2 \<Longrightarrow> counter_file d st st2"
  by (simp add: counter_file_def)

text \<open>One attempt, and a sequence of them: the answers.\<close>

definition hotp_login :: "(nat \<Rightarrow> bool) \<Rightarrow> (64 word \<Rightarrow> u32) \<Rightarrow> bool \<Rightarrow> int \<Rightarrow> pam_state \<Rightarrow> bool \<times> pam_state" where
  "hotp_login alloc token no_increment_hotp code st =
     (let (hotp_counter, st) = get_hotp_counter alloc st;
          (rc, must_advance, st) = check_counterbased_code alloc token code hotp_counter False st
      in advance_counter alloc no_increment_hotp must_advance hotp_counter (rc = 0) st)"

fun hotp_logins :: "(nat \<Rightarrow> bool) \<Rightarrow> (64 word \<Rightarrow> u32) \<Rightarrow> bool \<Rightarrow> int list \<Rightarrow> pam_state \<Rightarrow> bool list \<times> pam_state" where
  "hotp_logins alloc token no_inc [] st = ([], st)"
| "hotp_logins alloc token no_inc (code # codes) st =
     (let (r, st) = hotp_login alloc token no_inc code st; (rs, st) = hotp_logins alloc token no_inc codes st in (r # rs, st))"

text \<open>What RFC 4226 asks of a server with look-ahead \<open>w\<close> at counter \<open>c\<close>: the counter that each code is accepted for.\<close>

definition hotp_match :: "(64 word \<Rightarrow> u32) \<Rightarrow> nat \<Rightarrow> nat \<Rightarrow> int \<Rightarrow> nat option" where
  "hotp_match token w c code = find (\<lambda>m. token (of_nat m) = of_int code) [c..<c + w]"

fun hotp_server :: "(64 word \<Rightarrow> u32) \<Rightarrow> nat \<Rightarrow> bool \<Rightarrow> nat \<Rightarrow> int list \<Rightarrow> nat option list" where
  "hotp_server token w no_inc c [] = []"
| "hotp_server token w no_inc c (code # codes) =
     hotp_match token w c code #
     hotp_server token w no_inc (case hotp_match token w c code of Some m \<Rightarrow> m + 1 | None \<Rightarrow> if no_inc then c else c + 1) codes"

lemma find_shift: "find P [c..<c + n] = map_option (\<lambda>i. c + i) (find (\<lambda>i. P (c + i)) [0..<n])"
proof -
  have "find P (map (\<lambda>i. c + i) xs) = map_option (\<lambda>i. c + i) (find (\<lambda>i. P (c + i)) xs)" for xs by (induction xs) simp_all
  moreover have "[c..<c + n] = map (\<lambda>i. c + i) [0..<n]" by (simp add: map_add_upt add.commute)
  ultimately show ?thesis by simp
qed

lemma hotp_match_Some: "hotp_match token w c code = Some m \<Longrightarrow> c \<le> m \<and> m < c + w \<and> token (of_nat m) = of_int code"
  by (auto simp: hotp_match_def find_Some_iff)

lemma hotp_login_step:
  assumes alloc: "\<forall>n. alloc n" and c: "option_of HOTP_COUNTER (state_text st) = Some (dec c)" "1 \<le> c" "c + w < 2 ^ 63"
    and w: "window_of (option_of WINDOW_SIZE (state_text st)) = int w" "1 \<le> w" and code: "0 \<le> code" "code < 1000000"
  shows "\<exists>st'. hotp_login alloc token no_inc code st = (hotp_match token w c code \<noteq> None, st') \<and>
    counter_file (case hotp_match token w c code of Some m \<Rightarrow> m + 1 | None \<Rightarrow> if no_inc then c else c + 1) st st'"
proof -
  have "c < 2 ^ 63" using c(3) by simp
  from get_hotp_counter_of [OF alloc c(1) this] obtain r1 where g: "get_hotp_counter alloc st = (int c, st\<lparr>requests := r1\<rparr>)" by blast
  obtain r2 where ws: "window_size alloc (st\<lparr>requests := r1\<rparr>) = (int w, st\<lparr>requests := r2\<rparr>)"
    using window_size_of [OF alloc, of "st\<lparr>requests := r1\<rparr>"] w(1) by auto
  have room: "settable HOTP_COUNTER (state_text st)" using c(1) by (simp add: settable_def)
  have m: "hotp_match token w c code = map_option (\<lambda>i. c + i) (find (\<lambda>i. token (of_int (int c + int i)) = of_int code) [0..<nat (int w)])"
    by (simp add: hotp_match_def find_shift)
  have "\<forall>d. \<exists>r. set_cfg_value alloc HOTP_COUNTER (dec d) (state_text st) r2 = (Some (new_text HOTP_COUNTER (dec d) (state_text st)), r)"
    using set_cfg_value_alloc [OF alloc] by blast
  from choice [OF this] obtain r3 where
    s3: "\<forall>d. set_cfg_value alloc HOTP_COUNTER (dec d) (state_text st) r2 = (Some (new_text HOTP_COUNTER (dec d) (state_text st)), r3 d)" by blast
  have dec1: "dec_int (int c + int i + 1) = dec (c + i + 1)" "dec_int (int c + 1) = dec (c + 1)" for i
    using dec_int_of_nat [of "c + i + 1"] dec_int_of_nat [of "c + 1"] by (simp_all add: algebra_simps)
  show ?thesis
  proof (cases "find (\<lambda>i. token (of_int (int c + int i)) = of_int code) [0..<nat (int w)]")
    case None
    have "counter_file c st (st\<lparr>requests := r2\<rparr>)" using c(1) by (simp add: counter_file_def)
    moreover have "counter_file (c + 1) st (st\<lparr>state_text := new_text HOTP_COUNTER (dec (c + 1)) (state_text st), updated := True, requests := r3 (c + 1)\<rparr>)"
      by (rule counter_file_set [OF room]) simp
    ultimately show ?thesis using None w(2) code c(2) unfolding m
      by (simp add: hotp_login_def g check_counterbased_code_def ws advance_counter_def dec1 s3)
  next
    case (Some i)
    have "counter_file (c + i + 1) st (st\<lparr>state_text := new_text HOTP_COUNTER (dec (c + i + 1)) (state_text st), updated := True, requests := r3 (c + i + 1)\<rparr>)"
      by (rule counter_file_set [OF room]) simp
    then show ?thesis using Some w(2) code c(2) unfolding m
      by (simp add: hotp_login_def g check_counterbased_code_def ws advance_counter_def dec1 s3)
  qed
qed

lemma hotp_logins_server:
  assumes alloc: "\<forall>n. alloc n" and w: "1 \<le> w"
  shows "option_of HOTP_COUNTER (state_text st) = Some (dec c) \<Longrightarrow> 1 \<le> c \<Longrightarrow> c + length codes * w < 2 ^ 63 \<Longrightarrow>
    window_of (option_of WINDOW_SIZE (state_text st)) = int w \<Longrightarrow> \<forall>code\<in>set codes. 0 \<le> code \<and> code < 1000000 \<Longrightarrow>
    \<exists>d st'. hotp_logins alloc token no_inc codes st = (map (\<lambda>m. m \<noteq> None) (hotp_server token w no_inc c codes), st') \<and>
      (\<forall>m. Some m \<in> set (hotp_server token w no_inc c codes) \<longrightarrow> m < d) \<and> c \<le> d \<and> counter_file d st st'"
proof (induction codes arbitrary: c st)
  case Nil
  have "\<forall>m :: nat. \<not> Some m \<in> set []" by simp
  moreover have "counter_file c st st" using Nil(1) by (simp add: counter_file_def)
  ultimately show ?case by auto
next
  case (Cons code codes)
  let ?m = "hotp_match token w c code"
  define c1 where "c1 = (case ?m of Some m \<Rightarrow> m + 1 | None \<Rightarrow> if no_inc then c else c + 1)"
  have c1: "c \<le> c1" "c1 \<le> c + w" "\<forall>m. ?m = Some m \<longrightarrow> m < c1" using hotp_match_Some [of token w c code] w by (auto simp: c1_def split: option.split)
  have cw: "c + w < 2 ^ 63" "c1 + length codes * w < 2 ^ 63" using Cons.prems(3) c1(2) by (simp_all add: algebra_simps)
  have code: "0 \<le> code" "code < 1000000" using Cons.prems(5) by simp_all
  obtain st1 where st1: "hotp_login alloc token no_inc code st = (?m \<noteq> None, st1)" "counter_file c1 st st1"
    using hotp_login_step [OF alloc Cons.prems(1,2) cw(1) Cons.prems(4) w code] unfolding c1_def by blast
  have "option_of HOTP_COUNTER (state_text st1) = Some (dec c1)" "window_of (option_of WINDOW_SIZE (state_text st1)) = int w"
    using st1(2) Cons.prems(4) by (simp_all add: counter_file_def)
  from Cons.IH [OF this(1) _ cw(2) this(2)] Cons.prems(2,5) c1(1) obtain d st' where
    IH: "hotp_logins alloc token no_inc codes st1 = (map (\<lambda>m. m \<noteq> None) (hotp_server token w no_inc c1 codes), st')"
      "\<forall>m. Some m \<in> set (hotp_server token w no_inc c1 codes) \<longrightarrow> m < d" "counter_file d st1 st'" "c1 \<le> d" by auto
  have "\<forall>m. Some m = ?m \<longrightarrow> m < d" using c1(3) IH(4) by (metis less_le_trans)
  then have "\<forall>m. Some m \<in> set (?m # hotp_server token w no_inc c1 codes) \<longrightarrow> m < d" using IH(2) by simp
  moreover have "hotp_server token w no_inc c (code # codes) = ?m # hotp_server token w no_inc c1 codes" by (simp add: c1_def)
  moreover have "hotp_logins alloc token no_inc (code # codes) st = (map (\<lambda>m. m \<noteq> None) (?m # hotp_server token w no_inc c1 codes), st')"
    using st1(1) IH(1) by simp
  ultimately show ?case using counter_file_trans [OF st1(2) IH(3)] le_trans [OF c1(1) IH(4)] by (intro exI [of _ d] exI [of _ st']) (simp only:)
qed

lemma hotp_server_accepts:
  "hotp_server token w no_inc c codes ! k = Some m \<Longrightarrow> k < length codes \<Longrightarrow> c \<le> m \<and> token (of_nat m) = of_int (codes ! k)"
proof (induction codes arbitrary: c k)
  case (Cons code codes)
  let ?c1 = "case hotp_match token w c code of Some m \<Rightarrow> m + 1 | None \<Rightarrow> if no_inc then c else c + 1"
  have "c \<le> ?c1" using hotp_match_Some [of token w c code] by (auto split: option.split)
  then show ?case using Cons.IH [of ?c1] hotp_match_Some [of token w c code] Cons.prems by (cases k) (simp_all, meson le_trans)
qed simp

lemma length_hotp_server [simp]: "length (hotp_server token w no_inc c codes) = length codes"
  by (induction codes arbitrary: c) simp_all

lemma hotp_server_increasing:
  "j < k \<Longrightarrow> k < length codes \<Longrightarrow> hotp_server token w no_inc c codes ! j = Some m \<Longrightarrow> hotp_server token w no_inc c codes ! k = Some n \<Longrightarrow> m < n"
proof (induction codes arbitrary: c j k)
  case (Cons code codes)
  obtain i where k: "k = Suc i" using Cons.prems(1) by (cases k) simp_all
  show ?case
  proof (cases j)
    case 0
    then show ?thesis using Cons.prems(2-4) hotp_server_accepts [of token w no_inc "Suc m" codes i n] by (simp add: k)
  next
    case (Suc j')
    then show ?thesis using Cons.IH [of j' i] Cons.prems by (simp add: k)
  qed
qed simp

section \<open>The properties\<close>

text \<open>
  Each scratch code can be used as often as it is listed: a try succeeds exactly when it was not yet tried that many times; success removes it
  from the file, and the secret, the options and the other codes stay.
\<close>

theorem scratch_codes_once:
  assumes "10 \<notin> set secret" and "\<forall>l\<in>set opts. 10 \<notin> set l" and "\<forall>c\<in>set codes. scratch_range c"
    and "state_text st = state_file secret opts codes"
  shows "\<exists>rs st'. use_scratch_codes (map int tries) st = (rs, st') \<and> length rs = length tries \<and>
    state_text st' = state_file secret opts (fold remove1 tries codes) \<and>
    (\<forall>k<length tries. rs ! k = (if count_list (take k tries) (tries ! k) < count_list codes (tries ! k) then 0 else 1))"
  using assms by (rule use_scratch_codes_nth)

lemma scratch_codes_once_witness:
  "\<exists>st'. use_scratch_codes [12345678, 12345678, 87654321] \<lparr>state_text = state_file [0x53] [[0x20, 0x54]] [87654321, 12345678], updated = False, requests = 0\<rparr> =
      ([0, 1, 0], st') \<and> state_text st' = state_file [0x53] [[0x20, 0x54]] []"
proof -
  let ?st = "\<lparr>state_text = state_file [0x53] [[0x20, 0x54]] [87654321, 12345678], updated = False, requests = 0\<rparr>"
  let ?t = "[12345678, 12345678, 87654321] :: nat list"
  have "\<exists>rs st'. use_scratch_codes (map int ?t) ?st = (rs, st') \<and> length rs = length ?t \<and>
      state_text st' = state_file [0x53] [[0x20, 0x54]] (fold remove1 ?t [87654321, 12345678]) \<and>
      (\<forall>k<length ?t. rs ! k = (if count_list (take k ?t) (?t ! k) < count_list [87654321, 12345678] (?t ! k) then 0 else 1))"
    by (rule scratch_codes_once) (simp_all add: scratch_range_def)
  then obtain rs st' where r: "use_scratch_codes (map int ?t) ?st = (rs, st')" "length rs = 3" "state_text st' = state_file [0x53] [[0x20, 0x54]] []"
    "\<forall>k<3. rs ! k = (if count_list (take k ?t) (?t ! k) < count_list [87654321, 12345678] (?t ! k) then 0 else 1)" by auto
  have "rs ! 0 = 0" "rs ! 1 = 1" "rs ! 2 = 0" using r(4) by (simp_all add: numeral_2_eq_2)
  then have "rs = [0, 1, 0]" using r(2) by (intro nth_equalityI) (auto simp: less_Suc_eq numeral_3_eq_3 numeral_2_eq_2)
  then show ?thesis using r(1,3) by auto
qed

text \<open>
  Over any sequence of six-digit codes the module answers as the server of RFC 4226 with look-ahead window does: each accepted code is the token of a
  counter not below the one in the file, the accepted counters increase strictly (so no counter is used twice), the counter in the file ends above
  all of them, and no other option changes.
\<close>

theorem hotp_no_replay:
  assumes "\<forall>n. alloc n" and "option_of HOTP_COUNTER (state_text st) = Some (dec c)" "1 \<le> c"
    and "window_of (option_of WINDOW_SIZE (state_text st)) = int w" "1 \<le> w" and "c + length codes * w < 2 ^ 63"
    and "\<forall>code\<in>set codes. 0 \<le> code \<and> code < 1000000"
  shows "\<exists>ms d st'. ms = hotp_server token w no_inc c codes \<and> hotp_logins alloc token no_inc codes st = (map (\<lambda>m. m \<noteq> None) ms, st') \<and>
    (\<forall>k m. k < length codes \<and> ms ! k = Some m \<longrightarrow> c \<le> m \<and> m < d \<and> token (of_nat m) = of_int (codes ! k)) \<and>
    (\<forall>j k m n. j < k \<and> k < length codes \<and> ms ! j = Some m \<and> ms ! k = Some n \<longrightarrow> m < n) \<and> counter_file d st st'"
proof -
  define ms where "ms = hotp_server token w no_inc c codes"
  obtain d st' where r: "hotp_logins alloc token no_inc codes st = (map (\<lambda>m. m \<noteq> None) ms, st')" "\<forall>m. Some m \<in> set ms \<longrightarrow> m < d" "counter_file d st st'"
    using hotp_logins_server [OF assms(1,5,2,3,6,4,7)] unfolding ms_def by blast
  have "c \<le> m \<and> m < d \<and> token (of_nat m) = of_int (codes ! k)" if k: "k < length codes" "ms ! k = Some m" for k m
  proof -
    have "Some m \<in> set ms" using k nth_mem [of k ms] by (simp add: ms_def)
    then show ?thesis using r(2) hotp_server_accepts k unfolding ms_def by blast
  qed
  moreover have "m < n" if "j < k" "k < length codes" "ms ! j = Some m" "ms ! k = Some n" for j k m n
    using hotp_server_increasing that unfolding ms_def by blast
  ultimately show ?thesis using r(1,3) by (intro exI [of _ ms] exI [of _ d] exI [of _ st'] conjI ms_def) blast+
qed

lemma hotp_no_replay_witness:
  "\<exists>st'. hotp_logins (\<lambda>_. True) (\<lambda>v. ucast v mod 1000000) False [7, 7, 5, 9]
      \<lparr>state_text = [0x53, 0x0A, 0x22, 0x20] @ HOTP_COUNTER @ [0x20, 0x36, 0x0A], updated = False, requests = 0\<rparr> = ([True, False, False, False], st')"
proof -
  let ?st = "\<lparr>state_text = [0x53, 0x0A, 0x22, 0x20] @ HOTP_COUNTER @ [0x20, 0x36, 0x0A], updated = False, requests = 0\<rparr>"
  have o: "option_of HOTP_COUNTER (state_text ?st) = Some (dec 6)" by code_simp
  have w: "window_of (option_of WINDOW_SIZE (state_text ?st)) = int 3" by code_simp
  have s: "hotp_server (\<lambda>v. ucast v mod 1000000) 3 False 6 [7, 7, 5, 9] = [Some 7, None, None, None]" by code_simp
  show ?thesis
    using hotp_no_replay [of "\<lambda>_. True" ?st 6 3 "[7, 7, 5, 9]" "\<lambda>v. ucast v mod 1000000" False, OF _ o _ w] unfolding s by auto
qed

end
