(* ===== verification/PamTotp.thy ===== *)
theory PamTotp
  imports PamCodes
begin

text \<open>
  Time-based codes of the PAM module (\<^verbatim>\<open>check_timebased_code\<close>, \<^verbatim>\<open>invalidate_timebased_code\<close>, \<^verbatim>\<open>check_time_skew\<close>, \<^verbatim>\<open>is_totp\<close> of
  \<^verbatim>\<open>pam_google_authenticator.c\<close>). The option DISALLOW_REUSE lists the time steps whose code was used; steps outside of the
  window are dropped from it. The property: while the clock does not go back and the skew is not adjusted, no time step is accepted twice, although
  the list is pruned. Signed \<^verbatim>\<open>int\<close> arithmetic is that of the integers: where it overflows the C code is undefined.
\<close>

section \<open>The code\<close>

definition DISALLOW_REUSE :: "byte list" where
  "DISALLOW_REUSE = [0x44, 0x49, 0x53, 0x41, 0x4C, 0x4C, 0x4F, 0x57, 0x5F, 0x52, 0x45, 0x55, 0x53, 0x45]"

definition TIME_SKEW :: "byte list" where
  "TIME_SKEW = [0x54, 0x49, 0x4D, 0x45, 0x5F, 0x53, 0x4B, 0x45, 0x57]"

definition RESETTING_TIME_SKEW :: "byte list" where
  "RESETTING_TIME_SKEW = [0x52, 0x45, 0x53, 0x45, 0x54, 0x54, 0x49, 0x4E, 0x47, 0x5F] @ TIME_SKEW"

fun strstr :: "byte list \<Rightarrow> byte list \<Rightarrow> bool" where
  "strstr s p = (take (length p) s = p \<or> (case s of [] \<Rightarrow> False | _ # cs \<Rightarrow> strstr cs p))"

declare strstr.simps [simp del]

definition TOTP_AUTH :: "byte list" where
  "TOTP_AUTH = [0x54, 0x4F, 0x54, 0x50, 0x5F, 0x41, 0x55, 0x54, 0x48]"

definition is_totp :: "byte list \<Rightarrow> bool" where
  "is_totp buf = strstr buf ([0x22, 0x20] @ TOTP_AUTH)"

definition get_timestamp :: "nat \<Rightarrow> int" where
  "get_timestamp now = sint (of_nat (now div 30) :: u32)"

definition wspace :: "byte \<Rightarrow> bool" where
  "wspace c \<longleftrightarrow> blank c \<or> newline c"

text \<open>The loop over the blocked time steps: \<open>pre\<close> is the text before \<open>ptr\<close>; the answer is the new text, or None for an error or a blocked step.\<close>

function scan_blocked :: "int \<Rightarrow> int \<Rightarrow> byte list \<Rightarrow> byte list \<Rightarrow> byte list option" where
  "scan_blocked tm win pre s =
     (let ptr = dropWhile wspace s; pre = pre @ takeWhile wspace s
      in if ptr = [] then Some pre
         else (case strtoul ptr of (v, endptr, err) \<Rightarrow>
           let blocked = to_int v
           in if err \<or> endptr = ptr \<or> \<not> (endptr = [] \<or> wspace (hd endptr)) then None
              else if tm = blocked then None
              else if blocked - tm \<ge> win \<or> tm - blocked \<ge> win then scan_blocked tm win pre (dropWhile blank endptr)
              else scan_blocked tm win (pre @ take (length ptr - length endptr) ptr) endptr))"
  by pat_completeness auto
termination
proof (relation "measure (\<lambda>(tm, win, pre, s). length s)", goal_cases)
  case (2 tm win pre s ptr pre' v p endptr err blocked)
  then have "length endptr < length ptr" using strtoul_shorter [of ptr v endptr err] by simp
  then show ?case using 2(1) length_dropWhile_le [of wspace s] length_dropWhile_le [of blank endptr] by simp
next
  case (3 tm win pre s ptr pre' v p endptr err blocked)
  then have "length endptr < length ptr" using strtoul_shorter [of ptr v endptr err] by simp
  then show ?case using 3(1) length_dropWhile_le [of wspace s] by simp
qed simp

declare scan_blocked.simps [simp del]

definition invalidate_timebased_code :: "(nat \<Rightarrow> bool) \<Rightarrow> int \<Rightarrow> pam_state \<Rightarrow> int \<times> pam_state" where
  "invalidate_timebased_code alloc tm st =
     (case get_cfg_value alloc DISALLOW_REUSE (state_text st) (requests st) of
        (Missing, req) \<Rightarrow> (0, st\<lparr>requests := req\<rparr>)
      | (Oom, req) \<Rightarrow> (-1, st\<lparr>requests := req\<rparr>)
      | (Found disallow, req) \<Rightarrow>
          (case window_size alloc (st\<lparr>requests := req\<rparr>) of (win, st) \<Rightarrow>
             if win = 0 then (-1, st)
             else case scan_blocked tm win [] disallow of
               None \<Rightarrow> (-1, st)
             | Some disallow \<Rightarrow>
                 if \<not> alloc (requests st) then (-1, st\<lparr>requests := requests st + 1\<rparr>)
                 else case set_cfg_value alloc DISALLOW_REUSE (disallow @ (if disallow = [] then [] else [0x20]) @ dec_int tm)
                          (state_text st) (requests st + 1) of
                   (None, req) \<Rightarrow> (-1, st\<lparr>requests := req\<rparr>)
                 | (Some buf, req) \<Rightarrow> (0, st\<lparr>state_text := buf, updated := True, requests := req\<rparr>)))"

text \<open>
  The pairs of time and skew in RESETTING_TIME_SKEW; the last three are kept. A syntax error ends the list. The number behind the
  sign is parsed from \<open>ptr + 1\<close>, but the check that there was a number compares with \<open>ptr\<close>.
\<close>

definition push_skew :: "u32 \<times> int \<Rightarrow> (u32 \<times> int) list \<Rightarrow> (u32 \<times> int) list" where
  "push_skew e entries = (if length entries = 3 then tl entries @ [e] else entries @ [e])"

function parse_skews :: "byte list \<Rightarrow> (u32 \<times> int) list \<Rightarrow> (u32 \<times> int) list" where
  "parse_skews ptr entries =
     (if ptr = [] \<or> newline (hd ptr) then entries
      else (case strtoul ptr of (v, rest, err) \<Rightarrow>
        if err \<or> rest = ptr \<or> rest = [] \<or> \<not> (hd rest = 0x2B \<or> hd rest = 0x2D) then entries
        else (case strtoul (tl rest) of (w, endptr, err) \<Rightarrow>
          if err \<or> endptr = rest \<or> \<not> (endptr = [] \<or> wspace (hd endptr)) then entries
          else parse_skews endptr (push_skew (ucast v, if hd rest = 0x2D then - to_int w else to_int w) entries))))"
  by pat_completeness auto
termination
proof (relation "measure (\<lambda>(ptr, entries). length ptr)", goal_cases)
  case (2 ptr entries v x rest err w y endptr err')
  then have "length rest < length ptr" "rest \<noteq> []" using strtoul_shorter [of ptr v rest err] by simp_all
  moreover have "length endptr \<le> length (tl rest)" using length_strtoul [of "tl rest"] 2 by (metis fst_conv snd_conv)
  ultimately show ?case by simp
qed simp

declare parse_skews.simps [simp del]

text \<open>Division of \<^verbatim>\<open>int\<close> rounds to zero.\<close>

definition third :: "int \<Rightarrow> int" where
  "third x = (if x < 0 then - ((- x) div 3) else x div 3)"

text \<open>The loop over three entries: their mean, when the times follow each other closely and the skews agree.\<close>

fun steady :: "u32 \<Rightarrow> int \<Rightarrow> int \<Rightarrow> int \<Rightarrow> (u32 \<times> int) list \<Rightarrow> int option" where
  "steady last_tm last_skew avg_skew skew [] = Some (third avg_skew)"
| "steady last_tm last_skew avg_skew skew ((tm, sk) # es) =
     (if tm \<le> last_tm \<or> tm > last_tm + 2 \<or> last_skew - skew < -1 \<or> last_skew - skew > 1 then None
      else steady tm sk (avg_skew + sk) skew es)"

definition dec_signed :: "int \<Rightarrow> byte list" where
  "dec_signed i = (if i < 0 then dec_int i else 0x2B # dec_int i)"

fun print_skews :: "byte list \<Rightarrow> (u32 \<times> int) list \<Rightarrow> byte list" where
  "print_skews reset [] = reset"
| "print_skews reset ((tm, sk) # es) = print_skews (reset @ (if reset = [] then [] else [0x20]) @ dec_int (sint tm) @ dec_signed sk) es"

definition check_time_skew :: "(nat \<Rightarrow> bool) \<Rightarrow> int \<Rightarrow> int \<Rightarrow> pam_state \<Rightarrow> int \<times> pam_state" where
  "check_time_skew alloc skew tm st =
     (case get_cfg_value alloc RESETTING_TIME_SKEW (state_text st) (requests st) of
        (Oom, req) \<Rightarrow> (-1, st\<lparr>requests := req\<rparr>)
      | (resetting, req) \<Rightarrow>
          (let entries = (case resetting of Found value \<Rightarrow> parse_skews value [] | _ \<Rightarrow> [])
           in if entries \<noteq> [] \<and> of_int (tm + skew) = fst (last entries) + of_int (snd (last entries))
              then (-1, st\<lparr>requests := req\<rparr>)
              else
                (let entries = push_skew (of_int tm, skew) entries;
                     avg = (if length entries = 3 then steady (fst (hd entries)) (snd (hd entries)) (snd (hd entries)) skew (tl entries) else None)
                 in case (case avg of
                       Some avg_skew \<Rightarrow> set_cfg_value alloc TIME_SKEW (dec_int avg_skew) (state_text st) req
                     | None \<Rightarrow> (Some (state_text st), req)) of
                     (None, req) \<Rightarrow> (-1, st\<lparr>requests := req\<rparr>)
                   | (Some buf, req) \<Rightarrow>
                       (case set_cfg_value alloc RESETTING_TIME_SKEW (if avg = None then print_skews [] entries else []) buf req of
                          (None, req) \<Rightarrow> (-1, st\<lparr>state_text := buf, requests := req\<rparr>)
                        | (Some buf, req) \<Rightarrow> (if avg = None then -1 else 0, st\<lparr>state_text := buf, updated := True, requests := req\<rparr>)))))"

text \<open>The search for a skew of at most 12.5 hours; \<open>token v\<close> is \<^verbatim>\<open>compute_code(secret, secretLen, v)\<close>.\<close>

fun find_skew :: "(64 word \<Rightarrow> u32) \<Rightarrow> int \<Rightarrow> int \<Rightarrow> nat list \<Rightarrow> int \<Rightarrow> int" where
  "find_skew token code tm [] skew = skew"
| "find_skew token code tm (i # is) skew =
     (let skew = (if token (of_int (tm - int i)) = of_int code \<and> skew = 1000000 then - int i else skew);
          skew = (if token (of_int (tm + int i)) = of_int code \<and> skew = 1000000 then int i else skew)
      in find_skew token code tm is skew)"

text \<open>The first time step in the window whose code was entered.\<close>

definition matching_step :: "(64 word \<Rightarrow> u32) \<Rightarrow> int \<Rightarrow> int \<Rightarrow> int \<Rightarrow> int option" where
  "matching_step token code mid win = find (\<lambda>s. token (of_int s) = of_int code) [mid - (win - 1) div 2 .. mid + win div 2]"

definition check_timebased_code :: "(nat \<Rightarrow> bool) \<Rightarrow> (64 word \<Rightarrow> u32) \<Rightarrow> bool \<Rightarrow> nat \<Rightarrow> int \<Rightarrow> pam_state \<Rightarrow> int \<times> pam_state" where
  "check_timebased_code alloc token noskewadj now code st =
     (if \<not> is_totp (state_text st) then (1, st)
      else if code < 0 \<or> code \<ge> 1000000 then (1, st)
      else let tm = get_timestamp now
      in case get_cfg_value alloc TIME_SKEW (state_text st) (requests st) of
        (Oom, req) \<Rightarrow> (-1, st\<lparr>requests := req\<rparr>)
      | (skew_str, req) \<Rightarrow>
          (let skew = (case skew_str of Found value \<Rightarrow> sint (of_int (fst (strtol value)) :: u32) | _ \<Rightarrow> 0)
           in case window_size alloc (st\<lparr>requests := req\<rparr>) of (win, st) \<Rightarrow>
             if win = 0 then (-1, st)
             else case matching_step token code (tm + skew) win of
               Some step \<Rightarrow> invalidate_timebased_code alloc step st
             | None \<Rightarrow>
                 if noskewadj then (1, st)
                 else (let skew = find_skew token code tm [0..<1500] 1000000
                       in if skew = 1000000 then (1, st) else check_time_skew alloc skew tm st)))"

section \<open>The list of used steps\<close>

inductive steps_text :: "nat list \<Rightarrow> byte list \<Rightarrow> bool" where
  steps_none: "\<forall>c\<in>set s. blank c \<Longrightarrow> steps_text [] s"
| steps_more: "\<forall>c\<in>set sp. blank c \<Longrightarrow> steps_text ts r \<Longrightarrow> r = [] \<or> blank (hd r) \<Longrightarrow> steps_text (t # ts) (sp @ dec t @ r)"

inductive_simps steps_text_Nil [simp]: "steps_text [] s"
inductive_simps steps_text_Cons: "steps_text (t # ts) s"

lemma digit_not_wspace: "digit c \<Longrightarrow> \<not> wspace c"
  using digit_not by (auto simp: wspace_def)

lemma blank_prefix:
  assumes "\<forall>c\<in>set sp. blank c"
  shows "takeWhile wspace (sp @ dec t @ r) = sp" "dropWhile wspace (sp @ dec t @ r) = dec t @ r" "dropWhile blank (sp @ dec t @ r) = dec t @ r"
proof -
  have w: "\<forall>c\<in>set sp. wspace c" using assms by (simp add: wspace_def)
  have "takeWhile wspace (dec t @ r) = []" using dec_digits [OF dec_hd(1), of t] digit_not_wspace by (cases "dec t") auto
  then show "takeWhile wspace (sp @ dec t @ r) = sp" using takeWhile_after [OF w] by simp
  show "dropWhile wspace (sp @ dec t @ r) = dec t @ r" using dropWhile_dec [of wspace t r] digit_not_wspace w by (simp add: dropWhile_append2)
  show "dropWhile blank (sp @ dec t @ r) = dec t @ r" using dropWhile_dec [of blank t r] digit_not assms by (simp add: dropWhile_append2)
qed

lemma steps_text_blank: "steps_text ts s \<Longrightarrow> steps_text ts (dropWhile blank s)"
proof (cases ts)
  case Nil
  assume "steps_text ts s"
  then show ?thesis using Nil by (auto dest: set_dropWhileD)
next
  case (Cons t ts')
  assume "steps_text ts s"
  then obtain sp r where s: "s = sp @ dec t @ r" "\<forall>c\<in>set sp. blank c" "steps_text ts' r" "r = [] \<or> blank (hd r)"
    unfolding Cons steps_text_Cons by blast
  have "dropWhile blank s = dec t @ r" unfolding s(1) by (rule blank_prefix(3) [OF s(2)])
  then show ?thesis using steps_text.steps_more [of "[]" ts' r t] s(3,4) by (simp add: Cons)
qed

lemma steps_text_prepend: "steps_text ts s \<Longrightarrow> \<forall>c\<in>set sp. blank c \<Longrightarrow> steps_text ts (sp @ s)"
proof (cases ts)
  case (Cons t ts')
  assume "steps_text ts s" and sp: "\<forall>c\<in>set sp. blank c"
  then obtain sp' r where s: "s = sp' @ dec t @ r" "\<forall>c\<in>set sp'. blank c" "steps_text ts' r" "r = [] \<or> blank (hd r)"
    unfolding Cons steps_text_Cons by blast
  have "\<forall>c\<in>set (sp @ sp'). blank c" using sp s(2) by auto
  from steps_text.steps_more [OF this s(3,4), of t] show ?thesis by (simp add: Cons s(1))
qed auto

lemma steps_text_end: "steps_text ts s \<Longrightarrow> steps_text (ts @ [t]) (s @ (if s = [] then [] else [0x20]) @ dec t)"
proof (induction rule: steps_text.induct)
  case (steps_none s)
  then show ?case using steps_text.steps_more [of "s @ (if s = [] then [] else [0x20])" "[]" "[]" t] steps_text.steps_none [of "[]"] by auto
next
  case (steps_more sp ts r u)
  have "steps_text (ts @ [t]) (r @ [0x20] @ dec t)"
  proof (cases "r = []")
    case True
    then have "ts = []" using steps_more.hyps(2) steps_text_Cons [of "hd ts" "tl ts" r] by (cases ts) auto
    then show ?thesis using True steps_text.steps_more [of "[0x20]" "[]" "[]" t] steps_text.steps_none [of "[]"] by simp
  qed (use steps_more.IH in simp)
  moreover have "blank (hd (r @ [0x20] @ dec t))" using steps_more.hyps(3) by (cases r) auto
  ultimately show ?case using steps_text.steps_more [OF steps_more.hyps(1), of "ts @ [t]" "r @ [0x20] @ dec t" u] by simp
qed

lemma steps_text_val: "steps_text ts s \<Longrightarrow> val_ok s"
  by (induction rule: steps_text.induct) (use dec_clean in \<open>auto simp: val_ok_def\<close>)

definition near :: "nat \<Rightarrow> nat \<Rightarrow> nat \<Rightarrow> bool" where
  "near w tm t \<longleftrightarrow> \<not> (int t - int tm \<ge> int w \<or> int tm - int t \<ge> int w)"

lemma scan_blocked_steps:
  "steps_text ts s \<Longrightarrow> \<forall>t\<in>set ts. t < 2 ^ 31 \<Longrightarrow>
    (tm \<in> set ts \<longrightarrow> scan_blocked (int tm) (int w) pre s = None) \<and>
    (tm \<notin> set ts \<longrightarrow> (\<exists>s'. scan_blocked (int tm) (int w) pre s = Some (pre @ s') \<and> steps_text (filter (near w tm) ts) s' \<and>
      (s = [] \<or> blank (hd s) \<longrightarrow> s' = [] \<or> blank (hd s'))))"
proof (induction ts arbitrary: s pre)
  case Nil
  then have b: "\<forall>c\<in>set s. blank c" by simp
  then have w: "dropWhile wspace s = []" "takeWhile wspace s = s" by (simp_all add: dropWhile_eq_Nil_conv takeWhile_eq_all_conv wspace_def)
  have "scan_blocked (int tm) (int w) pre s = Some (pre @ s)" by (subst scan_blocked.simps) (simp only: Let_def w refl if_True)
  then show ?case using Nil by auto
next
  case (Cons t ts)
  obtain sp r where s: "s = sp @ dec t @ r" "\<forall>c\<in>set sp. blank c" "steps_text ts r" "r = [] \<or> blank (hd r)"
    using Cons.prems(1) unfolding steps_text_Cons by blast
  have t: "t < 2 ^ 31" "t < 2 ^ 64" using Cons.prems(2) by auto
  have nd: "r = [] \<or> \<not> digit (hd r)" using s(4) digit_not by blast
  have st: "strtoul (dec t @ r) = (of_nat t, r, False)" using strtoul_dec [OF t(2), of "[]" r] nd by simp
  have ne: "r \<noteq> dec t @ r" by (metis append_self_conv2 dec_nonempty)
  have e: "\<not> (r \<noteq> [] \<and> \<not> wspace (hd r))" using s(4) by (auto simp: wspace_def)
  have step: "scan_blocked (int tm) (int w) pre s =
      (if tm = t then None
       else if near w tm t then scan_blocked (int tm) (int w) ((pre @ sp) @ dec t) r
       else scan_blocked (int tm) (int w) (pre @ sp) (dropWhile blank r))"
    unfolding s(1) by (subst scan_blocked.simps, simp add: ne blank_prefix [OF s(2)] st Let_def to_int_of_nat [OF t(1)] near_def, use e in blast)
  have small: "\<forall>t\<in>set ts. t < 2 ^ 31" using Cons.prems(2) by simp
  show ?case
  proof (cases "tm = t \<or> tm \<in> set ts")
    case True
    then show ?thesis using step Cons.IH [OF s(3) small] Cons.IH [OF steps_text_blank [OF s(3)] small] by auto
  next
    case False
    show ?thesis
    proof (cases "near w tm t")
      case True
      obtain s' where s': "scan_blocked (int tm) (int w) ((pre @ sp) @ dec t) r = Some (((pre @ sp) @ dec t) @ s')" "steps_text (filter (near w tm) ts) s'"
        "s' = [] \<or> blank (hd s')" using Cons.IH [OF s(3) small] False s(4) by blast
      have "steps_text (filter (near w tm) (t # ts)) (sp @ dec t @ s')" using steps_text.steps_more [OF s(2) s'(2,3)] True by simp
      moreover have "s = [] \<or> blank (hd s) \<longrightarrow> sp @ dec t @ s' = [] \<or> blank (hd (sp @ dec t @ s'))" by (cases sp) (simp_all add: s(1))
      ultimately show ?thesis using False step s'(1) True by auto
    next
      case far: False
      obtain s' where s': "scan_blocked (int tm) (int w) (pre @ sp) (dropWhile blank r) = Some ((pre @ sp) @ s')" "steps_text (filter (near w tm) ts) s'"
        using Cons.IH [OF steps_text_blank [OF s(3)] small] False by blast
      have "steps_text (filter (near w tm) (t # ts)) (sp @ s')" using steps_text_prepend [OF s'(2) s(2)] far by simp
      moreover have "s = [] \<or> blank (hd s) \<longrightarrow> sp @ s' = [] \<or> blank (hd (sp @ s'))"
        using dec_digits [OF dec_hd(1), of t] digit_not s(2) by (cases sp) (auto simp: s(1))
      ultimately show ?thesis using False step s'(1) far by auto
    qed
  qed
qed

section \<open>One time step\<close>

lemma totp_keys [simp]: "key_ok DISALLOW_REUSE" "key_ok TIME_SKEW" "key_ok RESETTING_TIME_SKEW" "DISALLOW_REUSE \<noteq> WINDOW_SIZE" "WINDOW_SIZE \<noteq> DISALLOW_REUSE"
  "TIME_SKEW \<noteq> DISALLOW_REUSE" "DISALLOW_REUSE \<noteq> TIME_SKEW" "DISALLOW_REUSE \<noteq> RESETTING_TIME_SKEW"
  "key_ok TOTP_AUTH" "TOTP_AUTH \<noteq> DISALLOW_REUSE"
  by (simp_all add: key_ok_def TOTP_AUTH_def DISALLOW_REUSE_def WINDOW_SIZE_def TIME_SKEW_def RESETTING_TIME_SKEW_def newline_def blank_def)

definition used_steps :: "nat list \<Rightarrow> pam_state \<Rightarrow> bool" where
  "used_steps ts st \<longleftrightarrow> (\<exists>v. option_of DISALLOW_REUSE (state_text st) = Some v \<and> steps_text ts v)"

definition same_options :: "byte list \<Rightarrow> pam_state \<Rightarrow> pam_state \<Rightarrow> bool" where
  "same_options k st st' \<longleftrightarrow> (\<forall>key. key_ok key \<longrightarrow> key \<noteq> k \<longrightarrow> option_of key (state_text st') = option_of key (state_text st))"

lemma same_options_text: "state_text st' = state_text st \<Longrightarrow> same_options k st st'"
  by (simp add: same_options_def)

lemma invalidate_step:
  assumes alloc: "\<forall>n. alloc n" and u: "used_steps ts st" "\<forall>t\<in>set ts. t < 2 ^ 31"
    and w: "window_of (option_of WINDOW_SIZE (state_text st)) = int w" "1 \<le> w"
  shows "\<exists>st'. invalidate_timebased_code alloc (int tm) st = (if tm \<in> set ts then -1 else 0, st') \<and>
    used_steps (if tm \<in> set ts then ts else filter (near w tm) ts @ [tm]) st' \<and> same_options DISALLOW_REUSE st st'"
proof -
  obtain v where v: "option_of DISALLOW_REUSE (state_text st) = Some v" "steps_text ts v" using u(1) by (auto simp: used_steps_def)
  have get: "get_cfg_value alloc DISALLOW_REUSE (state_text st) (requests st) = (Found v, Suc (requests st))"
    using alloc v(1) by (simp add: get_cfg_value_option)
  obtain r where ws: "window_size alloc (st\<lparr>requests := Suc (requests st)\<rparr>) = (int w, st\<lparr>requests := r\<rparr>)"
    using window_size_of [OF alloc, of "st\<lparr>requests := Suc (requests st)\<rparr>"] w(1) by auto
  have room: "settable DISALLOW_REUSE (state_text st)" using v(1) by (simp add: settable_def)
  show ?thesis
  proof (cases "tm \<in> set ts")
    case True
    then have "scan_blocked (int tm) (int w) [] v = None" using scan_blocked_steps [OF v(2) u(2)] by blast
    then show ?thesis using True u(1) w(2) by (simp add: invalidate_timebased_code_def get ws used_steps_def same_options_text)
  next
    case False
    then obtain s where s: "scan_blocked (int tm) (int w) [] v = Some s" "steps_text (filter (near w tm) ts) s"
      using scan_blocked_steps [OF v(2) u(2), of tm w "[]"] by auto
    let ?val = "s @ (if s = [] then [] else [0x20]) @ dec tm"
    have val: "steps_text (filter (near w tm) ts @ [tm]) ?val" by (rule steps_text_end [OF s(2)])
    obtain r' where set: "set_cfg_value alloc DISALLOW_REUSE ?val (state_text st) (Suc r) = (Some (new_text DISALLOW_REUSE ?val (state_text st)), r')"
      using set_cfg_value_alloc [OF alloc] by blast
    let ?st = "st\<lparr>state_text := new_text DISALLOW_REUSE ?val (state_text st), updated := True, requests := r'\<rparr>"
    have "used_steps (filter (near w tm) ts @ [tm]) ?st"
      using pam.get_same [OF totp_keys(1) steps_text_val [OF val] room] steps_text_blank [OF val] by (simp add: used_steps_def)
    moreover have "same_options DISALLOW_REUSE st ?st"
      using pam.get_other [OF totp_keys(1) _ _ steps_text_val [OF val] room] by (simp add: same_options_def)
    moreover have "invalidate_timebased_code alloc (int tm) st = (0, ?st)"
      using alloc w(2) set by (simp add: invalidate_timebased_code_def get ws s(1))
    ultimately show ?thesis using False by auto
  qed
qed

section \<open>A login\<close>

lemma strstr_infix: "strstr (a @ p @ b) p"
proof (induction a)
  case Nil
  then show ?case by (subst strstr.simps) simp
qed (subst strstr.simps, simp)

lemma lines_infix: "l \<in> set (lines s) \<Longrightarrow> \<exists>a b. s = a @ l @ b"
proof (induction "length s" arbitrary: s rule: less_induct)
  case less
  have s: "s \<noteq> []" using less.prems by (cases s) auto
  have split: "s = takeWhile (\<lambda>c. \<not> newline c) s @ takeWhile newline (dropWhile (\<lambda>c. \<not> newline c) s) @ next_line s" by (rule line_split)
  consider (first) "l = takeWhile (\<lambda>c. \<not> newline c) s" | (rest) "l \<in> set (lines (next_line s))" using less.prems lines_Cons [OF s] by auto
  then show ?case
  proof cases
    case first
    then show ?thesis using split by (metis append_Nil)
  next
    case rest
    then obtain a b where "next_line s = a @ l @ b" using less.hyps [OF length_next_line [OF s]] by blast
    then show ?thesis using split by (metis append_assoc)
  qed
qed

lemma is_totp_option: "option_of TOTP_AUTH s \<noteq> None \<Longrightarrow> is_totp s"
proof -
  assume "option_of TOTP_AUTH s \<noteq> None"
  then obtain l where "find (key_line TOTP_AUTH) (lines s) = Some l" by (auto simp: option_of_def)
  then have l: "l \<in> set (lines s)" "key_line TOTP_AUTH l" by (auto simp: find_Some_iff)
  obtain r where r: "l = ([0x22, 0x20] @ TOTP_AUTH) @ r" using l(2) by (auto simp: key_line_iff)
  obtain a b where "s = a @ l @ b" using lines_infix [OF l(1)] by blast
  then have "s = a @ ([0x22, 0x20] @ TOTP_AUTH) @ (r @ b)" by (simp add: r)
  then show "is_totp s" unfolding is_totp_def using strstr_infix by metis
qed

definition skew_of :: "byte list option \<Rightarrow> int" where
  "skew_of opt = (case opt of None \<Rightarrow> 0 | Some v \<Rightarrow> sint (of_int (fst (strtol v)) :: u32))"

lemma matching_step_Some: "matching_step token code mid w = Some s \<Longrightarrow> mid - (w - 1) div 2 \<le> s \<and> s \<le> mid + w div 2 \<and> token (of_int s) = of_int code"
  by (auto simp: matching_step_def find_Some_iff dest!: nth_mem)

lemma timebased_step:
  assumes alloc: "\<forall>n. alloc n" and u: "used_steps ts st" "\<forall>t\<in>set ts. t < 2 ^ 31"
    and w: "window_of (option_of WINDOW_SIZE (state_text st)) = int w" "1 \<le> w"
    and totp: "option_of TOTP_AUTH (state_text st) \<noteq> None" and code: "0 \<le> code" "code < 1000000"
    and mid: "mid = get_timestamp now + skew_of (option_of TIME_SKEW (state_text st))" "int ((w - 1) div 2) \<le> mid"
  shows "\<exists>r st'. check_timebased_code alloc token True now code st = (r, st') \<and> same_options DISALLOW_REUSE st st' \<and>
    (case matching_step token code mid (int w) of
       None \<Rightarrow> r = 1 \<and> used_steps ts st'
     | Some s \<Rightarrow> r = (if nat s \<in> set ts then -1 else 0) \<and> used_steps (if nat s \<in> set ts then ts else filter (near w (nat s)) ts @ [nat s]) st')"
proof -
  have code': "\<not> (code < 0 \<or> code \<ge> 1000000)" using code by simp
  obtain r1 where get: "get_cfg_value alloc TIME_SKEW (state_text st) (requests st) =
      (case option_of TIME_SKEW (state_text st) of None \<Rightarrow> Missing | Some v \<Rightarrow> Found v, r1)"
    using alloc by (cases "option_of TIME_SKEW (state_text st)") (simp_all add: get_cfg_value_option)
  obtain r2 where ws: "window_size alloc (st\<lparr>requests := r1\<rparr>) = (int w, st\<lparr>requests := r2\<rparr>)"
    using window_size_of [OF alloc, of "st\<lparr>requests := r1\<rparr>"] w(1) by auto
  have run: "check_timebased_code alloc token True now code st =
      (case matching_step token code mid (int w) of None \<Rightarrow> (1, st\<lparr>requests := r2\<rparr>) | Some s \<Rightarrow> invalidate_timebased_code alloc s (st\<lparr>requests := r2\<rparr>))"
    using w(2) unfolding check_timebased_code_def Let_def mid(1) get
    by (cases "option_of TIME_SKEW (state_text st)") (simp_all add: is_totp_option [OF totp] code' [simplified] ws skew_of_def)
  show ?thesis
  proof (cases "matching_step token code mid (int w)")
    case None
    then show ?thesis using u(1) by (simp add: run used_steps_def same_options_text)
  next
    case (Some s)
    then have "0 \<le> s" using matching_step_Some [OF Some] mid(2) w(2) by (simp add: of_nat_diff zdiv_int)
    then have s: "s = int (nat s)" by simp
    have "used_steps ts (st\<lparr>requests := r2\<rparr>)" "window_of (option_of WINDOW_SIZE (state_text (st\<lparr>requests := r2\<rparr>))) = int w"
      using u(1) w(1) by (simp_all add: used_steps_def)
    from invalidate_step [OF alloc this(1) u(2) this(2) w(2), of "nat s"] obtain st' where
      "invalidate_timebased_code alloc s (st\<lparr>requests := r2\<rparr>) = (if nat s \<in> set ts then -1 else 0, st')"
      "used_steps (if nat s \<in> set ts then ts else filter (near w (nat s)) ts @ [nat s]) st'" "same_options DISALLOW_REUSE (st\<lparr>requests := r2\<rparr>) st'"
      unfolding s [symmetric] by blast
    then show ?thesis using Some by (simp add: run same_options_def)
  qed
qed

section \<open>A sequence of logins\<close>

text \<open>Logins with their time and code, without adjustment of the skew.\<close>

fun totp_logins :: "(nat \<Rightarrow> bool) \<Rightarrow> (64 word \<Rightarrow> u32) \<Rightarrow> (nat \<times> int) list \<Rightarrow> pam_state \<Rightarrow> int list \<times> pam_state" where
  "totp_logins alloc token [] st = ([], st)"
| "totp_logins alloc token ((now, code) # tries) st =
     (let (r, st) = check_timebased_code alloc token True now code st; (rs, st) = totp_logins alloc token tries st in (r # rs, st))"

text \<open>What RFC 6238 asks of a verifier: a time step is accepted once. \<open>A\<close> is the set of the steps accepted so far.\<close>

fun totp_verifier :: "int set \<Rightarrow> int option list \<Rightarrow> bool list" where
  "totp_verifier A [] = []"
| "totp_verifier A (None # steps) = False # totp_verifier A steps"
| "totp_verifier A (Some s # steps) = (s \<notin> A) # totp_verifier (insert s A) steps"

lemma totp_verifier_nth:
  "k < length steps \<Longrightarrow> totp_verifier A steps ! k \<longleftrightarrow> (\<exists>s. steps ! k = Some s \<and> s \<notin> A \<and> (\<forall>j<k. steps ! j \<noteq> Some s))"
proof (induction A steps arbitrary: k rule: totp_verifier.induct)
  case (2 A steps)
  then show ?case by (cases k) (auto simp: All_less_Suc2)
next
  case (3 A s steps)
  then show ?case by (cases k) (auto simp: All_less_Suc2)
qed simp

text \<open>\<open>ts\<close> is what the file lists, when no later step can be below the window around \<open>lo\<close>.\<close>

definition covers :: "nat \<Rightarrow> int \<Rightarrow> int set \<Rightarrow> nat list \<Rightarrow> bool" where
  "covers w lo A ts \<longleftrightarrow> (\<forall>t\<in>set ts. int t \<in> A \<and> int t \<le> lo + int (w div 2)) \<and> (\<forall>a\<in>A. a \<in> int ` set ts \<or> a < lo - int ((w - 1) div 2))"

lemma covers_step:
  assumes c: "covers w lo A ts" and mid: "lo \<le> mid" and w: "1 \<le> w" and s: "mid - int ((w - 1) div 2) \<le> s" "s \<le> mid + int (w div 2)" "0 \<le> s"
  shows "nat s \<in> set ts \<longleftrightarrow> s \<in> A" and "covers w mid (insert s A) (if nat s \<in> set ts then ts else filter (near w (nat s)) ts @ [nat s])"
proof -
  have half: "int (w div 2) + int ((w - 1) div 2) = int w - 1" using w by presburger
  have ns: "int (nat s) = s" using s(3) by simp
  have ts: "int t \<in> A" "int t \<le> lo + int (w div 2)" if "t \<in> set ts" for t using c that by (auto simp: covers_def)
  have A: "a \<in> int ` set ts \<or> a < lo - int ((w - 1) div 2)" if "a \<in> A" for a using c that by (auto simp: covers_def)
  show iff: "nat s \<in> set ts \<longleftrightarrow> s \<in> A"
  proof
    assume "s \<in> A"
    from A [OF this] show "nat s \<in> set ts" using s(1) mid by auto
  qed (use ts(1) ns in metis)
  have "a \<in> int ` set (filter (near w (nat s)) ts) \<or> a < mid - int ((w - 1) div 2)" if a: "a \<in> A" for a
  proof (cases "a \<in> int ` set ts")
    case True
    then obtain t where t: "t \<in> set ts" "a = int t" by blast
    show ?thesis
    proof (cases "near w (nat s) t")
      case False
      then have "int t - s \<ge> int w \<or> s - int t \<ge> int w" using s(3) by (simp add: near_def)
      then have "int t < mid - int ((w - 1) div 2)" using ts(2) [OF t(1)] s mid half by linarith
      then show ?thesis using t(2) by simp
    qed (use t in auto)
  qed (use A [OF a] mid in auto)
  moreover have "int t \<le> mid + int (w div 2)" if "t \<in> set ts" for t using ts(2) [OF that] mid by linarith
  moreover have "a < mid - int ((w - 1) div 2)" if "a < lo - int ((w - 1) div 2)" for a using that mid by linarith
  ultimately show "covers w mid (insert s A) (if nat s \<in> set ts then ts else filter (near w (nat s)) ts @ [nat s])"
    using ts(1) A s(2) ns iff by (auto simp: covers_def)
qed

lemma totp_logins_verifier:
  assumes alloc: "\<forall>n. alloc n" and w: "1 \<le> w"
  shows "used_steps ts st \<Longrightarrow> window_of (option_of WINDOW_SIZE (state_text st)) = int w \<Longrightarrow> option_of TOTP_AUTH (state_text st) \<noteq> None \<Longrightarrow>
    skew_of (option_of TIME_SKEW (state_text st)) = sk \<Longrightarrow> covers w lo A ts \<Longrightarrow> sorted (map (\<lambda>(now, code). get_timestamp now) tries) \<Longrightarrow>
    \<forall>(now, code)\<in>set tries. 0 \<le> code \<and> code < 1000000 \<and> lo \<le> get_timestamp now + sk \<and>
      int ((w - 1) div 2) \<le> get_timestamp now + sk \<and> get_timestamp now + sk + int (w div 2) < 2 ^ 31 \<Longrightarrow>
    \<exists>rs st'. totp_logins alloc token tries st = (rs, st') \<and> same_options DISALLOW_REUSE st st' \<and>
      map (\<lambda>r. r = 0) rs = totp_verifier A (map (\<lambda>(now, code). matching_step token code (get_timestamp now + sk) (int w)) tries)"
proof (induction tries arbitrary: st ts A lo)
  case Nil
  then show ?case by (simp add: same_options_text)
next
  case (Cons login tries)
  obtain now code where login: "login = (now, code)" by force
  define mid where "mid = get_timestamp now + sk"
  have now: "0 \<le> code" "code < 1000000" "lo \<le> mid" "int ((w - 1) div 2) \<le> mid" "mid + int (w div 2) < 2 ^ 31"
    using Cons.prems(7) by (simp_all add: login mid_def)
  have later: "\<forall>(now, code)\<in>set tries. 0 \<le> code \<and> code < 1000000 \<and> l \<le> get_timestamp now + sk \<and>
      int ((w - 1) div 2) \<le> get_timestamp now + sk \<and> get_timestamp now + sk + int (w div 2) < 2 ^ 31" if "l = lo \<or> l = mid" for l
    using Cons.prems(6,7) that by (auto simp: login mid_def)
  have sorted: "sorted (map (\<lambda>(now, code). get_timestamp now) tries)" using Cons.prems(6) by simp
  have "\<forall>t\<in>set ts. int t < 2 ^ 31" using Cons.prems(5) now(3,5) by (auto simp: covers_def)
  then have small: "\<forall>t\<in>set ts. t < 2 ^ 31" by simp
  have mid: "mid = get_timestamp now + skew_of (option_of TIME_SKEW (state_text st))" by (simp add: mid_def Cons.prems(4))
  obtain r st1 where st1: "check_timebased_code alloc token True now code st = (r, st1)" "same_options DISALLOW_REUSE st st1"
    "case matching_step token code mid (int w) of
       None \<Rightarrow> r = 1 \<and> used_steps ts st1
     | Some s \<Rightarrow> r = (if nat s \<in> set ts then -1 else 0) \<and> used_steps (if nat s \<in> set ts then ts else filter (near w (nat s)) ts @ [nat s]) st1"
    using timebased_step [OF alloc Cons.prems(1) small Cons.prems(2) w Cons.prems(3) now(1,2) mid now(4)] by blast
  have opts: "window_of (option_of WINDOW_SIZE (state_text st1)) = int w" "option_of TOTP_AUTH (state_text st1) \<noteq> None"
    "skew_of (option_of TIME_SKEW (state_text st1)) = sk"
    using st1(2) Cons.prems(2-4) by (simp_all add: same_options_def)
  let ?s = "matching_step token code mid (int w)"
  define A' lo' ts' where "A' = (case ?s of None \<Rightarrow> A | Some s \<Rightarrow> insert s A)" and "lo' = (case ?s of None \<Rightarrow> lo | Some s \<Rightarrow> mid)"
    and "ts' = (case ?s of None \<Rightarrow> ts | Some s \<Rightarrow> if nat s \<in> set ts then ts else filter (near w (nat s)) ts @ [nat s])"
  have w1: "(int w - 1) div 2 = int ((w - 1) div 2)" "int w div 2 = int (w div 2)" using w by (simp_all add: of_nat_diff zdiv_int)
  have new: "used_steps ts' st1 \<and> covers w lo' A' ts' \<and> (r = 0 \<longleftrightarrow> (\<exists>s. ?s = Some s \<and> s \<notin> A))"
  proof (cases ?s)
    case None
    then show ?thesis using st1(3) Cons.prems(5) by (simp add: A'_def lo'_def ts'_def)
  next
    case (Some s)
    have s: "mid - int ((w - 1) div 2) \<le> s" "s \<le> mid + int (w div 2)" using matching_step_Some [OF Some] by (simp_all add: w1)
    then have "0 \<le> s" using now(4) by linarith
    note c = covers_step [OF Cons.prems(5) now(3) w s this]
    show ?thesis using st1(3) c Some by (simp add: A'_def lo'_def ts'_def)
  qed
  have "lo' = lo \<or> lo' = mid" by (simp add: lo'_def split: option.split)
  from Cons.IH [OF _ opts _ sorted later [OF this], of ts' A'] new obtain rs st' where
    IH: "totp_logins alloc token tries st1 = (rs, st')" "same_options DISALLOW_REUSE st1 st'"
      "map (\<lambda>r. r = 0) rs = totp_verifier A' (map (\<lambda>(now, code). matching_step token code (get_timestamp now + sk) (int w)) tries)" by blast
  have "totp_verifier A (?s # steps) = (r = 0) # totp_verifier A' steps" for steps using new by (cases ?s) (simp_all add: A'_def)
  moreover have "same_options DISALLOW_REUSE st st'" using st1(2) IH(2) by (simp add: same_options_def)
  ultimately show ?case using st1(1) IH(1,3) by (simp add: login mid_def)
qed

section \<open>The property\<close>

text \<open>
  With DISALLOW_REUSE set and no used steps yet, while the clock does not go back and the skew is not adjusted: a code lets its user in exactly when it
  is the code of a time step in the window that no earlier login of the sequence matched. So no time step is accepted twice, although used steps
  are dropped from the file, and no first use is refused. No other option changes.
\<close>

theorem totp_no_reuse:
  assumes "\<forall>n. alloc n" and "option_of DISALLOW_REUSE (state_text st) = Some []" and "option_of TOTP_AUTH (state_text st) \<noteq> None"
    and "window_of (option_of WINDOW_SIZE (state_text st)) = int w" "1 \<le> w" and "skew_of (option_of TIME_SKEW (state_text st)) = sk"
    and "sorted (map (\<lambda>(now, code). get_timestamp now) tries)"
    and "\<forall>(now, code)\<in>set tries. 0 \<le> code \<and> code < 1000000 \<and>
      int ((w - 1) div 2) \<le> get_timestamp now + sk \<and> get_timestamp now + sk + int (w div 2) < 2 ^ 31"
  shows "\<exists>rs st' steps. totp_logins alloc token tries st = (rs, st') \<and> length rs = length tries \<and>
    steps = map (\<lambda>(now, code). matching_step token code (get_timestamp now + sk) (int w)) tries \<and>
    (\<forall>k<length tries. rs ! k = 0 \<longleftrightarrow> steps ! k \<noteq> None \<and> (\<forall>j<k. steps ! j \<noteq> steps ! k)) \<and> same_options DISALLOW_REUSE st st'"
proof -
  define steps where "steps = map (\<lambda>(now, code). matching_step token code (get_timestamp now + sk) (int w)) tries"
  have "used_steps [] st" using assms(2) by (simp add: used_steps_def)
  moreover have "covers w 0 {} []" by (simp add: covers_def)
  moreover have "\<forall>(now, code)\<in>set tries. 0 \<le> code \<and> code < 1000000 \<and> 0 \<le> get_timestamp now + sk \<and>
      int ((w - 1) div 2) \<le> get_timestamp now + sk \<and> get_timestamp now + sk + int (w div 2) < 2 ^ 31"
    using assms(8) by auto
  ultimately obtain rs st' where r: "totp_logins alloc token tries st = (rs, st')" "same_options DISALLOW_REUSE st st'"
    "map (\<lambda>r. r = 0) rs = totp_verifier {} steps"
    using totp_logins_verifier [OF assms(1,5) _ assms(4,3,6) _ assms(7)] unfolding steps_def by blast
  have len: "length steps = length tries" by (simp add: steps_def)
  have "length (totp_verifier A xs) = length xs" for A xs by (induction A xs rule: totp_verifier.induct) simp_all
  then have rs: "length rs = length tries" using arg_cong [OF r(3), of length] len by simp
  have "rs ! k = 0 \<longleftrightarrow> steps ! k \<noteq> None \<and> (\<forall>j<k. steps ! j \<noteq> steps ! k)" if k: "k < length tries" for k
  proof -
    have "rs ! k = 0 \<longleftrightarrow> totp_verifier {} steps ! k" using arg_cong [OF r(3), of "\<lambda>xs. xs ! k"] k rs by simp
    then show ?thesis using totp_verifier_nth [of k steps "{}"] k len by auto
  qed
  then show ?thesis using r(1,2) rs by (intro exI [of _ rs] exI [of _ st'] exI [of _ steps] conjI steps_def) blast+
qed

lemma totp_no_reuse_witness:
  "\<exists>rs st'. totp_logins (\<lambda>_. True) (\<lambda>v. ucast v mod 1000000) [(3000, 100), (3010, 100), (3035, 101), (3065, 100)]
      \<lparr>state_text = [0x53, 0x0A, 0x22, 0x20] @ TOTP_AUTH @ [0x0A, 0x22, 0x20] @ DISALLOW_REUSE @ [0x0A], updated = False, requests = 0\<rparr> = (rs, st') \<and>
    map (\<lambda>r. r = 0) rs = [True, False, True, False]"
proof -
  let ?st = "\<lparr>state_text = [0x53, 0x0A, 0x22, 0x20] @ TOTP_AUTH @ [0x0A, 0x22, 0x20] @ DISALLOW_REUSE @ [0x0A], updated = False, requests = 0\<rparr>"
  let ?token = "\<lambda>v. ucast v mod 1000000" and ?tries = "[(3000, 100), (3010, 100), (3035, 101), (3065, 100)] :: (nat \<times> int) list"
  have d: "option_of DISALLOW_REUSE (state_text ?st) = Some []" by code_simp
  have a: "option_of TOTP_AUTH (state_text ?st) \<noteq> None" by code_simp
  have w: "window_of (option_of WINDOW_SIZE (state_text ?st)) = int 3" by code_simp
  have s: "skew_of (option_of TIME_SKEW (state_text ?st)) = 0" by code_simp
  have g: "get_timestamp 3000 = 100" "get_timestamp 3010 = 100" "get_timestamp 3035 = 101" "get_timestamp 3065 = 102" by code_simp+
  have so: "sorted (map (\<lambda>(now, code). get_timestamp now) ?tries)" by (simp add: g)
  have st: "map (\<lambda>(now, code). matching_step ?token code (get_timestamp now + 0) (int 3)) ?tries = [Some 100, Some 100, Some 101, None]"
    by (simp add: g matching_step_def)
  have b: "\<forall>(now, code)\<in>set ?tries. 0 \<le> code \<and> code < 1000000 \<and>
      int ((3 - 1) div 2) \<le> get_timestamp now + 0 \<and> get_timestamp now + 0 + int (3 div 2) < 2 ^ 31" by (simp add: g)
  have alloc: "\<forall>n. (\<lambda>_. True) (n :: nat)" and one: "1 \<le> (3 :: nat)" by simp_all
  obtain rs st' steps where r: "totp_logins (\<lambda>_. True) ?token ?tries ?st = (rs, st')" "length rs = length ?tries"
    "steps = map (\<lambda>(now, code). matching_step ?token code (get_timestamp now + 0) (int 3)) ?tries"
    "\<forall>k<length ?tries. rs ! k = 0 \<longleftrightarrow> steps ! k \<noteq> None \<and> (\<forall>j<k. steps ! j \<noteq> steps ! k)"
    using totp_no_reuse [OF alloc d a w one s so b, of ?token] by (elim exE conjE) (rule that)
  have steps: "steps = [Some 100, Some 100, Some 101, None]" using r(3) unfolding st .
  have k: "rs ! k = 0 \<longleftrightarrow> steps ! k \<noteq> None \<and> (\<forall>j<k. steps ! j \<noteq> steps ! k)" if "k < 4" for k using r(4) that by simp
  have "rs ! 0 = 0" "rs ! 1 \<noteq> 0" "rs ! 2 = 0" "rs ! 3 \<noteq> 0"
    using k [of 0] k [of 1] k [of 2] k [of 3] by (simp_all add: steps less_Suc_eq numeral_2_eq_2 numeral_3_eq_3)
  moreover have "length rs = 4" using r(2) by simp
  then obtain x y z u where "rs = [x, y, z, u]" by (auto simp: length_Suc_conv numeral_eq_Suc)
  ultimately show ?thesis using r(1) by (intro exI [of _ rs] exI [of _ st']) simp
qed

end
