(* ===== verification/Spec2Isabelle.thy ===== *)
theory Spec2Isabelle
  imports Base32 GenerateHotp CjsonMinify CjsonCompare Sha2Tables HmacSha2 SfghashIter Heap32 Kmp PamTotp
begin

text \<open>
  A verification development for the C components of Code-Library, a collection of independent libraries and small programs.
  Every definition that models code keeps the name of the C function, macro or type where it can; error codes, NULL results and
  failed allocations are values, and a memory access outside its object, a use of freed memory, a double free, a
  division by zero or a loop that does not end is the value None. So a theorem that says Some also says
  that the code is memory safe and returns. Machine integers are words of their width, or integers with the truncation and
  the overflow of \<^verbatim>\<open>int\<close> written out where the code can reach them (hash table sizes and key lengths, string search); the answers of \<^verbatim>\<open>malloc\<close> and
  \<^verbatim>\<open>calloc\<close>, of \<^verbatim>\<open>rand\<close>, of the clock, and the contents of uninitialised memory are arguments.

  The parts of the program and their theories. Prelude holds the machine types, bit streams and buffer operations;
  Links the doubly linked chains in memory that the cJSON items and the hash table share; Digest the interface \<open>streaming_digest\<close>
  between hash functions and HMAC.

  One-time passwords (google-authenticator/libpam, hotp). Base32 models base32.c, Sha1 models sha1.c (both builds of the
  transformation), Hotp models hmac.c and \<^verbatim>\<open>compute_code\<close> of pam_google_authenticator.c, GenerateHotp models hotp/generate_hotp.c.
  They compose as the program does: \<^verbatim>\<open>compute_code\<close> calls \<^verbatim>\<open>hmac_sha1\<close>, which uses the SHA-1 functions through \<open>streaming_digest\<close>. The
  lemmas show round trip and in-place safety of base32, that streaming SHA-1 is the digest of FIPS 180, that HMAC
  is RFC 2104 and the code RFC 4226, what the check digit detects, and how generateOTP pads.

  PAM module (google-authenticator/libpam/pam_google_authenticator.c). PamConfig models \<^verbatim>\<open>get_cfg_value\<close> and \<^verbatim>\<open>set_cfg_value\<close> on the text of the state
  file and shows that they are lookup and update of a map (locale \<open>option_store\<close>, interpreted as \<open>pam\<close>); the other functions of the module
  rest on that. PamNumbers holds the numbers in that file (\<^verbatim>\<open>strtoul\<close>, \<^verbatim>\<open>strtol\<close>, decimal output). PamRate models \<^verbatim>\<open>rate_limit\<close> and proves
  that a sequence of attempts is answered as a sliding window would. PamCodes models \<^verbatim>\<open>check_scratch_codes\<close>, \<^verbatim>\<open>window_size\<close> and the
  counter-based codes, PamTotp the time-based codes with DISALLOW_REUSE and the skew adjustment; both take the function from a counter or time step to its
  code, \<^verbatim>\<open>compute_code\<close> of the user's secret, as an argument. They show that a scratch code works as often as it is listed, that accepted counters
  increase, and that a time step is accepted once (\<open>scratch_codes_once\<close>, \<open>hotp_no_replay\<close>, \<open>totp_no_reuse\<close>).

  JSON (cjson/example/cJSON.c, cJSON.h). CjsonItem holds the data model, with everything the code takes from the C library on
  doubles as the environment \<open>env\<close>; CjsonString the string literals; CjsonParse the parser; CjsonPrint the printer with its growing
  buffer; CjsonMinify the in-place minifier. CjsonHeap models the items as the code links them, in memory, with all list, object,
  creation, duplication and comparison functions; CjsonArray refines them to lists (locale \<open>item_sequence\<close>), CjsonTree and
  CjsonDuplicate to trees, CjsonCompare treats the comparison. CjsonRoundtrip proves that parsing inverts printing. The lemma
  groups: memory safety, absence of leaks and well-formedness of parsing, for any text and any allocator; the printer
  refines \<open>render\<close>; the pointer operations keep \<open>seg\<close> and act as list operations; deletion frees exactly what a tree owns.

  SHA-2 and HMAC-SHA-2 (hmac/hmac). Sha2 models sha2.c, BlockStream proves streaming over blocks once (locale \<open>block_transform\<close>),
  Sha2Correct instantiates it for the four digests and the unrolled builds, Sha2Tables checks the constants; HmacSha2
  models hmac_sha2.c (locale \<open>hmac_digest\<close>). The files under hmac/test are older copies.

  Hash table (sfghash). Sfprimes models sfprimetable.c with its tables, Sfghash all operations of sfghash.c and sfhashfcn.c on
  nodes in memory. SfghashMap proves the invariant \<open>table_inv\<close> (each row a chain of the nodes whose keys hash to it, no key
  twice, exact counts of nodes and blocks) and that each operation refines an operation on finite maps
  (\<open>hash_rep\<close>); SfghashSpec states that as the locale \<open>map_table\<close>, interprets it and proves runs of calls;
  SfghashIter proves that the walk over the table ends and is complete.

  Binary heaps (heap) are Heap32: max-heap and min-heap share the locale \<open>sifting\<close>. String search (kmp) is Kmp, with the
  table of borders as its invariant.

  Bounds and fuel. Loops over memory are partial functions, so no fuel is involved, and each property that the loop returns is
  proved as such. Fuel appears where C recursion is nested in loops: the JSON parser stops at CJSON_NESTING_LIMIT as the code does;
  \<^verbatim>\<open>cJSON_Duplicate\<close> takes fuel, and \<open>need\<close> of a tree (its nodes plus the lengths of its lists) is shown to be enough;
  \<^verbatim>\<open>cJSON_Compare\<close> likewise. Properties with a size bound (2^29 bytes for SHA-2, 2^31 elements for heaps, 2^31 characters for keys of
  the hash table and for the string search) say where the code
  stops being right, and companion properties or findings show that it does.

  Not modelled. The rest of the PAM module (the conversation with the user, files, privileges) and the set-up tool google-authenticator.c, which are
  sequences of calls to the operating system; proxy, inotify, timer, log and c-log-master (sockets, file watching,
  signals, logging); the string searches under acbm; the list and tree macros under list and rbtree; hash, http_chunk and utils; the
  build examples under cmake and makefile; the mobile applications (Java, Objective-C), YCM, vim and scripts; test programs and \<^verbatim>\<open>main\<close> functions;
  \<^verbatim>\<open>cJSON_InitHooks\<close>, which chooses the allocator that is a parameter here, and \<^verbatim>\<open>cJSON_Version\<close>.
\<close>

end
